(* ===== verification/Prelude.thy ===== *)
theory Prelude
  imports Main
begin

text \<open>
  Shared vocabulary of the development: results of operations that may throw, the safe
  integers of JavaScript, decimal text (the digits a number prints as and reads back from),
  and the generic list and map facts the component theories rest on.

  A JavaScript function that may throw and that changes a store is modelled as a function
  from the store to a result (\<open>Inl\<close> the error, \<open>Inr\<close> the value) and the new store.
\<close>

type_synonym ('s, 'e, 'a) op = "'s \<Rightarrow> ('e + 'a) \<times> 's"

named_theorems window_simps \<open>facts about the keys and the list of active windows\<close>
named_theorems store_simps \<open>facts about the view of a store after a command\<close>

section \<open>Safe integers\<close>

definition max_safe :: int where
  "max_safe = 9007199254740991"

definition is_safe :: "int \<Rightarrow> bool" where
  "is_safe n \<longleftrightarrow> - max_safe \<le> n \<and> n \<le> max_safe"

section \<open>Decimal text\<close>

definition digit_char :: "nat \<Rightarrow> char" where
  "digit_char d = ''0123456789'' ! d"

definition is_digit :: "char \<Rightarrow> bool" where
  "is_digit c \<longleftrightarrow> c \<in> set ''0123456789''"

definition digit_val :: "char \<Rightarrow> nat" where
  "digit_val c = of_char c - 48"

fun nat_text :: "nat \<Rightarrow> string" where
  "nat_text n = (if n < 10 then [digit_char n] else nat_text (n div 10) @ [digit_char (n mod 10)])"

declare nat_text.simps [simp del]

definition text_nat :: "string \<Rightarrow> nat" where
  "text_nat s = foldl (\<lambda>a c. 10 * a + digit_val c) 0 s"

definition pad_start :: "nat \<Rightarrow> char \<Rightarrow> string \<Rightarrow> string" where
  "pad_start n c s = replicate (n - length s) c @ s"

definition pad_end :: "nat \<Rightarrow> char \<Rightarrow> string \<Rightarrow> string" where
  "pad_end n c s = s @ replicate (n - length s) c"

lemma digit_cases:
  assumes "(d::nat) < 10"
  shows "d = 0 \<or> d = 1 \<or> d = 2 \<or> d = 3 \<or> d = 4 \<or> d = 5 \<or> d = 6 \<or> d = 7 \<or> d = 8 \<or> d = 9"
  using assms by arith

lemma digit_val_char [simp]: "d < 10 \<Longrightarrow> digit_val (digit_char d) = d"
  by (drule digit_cases) (auto simp: digit_val_def digit_char_def)

lemma is_digit_char [simp]: "d < 10 \<Longrightarrow> is_digit (digit_char d)"
  by (drule digit_cases) (auto simp: is_digit_def digit_char_def)

lemma digit_char_val: "is_digit c \<Longrightarrow> digit_char (digit_val c) = c"
  by (auto simp: is_digit_def digit_val_def digit_char_def)

lemma digit_val_less: "is_digit c \<Longrightarrow> digit_val c < 10"
  by (auto simp: is_digit_def digit_val_def)

lemma digit_char_inj: "a < 10 \<Longrightarrow> b < 10 \<Longrightarrow> digit_char a = digit_char b \<longleftrightarrow> a = b"
  by (metis digit_val_char)

lemma text_nat_Nil [simp]: "text_nat [] = 0"
  by (simp add: text_nat_def)

lemma text_nat_snoc [simp]: "text_nat (s @ [c]) = 10 * text_nat s + digit_val c"
  by (simp add: text_nat_def)

lemma text_nat_append: "text_nat (s @ t) = text_nat s * 10 ^ length t + text_nat t"
proof (induction t rule: rev_induct)
  case Nil
  show ?case by simp
next
  case (snoc c t)
  have "text_nat (s @ t @ [c]) = 10 * text_nat (s @ t) + digit_val c"
    by (metis append_assoc text_nat_snoc)
  also have "\<dots> = text_nat s * 10 ^ length (t @ [c]) + text_nat (t @ [c])"
    by (simp add: snoc.IH algebra_simps)
  finally show ?case by simp
qed

lemma text_nat_replicate_zero [simp]: "text_nat (replicate n (CHR ''0'')) = 0"
proof (induction n)
  case 0
  show ?case by simp
next
  case (Suc n)
  have "text_nat (replicate n (CHR ''0'') @ [CHR ''0'']) = 0"
    unfolding text_nat_snoc by (simp add: Suc.IH digit_val_def)
  then show ?case by (simp add: replicate_append_same)
qed

lemma text_nat_pad_start [simp]: "text_nat (pad_start n (CHR ''0'') s) = text_nat s"
  by (simp add: pad_start_def text_nat_append)

lemma text_nat_text [simp]: "text_nat (nat_text n) = n"
proof (induction n rule: nat_text.induct)
  case (1 n)
  show ?case
  proof (cases "n < 10")
    case True
    have "text_nat [digit_char n] = n" using True text_nat_snoc [of "[]" "digit_char n"] by simp
    with True show ?thesis by (simp add: nat_text.simps [of n])
  next
    case False
    with 1 show ?thesis by (simp add: nat_text.simps [of n])
  qed
qed

lemma nat_text_inj [simp]: "nat_text a = nat_text b \<longleftrightarrow> a = b"
  by (metis text_nat_text)

lemma nat_text_digits: "c \<in> set (nat_text n) \<Longrightarrow> is_digit c"
proof (induction n rule: nat_text.induct)
  case (1 n)
  then show ?case
    by (cases "n < 10") (auto simp: nat_text.simps [of n])
qed

lemma nat_text_not_Nil [simp]: "nat_text n \<noteq> []"
  by (subst nat_text.simps) simp

lemma length_nat_text: "n < 10 ^ Suc k \<Longrightarrow> length (nat_text n) \<le> Suc k"
proof (induction k arbitrary: n)
  case 0
  then show ?case by (simp add: nat_text.simps [of n])
next
  case (Suc k)
  show ?case
  proof (cases "n < 10")
    case True
    then show ?thesis by (simp add: nat_text.simps [of n])
  next
    case False
    from Suc.prems have "n div 10 < 10 ^ Suc k" by (simp add: less_mult_imp_div_less mult.commute)
    then have "length (nat_text (n div 10)) \<le> Suc k" by (rule Suc.IH)
    with False show ?thesis by (simp add: nat_text.simps [of n])
  qed
qed

lemma length_pad_start: "length s \<le> n \<Longrightarrow> length (pad_start n c s) = n"
  by (simp add: pad_start_def)

lemma pad_start_text_inj:
  "pad_start n (CHR ''0'') (nat_text a) = pad_start n (CHR ''0'') (nat_text b) \<longleftrightarrow> a = b"
  by (metis text_nat_pad_start text_nat_text)

lemma pad_start_digits:
  "c \<in> set (pad_start n (CHR ''0'') (nat_text a)) \<Longrightarrow> is_digit c"
  by (auto simp: pad_start_def is_digit_def dest: nat_text_digits)

lemma digit_not_dash: "is_digit c \<Longrightarrow> c \<noteq> CHR ''-'' \<and> c \<noteq> CHR '':'' \<and> c \<noteq> CHR ''.''"
  by (auto simp: is_digit_def)

end
