(* ===== verification/Calendar.thy ===== *)
theory Calendar
  imports Prelude
begin

text \<open>
  The part of JavaScript's \<open>Date\<close> the worker uses, on instants given as epoch milliseconds:
  the UTC calendar fields (\<open>getUTCFullYear\<close>, \<open>getUTCMonth\<close>, \<open>getUTCDate\<close>, \<open>getUTCDay\<close>),
  \<open>Date.UTC\<close> and \<open>toISOString\<close>, with the ECMAScript definitions of the day of a year
  (\<open>DayFromYear\<close>) and of the year of a day. Months count from 0, as \<open>getUTCMonth\<close> does.
  The lemmas show that the fields determine the day, so text built from them identifies it.
\<close>

definition day_ms :: int where
  "day_ms = 86400000"

definition utc_day :: "int \<Rightarrow> int" where
  "utc_day t = t div day_ms"

definition day_from_year :: "int \<Rightarrow> int" where
  "day_from_year y = 365 * (y - 1970) + (y - 1969) div 4 - (y - 1901) div 100 + (y - 1601) div 400"

definition is_leap :: "int \<Rightarrow> bool" where
  "is_leap y \<longleftrightarrow> (y mod 4 = 0 \<and> y mod 100 \<noteq> 0) \<or> y mod 400 = 0"

lemma div_step:
  fixes n k :: int
  assumes "0 < k"
  shows "(n + 1) div k = n div k + (if (n + 1) mod k = 0 then 1 else 0)"
proof (cases "(n + 1) mod k = 0")
  case True
  have "n + 1 = k * ((n + 1) div k)" using mult_div_mod_eq [of k "n + 1"] True by linarith
  then have "n = k * ((n + 1) div k - 1) + (k - 1)" by (simp add: algebra_simps)
  then have "n div k = (n + 1) div k - 1"
    by (rule int_div_pos_eq) (use assms in simp_all)
  with True show ?thesis by simp
next
  case False
  have "n = k * ((n + 1) div k) + ((n + 1) mod k - 1)"
    using mult_div_mod_eq [of k "n + 1"] by linarith
  moreover have "0 \<le> (n + 1) mod k - 1" using False assms pos_mod_sign [of k "n + 1"] by linarith
  moreover have "(n + 1) mod k - 1 < k" using assms pos_mod_bound [of k "n + 1"] by linarith
  ultimately have "n div k = (n + 1) div k" by (rule int_div_pos_eq)
  with False show ?thesis by simp
qed

lemma day_from_year_Suc: "day_from_year (y + 1) = day_from_year y + (if is_leap y then 366 else 365)"
proof -
  have m4: "(y - 1968) mod 4 = y mod 4" using mod_mult_self2 [of y 4 "-492"] by simp
  have m100: "(y - 1900) mod 100 = y mod 100" using mod_mult_self2 [of y 100 "-19"] by simp
  have m400: "(y - 1600) mod 400 = y mod 400" using mod_mult_self2 [of y 400 "-4"] by simp
  define i4 i100 i400 :: int where "i4 = (if y mod 4 = 0 then 1 else 0)"
    and "i100 = (if y mod 100 = 0 then 1 else 0)" and "i400 = (if y mod 400 = 0 then 1 else 0)"
  have q4: "(y - 1968) div 4 = (y - 1969) div 4 + i4"
    using div_step [of 4 "y - 1969"] m4 by (simp add: i4_def)
  have q100: "(y - 1900) div 100 = (y - 1901) div 100 + i100"
    using div_step [of 100 "y - 1901"] m100 by (simp add: i100_def)
  have q400: "(y - 1600) div 400 = (y - 1601) div 400 + i400"
    using div_step [of 400 "y - 1601"] m400 by (simp add: i400_def)
  have m: "y mod 400 = 0 \<Longrightarrow> y mod 100 = 0" "y mod 100 = 0 \<Longrightarrow> y mod 4 = 0"
    using dvd_trans [of 100 400 y] dvd_trans [of 4 100 y] by (simp_all add: mod_eq_0_iff_dvd)
  have "y + 1 - 1969 = y - 1968" "y + 1 - 1901 = y - 1900" "y + 1 - 1601 = y - 1600" by simp_all
  then have e: "day_from_year (y + 1) = 365 * (y - 1970) + 365 + (y - 1968) div 4 - (y - 1900) div 100 + (y - 1600) div 400"
    unfolding day_from_year_def by simp
  have "(if is_leap y then 366 else 365) = 365 + i4 - i100 + i400"
    using m by (auto simp: is_leap_def i4_def i100_def i400_def)
  then show ?thesis using e q4 q100 q400 by (simp only: day_from_year_def)
qed

lemma day_from_year_mono: "a \<le> b \<Longrightarrow> day_from_year a \<le> day_from_year b"
proof (induction b rule: int_ge_induct)
  case base
  show ?case by simp
next
  case (step b)
  then show ?case using day_from_year_Suc [of b] by (auto split: if_splits)
qed

function year_up :: "int \<Rightarrow> int \<Rightarrow> int" where
  "year_up y d = (if day_from_year (y + 1) \<le> d then year_up (y + 1) d else y)"
  by pat_completeness auto
termination
  by (relation "measure (\<lambda>(y, d). nat (d - day_from_year y))")
    (auto simp: day_from_year_Suc split: if_splits)

declare year_up.simps [simp del]

definition year_of_day :: "int \<Rightarrow> int" where
  "year_of_day d = year_up (1970 + (if d < 0 then d div 365 else d div 366)) d"

lemma year_up_bounds:
  "day_from_year y \<le> d \<Longrightarrow> day_from_year (year_up y d) \<le> d \<and> d < day_from_year (year_up y d + 1)"
proof (induction y d rule: year_up.induct)
  case (1 y d)
  then show ?case
    by (cases "day_from_year (y + 1) \<le> d") (auto simp: year_up.simps [of y d])
qed

lemma century_leaps:
  assumes "0 \<le> (69 + q) div 100 \<or> q < 0"
  shows "(369 + q) div 400 \<le> (69 + q) div (100::int) \<or> q < 0"
proof -
  have "(369 + q) div 400 = ((369 + q) div 100) div 4"
    using zdiv_zmult2_eq [of 4 "369 + q" 100] by simp
  moreover have "(369 + q) div 100 = (69 + q) div 100 + 3"
    using div_mult_self2 [of 100 "69 + q" 3] by (simp add: add.commute)
  ultimately have "(369 + q) div 400 = ((69 + q) div 100 + 3) div 4" by simp
  moreover have "0 \<le> c \<Longrightarrow> (c + 3) div 4 \<le> c" for c :: int by presburger
  ultimately show ?thesis using assms by auto
qed

lemma century_leaps_neg:
  assumes "q < (0::int)"
  shows "(1 + q) div 4 - (69 + q) div 100 + (369 + q) div 400 \<le> 0"
proof -
  define c where "c = (69 + q) div 100"
  have "(369 + q) div 400 = ((369 + q) div 100) div 4"
    using zdiv_zmult2_eq [of 4 "369 + q" 100] by simp
  moreover have "(369 + q) div 100 = c + 3"
    using div_mult_self2 [of 100 "69 + q" 3] by (simp add: add.commute c_def)
  ultimately have e: "(369 + q) div 400 = (c + 3) div 4" by simp
  have c: "100 * c \<le> 69 + q" "69 + q < 100 * c + 100" "c \<le> 0"
    using assms by (auto simp: c_def)
  define a where "a = (1 + q) div 4"
  have a: "4 * a \<le> 1 + q" by (simp add: a_def)
  define b where "b = (c + 3) div 4"
  have b: "4 * b \<le> c + 3" by (simp add: b_def)
  have "a - c + b \<le> 0"
  proof (cases "c = 0")
    case True
    then show ?thesis using a b assms by simp
  next
    case False
    then show ?thesis using a b c by linarith
  qed
  then show ?thesis by (simp add: e a_def b_def c_def)
qed

lemma start_year_before:
  "day_from_year (1970 + (if d < 0 then d div 365 else d div 366)) \<le> d"
proof (cases "d < 0")
  case True
  define q where "q = d div 365"
  have q: "q < 0" and le: "365 * q \<le> d" using True by (auto simp: q_def pos_imp_zdiv_neg_iff)
  show ?thesis using True le century_leaps_neg [OF q] by (simp add: day_from_year_def q_def)
next
  case False
  define q where "q = d div 366"
  have q: "0 \<le> q" and le: "366 * q \<le> d" using False by (auto simp: q_def pos_imp_zdiv_nonneg_iff)
  have "(1 + q) div 4 \<le> q" using q by presburger
  moreover have "(369 + q) div 400 \<le> (69 + q) div 100"
    using century_leaps [of q] q by (simp add: pos_imp_zdiv_nonneg_iff)
  ultimately show ?thesis using False le by (simp add: day_from_year_def q_def)
qed

lemma year_of_day_bounds:
  "day_from_year (year_of_day d) \<le> d" "d < day_from_year (year_of_day d + 1)"
  unfolding year_of_day_def using year_up_bounds [OF start_year_before [of d]] by auto

section \<open>Months and days\<close>

definition month_lengths :: "bool \<Rightarrow> int list" where
  "month_lengths leap = [31, if leap then 29 else 28, 31, 30, 31, 30, 31, 31, 30, 31, 30, 31]"

fun split_month :: "nat \<Rightarrow> int list \<Rightarrow> int \<Rightarrow> nat \<times> int" where
  "split_month m [] d = (m, d)"
| "split_month m (l # ls) d = (if d < l then (m, d) else split_month (Suc m) ls (d - l))"

text \<open>Year, month from 0, day of the month from 1.\<close>

definition civil :: "int \<Rightarrow> int \<times> nat \<times> int" where
  "civil d = (let y = year_of_day d;
                  (m, r) = split_month 0 (month_lengths (is_leap y)) (d - day_from_year y)
              in (y, m, r + 1))"

text \<open>Days of a year, month and day: months outside 0 to 11 carry into the year.\<close>

definition make_day :: "int \<Rightarrow> int \<Rightarrow> int \<Rightarrow> int" where
  "make_day y m d =
     (let y' = y + m div 12; m' = nat (m mod 12)
      in day_from_year y' + sum_list (take m' (month_lengths (is_leap y'))) + d - 1)"

text \<open>\<open>Date.UTC(y, m, d)\<close> in days: the years 0 to 99 mean 1900 to 1999.\<close>

definition date_utc :: "int \<Rightarrow> int \<Rightarrow> int \<Rightarrow> int" where
  "date_utc y m d = make_day (if 0 \<le> y \<and> y \<le> 99 then 1900 + y else y) m d"

definition weekday :: "int \<Rightarrow> int" where
  "weekday d = (d + 4) mod 7"

lemma split_month_spec:
  assumes "split_month m ls d = (m', r)" "0 \<le> d" "d < sum_list ls"
  shows "m \<le> m' \<and> m' < m + length ls \<and> 0 \<le> r \<and> r < ls ! (m' - m) \<and> d = sum_list (take (m' - m) ls) + r"
  using assms
proof (induction ls arbitrary: m d)
  case Nil
  then show ?case by simp
next
  case (Cons l ls)
  show ?case
  proof (cases "d < l")
    case True
    with Cons.prems show ?thesis by simp
  next
    case False
    with Cons.prems have "split_month (Suc m) ls (d - l) = (m', r)" "0 \<le> d - l" "d - l < sum_list ls"
      by auto
    from Cons.IH [OF this] have *: "Suc m \<le> m'" "m' < Suc m + length ls" "0 \<le> r"
      "r < ls ! (m' - Suc m)" "d - l = sum_list (take (m' - Suc m) ls) + r" by auto
    then have "m' - m = Suc (m' - Suc m)" by simp
    with * show ?thesis by simp
  qed
qed

lemma sum_month_lengths: "sum_list (month_lengths leap) = (if leap then 366 else 365)"
  by (simp add: month_lengths_def)

lemma length_month_lengths [simp]: "length (month_lengths leap) = 12"
  by (simp add: month_lengths_def)

lemma month_length_le: "i < 12 \<Longrightarrow> month_lengths leap ! i \<le> 31"
proof -
  assume "i < 12"
  then have "month_lengths leap ! i \<in> set (month_lengths leap)" by (intro nth_mem) simp
  moreover have "\<forall>l \<in> set (month_lengths leap). l \<le> 31" by (simp add: month_lengths_def)
  ultimately show ?thesis by blast
qed

lemma civil_spec:
  assumes "civil d = (y, m, dd)"
  shows "y = year_of_day d" "m < 12" "1 \<le> dd" "dd \<le> month_lengths (is_leap y) ! m"
    and "d = day_from_year y + sum_list (take m (month_lengths (is_leap y))) + dd - 1"
proof -
  let ?ls = "month_lengths (is_leap y)"
  obtain r where y: "y = year_of_day d" and sp: "split_month 0 ?ls (d - day_from_year y) = (m, r)"
    and dd: "dd = r + 1"
    using assms by (auto simp: civil_def Let_def split: prod.splits)
  have b: "0 \<le> d - day_from_year y" "d - day_from_year y < sum_list ?ls"
    using year_of_day_bounds [of d] day_from_year_Suc [of y] by (auto simp: y sum_month_lengths)
  from split_month_spec [OF sp b] y dd
  show "y = year_of_day d" "m < 12" "1 \<le> dd" "dd \<le> ?ls ! m"
    "d = day_from_year y + sum_list (take m ?ls) + dd - 1" by auto
qed

lemma civil_inj [simp]: "civil a = civil b \<longleftrightarrow> a = b"
proof
  assume eq: "civil a = civil b"
  obtain y m dd where c: "civil a = (y, m, dd)" by (cases "civil a") auto
  show "a = b" using civil_spec(5) [OF c] civil_spec(5) [OF c [unfolded eq]] by simp
qed simp

lemma make_day_civil: "civil d = (y, m, dd) \<Longrightarrow> make_day y (int m) dd = d"
  using civil_spec [of d y m dd] by (simp add: make_day_def Let_def)

lemma date_utc_civil:
  assumes "civil d = (y, m, dd)" "y < 0 \<or> 99 < y"
  shows "date_utc y (int m) dd = d"
  using assms(2) make_day_civil [OF assms(1)] by (auto simp: date_utc_def)

section \<open>ISO text\<close>

definition two :: "nat \<Rightarrow> string" where
  "two n = pad_start 2 (CHR ''0'') (nat_text n)"

definition iso_year :: "int \<Rightarrow> string" where
  "iso_year y =
     (if 0 \<le> y \<and> y \<le> 9999 then pad_start 4 (CHR ''0'') (nat_text (nat y))
      else (if y < 0 then CHR ''-'' else CHR ''+'') # pad_start 6 (CHR ''0'') (nat_text (nat \<bar>y\<bar>)))"

definition iso_month :: "int \<Rightarrow> nat \<Rightarrow> string" where
  "iso_month y m = iso_year y @ ''-'' @ two (Suc m)"

definition iso_date :: "int \<Rightarrow> string" where
  "iso_date d = (case civil d of (y, m, dd) \<Rightarrow> iso_month y m @ ''-'' @ two (nat dd))"

definition iso_text :: "int \<Rightarrow> string" where
  "iso_text t =
     (let r = nat (t mod day_ms)
      in iso_date (utc_day t) @ ''T'' @ two (r div 3600000) @ '':'' @ two (r div 60000 mod 60)
         @ '':'' @ two (r div 1000 mod 60) @ ''.'' @ pad_start 3 (CHR ''0'') (nat_text (r mod 1000)) @ ''Z'')"

text \<open>Days in the years 100 to 9999: the ISO date is ten characters and \<open>Date.UTC\<close> keeps the year.\<close>

definition plain_year :: "int \<Rightarrow> bool" where
  "plain_year d \<longleftrightarrow> 100 \<le> year_of_day d \<and> year_of_day d \<le> 9999"

lemma length_two: "n < 100 \<Longrightarrow> length (two n) = 2"
  using length_nat_text [of n 1] by (simp add: two_def length_pad_start)

lemma two_inj: "two a = two b \<longleftrightarrow> a = b"
  by (simp add: two_def pad_start_text_inj)

lemma length_iso_year: "0 \<le> y \<Longrightarrow> y \<le> 9999 \<Longrightarrow> length (iso_year y) = 4"
  using length_nat_text [of "nat y" 3] by (simp add: iso_year_def length_pad_start)

lemma iso_year_inj:
  "0 \<le> y \<Longrightarrow> y \<le> 9999 \<Longrightarrow> 0 \<le> z \<Longrightarrow> z \<le> 9999 \<Longrightarrow> iso_year y = iso_year z \<longleftrightarrow> y = z"
  by (auto simp: iso_year_def pad_start_text_inj)

lemma length_iso_month: "0 \<le> y \<Longrightarrow> y \<le> 9999 \<Longrightarrow> m < 12 \<Longrightarrow> length (iso_month y m) = 7"
  by (simp add: iso_month_def length_iso_year length_two)

lemma iso_month_inj:
  assumes "0 \<le> y" "y \<le> 9999" "0 \<le> z" "z \<le> 9999"
  shows "iso_month y m = iso_month z n \<longleftrightarrow> y = z \<and> m = n"
  using assms by (auto simp: iso_month_def two_inj iso_year_inj length_iso_year append_eq_append_conv)

lemma civil_day_lt: "civil d = (y, m, dd) \<Longrightarrow> nat dd < 100"
  using civil_spec [of d y m dd] month_length_le [of m "is_leap y"] by simp

lemma length_iso_date: "plain_year d \<Longrightarrow> length (iso_date d) = 10"
  using civil_spec(1,2) civil_day_lt
  by (auto simp: iso_date_def plain_year_def length_iso_month length_two split: prod.splits)

lemma iso_date_inj:
  assumes "plain_year a" "plain_year b"
  shows "iso_date a = iso_date b \<longleftrightarrow> a = b"
proof
  assume eq: "iso_date a = iso_date b"
  obtain y m dd where ca: "civil a = (y, m, dd)" by (cases "civil a") auto
  obtain z n ee where cb: "civil b = (z, n, ee)" by (cases "civil b") auto
  have y: "0 \<le> y" "y \<le> 9999" "m < 12" and z: "0 \<le> z" "z \<le> 9999" "n < 12"
    using civil_spec [OF ca] civil_spec [OF cb] assms by (auto simp: plain_year_def)
  have "iso_month y m = iso_month z n \<and> two (nat dd) = two (nat ee)"
    using eq length_iso_month [OF y] length_iso_month [OF z] by (simp add: iso_date_def ca cb)
  then have "y = z \<and> m = n \<and> nat dd = nat ee" using y z by (simp add: iso_month_inj two_inj)
  then have "civil a = civil b" using civil_spec(3) [OF ca] civil_spec(3) [OF cb] by (auto simp: ca cb)
  then show "a = b" by simp
qed simp

lemma iso_text_date: "\<exists>u. iso_text t = iso_date (utc_day t) @ u"
  by (auto simp: iso_text_def Let_def)

lemma take_iso_text_date [simp]:
  assumes "plain_year (utc_day t)"
  shows "take 10 (iso_text t) = iso_date (utc_day t)"
proof -
  obtain u where "iso_text t = iso_date (utc_day t) @ u" using iso_text_date by blast
  with length_iso_date [OF assms] show ?thesis by simp
qed

lemma take_iso_text_month:
  assumes "plain_year (utc_day t)" "civil (utc_day t) = (y, m, dd)"
  shows "take 7 (iso_text t) = iso_month y m"
proof -
  have l: "length (iso_month y m) = 7"
    using assms(1) civil_spec(1,2) [OF assms(2)] by (auto simp: plain_year_def intro: length_iso_month)
  obtain u where "iso_text t = iso_date (utc_day t) @ u" using iso_text_date by blast
  with l show ?thesis by (simp add: iso_date_def assms(2))
qed

text \<open>The Monday that begins the week of a day.\<close>

definition monday_of :: "int \<Rightarrow> int" where
  "monday_of d = d - (weekday d + 6) mod 7"

lemma monday_of_weekday: "weekday (monday_of d) = 1"
  by (simp add: monday_of_def weekday_def) presburger

lemma monday_of_bounds: "monday_of d \<le> d" "d < monday_of d + 7"
  by (simp_all add: monday_of_def)

lemma monday_of_eq: "monday_of d = k \<longleftrightarrow> weekday k = 1 \<and> k \<le> d \<and> d < k + 7"
proof
  assume "monday_of d = k"
  then show "weekday k = 1 \<and> k \<le> d \<and> d < k + 7"
    using monday_of_weekday monday_of_bounds by blast
next
  assume k: "weekday k = 1 \<and> k \<le> d \<and> d < k + 7"
  have "weekday (monday_of d) = weekday k" using k monday_of_weekday by simp
  then have "7 dvd monday_of d - k"
    by (simp add: weekday_def mod_eq_dvd_iff)
  moreover have "\<bar>monday_of d - k\<bar> < 7" using k monday_of_bounds [of d] by arith
  ultimately show "monday_of d = k" using zdvd_not_zless [of "\<bar>monday_of d - k\<bar>" 7] by auto
qed

section \<open>Months as intervals of days\<close>

text \<open>The first day of month \<open>k\<close>, counted from January of year 0.\<close>

definition month_first :: "int \<Rightarrow> int" where
  "month_first k = make_day 0 k 1"

lemma make_day_first: "make_day y m 1 = month_first (12 * y + m)"
  by (simp add: month_first_def make_day_def Let_def add.commute)

lemma month_length_pos: "i < 12 \<Longrightarrow> 28 \<le> month_lengths leap ! i"
proof -
  assume "i < 12"
  then have "month_lengths leap ! i \<in> set (month_lengths leap)" by (intro nth_mem) simp
  moreover have "\<forall>l \<in> set (month_lengths leap). 28 \<le> l" by (simp add: month_lengths_def)
  ultimately show ?thesis by blast
qed

lemma sum_take_Suc: "n < length xs \<Longrightarrow> sum_list (take (Suc n) xs) = sum_list (take n xs) + (xs ! n :: int)"
  by (simp add: take_Suc_conv_app_nth)

lemma next_month:
  fixes k :: int
  shows "k mod 12 = 11 \<Longrightarrow> (k + 1) div 12 = k div 12 + 1 \<and> (k + 1) mod 12 = 0"
    and "k mod 12 \<noteq> 11 \<Longrightarrow> (k + 1) div 12 = k div 12 \<and> (k + 1) mod 12 = k mod 12 + 1"
proof -
  define q r where "q = k div 12" and "r = k mod 12"
  have e: "k = 12 * q + r" "0 \<le> r" "r < 12" by (simp_all add: q_def r_def)
  have "(k + 1) div 12 = q + 1" "(k + 1) mod 12 = 0" if "r = 11"
    using e that by (auto intro: int_div_pos_eq [of _ _ _ 0] int_mod_pos_eq [of _ _ "q + 1"])
  then show "k mod 12 = 11 \<Longrightarrow> (k + 1) div 12 = k div 12 + 1 \<and> (k + 1) mod 12 = 0"
    by (simp add: q_def r_def)
  have "(k + 1) div 12 = q" "(k + 1) mod 12 = r + 1" if "r \<noteq> 11"
    using e that by (auto intro: int_div_pos_eq [of _ _ _ "r + 1"] int_mod_pos_eq [of _ _ q])
  then show "k mod 12 \<noteq> 11 \<Longrightarrow> (k + 1) div 12 = k div 12 \<and> (k + 1) mod 12 = k mod 12 + 1"
    by (simp add: q_def r_def)
qed

lemma month_first_Suc: "month_first (k + 1) = month_first k + month_lengths (is_leap (k div 12)) ! nat (k mod 12)"
proof (cases "k mod 12 = 11")
  case True
  then have k: "(k + 1) div 12 = k div 12 + 1" "(k + 1) mod 12 = 0" using next_month [of k] by blast+
  have "sum_list (take (Suc 11) (month_lengths l)) = sum_list (take 11 (month_lengths l)) + month_lengths l ! 11" for l
    by (rule sum_take_Suc) simp
  then have s: "sum_list (take 11 (month_lengths l)) + month_lengths l ! 11 = (if l then 366 else 365)" for l
    using sum_month_lengths [of l] by simp
  have m0: "make_day 0 (k + 1) 1 = day_from_year (k div 12 + 1)"
    by (simp only: make_day_def Let_def add_0 k nat_0 take_0 sum_list.Nil add_0_right add_diff_cancel)
  have m1: "make_day 0 k 1 = day_from_year (k div 12) + sum_list (take 11 (month_lengths (is_leap (k div 12))))"
    by (simp only: make_day_def Let_def add_0 True nat_numeral add_diff_cancel)
  have "make_day 0 (k + 1) 1 = make_day 0 k 1 + month_lengths (is_leap (k div 12)) ! 11"
    unfolding m0 m1 day_from_year_Suc using s [of "is_leap (k div 12)"] by linarith
  then show ?thesis by (simp only: month_first_def True nat_numeral)
next
  case False
  then have k: "(k + 1) div 12 = k div 12" "(k + 1) mod 12 = k mod 12 + 1" using next_month [of k] by blast+
  have n: "nat (k mod 12 + 1) = Suc (nat (k mod 12))" "nat (k mod 12) < 12" by (simp_all add: nat_add_distrib)
  show ?thesis
    by (simp add: month_first_def make_day_def k n sum_take_Suc Let_def)
qed

lemma month_first_step: "month_first k < month_first (k + 1)"
proof -
  have "nat (k mod 12) < 12" by simp
  from month_length_pos [OF this, of "is_leap (k div 12)"] show ?thesis by (simp add: month_first_Suc)
qed

lemma month_first_less: "a < b \<Longrightarrow> month_first a < month_first b"
proof (induction b rule: int_gr_induct)
  case base
  show ?case by (rule month_first_step)
next
  case (step b)
  show ?case using step(2) month_first_step [of b] by simp
qed

lemma civil_month_bounds:
  assumes "civil d = (y, m, dd)"
  shows "month_first (12 * y + int m) \<le> d" "d < month_first (12 * y + int m + 1)"
proof -
  have c: "m < 12" "1 \<le> dd" "dd \<le> month_lengths (is_leap y) ! m"
    and d: "d = day_from_year y + sum_list (take m (month_lengths (is_leap y))) + dd - 1"
    using civil_spec [OF assms] by auto
  have f: "month_first (12 * y + int m) = day_from_year y + sum_list (take m (month_lengths (is_leap y)))"
    using c by (simp add: make_day_first [symmetric] make_day_def Let_def)
  have "(12 * y + int m) div 12 = y" "(12 * y + int m) mod 12 = int m" using c by simp_all
  then show "month_first (12 * y + int m) \<le> d" "d < month_first (12 * y + int m + 1)"
    using c d f month_first_Suc [of "12 * y + int m"] by simp_all
qed

lemma civil_month_iff:
  assumes "civil d = (z, n, e)" "m < 12"
  shows "month_first (12 * y + int m) \<le> d \<and> d < month_first (12 * y + int m + 1) \<longleftrightarrow> z = y \<and> n = m"
proof
  assume h: "month_first (12 * y + int m) \<le> d \<and> d < month_first (12 * y + int m + 1)"
  have "12 * z + int n = 12 * y + int m"
  proof (rule ccontr)
    assume "12 * z + int n \<noteq> 12 * y + int m"
    then consider "12 * z + int n + 1 \<le> 12 * y + int m" | "12 * y + int m + 1 \<le> 12 * z + int n" by linarith
    then show False
      using h civil_month_bounds [OF assms(1)] month_first_less
      by cases (smt (verit, best))+
  qed
  then show "z = y \<and> n = m" using civil_spec(2) [OF assms(1)] assms(2) by presburger
next
  assume "z = y \<and> n = m"
  with civil_month_bounds [OF assms(1)] show "month_first (12 * y + int m) \<le> d \<and> d < month_first (12 * y + int m + 1)"
    by simp
qed

end
