(* ===== verification/Valkey.thy ===== *)
theory Valkey
  imports Prelude
begin

text \<open>
  The Valkey counters the budgets rest on. The server is not part of the repository: a client
  is a parameter of every operation that talks to it (the record \<open>client\<close>, one field for each
  command the code sends), and the locale \<open>counter_store\<close> states what the code relies on:
  each command is atomic, answers with the new total, and a command that throws has either
  run or not. \<open>mem_client\<close> is the in-memory client of the repository's own tests
  (\<open>keyedRedis\<close> in worker/test/dollar-budget.test.mjs), which interprets the locale.
\<close>

type_synonym key = string

text \<open>A thrown error, with its \<open>code\<close> when it carries a string one.\<close>

datatype fault = Fault "string option"

fun fault_code :: "fault \<Rightarrow> string" where
  "fault_code (Fault (Some c)) = c"
| "fault_code (Fault None) = ''error''"

record 's client =
  c_incr :: "key \<Rightarrow> ('s, fault, int) op"
  c_decr :: "key \<Rightarrow> ('s, fault, int) op"
  c_incrby :: "key \<Rightarrow> int \<Rightarrow> ('s, fault, int) op"
  c_decrby :: "key \<Rightarrow> int \<Rightarrow> ('s, fault, int) op"
  c_expire :: "key \<Rightarrow> int \<Rightarrow> ('s, fault, unit) op"
  c_get :: "key \<Rightarrow> ('s, fault, int option) op"
  c_eval :: "('s \<Rightarrow> (int \<times> int) \<times> 's) \<Rightarrow> ('s, fault, int \<times> int) op"
  lua_exists :: "key \<Rightarrow> 's \<Rightarrow> bool"
  lua_incrby :: "key \<Rightarrow> int \<Rightarrow> 's \<Rightarrow> int \<times> 's"

text \<open>A missing counter counts from 0.\<close>

definition count_at :: "(key \<Rightarrow> int option) \<Rightarrow> key \<Rightarrow> int" where
  "count_at m k = (case m k of None \<Rightarrow> 0 | Some n \<Rightarrow> n)"

definition add_at :: "(key \<Rightarrow> int option) \<Rightarrow> key \<Rightarrow> int \<Rightarrow> (key \<Rightarrow> int option)" where
  "add_at m k n = m(k \<mapsto> count_at m k + n)"

lemma count_add_at [simp]: "count_at (add_at m k n) k' = count_at m k' + (if k' = k then n else 0)"
  by (simp add: count_at_def add_at_def)

lemma add_at_same: "add_at m k n k = Some (count_at m k + n)"
  by (simp add: add_at_def)

lemma add_at_other: "k' \<noteq> k \<Longrightarrow> add_at m k n k' = m k'"
  by (simp add: add_at_def)

lemma dom_add_at [simp]: "dom (add_at m k n) = insert k (dom m)"
  by (simp add: add_at_def)

lemma add_at_defined [simp]: "add_at m k n k' = None \<longleftrightarrow> m k' = None \<and> k' \<noteq> k"
  by (simp add: add_at_def)

text \<open>The same amount added at each key of a list, in order.\<close>

definition bump :: "(key \<Rightarrow> int option) \<Rightarrow> key list \<Rightarrow> int \<Rightarrow> (key \<Rightarrow> int option)" where
  "bump m ks n = foldl (\<lambda>m k. add_at m k n) m ks"

lemma bump_simps [simp]:
  "bump m [] n = m" "bump m (k # ks) n = bump (add_at m k n) ks n"
  by (simp_all add: bump_def)

lemma bump_append: "bump m (ks @ ls) n = bump (bump m ks n) ls n"
  by (simp add: bump_def)

lemma count_bump: "count_at (bump m ks n) k = count_at m k + n * int (count_list ks k)"
  by (induction ks arbitrary: m) (auto simp: algebra_simps)

lemma count_list_distinct: "distinct ks \<Longrightarrow> count_list ks k = (if k \<in> set ks then 1 else 0)"
  by (induction ks) auto

lemma dom_bump [simp]: "dom (bump m ks n) = dom m \<union> set ks"
  by (induction ks arbitrary: m) auto

lemma bump_other: "k \<notin> set ks \<Longrightarrow> bump m ks n k = m k"
  by (induction ks arbitrary: m) (auto simp: add_at_other)

text \<open>
  What the code relies on. \<open>val\<close> is the counter part of the server's state. A command that
  answered has run once; a command that threw may have run or not (the answer may have been
  lost); \<open>EXPIRE\<close> and \<open>GET\<close> move no counter; a script runs whole.
\<close>

locale counter_store =
  fixes C :: "'s client" and val :: "'s \<Rightarrow> key \<Rightarrow> int option"
  assumes incr_ok: "c_incr C k s = (Inr v, s') \<Longrightarrow> v = count_at (val s) k + 1 \<and> val s' = add_at (val s) k 1"
    and incr_err: "c_incr C k s = (Inl e, s') \<Longrightarrow> val s' = val s \<or> val s' = add_at (val s) k 1"
    and decr_ok: "c_decr C k s = (Inr v, s') \<Longrightarrow> v = count_at (val s) k - 1 \<and> val s' = add_at (val s) k (- 1)"
    and decr_err: "c_decr C k s = (Inl e, s') \<Longrightarrow> val s' = val s \<or> val s' = add_at (val s) k (- 1)"
    and incrby_ok: "c_incrby C k n s = (Inr v, s') \<Longrightarrow> v = count_at (val s) k + n \<and> val s' = add_at (val s) k n"
    and incrby_err: "c_incrby C k n s = (Inl e, s') \<Longrightarrow> val s' = val s \<or> val s' = add_at (val s) k n"
    and decrby_ok: "c_decrby C k n s = (Inr v, s') \<Longrightarrow> v = count_at (val s) k - n \<and> val s' = add_at (val s) k (- n)"
    and decrby_err: "c_decrby C k n s = (Inl e, s') \<Longrightarrow> val s' = val s \<or> val s' = add_at (val s) k (- n)"
    and expire_val: "c_expire C k t s = (x, s') \<Longrightarrow> val s' = val s"
    and get_ok: "c_get C k s = (Inr w, s') \<Longrightarrow> w = val s k \<and> val s' = val s"
    and get_err: "c_get C k s = (Inl e, s') \<Longrightarrow> val s' = val s"
    and eval_ok: "c_eval C f s = (Inr r, s') \<Longrightarrow> \<exists>t u. val t = val s \<and> f t = (r, u) \<and> val s' = val u"
    and eval_err: "c_eval C f s = (Inl e, s') \<Longrightarrow> val s' = val s \<or> (\<exists>t r u. val t = val s \<and> f t = (r, u) \<and> val s' = val u)"
    and lua_exists_val: "lua_exists C k s \<longleftrightarrow> val s k \<noteq> None"
    and lua_incrby_val: "lua_incrby C k n s = (v, s') \<Longrightarrow> v = count_at (val s) k + n \<and> val s' = add_at (val s) k n"

section \<open>The in-memory client\<close>

datatype cmd = INCR | DECR | INCRBY | DECRBY | EXPIRE | GET | EVAL

text \<open>The store, the TTLs, how often each command was sent, and which sending of it rejects.\<close>

record mem =
  m_store :: "key \<Rightarrow> int option"
  m_ttl :: "key \<Rightarrow> int option"
  m_counts :: "cmd \<Rightarrow> nat"
  m_fail :: "cmd \<Rightarrow> nat option"

text \<open>A command counts itself, rejects when its turn is the failing one, and acts otherwise.\<close>

definition mem_step :: "cmd \<Rightarrow> (mem \<Rightarrow> 'a \<times> mem) \<Rightarrow> (mem, fault, 'a) op" where
  "mem_step c act s =
     (let s1 = s\<lparr>m_counts := (m_counts s)(c := Suc (m_counts s c))\<rparr>
      in if m_fail s c = Some (m_counts s1 c) then (Inl (Fault (Some ''ECONNRESET'')), s1)
         else (let (v, s2) = act s1 in (Inr v, s2)))"

definition mem_add :: "key \<Rightarrow> int \<Rightarrow> mem \<Rightarrow> int \<times> mem" where
  "mem_add k n s = (count_at (m_store s) k + n, s\<lparr>m_store := add_at (m_store s) k n\<rparr>)"

definition mem_client :: "mem client" where
  "mem_client =
     \<lparr>c_incr = (\<lambda>k. mem_step INCR (mem_add k 1)),
      c_decr = (\<lambda>k. mem_step DECR (mem_add k (- 1))),
      c_incrby = (\<lambda>k n. mem_step INCRBY (mem_add k n)),
      c_decrby = (\<lambda>k n. mem_step DECRBY (mem_add k (- n))),
      c_expire = (\<lambda>k t. mem_step EXPIRE (\<lambda>s. ((), s\<lparr>m_ttl := (m_ttl s)(k \<mapsto> t)\<rparr>))),
      c_get = (\<lambda>k. mem_step GET (\<lambda>s. (m_store s k, s))),
      c_eval = (\<lambda>f. mem_step EVAL f),
      lua_exists = (\<lambda>k s. m_store s k \<noteq> None),
      lua_incrby = mem_add\<rparr>"

definition mem_init :: mem where
  "mem_init = \<lparr>m_store = Map.empty, m_ttl = Map.empty, m_counts = (\<lambda>_. 0), m_fail = (\<lambda>_. None)\<rparr>"

lemma mem_step_Inr:
  "mem_step c act s = (Inr v, s') \<Longrightarrow> act (s\<lparr>m_counts := (m_counts s)(c := Suc (m_counts s c))\<rparr>) = (v, s')"
  by (auto simp: mem_step_def Let_def split: if_splits prod.splits)

lemma mem_step_Inl:
  "mem_step c act s = (Inl e, s') \<Longrightarrow> m_store s' = m_store s \<and> m_ttl s' = m_ttl s"
  by (auto simp: mem_step_def Let_def split: if_splits prod.splits)

lemma mem_add_eqs [simp]:
  "mem_add k n s = (v, s') \<longleftrightarrow> v = count_at (m_store s) k + n \<and> s' = s\<lparr>m_store := add_at (m_store s) k n\<rparr>"
  by (auto simp: mem_add_def)

lemma mem_client_sel [simp]:
  "c_incr mem_client k = mem_step INCR (mem_add k 1)"
  "c_decr mem_client k = mem_step DECR (mem_add k (- 1))"
  "c_incrby mem_client k n = mem_step INCRBY (mem_add k n)"
  "c_decrby mem_client k n = mem_step DECRBY (mem_add k (- n))"
  "c_expire mem_client k t = mem_step EXPIRE (\<lambda>s. ((), s\<lparr>m_ttl := (m_ttl s)(k \<mapsto> t)\<rparr>))"
  "c_get mem_client k = mem_step GET (\<lambda>s. (m_store s k, s))"
  "c_eval mem_client f = mem_step EVAL f"
  "lua_exists mem_client k s \<longleftrightarrow> m_store s k \<noteq> None"
  "lua_incrby mem_client k n s = mem_add k n s"
  by (simp_all add: mem_client_def)

lemma count_at_empty [simp]: "count_at Map.empty k = 0"
  by (simp add: count_at_def)

lemmas mem_run = mem_step_def mem_add_def mem_init_def Let_def

interpretation mem: counter_store mem_client m_store
proof unfold_locales
  fix f s e s'
  assume "c_eval mem_client f s = (Inl e, s')"
  then show "m_store s' = m_store s \<or> (\<exists>t r u. m_store t = m_store s \<and> f t = (r, u) \<and> m_store s' = m_store u)"
    by (auto simp: mem_client_def dest: mem_step_Inl)
next
  fix f s r s'
  assume "c_eval mem_client f s = (Inr r, s')"
  then have "f (s\<lparr>m_counts := (m_counts s)(EVAL := Suc (m_counts s EVAL))\<rparr>) = (r, s')"
    by (auto simp: mem_client_def dest: mem_step_Inr)
  then show "\<exists>t u. m_store t = m_store s \<and> f t = (r, u) \<and> m_store s' = m_store u"
    by (intro exI conjI) auto
next
  fix k t s x s'
  assume "c_expire mem_client k t s = (x, s')"
  then show "m_store s' = m_store s"
    by (cases x) (auto simp: mem_client_def dest: mem_step_Inr mem_step_Inl)
qed (auto simp: mem_client_def dest!: mem_step_Inr mem_step_Inl)

end
