(* ===== verification/JobBudget.thy ===== *)
theory JobBudget
  imports Calendar Valkey
begin

text \<open>
  The job-count budget (worker/src/budget.mjs): the keys of the day, week and month windows,
  the reservation of one slot in every active window before a container starts, its release,
  the walk over several ledgers and the lagging daily token cap. Instants are epoch
  milliseconds. The lemmas in \<open>counter_store\<close> say what each operation does to the counters on
  every branch, a thrown command included.
\<close>

section \<open>Keys and windows\<close>

definition day_key :: "int \<Rightarrow> string \<Rightarrow> key" where
  "day_key now prefix = prefix @ '':'' @ take 10 (iso_text now)"

definition week_key :: "int \<Rightarrow> string \<Rightarrow> key" where
  "week_key now prefix =
     (let (y, m, dd) = civil (utc_day now);
          d = date_utc y (int m) dd;
          since_monday = (weekday d + 6) mod 7
      in prefix @ '':w:'' @ take 10 (iso_text ((d - since_monday) * day_ms)))"

definition month_key :: "int \<Rightarrow> string \<Rightarrow> key" where
  "month_key now prefix = prefix @ '':m:'' @ take 7 (iso_text now)"

definition token_day_key :: "int \<Rightarrow> string \<Rightarrow> key" where
  "token_day_key now prefix = prefix @ '':t:'' @ take 10 (iso_text now)"

definition day_ttl_seconds :: int where "day_ttl_seconds = 2 * 24 * 60 * 60"
definition week_ttl_seconds :: int where "week_ttl_seconds = 9 * 24 * 60 * 60"
definition month_ttl_seconds :: int where "month_ttl_seconds = 40 * 24 * 60 * 60"

datatype window_name = Day | Week | Month

datatype window_level = Over | Soft_hold | Ok

text \<open>\<open>pct\<close> is \<open>None\<close> unless the soft-hold percentage is an integer.\<close>

definition window_state :: "int \<Rightarrow> int \<Rightarrow> int option \<Rightarrow> window_level" where
  "window_state reserved cap pct =
     (if reserved > cap then Over
      else case pct of
        None \<Rightarrow> Ok
      | Some p \<Rightarrow> if reserved > (cap * p) div 100 then Soft_hold else Ok)"

record caps =
  cap_day :: "int option"
  cap_week :: "int option"
  cap_month :: "int option"

record window =
  w_name :: window_name
  w_key :: key
  w_cap :: int
  w_ttl :: int

definition active_windows :: "caps \<Rightarrow> int \<Rightarrow> string \<Rightarrow> window list" where
  "active_windows c now prefix =
     List.map_filter (\<lambda>(n, k, cap, ttl). case cap of None \<Rightarrow> None
        | Some x \<Rightarrow> Some \<lparr>w_name = n, w_key = k, w_cap = x, w_ttl = ttl\<rparr>)
       [(Day, day_key now prefix, cap_day c, day_ttl_seconds),
        (Week, week_key now prefix, cap_week c, week_ttl_seconds),
        (Month, month_key now prefix, cap_month c, month_ttl_seconds)]"

section \<open>Reserve and release\<close>

record slot =
  sl_reserved :: int
  sl_cap :: int
  sl_state :: window_level

type_synonym slots = "window_name \<Rightarrow> slot option"

record budget_result =
  br_allowed :: bool
  br_reason :: string
  br_blocked :: "window_name option"
  br_windows :: slots

text \<open>The loop of \<open>reserveBudget\<close>: INCR, the TTL on the first write, the classification.\<close>

fun reserve_windows :: "'s client \<Rightarrow> int option \<Rightarrow> window list \<Rightarrow> slots \<Rightarrow> ('s, fault, slots) op" where
  "reserve_windows C pct [] acc s = (Inr acc, s)"
| "reserve_windows C pct (w # ws) acc s =
     (case c_incr C (w_key w) s of
        (Inl e, s1) \<Rightarrow> (Inl e, s1)
      | (Inr reserved, s1) \<Rightarrow>
          (case (if reserved = 1 then c_expire C (w_key w) (w_ttl w) s1 else (Inr (), s1)) of
             (Inl e, s2) \<Rightarrow> (Inl e, s2)
           | (Inr _, s2) \<Rightarrow>
               reserve_windows C pct ws
                 (acc(w_name w \<mapsto> \<lparr>sl_reserved = reserved, sl_cap = w_cap w,
                    sl_state = window_state reserved (w_cap w) pct\<rparr>)) s2))"

definition window_order :: "window_name list" where
  "window_order = [Day, Week, Month]"

definition in_state :: "slots \<Rightarrow> window_level \<Rightarrow> window_name \<Rightarrow> bool" where
  "in_state sl lv n \<longleftrightarrow> map_option sl_state (sl n) = Some lv"

definition judge_windows :: "slots \<Rightarrow> budget_result" where
  "judge_windows sl =
     (case find (in_state sl Over) window_order of
        Some n \<Rightarrow> \<lparr>br_allowed = False, br_reason = ''over-budget'', br_blocked = Some n, br_windows = sl\<rparr>
      | None \<Rightarrow>
          (case find (in_state sl Soft_hold) window_order of
             Some n \<Rightarrow> \<lparr>br_allowed = False, br_reason = ''soft-hold'', br_blocked = Some n, br_windows = sl\<rparr>
           | None \<Rightarrow> \<lparr>br_allowed = True, br_reason = ''ok'', br_blocked = None, br_windows = sl\<rparr>))"

definition reserve_budget ::
  "'s client \<Rightarrow> caps \<Rightarrow> int option \<Rightarrow> int \<Rightarrow> string \<Rightarrow> ('s, fault, budget_result) op" where
  "reserve_budget C c pct now prefix s =
     (case reserve_windows C pct (active_windows c now prefix) Map.empty s of
        (Inl e, s') \<Rightarrow> (Inl e, s')
      | (Inr sl, s') \<Rightarrow> (Inr (judge_windows sl), s'))"

fun release_windows :: "'s client \<Rightarrow> window list \<Rightarrow> ('s, fault, unit) op" where
  "release_windows C [] s = (Inr (), s)"
| "release_windows C (w # ws) s =
     (case c_decr C (w_key w) s of
        (Inl e, s1) \<Rightarrow> (Inl e, s1)
      | (Inr _, s1) \<Rightarrow> release_windows C ws s1)"

definition release_budget :: "'s client \<Rightarrow> caps \<Rightarrow> int \<Rightarrow> string \<Rightarrow> ('s, fault, unit) op" where
  "release_budget C c now prefix = release_windows C (active_windows c now prefix)"

section \<open>Ledgers\<close>

record ledger =
  l_scope :: "string option"
  l_prefix :: "string option"
  l_caps :: caps
  l_pct :: "int option"
  l_reason :: string

text \<open>A falsy key prefix (absent or empty) is the default one.\<close>

definition ledger_prefix :: "ledger \<Rightarrow> string" where
  "ledger_prefix l = (case l_prefix l of Some p \<Rightarrow> if p = [] then ''budget'' else p | None \<Rightarrow> ''budget'')"

datatype ledgers_result = Admitted | Refused ledger budget_result

text \<open>The caller's list \<open>held\<close> is part of the state, so that it is exact when a command throws.\<close>

fun reserve_ledgers ::
  "'s client \<Rightarrow> int \<Rightarrow> ledger list \<Rightarrow> ledger list \<Rightarrow> 's \<Rightarrow> (fault + ledgers_result) \<times> ledger list \<times> 's" where
  "reserve_ledgers C now [] held s = (Inr Admitted, held, s)"
| "reserve_ledgers C now (l # ls) held s =
     (case reserve_budget C (l_caps l) (l_pct l) now (ledger_prefix l) s of
        (Inl e, s1) \<Rightarrow> (Inl e, held, s1)
      | (Inr r, s1) \<Rightarrow>
          if \<not> br_allowed r then (Inr (Refused l r), held, s1)
          else reserve_ledgers C now ls (held @ [l]) s1)"

function release_ledgers ::
  "'s client \<Rightarrow> int \<Rightarrow> ledger list \<Rightarrow> 's \<Rightarrow> (fault + unit) \<times> ledger list \<times> 's" where
  "release_ledgers C now held s =
     (if held = [] then (Inr (), held, s)
      else case release_budget C (l_caps (last held)) now (ledger_prefix (last held)) s of
        (Inl e, s1) \<Rightarrow> (Inl e, held, s1)
      | (Inr _, s1) \<Rightarrow> release_ledgers C now (butlast held) s1)"
  by pat_completeness auto
termination
  by (relation "measure (\<lambda>(C, now, held, s). length held)") auto

declare release_ledgers.simps [simp del]

section \<open>The lagging token cap\<close>

record token_check =
  tc_allowed :: bool
  tc_reason :: string
  tc_spent :: int
  tc_cap :: "int option"

definition check_token_cap :: "'s client \<Rightarrow> int option \<Rightarrow> int \<Rightarrow> string \<Rightarrow> ('s, fault, token_check) op" where
  "check_token_cap C cap now prefix s =
     (case cap of
        None \<Rightarrow> (Inr \<lparr>tc_allowed = True, tc_reason = ''ok'', tc_spent = 0, tc_cap = None\<rparr>, s)
      | Some c \<Rightarrow>
          (case c_get C (token_day_key now prefix) s of
             (Inl e, s1) \<Rightarrow> (Inl e, s1)
           | (Inr v, s1) \<Rightarrow>
               (let spent = (case v of None \<Rightarrow> 0 | Some n \<Rightarrow> n)
                in if spent \<ge> c
                   then (Inr \<lparr>tc_allowed = False, tc_reason = ''daily-token-cap'', tc_spent = spent, tc_cap = Some c\<rparr>, s1)
                   else (Inr \<lparr>tc_allowed = True, tc_reason = ''ok'', tc_spent = spent, tc_cap = Some c\<rparr>, s1))))"

definition record_token_spend :: "'s client \<Rightarrow> int \<Rightarrow> int \<Rightarrow> string \<Rightarrow> ('s, fault, int) op" where
  "record_token_spend C tokens now prefix s =
     (let k = token_day_key now prefix
      in case c_incrby C k tokens s of
           (Inl e, s1) \<Rightarrow> (Inl e, s1)
         | (Inr v, s1) \<Rightarrow>
             (case (if v = tokens then c_expire C k day_ttl_seconds s1 else (Inr (), s1)) of
                (Inl e, s2) \<Rightarrow> (Inl e, s2)
              | (Inr _, s2) \<Rightarrow> (Inr v, s2)))"

section \<open>The windows' keys\<close>

lemma iso_year_head: "\<exists>c u. iso_year y = c # u \<and> c \<noteq> CHR ''w'' \<and> c \<noteq> CHR ''m'' \<and> c \<noteq> CHR ''t''"
proof (cases "0 \<le> y \<and> y \<le> 9999")
  case True
  obtain c u where cu: "pad_start 4 (CHR ''0'') (nat_text (nat y)) = c # u"
    by (cases "pad_start 4 (CHR ''0'') (nat_text (nat y))") (auto simp: pad_start_def)
  then have "is_digit c" using pad_start_digits [of c 4 "nat y"] by simp
  with True cu show ?thesis by (auto simp: iso_year_def is_digit_def)
next
  case False
  then show ?thesis by (auto simp: iso_year_def)
qed

lemma iso_text_head:
  "\<exists>c u. iso_text t = c # u \<and> c \<noteq> CHR ''w'' \<and> c \<noteq> CHR ''m'' \<and> c \<noteq> CHR ''t''"
proof -
  obtain y m dd where "civil (utc_day t) = (y, m, dd)" by (cases "civil (utc_day t)") auto
  moreover obtain c u where "iso_year y = c # u \<and> c \<noteq> CHR ''w'' \<and> c \<noteq> CHR ''m'' \<and> c \<noteq> CHR ''t''"
    using iso_year_head by blast
  ultimately show ?thesis by (auto simp: iso_text_def Let_def iso_date_def iso_month_def)
qed

lemma take_iso_head:
  assumes "0 < n"
  shows "\<exists>c u. take n (iso_text t) = c # u \<and> c \<noteq> CHR ''w'' \<and> c \<noteq> CHR ''m'' \<and> c \<noteq> CHR ''t''"
  using iso_text_head [of t] assms by (cases n) auto

lemma window_keys_distinct [window_simps]:
  "day_key t p \<noteq> week_key t' p" "day_key t p \<noteq> month_key t' p" "week_key t p \<noteq> month_key t' p"
  "token_day_key t p \<noteq> day_key t' p" "token_day_key t p \<noteq> week_key t' p" "token_day_key t p \<noteq> month_key t' p"
  using take_iso_head [of 10 t] take_iso_head [of 10 t']
  by (auto simp: day_key_def week_key_def month_key_def token_day_key_def Let_def split: prod.splits)

lemma active_windows_distinct:
  "distinct (map w_key (active_windows c now p))" "distinct (map w_name (active_windows c now p))"
  by (auto simp: active_windows_def window_simps split: option.splits)

lemma active_window_keys:
  "set (map w_key (active_windows c now p)) =
     (if cap_day c = None then {} else {day_key now p}) \<union>
     (if cap_week c = None then {} else {week_key now p}) \<union>
     (if cap_month c = None then {} else {month_key now p})"
  by (auto simp: active_windows_def split: option.splits)

lemma token_key_not_window: "token_day_key t p \<notin> set (map w_key (active_windows c now p))"
  unfolding active_window_keys by (auto simp: window_simps split: if_splits)

section \<open>What reserving and releasing do to the counters\<close>

definition slot_for :: "int option \<Rightarrow> (key \<Rightarrow> int option) \<Rightarrow> window \<Rightarrow> slot" where
  "slot_for pct m w =
     \<lparr>sl_reserved = count_at m (w_key w) + 1, sl_cap = w_cap w,
      sl_state = window_state (count_at m (w_key w) + 1) (w_cap w) pct\<rparr>"

definition slots_for :: "int option \<Rightarrow> (key \<Rightarrow> int option) \<Rightarrow> window list \<Rightarrow> slots" where
  "slots_for pct m ws = map_of (map (\<lambda>w. (w_name w, slot_for pct m w)) ws)"

lemma slots_for_add_at:
  "k \<notin> w_key ` set ws \<Longrightarrow> slots_for pct (add_at m k n) ws = slots_for pct m ws"
  by (auto simp: slots_for_def slot_for_def intro!: arg_cong [where f = map_of] map_cong)

text \<open>Between the counts before and one more for each of the keys.\<close>

definition partly_bumped :: "(key \<Rightarrow> int option) \<Rightarrow> key list \<Rightarrow> int \<Rightarrow> (key \<Rightarrow> int option) \<Rightarrow> bool" where
  "partly_bumped m ks n m' \<longleftrightarrow> (\<exists>us vs. ks = us @ vs \<and> m' = bump m us n)"

lemma partly_bumped_Nil: "partly_bumped m ks n m"
  unfolding partly_bumped_def by (rule exI [of _ "[]"]) simp

lemma partly_bumped_Cons: "partly_bumped (add_at m k n) ks n m' \<Longrightarrow> partly_bumped m (k # ks) n m'"
  unfolding partly_bumped_def by (metis append_Cons bump_simps(2))

lemma partly_bumped_count:
  assumes "partly_bumped m ks 1 m'"
  shows "count_at m k \<le> count_at m' k" "count_at m' k \<le> count_at m k + int (count_list ks k)"
  using assms by (auto simp: partly_bumped_def count_bump)

context counter_store
begin

lemma maybe_expire_val: "(if b then c_expire C k t s else (Inr (), s)) = (x, s') \<Longrightarrow> val s' = val s"
  by (auto split: if_splits dest: expire_val)

lemma reserve_windows_ok:
  assumes "reserve_windows C pct ws acc s = (Inr sl, s')"
  shows "val s' = bump (val s) (map w_key ws) 1 \<and>
    (distinct (map w_key ws) \<longrightarrow> distinct (map w_name ws) \<longrightarrow> sl = acc ++ slots_for pct (val s) ws)"
  using assms
proof (induction ws arbitrary: acc s)
  case Nil
  then show ?case by (simp add: slots_for_def)
next
  case (Cons w ws)
  obtain n s1 where i: "c_incr C (w_key w) s = (Inr n, s1)"
    using Cons.prems by (auto split: prod.splits sum.splits)
  obtain s2 where e: "(if n = 1 then c_expire C (w_key w) (w_ttl w) s1 else (Inr (), s1)) = (Inr (), s2)"
    and r: "reserve_windows C pct ws (acc(w_name w \<mapsto> \<lparr>sl_reserved = n, sl_cap = w_cap w,
              sl_state = window_state n (w_cap w) pct\<rparr>)) s2 = (Inr sl, s')"
    using Cons.prems i by (auto split: prod.splits sum.splits)
  have v: "val s2 = add_at (val s) (w_key w) 1" "n = count_at (val s) (w_key w) + 1"
    using incr_ok [OF i] maybe_expire_val [OF e] by auto
  note IH = Cons.IH [OF r]
  have "sl = acc ++ slots_for pct (val s) (w # ws)"
    if d: "distinct (map w_key (w # ws))" "distinct (map w_name (w # ws))"
  proof -
    have "sl = acc(w_name w \<mapsto> slot_for pct (val s) w) ++ slots_for pct (val s2) ws"
      using IH d v by (simp add: slot_for_def fun_upd_def)
    also have "slots_for pct (val s2) ws = slots_for pct (val s) ws"
      using d v(1) by (simp add: slots_for_add_at)
    also have "acc(w_name w \<mapsto> slot_for pct (val s) w) ++ slots_for pct (val s) ws =
        acc ++ slots_for pct (val s) (w # ws)"
    proof -
      have "w_name w \<notin> dom (slots_for pct (val s) ws)"
        using d by (auto simp: slots_for_def dom_map_of_conv_image_fst image_image)
      then show ?thesis by (simp add: map_add_upd_left slots_for_def)
    qed
    finally show ?thesis .
  qed
  with IH v show ?case by simp
qed

lemma reserve_windows_err:
  "reserve_windows C pct ws acc s = (Inl e, s') \<Longrightarrow> partly_bumped (val s) (map w_key ws) 1 (val s')"
proof (induction ws arbitrary: acc s)
  case Nil
  then show ?case by simp
next
  case (Cons w ws)
  show ?case
  proof (cases "c_incr C (w_key w) s")
    case (Pair x s1)
    show ?thesis
    proof (cases x)
      case (Inl e')
      with Cons.prems Pair have "val s' = val s \<or> val s' = add_at (val s) (w_key w) 1"
        using incr_err [of "w_key w" s] by auto
      then show ?thesis
        using partly_bumped_Nil partly_bumped_Cons [OF partly_bumped_Nil] by auto
    next
      case (Inr n)
      with Pair have v1: "val s1 = add_at (val s) (w_key w) 1" using incr_ok by blast
      obtain y s2 where e: "(if n = 1 then c_expire C (w_key w) (w_ttl w) s1 else (Inr (), s1)) = (y, s2)"
        by fastforce
      have v2: "val s2 = add_at (val s) (w_key w) 1" using maybe_expire_val [OF e] v1 by simp
      have "partly_bumped (val s2) (map w_key ws) 1 (val s')"
        using Cons.prems Pair Inr e Cons.IH partly_bumped_Nil by (cases y) auto
      with v2 show ?thesis by (simp add: partly_bumped_Cons)
    qed
  qed
qed

lemma release_windows_ok:
  "release_windows C ws s = (Inr u, s') \<Longrightarrow> val s' = bump (val s) (map w_key ws) (- 1)"
proof (induction ws arbitrary: s)
  case Nil
  then show ?case by simp
next
  case (Cons w ws)
  then show ?case
    using decr_ok [of "w_key w" s] by (auto split: prod.splits sum.splits)
qed

lemma release_windows_err:
  "release_windows C ws s = (Inl e, s') \<Longrightarrow> partly_bumped (val s) (map w_key ws) (- 1) (val s')"
proof (induction ws arbitrary: s)
  case Nil
  then show ?case by simp
next
  case (Cons w ws)
  show ?case
  proof (cases "c_decr C (w_key w) s")
    case (Pair x s1)
    show ?thesis
    proof (cases x)
      case (Inl e')
      with Cons.prems Pair have "val s' = val s \<or> val s' = add_at (val s) (w_key w) (- 1)"
        using decr_err [of "w_key w" s] by auto
      then show ?thesis
        using partly_bumped_Nil partly_bumped_Cons [OF partly_bumped_Nil] by auto
    next
      case (Inr n)
      with Pair have v1: "val s1 = add_at (val s) (w_key w) (- 1)" using decr_ok by blast
      have "partly_bumped (val s1) (map w_key ws) (- 1) (val s')"
        using Cons.prems Pair Inr Cons.IH by simp
      with v1 show ?thesis by (simp add: partly_bumped_Cons)
    qed
  qed
qed

lemma reserve_budget_ok:
  assumes "reserve_budget C c pct now p s = (Inr r, s')"
  shows "val s' = bump (val s) (map w_key (active_windows c now p)) 1"
    and "r = judge_windows (slots_for pct (val s) (active_windows c now p))"
proof -
  obtain sl where sl: "reserve_windows C pct (active_windows c now p) Map.empty s = (Inr sl, s')"
    and r: "r = judge_windows sl"
    using assms by (auto simp: reserve_budget_def split: prod.splits sum.splits)
  from reserve_windows_ok [OF sl] r active_windows_distinct [of c now p]
  show "val s' = bump (val s) (map w_key (active_windows c now p)) 1"
    "r = judge_windows (slots_for pct (val s) (active_windows c now p))" by auto
qed

lemma reserve_budget_err:
  "reserve_budget C c pct now p s = (Inl e, s') \<Longrightarrow>
   partly_bumped (val s) (map w_key (active_windows c now p)) 1 (val s')"
  by (auto simp: reserve_budget_def dest: reserve_windows_err split: prod.splits sum.splits)

lemma release_budget_ok:
  "release_budget C c now p s = (Inr u, s') \<Longrightarrow>
   val s' = bump (val s) (map w_key (active_windows c now p)) (- 1)"
  by (auto simp: release_budget_def dest: release_windows_ok)

lemma release_budget_err:
  "release_budget C c now p s = (Inl e, s') \<Longrightarrow>
   partly_bumped (val s) (map w_key (active_windows c now p)) (- 1) (val s')"
  by (auto simp: release_budget_def dest: release_windows_err)

end

section \<open>The verdict\<close>

lemma judge_windows_cases:
  "br_allowed (judge_windows sl) \<longleftrightarrow> (\<forall>n x. sl n = Some x \<longrightarrow> sl_state x = Ok)"
proof -
  have all: "n \<in> set window_order" for n by (cases n) (auto simp: window_order_def)
  show ?thesis
  proof
    assume "br_allowed (judge_windows sl)"
    then have "find (in_state sl Over) window_order = None" "find (in_state sl Soft_hold) window_order = None"
      by (auto simp: judge_windows_def split: option.splits)
    then have no: "\<not> in_state sl Over n" "\<not> in_state sl Soft_hold n" for n
      using all by (auto simp: find_None_iff)
    show "\<forall>n x. sl n = Some x \<longrightarrow> sl_state x = Ok"
    proof (intro allI impI)
      fix n x assume "sl n = Some x"
      with no [of n] show "sl_state x = Ok" by (cases "sl_state x") (auto simp: in_state_def)
    qed
  next
    assume ok: "\<forall>n x. sl n = Some x \<longrightarrow> sl_state x = Ok"
    have "\<not> in_state sl Over n" "\<not> in_state sl Soft_hold n" for n
      using ok by (auto simp: in_state_def)
    then show "br_allowed (judge_windows sl)"
      by (simp add: judge_windows_def window_order_def)
  qed
qed

lemma slots_for_active:
  "slots_for pct m (active_windows c now p) n = Some x \<longleftrightarrow>
     (\<exists>w \<in> set (active_windows c now p). w_name w = n \<and> x = slot_for pct m w)"
  using active_windows_distinct(2) [of c now p]
  by (auto simp: slots_for_def comp_def intro!: map_of_is_SomeI dest!: map_of_SomeD)

section \<open>Ledgers\<close>

definition ledger_keys :: "int \<Rightarrow> ledger \<Rightarrow> key list" where
  "ledger_keys now l = map w_key (active_windows (l_caps l) now (ledger_prefix l))"

abbreviation ledgers_keys :: "int \<Rightarrow> ledger list \<Rightarrow> key list" where
  "ledgers_keys now ls \<equiv> concat (map (ledger_keys now) ls)"

lemma count_list_rev_concat: "count_list (concat (rev xss)) k = count_list (concat xss) k"
  by (induction xss) auto

context counter_store
begin

lemma reserve_ledgers_ok:
  assumes "reserve_ledgers C now ls held s = (Inr r, held', s')"
  shows "case r of
      Admitted \<Rightarrow> held' = held @ ls \<and> val s' = bump (val s) (ledgers_keys now ls) 1
    | Refused l b \<Rightarrow> \<not> br_allowed b \<and> (\<exists>us vs. ls = us @ l # vs \<and> held' = held @ us \<and>
        val s' = bump (val s) (ledgers_keys now (us @ [l])) 1)"
  using assms
proof (induction ls arbitrary: held s)
  case Nil
  then show ?case by auto
next
  case (Cons l ls)
  obtain b s1 where b: "reserve_budget C (l_caps l) (l_pct l) now (ledger_prefix l) s = (Inr b, s1)"
    using Cons.prems by (auto split: prod.splits sum.splits)
  have v: "val s1 = bump (val s) (ledger_keys now l) 1"
    using reserve_budget_ok(1) [OF b] by (simp add: ledger_keys_def)
  show ?case
  proof (cases "br_allowed b")
    case False
    with Cons.prems b have "r = Refused l b" "held' = held" "s' = s1" by auto
    with v False show ?thesis
      by (auto intro!: exI [of _ "[]"])
  next
    case True
    with Cons.prems b have "reserve_ledgers C now ls (held @ [l]) s1 = (Inr r, held', s')" by simp
    from Cons.IH [OF this] v show ?thesis
    proof (cases r)
      case Admitted
      with Cons.IH [OF \<open>reserve_ledgers C now ls (held @ [l]) s1 = (Inr r, held', s')\<close>] v
      show ?thesis by (simp add: bump_append)
    next
      case (Refused l' b')
      with Cons.IH [OF \<open>reserve_ledgers C now ls (held @ [l]) s1 = (Inr r, held', s')\<close>] v
      obtain us vs where "\<not> br_allowed b'" "ls = us @ l' # vs" "held' = held @ [l] @ us"
        "val s' = bump (val s1) (ledgers_keys now (us @ [l'])) 1" by auto
      with Refused v show ?thesis
        by (auto simp: bump_append intro!: exI [of _ "l # us"])
    qed
  qed
qed

lemma reserve_ledgers_err:
  assumes "reserve_ledgers C now ls held s = (Inl e, held', s')"
  shows "\<exists>us l vs. ls = us @ l # vs \<and> held' = held @ us \<and>
    partly_bumped (bump (val s) (ledgers_keys now us) 1) (ledger_keys now l) 1 (val s')"
  using assms
proof (induction ls arbitrary: held s)
  case Nil
  then show ?case by simp
next
  case (Cons l ls)
  show ?case
  proof (cases "reserve_budget C (l_caps l) (l_pct l) now (ledger_prefix l) s")
    case (Pair x s1)
    show ?thesis
    proof (cases x)
      case (Inl e')
      with Cons.prems Pair reserve_budget_err [of "l_caps l" "l_pct l" now "ledger_prefix l" s e' s1]
      show ?thesis by (auto simp: ledger_keys_def intro!: exI [of _ "[]"])
    next
      case (Inr b)
      have v: "val s1 = bump (val s) (ledger_keys now l) 1"
        using reserve_budget_ok(1) [of "l_caps l" "l_pct l" now "ledger_prefix l" s b s1] Pair Inr
        by (simp add: ledger_keys_def)
      have r: "reserve_ledgers C now ls (held @ [l]) s1 = (Inl e, held', s')"
        using Cons.prems Pair Inr by (cases "br_allowed b") auto
      from Cons.IH [OF r] obtain us l' vs where "ls = us @ l' # vs" "held' = held @ [l] @ us"
        "partly_bumped (bump (val s1) (ledgers_keys now us) 1) (ledger_keys now l') 1 (val s')" by auto
      with v show ?thesis by (auto simp: bump_append intro!: exI [of _ "l # us"])
    qed
  qed
qed

lemma release_ledgers_ok:
  "release_ledgers C now held s = (Inr u, held', s') \<Longrightarrow>
   held' = [] \<and> val s' = bump (val s) (ledgers_keys now (rev held)) (- 1)"
proof (induction held arbitrary: s rule: rev_induct)
  case Nil
  then show ?case by (simp add: release_ledgers.simps)
next
  case (snoc l held)
  then show ?case
    by (auto simp: release_ledgers.simps [of C now "held @ [l]"] bump_append ledger_keys_def
        dest!: release_budget_ok split: prod.splits sum.splits)
qed

lemma release_ledgers_err:
  "release_ledgers C now held s = (Inl e, held', s') \<Longrightarrow>
   \<exists>us l vs. held = us @ l # vs \<and> held' = us @ [l] \<and>
     partly_bumped (bump (val s) (ledgers_keys now (rev vs)) (- 1)) (ledger_keys now l) (- 1) (val s')"
proof (induction held arbitrary: s rule: rev_induct)
  case Nil
  then show ?case by (simp add: release_ledgers.simps)
next
  case (snoc l held)
  show ?case
  proof (cases "release_budget C (l_caps l) now (ledger_prefix l) s")
    case (Pair x s1)
    show ?thesis
    proof (cases x)
      case (Inl e')
      with snoc.prems Pair release_budget_err [of "l_caps l" now "ledger_prefix l" s e' s1]
      have "held' = held @ [l]" "partly_bumped (val s) (ledger_keys now l) (- 1) (val s')"
        by (auto simp: release_ledgers.simps [of C now "held @ [l]"] ledger_keys_def)
      then show ?thesis
        by (intro exI [of _ held] exI [of _ l] exI [of _ "[]"]) simp
    next
      case (Inr u)
      have v: "val s1 = bump (val s) (ledger_keys now l) (- 1)"
        using release_budget_ok [of "l_caps l" now "ledger_prefix l" s u s1] Pair Inr
        by (simp add: ledger_keys_def)
      have "release_ledgers C now held s1 = (Inl e, held', s')"
        using snoc.prems Pair Inr by (simp add: release_ledgers.simps [of C now "held @ [l]"])
      from snoc.IH [OF this] obtain us l' vs where *: "held = us @ l' # vs" "held' = us @ [l']"
        "partly_bumped (bump (val s1) (ledgers_keys now (rev vs)) (- 1)) (ledger_keys now l') (- 1) (val s')"
        by auto
      show ?thesis
        by (rule exI [of _ us], rule exI [of _ l'], rule exI [of _ "vs @ [l]"])
          (use * v in \<open>simp add: bump_append\<close>)
    qed
  qed
qed

lemma refund_exact:
  assumes "reserve_ledgers C now ls [] s = (Inr r, held, s1)"
    and "release_ledgers C now held s1 = (Inr u, held', s2)"
  shows "held' = [] \<and> (\<forall>k. count_at (val s2) k = count_at (val s) k +
    (case r of Admitted \<Rightarrow> 0 | Refused l b \<Rightarrow> int (count_list (ledger_keys now l) k)))"
proof -
  note rel = release_ledgers_ok [OF assms(2)]
  have same: "count_list (ledgers_keys now (rev held)) k = count_list (ledgers_keys now held) k" for k
    using count_list_rev_concat [of "map (ledger_keys now) held" k] by (simp add: rev_map)
  show ?thesis
    using rel reserve_ledgers_ok [OF assms(1)]
    by (auto simp: count_bump same split: ledgers_result.splits)
qed

end

section \<open>Properties\<close>

lemma active_key_count:
  "int (count_list (map w_key (active_windows c now p)) k) =
     (if k \<in> w_key ` set (active_windows c now p) then 1 else 0)"
  using count_list_distinct [OF active_windows_distinct(1), of c now p k] by simp

lemma find_in_order:
  "(\<exists>n. find (in_state sl lv) window_order = Some n) \<longleftrightarrow> (\<exists>n x. sl n = Some x \<and> sl_state x = lv)"
proof -
  have all: "n \<in> set window_order" for n by (cases n) (auto simp: window_order_def)
  have "find (in_state sl lv) window_order \<noteq> None \<longleftrightarrow> (\<exists>n. in_state sl lv n)"
    using all by (auto simp: find_None_iff)
  then show ?thesis by (auto simp: in_state_def)
qed

lemma judge_reason:
  "br_reason (judge_windows sl) = ''over-budget'' \<longleftrightarrow> (\<exists>n x. sl n = Some x \<and> sl_state x = Over)"
  "br_allowed (judge_windows sl) \<longleftrightarrow> br_reason (judge_windows sl) = ''ok''"
  unfolding find_in_order [of sl Over, symmetric] by (auto simp: judge_windows_def split: option.splits)

lemma window_state_Over: "window_state n cap pct = Over \<longleftrightarrow> cap < n"
  by (auto simp: window_state_def split: option.splits)

lemma window_state_Ok:
  "window_state n cap pct = Ok \<longleftrightarrow> n \<le> cap \<and> (\<forall>q. pct = Some q \<longrightarrow> n \<le> (cap * q) div 100)"
  by (auto simp: window_state_def split: option.splits)

text \<open>The first window in a state, in day, week, month order.\<close>

definition first_in :: "window_level \<Rightarrow> int option \<Rightarrow> (key \<Rightarrow> int option) \<Rightarrow> window list \<Rightarrow> window_name option" where
  "first_in lv pct m ws = map_option w_name (find (\<lambda>w. window_state (count_at m (w_key w) + 1) (w_cap w) pct = lv) ws)"

lemma first_in_slots:
  "find (in_state (slots_for pct m (active_windows c now p)) lv) window_order = first_in lv pct m (active_windows c now p)"
  by (cases "cap_day c"; cases "cap_week c"; cases "cap_month c")
    (simp_all add: active_windows_def slots_for_def slot_for_def in_state_def window_order_def first_in_def)

text \<open>
  C24: A reservation INCRs every active window exactly once and no other key, also when it is
  refused, and reports each one's new count; it is allowed iff the new count of every active window
  is within its cap and not above the soft-hold band; the reason is \<open>over-budget\<close> iff some window is
  over its cap, else \<open>soft-hold\<close> iff some window is in its band, else \<open>ok\<close>; and the blocking window
  is the first, in day, week, month order, that is over its cap, else the first in its band, and
  none exactly when the reservation is allowed.
\<close>

theorem reserve_verdict:
  assumes "counter_store C val" and "reserve_budget C c pct now p s = (Inr r, s')"
  shows "(\<forall>k. count_at (val s') k = count_at (val s) k +
            (if k \<in> w_key ` set (active_windows c now p) then 1 else 0))
    \<and> (\<forall>w \<in> set (active_windows c now p). map_option sl_reserved (br_windows r (w_name w)) = Some (count_at (val s) (w_key w) + 1))
    \<and> (br_allowed r \<longleftrightarrow> (\<forall>w \<in> set (active_windows c now p).
          count_at (val s) (w_key w) + 1 \<le> w_cap w \<and>
          (\<forall>q. pct = Some q \<longrightarrow> count_at (val s) (w_key w) + 1 \<le> (w_cap w * q) div 100)))
    \<and> (br_reason r, br_blocked r) =
         (case (first_in Over pct (val s) (active_windows c now p), first_in Soft_hold pct (val s) (active_windows c now p)) of
            (Some n, _) \<Rightarrow> (''over-budget'', Some n)
          | (None, Some n) \<Rightarrow> (''soft-hold'', Some n)
          | (None, None) \<Rightarrow> (''ok'', None))
    \<and> (br_blocked r = None \<longleftrightarrow> br_allowed r)
    \<and> (br_reason r = ''over-budget'' \<longleftrightarrow> (\<exists>w \<in> set (active_windows c now p).
          w_cap w < count_at (val s) (w_key w) + 1))
    \<and> map w_name (active_windows c now p) = filter (\<lambda>n. case n of Day \<Rightarrow> cap_day c \<noteq> None | Week \<Rightarrow> cap_week c \<noteq> None | Month \<Rightarrow> cap_month c \<noteq> None) [Day, Week, Month]"
proof -
  note ok = counter_store.reserve_budget_ok [OF assms]
  let ?ws = "active_windows c now p" and ?sl = "slots_for pct (val s) (active_windows c now p)"
  have counts: "\<forall>k. count_at (val s') k = count_at (val s) k + (if k \<in> w_key ` set ?ws then 1 else 0)"
    unfolding ok(1) count_bump active_key_count by simp
  have st: "sl_state (slot_for pct (val s) w) = window_state (count_at (val s) (w_key w) + 1) (w_cap w) pct" for w
    by (simp add: slot_for_def)
  have allowed: "br_allowed r \<longleftrightarrow> (\<forall>w \<in> set ?ws. sl_state (slot_for pct (val s) w) = Ok)"
    unfolding ok(2) judge_windows_cases slots_for_active by blast
  have over: "br_reason r = ''over-budget'' \<longleftrightarrow> (\<exists>w \<in> set ?ws. sl_state (slot_for pct (val s) w) = Over)"
    unfolding ok(2) judge_reason(1) slots_for_active by blast
  have rep: "br_windows r = ?sl" unfolding ok(2) by (simp add: judge_windows_def split: option.split)
  have named: "\<forall>w \<in> set ?ws. map_option sl_reserved (br_windows r (w_name w)) = Some (count_at (val s) (w_key w) + 1)"
  proof
    fix w assume "w \<in> set ?ws"
    then have "?sl (w_name w) = Some (slot_for pct (val s) w)" unfolding slots_for_active by blast
    then show "map_option sl_reserved (br_windows r (w_name w)) = Some (count_at (val s) (w_key w) + 1)"
      by (simp add: rep slot_for_def)
  qed
  have verdict: "(br_reason r, br_blocked r) =
         (case (first_in Over pct (val s) ?ws, first_in Soft_hold pct (val s) ?ws) of
            (Some n, _) \<Rightarrow> (''over-budget'', Some n) | (None, Some n) \<Rightarrow> (''soft-hold'', Some n) | (None, None) \<Rightarrow> (''ok'', None))"
    and none: "br_blocked r = None \<longleftrightarrow> br_allowed r"
    unfolding ok(2) judge_windows_def first_in_slots by (auto split: option.split)
  have names: "map w_name ?ws = filter (\<lambda>n. case n of Day \<Rightarrow> cap_day c \<noteq> None | Week \<Rightarrow> cap_week c \<noteq> None | Month \<Rightarrow> cap_month c \<noteq> None) [Day, Week, Month]"
    by (auto simp: active_windows_def split: option.split)
  show ?thesis
    using counts named allowed over verdict none names by (simp add: st window_state_Ok window_state_Over)
qed

theorem reserve_verdict_witness:
  "\<exists>r s'. reserve_budget mem_client \<lparr>cap_day = Some 1, cap_week = None, cap_month = None\<rparr> None 0 ''budget'' mem_init = (Inr r, s')
     \<and> br_allowed r"
proof -
  let ?c = "\<lparr>cap_day = Some 1, cap_week = None, cap_month = None\<rparr>"
  obtain r s' where r: "reserve_budget mem_client ?c None 0 ''budget'' mem_init = (Inr r, s')"
    by (simp add: reserve_budget_def active_windows_def mem_run)
  from reserve_verdict [OF mem.counter_store_axioms r] have "br_allowed r"
    by (simp add: active_windows_def mem_init_def count_at_def)
  with r show ?thesis by blast
qed

text \<open>
  C25: The reservations a job still holds are given back exactly: releasing the list \<open>held\<close> that
  \<open>reserveLedgers\<close> built empties it and restores every counter, apart from the slot of the ledger
  that refused, which stays consumed.
\<close>

theorem refund_restores:
  assumes "counter_store C val"
    and "reserve_ledgers C now ls [] s = (Inr r, held, s1)"
    and "release_ledgers C now held s1 = (Inr u, held', s2)"
  shows "held' = [] \<and> (\<forall>k. count_at (val s2) k = count_at (val s) k +
    (case r of Admitted \<Rightarrow> 0 | Refused l b \<Rightarrow> int (count_list (ledger_keys now l) k)))"
  using assms by (rule counter_store.refund_exact)

theorem refund_restores_witness:
  "\<exists>r held s1 held' s2.
     reserve_ledgers mem_client 0 [\<lparr>l_scope = None, l_prefix = None,
        l_caps = \<lparr>cap_day = Some 1, cap_week = None, cap_month = None\<rparr>, l_pct = None, l_reason = []\<rparr>]
        [] mem_init = (Inr r, held, s1)
     \<and> held \<noteq> [] \<and> release_ledgers mem_client 0 held s1 = (Inr (), held', s2) \<and> held' = []"
proof -
  let ?l = "\<lparr>l_scope = None, l_prefix = None, l_caps = \<lparr>cap_day = Some 1, cap_week = None, cap_month = None\<rparr>,
    l_pct = None, l_reason = []\<rparr>"
  obtain s1 where res: "reserve_ledgers mem_client 0 [?l] [] mem_init = (Inr Admitted, [?l], s1)" and f: "m_fail s1 = (\<lambda>_. None)"
    by (simp add: reserve_budget_def active_windows_def mem_run judge_windows_def window_order_def in_state_def window_state_def count_at_def)
  obtain s2 held' where rel: "release_ledgers mem_client 0 [?l] s1 = (Inr (), held', s2)"
    using f by (simp add: release_ledgers.simps release_budget_def active_windows_def mem_run)
  from refund_restores [OF mem.counter_store_axioms res rel] res rel show ?thesis by blast
qed

text \<open>
  C28: A command that throws in the middle of the walk leaves the caller's \<open>held\<close> exact: the
  ledgers in it were reserved in full, the ledger after them was reserved in a prefix of its
  windows at most, and no counter is ever lower than before.
\<close>

theorem reserve_fault_exact:
  assumes "counter_store C val" and "reserve_ledgers C now ls [] s = (Inl e, held, s')"
  shows "\<exists>l vs. ls = held @ l # vs
    \<and> partly_bumped (bump (val s) (ledgers_keys now held) 1) (ledger_keys now l) 1 (val s')
    \<and> (\<forall>k. count_at (val s) k \<le> count_at (val s') k)"
proof -
  obtain l vs where ls: "ls = held @ l # vs"
    and pb: "partly_bumped (bump (val s) (ledgers_keys now held) 1) (ledger_keys now l) 1 (val s')"
    using counter_store.reserve_ledgers_err [OF assms] by auto
  have "count_at (val s) k \<le> count_at (val s') k" for k
    using partly_bumped_count(1) [OF pb, of k] by (simp add: count_bump)
  with ls pb show ?thesis by blast
qed

theorem reserve_fault_exact_witness:
  "\<exists>e held s'. reserve_ledgers mem_client 0 [\<lparr>l_scope = None, l_prefix = None,
        l_caps = \<lparr>cap_day = Some 1, cap_week = None, cap_month = None\<rparr>, l_pct = None, l_reason = []\<rparr>]
        [] (mem_init\<lparr>m_fail := (\<lambda>_. None)(INCR \<mapsto> 1)\<rparr>) = (Inl e, held, s') \<and> held = []"
proof -
  let ?l = "\<lparr>l_scope = None, l_prefix = None, l_caps = \<lparr>cap_day = Some 1, cap_week = None, cap_month = None\<rparr>,
    l_pct = None, l_reason = []\<rparr>"
  let ?s = "mem_init\<lparr>m_fail := (\<lambda>_. None)(INCR \<mapsto> 1)\<rparr>"
  obtain e held s' where r: "reserve_ledgers mem_client 0 [?l] [] ?s = (Inl e, held, s')"
    by (simp add: reserve_budget_def active_windows_def mem_run)
  from reserve_fault_exact [OF mem.counter_store_axioms r] have "held = []"
    by (auto simp: Cons_eq_append_conv)
  with r show ?thesis by blast
qed

lemma week_key_plain:
  assumes "plain_year (utc_day t)" "plain_year (monday_of (utc_day t))"
  shows "week_key t p = p @ '':w:'' @ iso_date (monday_of (utc_day t))"
proof -
  obtain y m d where c: "civil (utc_day t) = (y, m, d)" by (cases "civil (utc_day t)") auto
  have "99 < y" using civil_spec(1) [OF c] assms(1) by (auto simp: plain_year_def)
  then have "date_utc y (int m) d = utc_day t" by (intro date_utc_civil [OF c]) simp
  moreover have "utc_day (monday_of (utc_day t) * day_ms) = monday_of (utc_day t)"
    by (simp add: utc_day_def day_ms_def)
  ultimately show ?thesis using assms(2) take_iso_text_date [of "monday_of (utc_day t) * day_ms"]
    by (simp add: week_key_def c Let_def monday_of_def)
qed

lemma day_key_plain: "plain_year (utc_day t) \<Longrightarrow> day_key t p = p @ '':'' @ iso_date (utc_day t)"
  by (simp add: day_key_def)

lemma month_key_plain:
  assumes "plain_year (utc_day t)" "civil (utc_day t) = (y, m, d)"
  shows "month_key t p = p @ '':m:'' @ iso_month y m"
  by (simp add: month_key_def take_iso_text_month [OF assms])

text \<open>
  In the years 100 to 9999 a day key identifies the UTC day, a week key the week from its
  Monday and a month key the year and month; the keys of different windows, the token counter's
  included, never meet.
\<close>

theorem keys_identify_windows:
  assumes "plain_year (utc_day t)" "plain_year (utc_day u)"
    and "plain_year (monday_of (utc_day t))" "plain_year (monday_of (utc_day u))"
  shows "(day_key t p = day_key u p \<longleftrightarrow> utc_day t = utc_day u)
    \<and> (week_key t p = week_key u p \<longleftrightarrow> monday_of (utc_day t) = monday_of (utc_day u))
    \<and> (month_key t p = month_key u p \<longleftrightarrow>
         fst (civil (utc_day t)) = fst (civil (utc_day u)) \<and> fst (snd (civil (utc_day t))) = fst (snd (civil (utc_day u))))
    \<and> distinct [day_key t p, week_key u p, month_key t p, token_day_key u p]"
proof -
  obtain y m d where ct: "civil (utc_day t) = (y, m, d)" by (cases "civil (utc_day t)") auto
  obtain z n e where cu: "civil (utc_day u) = (z, n, e)" by (cases "civil (utc_day u)") auto
  have yr: "0 \<le> y" "y \<le> 9999" "0 \<le> z" "z \<le> 9999"
    using assms(1,2) civil_spec(1) [OF ct] civil_spec(1) [OF cu] by (auto simp: plain_year_def)
  have w: "week_key t p = week_key u p \<longleftrightarrow> monday_of (utc_day t) = monday_of (utc_day u)"
    using assms by (simp add: week_key_plain iso_date_inj)
  have d: "day_key t p = day_key u p \<longleftrightarrow> utc_day t = utc_day u"
    using assms(1,2) by (simp add: day_key_def iso_date_inj)
  have mo: "month_key t p = month_key u p \<longleftrightarrow> y = z \<and> m = n"
    using assms(1,2) yr by (simp add: month_key_def take_iso_text_month [OF _ ct] take_iso_text_month [OF _ cu] iso_month_inj)
  have ds: "distinct [day_key t p, week_key u p, month_key t p, token_day_key u p]"
    using window_keys_distinct by (simp add: not_sym)
  show ?thesis using w d mo ds by (simp add: ct cu)
qed

lemma day_of_1970 [simp]: "year_of_day 0 = 1970" "year_of_day 1 = 1970" "year_of_day (- 3) = 1969"
  by (simp_all add: year_of_day_def year_up.simps [of 1970 0] year_up.simps [of 1970 1]
      year_up.simps [of 1969 "- 3"] day_from_year_def)

theorem keys_identify_windows_witness:
  "day_key 0 ''budget'' \<noteq> day_key day_ms ''budget'' \<and> week_key 0 ''budget'' = week_key day_ms ''budget''"
proof -
  have u: "utc_day 0 = 0" "utc_day day_ms = 1" by (simp_all add: utc_day_def day_ms_def)
  have m: "monday_of 0 = - 3" "monday_of 1 = - 3" by (simp_all add: monday_of_def weekday_def)
  have pl: "plain_year 0" "plain_year 1" "plain_year (- 3)" by (simp_all add: plain_year_def)
  show ?thesis
    using keys_identify_windows [of 0 day_ms "''budget''"] by (simp add: u m pl)
qed

text \<open>
  The daily token cap is read before a job and written after it: the check changes no counter
  and refuses exactly when the tokens recorded so far reach the cap, and recording adds the job's
  tokens to the day's token counter and to no other key.
\<close>

theorem token_cap_lags:
  assumes "counter_store C val"
  shows "(check_token_cap C (Some cap) now p s = (Inr r, s1) \<longrightarrow>
            val s1 = val s \<and> (tc_allowed r \<longleftrightarrow> count_at (val s) (token_day_key now p) < cap))
    \<and> (record_token_spend C n now p s = (Inr v, s2) \<longrightarrow>
            v = count_at (val s) (token_day_key now p) + n
            \<and> val s2 = add_at (val s) (token_day_key now p) n)"
proof -
  have chk: "val s1 = val s \<and> (tc_allowed r \<longleftrightarrow> count_at (val s) (token_day_key now p) < cap)"
    if h: "check_token_cap C (Some cap) now p s = (Inr r, s1)"
  proof -
    obtain w s3 where g: "c_get C (token_day_key now p) s = (Inr w, s3)"
      using h by (auto simp: check_token_cap_def split: prod.splits sum.splits)
    have "w = val s (token_day_key now p) \<and> val s3 = val s" by (rule counter_store.get_ok [OF assms g])
    with h g show ?thesis
      by (auto simp: check_token_cap_def Let_def count_at_def split: option.splits if_splits)
  qed
  have rec: "v = count_at (val s) (token_day_key now p) + n \<and> val s2 = add_at (val s) (token_day_key now p) n"
    if h: "record_token_spend C n now p s = (Inr v, s2)"
  proof -
    obtain w s3 where g: "c_incrby C (token_day_key now p) n s = (Inr w, s3)"
      using h by (auto simp: record_token_spend_def Let_def split: prod.splits sum.splits)
    obtain x s4 where e: "(if w = n then c_expire C (token_day_key now p) day_ttl_seconds s3 else (Inr (), s3)) = (x, s4)"
      by fastforce
    have "val s4 = val s3" by (rule counter_store.maybe_expire_val [OF assms e])
    moreover have "v = w \<and> s2 = s4"
      using h g e by (cases x) (auto simp: record_token_spend_def Let_def)
    ultimately show ?thesis using counter_store.incrby_ok [OF assms g] by auto
  qed
  show ?thesis using chk rec by blast
qed

theorem token_cap_lags_witness:
  "\<exists>r s1. check_token_cap mem_client (Some 5) 0 ''budget'' mem_init = (Inr r, s1) \<and> tc_allowed r"
proof -
  obtain r s1 where r: "check_token_cap mem_client (Some 5) 0 ''budget'' mem_init = (Inr r, s1)"
    by (simp add: check_token_cap_def mem_run)
  have "tc_allowed r" using token_cap_lags [OF mem.counter_store_axioms, of 5 0 "''budget''" mem_init r s1] r
    by (simp add: mem_init_def)
  with r show ?thesis by blast
qed

end
