(* ===== verification/BudgetRace.thy ===== *)
theory BudgetRace
  imports JobBudget
begin

text \<open>
  Jobs that reserve at the same time. One step is one command of \<open>reserveBudget\<close> or
  \<open>releaseBudget\<close> (worker/src/budget.mjs) answered by the server, sent by one job; which job
  moves next is not determined. The commands are the only atomic steps: nothing locks a window
  between a job's INCR and its verdict. The invariant says that the counter of a window is at
  least the number of jobs that still hold a slot in it, which bounds the containers that start.
\<close>

datatype phase =
    Fresh
  | Walking "window list" slots          \<comment> \<open>the windows still to INCR, and the slots so far\<close>
  | Marking window "window list" slots   \<comment> \<open>first write: the TTL is still to be set\<close>
  | Running                              \<comment> \<open>reserved: the container may start\<close>
  | Finished                             \<comment> \<open>ran; its slots stay consumed\<close>
  | Turned_away                          \<comment> \<open>refused; a refused slot is never given back\<close>
  | Releasing "window list"              \<comment> \<open>never started: the windows still to DECR\<close>
  | Ended
  | Failed                               \<comment> \<open>a command threw\<close>

record 's race =
  store :: 's
  phase :: "nat \<Rightarrow> phase"

inductive race_step :: "'s client \<Rightarrow> window list \<Rightarrow> int option \<Rightarrow> 's race \<Rightarrow> 's race \<Rightarrow> bool"
  for C ws pct where
  begin_walk:
    "phase r j = Fresh \<Longrightarrow>
     race_step C ws pct r (r\<lparr>phase := (phase r)(j := Walking ws Map.empty)\<rparr>)"
| incr:
    "phase r j = Walking (w # us) acc \<Longrightarrow> c_incr C (w_key w) (store r) = (Inr n, s') \<Longrightarrow>
     acc' = acc(w_name w \<mapsto> \<lparr>sl_reserved = n, sl_cap = w_cap w, sl_state = window_state n (w_cap w) pct\<rparr>) \<Longrightarrow>
     race_step C ws pct r
       (r\<lparr>store := s', phase := (phase r)(j := if n = 1 then Marking w us acc' else Walking us acc')\<rparr>)"
| incr_fault:
    "phase r j = Walking (w # us) acc \<Longrightarrow> c_incr C (w_key w) (store r) = (Inl e, s') \<Longrightarrow>
     race_step C ws pct r (r\<lparr>store := s', phase := (phase r)(j := Failed)\<rparr>)"
| mark:
    "phase r j = Marking w us acc \<Longrightarrow> c_expire C (w_key w) (w_ttl w) (store r) = (x, s') \<Longrightarrow>
     race_step C ws pct r
       (r\<lparr>store := s', phase := (phase r)(j := case x of Inl _ \<Rightarrow> Failed | Inr _ \<Rightarrow> Walking us acc)\<rparr>)"
| verdict:
    "phase r j = Walking [] acc \<Longrightarrow>
     race_step C ws pct r
       (r\<lparr>phase := (phase r)(j := if br_allowed (judge_windows acc) then Running else Turned_away)\<rparr>)"
| finish:
    "phase r j = Running \<Longrightarrow> race_step C ws pct r (r\<lparr>phase := (phase r)(j := Finished)\<rparr>)"
| refund:
    "phase r j = Running \<Longrightarrow> race_step C ws pct r (r\<lparr>phase := (phase r)(j := Releasing ws)\<rparr>)"
| decr:
    "phase r j = Releasing (w # us) \<Longrightarrow> c_decr C (w_key w) (store r) = (x, s') \<Longrightarrow>
     race_step C ws pct r
       (r\<lparr>store := s', phase := (phase r)(j := case x of Inl _ \<Rightarrow> Failed | Inr _ \<Rightarrow> Releasing us)\<rparr>)"
| released:
    "phase r j = Releasing [] \<Longrightarrow> race_step C ws pct r (r\<lparr>phase := (phase r)(j := Ended)\<rparr>)"

inductive race_reachable :: "'s client \<Rightarrow> window list \<Rightarrow> int option \<Rightarrow> 's \<Rightarrow> 's race \<Rightarrow> bool"
  for C ws pct s0 where
  start: "race_reachable C ws pct s0 \<lparr>store = s0, phase = (\<lambda>_. Fresh)\<rparr>"
| more: "race_reachable C ws pct s0 r \<Longrightarrow> race_step C ws pct r r' \<Longrightarrow> race_reachable C ws pct s0 r'"

definition started :: "phase \<Rightarrow> bool" where
  "started p \<longleftrightarrow> p = Running \<or> p = Finished"

text \<open>Job phases that hold a slot of a window within its cap.\<close>

fun holds :: "window \<Rightarrow> phase \<Rightarrow> bool" where
  "holds w (Walking us acc) \<longleftrightarrow> w \<notin> set us \<and> (\<exists>x. acc (w_name w) = Some x \<and> sl_state x \<noteq> Over)"
| "holds w (Marking v us acc) \<longleftrightarrow> w \<notin> set us \<and> (\<exists>x. acc (w_name w) = Some x \<and> sl_state x \<noteq> Over)"
| "holds w Running \<longleftrightarrow> True"
| "holds w Finished \<longleftrightarrow> True"
| "holds w (Releasing us) \<longleftrightarrow> w \<in> set us"
| "holds w _ \<longleftrightarrow> False"

fun walked :: "window list \<Rightarrow> phase \<Rightarrow> bool" where
  "walked ws (Walking us acc) \<longleftrightarrow> (\<exists>ds. ws = ds @ us \<and> (\<forall>w \<in> set ds. acc (w_name w) \<noteq> None))"
| "walked ws (Marking v us acc) \<longleftrightarrow> (\<exists>ds. ws = ds @ us \<and> (\<forall>w \<in> set ds. acc (w_name w) \<noteq> None))"
| "walked ws (Releasing us) \<longleftrightarrow> (\<exists>ds. ws = ds @ us)"
| "walked ws _ \<longleftrightarrow> True"

abbreviation holders :: "window \<Rightarrow> (nat \<Rightarrow> phase) \<Rightarrow> nat set" where
  "holders w ph \<equiv> {j. holds w (ph j)}"

definition bounded :: "(key \<Rightarrow> int option) \<Rightarrow> (nat \<Rightarrow> phase) \<Rightarrow> window \<Rightarrow> bool" where
  "bounded m ph w \<longleftrightarrow> finite (holders w ph) \<and> int (card (holders w ph)) \<le> count_at m (w_key w) \<and>
     int (card (holders w ph)) \<le> max 0 (w_cap w)"

definition race_inv :: "window list \<Rightarrow> (key \<Rightarrow> int option) \<Rightarrow> (nat \<Rightarrow> phase) \<Rightarrow> bool" where
  "race_inv ws m ph \<longleftrightarrow> (\<forall>j. walked ws (ph j)) \<and> (\<forall>w \<in> set ws. bounded m ph w)"

lemma bounded_same: "bounded m ph w \<Longrightarrow> holds w p = holds w (ph j) \<Longrightarrow> bounded m (ph(j := p)) w"
proof -
  assume b: "bounded m ph w" and h: "holds w p = holds w (ph j)"
  have "holders w (ph(j := p)) = holders w ph" using h by auto
  with b show ?thesis unfolding bounded_def by simp
qed

lemma bounded_drop:
  assumes b: "bounded m ph w" and p: "\<not> holds w p"
    and m: "count_at m' (w_key w) = count_at m (w_key w) \<or>
            (holds w (ph j) \<and> count_at m' (w_key w) = count_at m (w_key w) - 1) \<or>
            count_at m (w_key w) \<le> count_at m' (w_key w)"
  shows "bounded m' (ph(j := p)) w"
proof -
  have h: "holders w (ph(j := p)) = holders w ph - {j}" using p by auto
  have f: "finite (holders w ph)" using b by (simp add: bounded_def)
  have c: "card (holders w ph - {j}) = (if holds w (ph j) then card (holders w ph) - 1 else card (holders w ph))"
    using f by auto
  have pos: "holds w (ph j) \<Longrightarrow> 0 < card (holders w ph)"
    using f card_gt_0_iff by fastforce
  show ?thesis
    using b m pos f unfolding bounded_def h c by (auto split: if_splits)
qed

lemma bounded_take:
  assumes b: "bounded m ph w" and j: "\<not> holds w (ph j)" and p: "holds w p"
    and v: "count_at m' (w_key w) = count_at m (w_key w) + 1" and cap: "count_at m (w_key w) + 1 \<le> w_cap w"
  shows "bounded m' (ph(j := p)) w"
proof -
  have h: "holders w (ph(j := p)) = insert j (holders w ph)" using p by auto
  have f: "finite (holders w ph)" using b by (simp add: bounded_def)
  have c: "card (insert j (holders w ph)) = Suc (card (holders w ph))" using f j by simp
  show ?thesis using b v cap f unfolding bounded_def h c by auto
qed

lemma race_inv_upd:
  assumes "race_inv ws m ph" "walked ws p" "\<And>w. w \<in> set ws \<Longrightarrow> bounded m ph w \<Longrightarrow> bounded m' (ph(j := p)) w"
  shows "race_inv ws m' (ph(j := p))"
  using assms by (auto simp: race_inv_def)

lemma bounded_count_cong:
  "count_at m' (w_key w) = count_at m (w_key w) \<Longrightarrow> bounded m' ph w \<longleftrightarrow> bounded m ph w"
  by (simp add: bounded_def)

lemma distinct_key_eq:
  "distinct (map f ws) \<Longrightarrow> w \<in> set ws \<Longrightarrow> w' \<in> set ws \<Longrightarrow> f w = f w' \<longleftrightarrow> w = w'"
  by (auto simp: distinct_map inj_on_def)

context counter_store
begin

lemma incr_bounded:
  assumes d: "distinct (map w_key ws)" "distinct (map w_name ws)"
    and wk: "walked ws (Walking (w # us) acc)" and w': "w' \<in> set ws"
    and b: "bounded (val s) ph w'" and ph: "ph j = Walking (w # us) acc"
    and i: "c_incr C (w_key w) s = (Inr n, s')"
    and acc': "acc' = acc(w_name w \<mapsto> \<lparr>sl_reserved = n, sl_cap = w_cap w, sl_state = window_state n (w_cap w) pct\<rparr>)"
    and p: "p = (if n = 1 then Marking w us acc' else Walking us acc')"
  shows "bounded (val s') (ph(j := p)) w'"
proof -
  have w: "w \<in> set ws" and nin: "w \<notin> set us"
    using wk d(1) by (auto simp: distinct_map)
  have v: "n = count_at (val s) (w_key w) + 1" "val s' = add_at (val s) (w_key w) 1"
    using incr_ok [OF i] by auto
  have hp: "holds x p \<longleftrightarrow> x \<notin> set us \<and> (\<exists>y. acc' (w_name x) = Some y \<and> sl_state y \<noteq> Over)" for x
    by (simp add: p)
  show ?thesis
  proof (cases "w' = w")
    case True
    have before: "\<not> holds w (ph j)" by (simp add: ph)
    show ?thesis
    proof (cases "n \<le> w_cap w")
      case in_cap: True
      then have "holds w p" using nin by (simp add: hp acc' window_state_Over)
      with b before v in_cap show ?thesis unfolding True by (intro bounded_take) auto
    next
      case False
      then have "\<not> holds w p" by (simp add: hp acc' window_state_Over)
      with b v show ?thesis unfolding True by (intro bounded_drop) auto
    qed
  next
    case False
    then have k: "w_key w' \<noteq> w_key w" and nm: "w_name w' \<noteq> w_name w"
      using distinct_key_eq [OF d(1) w' w] distinct_key_eq [OF d(2) w' w] by auto
    have "holds w' p = holds w' (ph j)" using False nm by (auto simp: hp acc' ph)
    moreover have "bounded (val s') ph w'" using b v k by (subst bounded_count_cong [of _ _ "val s"]) auto
    ultimately show ?thesis by (rule bounded_same [rotated])
  qed
qed

lemma race_step_inv:
  assumes "race_step C ws pct r r'" "race_inv ws (val (store r)) (phase r)"
    and d: "distinct (map w_key ws)" "distinct (map w_name ws)"
  shows "race_inv ws (val (store r')) (phase r')"
  using assms(1,2)
proof (induction rule: race_step.induct)
  case (begin_walk r j)
  have "race_inv ws (val (store r)) ((phase r)(j := Walking ws Map.empty))"
    by (rule race_inv_upd [OF begin_walk.prems])
      (auto intro: bounded_same simp: begin_walk.hyps simp del: fun_upd_apply)
  then show ?case by (simp del: fun_upd_apply)
next
  case (incr r j w us acc n s' acc')
  have wk: "walked ws (Walking (w # us) acc)" using incr.prems incr.hyps(1) by (metis race_inv_def)
  then obtain ds where ds: "ws = ds @ w # us" "\<forall>x \<in> set ds. acc (w_name x) \<noteq> None" by auto
  let ?p = "if n = 1 then Marking w us acc' else Walking us acc'"
  have "ws = (ds @ [w]) @ us \<and> (\<forall>x \<in> set (ds @ [w]). acc' (w_name x) \<noteq> None)"
    using ds incr.hyps(3) by auto
  then have "walked ws ?p" by (cases "n = 1") (auto intro: exI [of _ "ds @ [w]"])
  moreover have "bounded (val s') ((phase r)(j := ?p)) x"
    if "x \<in> set ws" "bounded (val (store r)) (phase r) x" for x
    by (rule incr_bounded [where ph = "phase r", OF d wk that incr.hyps(1,2,3)]) simp
  ultimately have "race_inv ws (val s') ((phase r)(j := ?p))"
    by (rule race_inv_upd [OF incr.prems])
  then show ?case by (simp del: fun_upd_apply)
next
  case (incr_fault r j w us acc e s')
  have c: "count_at (val s') k = count_at (val (store r)) k \<or> count_at (val s') k = count_at (val (store r)) k + 1" for k
    using incr_err [OF incr_fault.hyps(2)] by auto
  have "bounded (val s') ((phase r)(j := Failed)) x" if "bounded (val (store r)) (phase r) x" for x
    using c [of "w_key x"] by (intro bounded_drop [OF that]) auto
  then have "race_inv ws (val s') ((phase r)(j := Failed))"
    by (intro race_inv_upd [OF incr_fault.prems]) auto
  then show ?case by (simp del: fun_upd_apply)
next
  case (mark r j w us acc x s')
  have v: "val s' = val (store r)" using expire_val [OF mark.hyps(2)] .
  have wk: "walked ws (Marking w us acc)" using mark.prems mark.hyps(1) by (metis race_inv_def)
  let ?p = "case x of Inl _ \<Rightarrow> Failed | Inr _ \<Rightarrow> Walking us acc"
  have "bounded (val s') ((phase r)(j := ?p)) y" if "bounded (val (store r)) (phase r) y" for y
  proof (cases x)
    case (Inl e)
    with v show ?thesis by (intro bounded_drop [OF that]) auto
  next
    case (Inr u)
    have "bounded (val s') (phase r) y" using that v by simp
    with Inr mark.hyps(1) show ?thesis by (intro bounded_same) auto
  qed
  moreover have "walked ws ?p" using wk by (cases x) auto
  ultimately have "race_inv ws (val s') ((phase r)(j := ?p))"
    by (intro race_inv_upd [OF mark.prems]) auto
  then show ?case by (simp del: fun_upd_apply)
next
  case (verdict r j acc)
  let ?p = "if br_allowed (judge_windows acc) then Running else Turned_away"
  have wk: "walked ws (Walking [] acc)" using verdict.prems verdict.hyps by (metis race_inv_def)
  have "bounded (val (store r)) ((phase r)(j := ?p)) w"
    if w: "w \<in> set ws" and b: "bounded (val (store r)) (phase r) w" for w
  proof (cases "br_allowed (judge_windows acc)")
    case True
    obtain y where "acc (w_name w) = Some y" "sl_state y = Ok"
      using wk w True by (auto simp: judge_windows_cases)
    then have "holds w (phase r j)" by (simp add: verdict.hyps)
    with True b show ?thesis by (simp add: bounded_same)
  next
    case False
    then show ?thesis by (intro bounded_drop [OF b]) auto
  qed
  then have "race_inv ws (val (store r)) ((phase r)(j := ?p))"
    by (intro race_inv_upd [OF verdict.prems]) auto
  then show ?case by (simp del: fun_upd_apply)
next
  case (finish r j)
  have "race_inv ws (val (store r)) ((phase r)(j := Finished))"
    by (rule race_inv_upd [OF finish.prems])
      (auto intro: bounded_same simp: finish.hyps simp del: fun_upd_apply)
  then show ?case by (simp del: fun_upd_apply)
next
  case (refund r j)
  have "race_inv ws (val (store r)) ((phase r)(j := Releasing ws))"
    by (rule race_inv_upd [OF refund.prems])
      (auto intro: bounded_same simp: refund.hyps simp del: fun_upd_apply)
  then show ?case by (simp del: fun_upd_apply)
next
  case (decr r j w us x s')
  have wk: "walked ws (Releasing (w # us))" using decr.prems decr.hyps(1) by (metis race_inv_def)
  then obtain ds where ds: "ws = ds @ w # us" by auto
  have nin: "w \<notin> set us" using ds d(1) by (auto simp: distinct_map)
  have v: "val s' = val (store r) \<and> x \<noteq> Inr (case x of Inr n \<Rightarrow> n) \<or> val s' = add_at (val (store r)) (w_key w) (- 1)"
    using decr_ok decr_err decr.hyps(2) by (cases x) (blast, blast)
  let ?p = "case x of Inl _ \<Rightarrow> Failed | Inr _ \<Rightarrow> Releasing us"
  have b': "bounded (val s') ((phase r)(j := ?p)) w'"
    if w': "w' \<in> set ws" and b: "bounded (val (store r)) (phase r) w'" for w'
  proof (cases "w' = w")
    case True
    have "\<not> holds w ?p" using nin by (cases x) auto
    moreover have "holds w (phase r j)" by (simp add: decr.hyps(1))
    ultimately show ?thesis using v b unfolding True by (auto intro!: bounded_drop)
  next
    case False
    then have k: "w_key w' \<noteq> w_key w" using distinct_key_eq [OF d(1) w', of w] ds by auto
    have cnt: "count_at (val s') (w_key w') = count_at (val (store r)) (w_key w')" using v k by auto
    show ?thesis
    proof (cases x)
      case (Inl e)
      then show ?thesis using cnt by (intro bounded_drop [OF b]) auto
    next
      case (Inr n)
      have "bounded (val s') (phase r) w'" using b bounded_count_cong [OF cnt] by blast
      then show ?thesis using False Inr decr.hyps(1) by (intro bounded_same) auto
    qed
  qed
  have "walked ws ?p" using ds by (cases x) auto
  with b' have "race_inv ws (val s') ((phase r)(j := ?p))"
    by (intro race_inv_upd [OF decr.prems]) auto
  then show ?case by (simp del: fun_upd_apply)
next
  case (released r j)
  have "race_inv ws (val (store r)) ((phase r)(j := Ended))"
    by (rule race_inv_upd [OF released.prems])
      (auto intro: bounded_same simp: released.hyps simp del: fun_upd_apply)
  then show ?case by (simp del: fun_upd_apply)
qed

end

section \<open>No container starts over budget\<close>

lemma race_inv_start:
  assumes "\<And>k. 0 \<le> count_at m k"
  shows "race_inv ws m (\<lambda>_. Fresh)"
  using assms by (auto simp: race_inv_def bounded_def)

lemma race_reachable_inv:
  assumes st: "counter_store C val" and d: "distinct (map w_key ws)" "distinct (map w_name ws)"
    and nn: "\<And>k. 0 \<le> count_at (val s0) k" and r: "race_reachable C ws pct s0 r"
  shows "race_inv ws (val (store r)) (phase r)"
  using r
proof (induction rule: race_reachable.induct)
  case start
  show ?case using race_inv_start [OF nn] by simp
next
  case (more r r')
  show ?case by (rule counter_store.race_step_inv [OF st more.hyps(2) more.IH d])
qed

lemma started_holds: "started p \<Longrightarrow> holds w p"
  by (auto simp: started_def)

text \<open>
  C1: However the commands of any number of jobs interleave, and whichever of them throw, the jobs
  whose container was let start never outnumber the cap of any active window (a cap of 0 or below
  lets none start): no lock is needed because a job is let start only on a count its own INCR
  returned.
\<close>

theorem no_start_over_cap:
  assumes "counter_store C val"
    and "race_reachable C (active_windows c now p) pct s0 r"
    and "\<And>k. 0 \<le> count_at (val s0) k"
    and "w \<in> set (active_windows c now p)"
  shows "finite {j. started (phase r j)} \<and> int (card {j. started (phase r j)}) \<le> max 0 (w_cap w)"
proof -
  have "bounded (val (store r)) (phase r) w"
    using race_reachable_inv [OF assms(1) active_windows_distinct assms(3,2)] assms(4)
    by (simp add: race_inv_def)
  then have f: "finite (holders w (phase r))" and le: "int (card (holders w (phase r))) \<le> max 0 (w_cap w)"
    by (auto simp: bounded_def)
  have sub: "{j. started (phase r j)} \<subseteq> holders w (phase r)" by (auto intro: started_holds)
  show ?thesis using finite_subset [OF sub f] card_mono [OF f sub] le by linarith
qed

text \<open>A run in which job 0 reserves the one slot of a day and starts.\<close>

lemma race_example:
  "\<exists>r. race_reachable mem_client (active_windows \<lparr>cap_day = Some 1, cap_week = None, cap_month = None\<rparr> 0 p) None mem_init r
     \<and> phase r 0 = Running"
proof -
  let ?ws = "active_windows \<lparr>cap_day = Some 1, cap_week = None, cap_month = None\<rparr> 0 p"
  obtain w where ws: "?ws = [w]" and cap: "w_cap w = 1" by (simp add: active_windows_def)
  let ?acc = "[w_name w \<mapsto> \<lparr>sl_reserved = 1, sl_cap = w_cap w, sl_state = window_state 1 (w_cap w) None\<rparr>]"
  obtain s1 where i: "c_incr mem_client (w_key w) mem_init = (Inr 1, s1)" and f: "m_fail s1 = (\<lambda>_. None)"
    by (simp add: mem_run)
  obtain s2 where e: "c_expire mem_client (w_key w) (w_ttl w) s1 = (Inr (), s2)"
    using f by (simp add: mem_run)
  let ?r0 = "\<lparr>store = mem_init, phase = (\<lambda>_. Fresh)\<rparr> :: mem race"
  let ?r1 = "?r0\<lparr>phase := (phase ?r0)(0 := Walking [w] Map.empty)\<rparr>"
  let ?r2 = "?r1\<lparr>store := s1, phase := (phase ?r1)(0 := Marking w [] ?acc)\<rparr>"
  let ?r3 = "?r2\<lparr>store := s2, phase := (phase ?r2)(0 := Walking [] ?acc)\<rparr>"
  let ?r4 = "?r3\<lparr>phase := (phase ?r3)(0 := Running)\<rparr>"
  have allowed: "br_allowed (judge_windows ?acc)"
    by (auto simp: judge_windows_cases window_state_def cap)
  have "race_step mem_client [w] None ?r0 ?r1" by (rule race_step.begin_walk) simp
  moreover have "race_step mem_client [w] None ?r1 ?r2"
    using race_step.incr [of ?r1 0 w "[]" Map.empty mem_client 1 s1 ?acc None "[w]"] i by simp
  moreover have "race_step mem_client [w] None ?r2 ?r3"
    using race_step.mark [of ?r2 0 w "[]" ?acc mem_client "Inr ()" s2 "[w]" None] e by simp
  moreover have "race_step mem_client [w] None ?r3 ?r4"
    using race_step.verdict [of ?r3 0 ?acc mem_client "[w]" None] allowed by simp
  moreover have "race_reachable mem_client [w] None mem_init ?r0" by (rule race_reachable.start)
  ultimately have "race_reachable mem_client [w] None mem_init ?r4"
    by (blast intro: race_reachable.more)
  then show ?thesis unfolding ws by (intro exI [of _ ?r4]) simp
qed

theorem no_start_over_cap_witness:
  "\<exists>r. phase r 0 = Running \<and>
     race_reachable mem_client (active_windows \<lparr>cap_day = Some 1, cap_week = None, cap_month = None\<rparr> 0 ''budget'') None mem_init r
     \<and> card {j. started (phase r j)} \<le> 1"
proof -
  let ?c = "\<lparr>cap_day = Some 1, cap_week = None, cap_month = None\<rparr>"
  obtain r where r: "race_reachable mem_client (active_windows ?c 0 ''budget'') None mem_init r" "phase r 0 = Running"
    using race_example by blast
  obtain w where w: "w \<in> set (active_windows ?c 0 ''budget'')" "w_cap w = 1"
    by (simp add: active_windows_def)
  have "card {j. started (phase r j)} \<le> 1"
    using no_start_over_cap [OF mem.counter_store_axioms r(1) _ w(1)] w(2) by (simp add: mem_init_def)
  with r show ?thesis by blast
qed

end
