(* ===== verification/Decimal.thy ===== *)
theory Decimal
  imports Prelude
begin

text \<open>
  Plain decimals as the settings are written (\<open>0.5\<close>, \<open>12\<close>, \<open>1.25\<close>): the pattern shared by
  the dollar amounts and the CPU sizes, the trailing zeros a printer strips and a reader pads back,
  and the facts both round trips rest on.
\<close>

text \<open>\<open>/^(0|[1-9]\d{0,mw-1})(\.\d{1,mf})?$/\<close>: the two groups of a match.\<close>

definition decimal_pattern :: "nat \<Rightarrow> nat \<Rightarrow> string \<Rightarrow> (string \<times> string option) option" where
  "decimal_pattern mw mf text =
     (let w = takeWhile is_digit text; rest = dropWhile is_digit text
      in if w = ''0'' \<or> (w \<noteq> [] \<and> hd w \<noteq> CHR ''0'' \<and> length w \<le> mw)
         then (case rest of
                 [] \<Rightarrow> Some (w, None)
               | c # f \<Rightarrow> if c = CHR ''.'' \<and> list_all is_digit f \<and> 1 \<le> length f \<and> length f \<le> mf
                          then Some (w, Some (c # f)) else None)
         else None)"

definition strip_zeros :: "string \<Rightarrow> string" where
  "strip_zeros s = rev (dropWhile (\<lambda>c. c = CHR ''0'') (rev s))"

lemma strip_zeros_snoc [simp]:
  "strip_zeros [] = []" "strip_zeros (s @ [c]) = (if c = CHR ''0'' then strip_zeros s else s @ [c])"
  by (simp_all add: strip_zeros_def)

lemma length_strip: "length (strip_zeros s) \<le> length s"
  using length_dropWhile_le [of _ "rev s"] by (simp add: strip_zeros_def)

lemma strip_zeros_split: "s = strip_zeros s @ replicate (length s - length (strip_zeros s)) (CHR ''0'')"
proof (induction s rule: rev_induct)
  case Nil
  show ?case by simp
next
  case (snoc c s)
  show ?case
  proof (cases "c = CHR ''0''")
    case True
    have "Suc (length s) - length (strip_zeros s) = Suc (length s - length (strip_zeros s))"
      using length_strip [of s] by simp
    then have "strip_zeros s @ replicate (Suc (length s) - length (strip_zeros s)) (CHR ''0'')
        = (strip_zeros s @ replicate (length s - length (strip_zeros s)) (CHR ''0'')) @ [CHR ''0'']"
      by (simp add: replicate_append_same)
    with True snoc.IH show ?thesis by simp
  next
    case False
    then show ?thesis by simp
  qed
qed

lemma pad_end_pad_end: "m \<le> n \<Longrightarrow> pad_end n c (pad_end m c s) = pad_end n c s"
  by (simp add: pad_end_def replicate_add [symmetric])

lemma pad_end_strip: "length s = n \<Longrightarrow> pad_end n (CHR ''0'') (strip_zeros s) = s"
  using strip_zeros_split [of s] by (simp add: pad_end_def)

lemma set_strip: "set (strip_zeros s) \<subseteq> set s"
  by (auto simp: strip_zeros_def dest: set_dropWhileD)

lemma nat_text_head: "n \<noteq> 0 \<Longrightarrow> hd (nat_text n) \<noteq> CHR ''0''"
proof (induction n rule: nat_text.induct)
  case (1 n)
  show ?case
  proof (cases "n < 10")
    case True
    then have "digit_char n \<noteq> digit_char 0" using 1 digit_char_inj [of n 0] by simp
    with True show ?thesis by (simp add: nat_text.simps [of n] digit_char_def)
  next
    case False
    with 1 show ?thesis by (simp add: nat_text.simps [of n])
  qed
qed

lemma takeWhile_digits:
  "\<forall>c \<in> set w. is_digit c \<Longrightarrow> takeWhile is_digit (w @ CHR ''.'' # f) = w \<and> dropWhile is_digit (w @ CHR ''.'' # f) = CHR ''.'' # f"
  by (auto simp: takeWhile_append dropWhile_append is_digit_def)

lemma decimal_pattern_text:
  assumes "length (nat_text n) \<le> mw" "list_all is_digit f" "1 \<le> length f" "length f \<le> mf"
  shows "decimal_pattern mw mf (nat_text n @ ''.'' @ f) = Some (nat_text n, Some (CHR ''.'' # f))"
proof -
  have tw: "takeWhile is_digit (nat_text n @ CHR ''.'' # f) = nat_text n"
    "dropWhile is_digit (nat_text n @ CHR ''.'' # f) = CHR ''.'' # f"
    using takeWhile_digits [of "nat_text n" f] nat_text_digits by auto
  have "nat_text n = ''0'' \<or> hd (nat_text n) \<noteq> CHR ''0''"
    using nat_text_head [of n] by (cases "n = 0") (simp_all add: nat_text.simps [of 0] digit_char_def)
  with tw assms show ?thesis by (auto simp: decimal_pattern_def Let_def)
qed

lemma text_nat_pad_end:
  "length f \<le> n \<Longrightarrow> text_nat (pad_end n (CHR ''0'') f) = text_nat f * 10 ^ (n - length f)"
  by (simp add: pad_end_def text_nat_append)

lemma decimal_pattern_shape:
  assumes "decimal_pattern mw mf t = Some (w, g)"
  shows "\<exists>f. (g = None \<and> f = [] \<and> t = w \<or> g = Some (CHR ''.'' # f) \<and> f \<noteq> [] \<and> t = w @ CHR ''.'' # f)
    \<and> list_all is_digit (w @ f) \<and> length f \<le> mf \<and> length w \<le> max 1 mw"
proof -
  have w: "w = takeWhile is_digit t" and le: "length w \<le> max 1 mw"
    using assms by (auto simp: decimal_pattern_def Let_def split: if_splits list.splits)
  have dw: "\<forall>c \<in> set w. is_digit c" unfolding w by (auto dest: set_takeWhileD)
  have t: "t = w @ dropWhile is_digit t" by (simp add: w)
  show ?thesis
  proof (cases "dropWhile is_digit t")
    case Nil
    then have "g = None"
      using assms by (simp add: decimal_pattern_def Let_def del: dropWhile_eq_Nil_conv split: if_splits)
    moreover have "t = w" using t unfolding Nil by simp
    ultimately show ?thesis using dw le by (intro exI [of _ "[]"]) (auto simp: list_all_iff)
  next
    case (Cons c f)
    then have "g = Some (c # f)" "c = CHR ''.''" "list_all is_digit f" "1 \<le> length f" "length f \<le> mf"
      using assms by (auto simp: decimal_pattern_def Let_def split: if_splits)
    with Cons t dw le show ?thesis by (intro exI [of _ f]) (auto simp: list_all_iff)
  qed
qed

end
