(* ===== verification/Money.thy ===== *)
theory Money
  imports Decimal
begin

text \<open>
  The money type (worker/src/money.mjs): dollar settings parsed into integer micro-dollars,
  printed back, and merged into the cap a job runs under. A setting arrives as a JavaScript
  value: a string, a finite number (given by the decimal text \<open>String\<close> prints for it, which is
  all the code reads of it), nothing (null or undefined), or anything else.
\<close>

datatype usd_value = Usd_text string | Usd_number string | Usd_absent | Usd_other

datatype config_error = Config_error string | Type_error string

definition micros_per_usd :: int where "micros_per_usd = 1000000"

definition max_usd_micros :: int where "max_usd_micros = 1000000 * micros_per_usd"

text \<open>\<open>/^(0|[1-9]\d{0,6})(\.\d{1,6})?$/\<close>\<close>

definition usd_pattern :: "string \<Rightarrow> (string \<times> string option) option" where
  "usd_pattern text = decimal_pattern 7 6 text"

fun usd_string :: "usd_value \<Rightarrow> string option" where
  "usd_string (Usd_text t) = Some t"
| "usd_string (Usd_number t) = Some t"
| "usd_string _ = None"

definition usd_refusal :: "string \<Rightarrow> config_error" where
  "usd_refusal key = Config_error (key @ '' must be a dollar amount above 0 and at most 1000000, with at most 6 decimals, written as a plain decimal (a string or a number)'')"

definition parse_usd_micros :: "usd_value \<Rightarrow> string \<Rightarrow> config_error + int" where
  "parse_usd_micros value key =
     (case Option.bind (usd_string value) usd_pattern of
        None \<Rightarrow> Inl (usd_refusal key)
      | Some (w, g) \<Rightarrow>
          (let whole = int (text_nat w);
               fraction = int (text_nat (pad_end 6 (CHR ''0'') (drop 1 (case g of None \<Rightarrow> ''.'' | Some f \<Rightarrow> f))));
               micros = whole * micros_per_usd + fraction
           in if micros > 0 \<and> micros \<le> max_usd_micros then Inr micros else Inl (usd_refusal key)))"

definition optional_usd_micros :: "usd_value \<Rightarrow> string \<Rightarrow> config_error + int option" where
  "optional_usd_micros value key =
     (if value = Usd_absent then Inr None else map_sum id Some (parse_usd_micros value key))"

definition format_micros :: "int \<Rightarrow> config_error + string" where
  "format_micros micros =
     (if \<not> is_safe micros \<or> micros < 0
      then Inl (Type_error ''formatMicros: want a non-negative safe integer'')
      else (let whole = micros div micros_per_usd;
                fraction = pad_end 2 (CHR ''0'')
                  (strip_zeros (pad_start 6 (CHR ''0'') (nat_text (nat (micros mod micros_per_usd)))))
            in Inr (nat_text (nat whole) @ ''.'' @ fraction)))"

record dollar_settings =
  max_cost :: usd_value
  daily_cost :: usd_value
  weekly_cost :: usd_value
  monthly_cost :: usd_value

text \<open>\<open>None\<close> is valid; otherwise the first window set without a per-job cap.\<close>

definition check_dollar_invariant :: "dollar_settings \<Rightarrow> string option" where
  "check_dollar_invariant st =
     (if max_cost st \<noteq> Usd_absent then None
      else map_option fst (find (\<lambda>(_, v). v \<noteq> Usd_absent)
        [(''dailyCostUsd'', daily_cost st), (''weeklyCostUsd'', weekly_cost st), (''monthlyCostUsd'', monthly_cost st)]))"

text \<open>The cap and whether \<open>onMalformed\<close> was called.\<close>

definition effective_cost_cap_micros :: "usd_value \<Rightarrow> usd_value \<Rightarrow> config_error + (int option \<times> bool)" where
  "effective_cost_cap_micros trigger_value deployment_value =
     (let (trigger, malformed) = (case optional_usd_micros trigger_value ''run.maxCostUsd'' of
            Inl _ \<Rightarrow> (Some 0, True) | Inr t \<Rightarrow> (t, False))
      in case optional_usd_micros deployment_value ''maxCostUsd'' of
           Inl e \<Rightarrow> Inl e
         | Inr deployment \<Rightarrow>
             (case (trigger, deployment) of
                (None, d) \<Rightarrow> Inr (d, malformed)
              | (Some t, None) \<Rightarrow> Inr (Some t, malformed)
              | (Some t, Some d) \<Rightarrow> Inr (Some (min t d), malformed)))"

text \<open>\<open>findIndex\<close> over the triggers' \<open>run.maxCostUsd\<close>, stopping at a value that does not parse.\<close>

fun find_cap_above :: "int \<Rightarrow> int \<Rightarrow> usd_value list \<Rightarrow> config_error + int" where
  "find_cap_above i d [] = Inr (- 1)"
| "find_cap_above i d (v # vs) =
     (if v = Usd_absent then find_cap_above (i + 1) d vs
      else case parse_usd_micros v ''run.maxCostUsd'' of
        Inl e \<Rightarrow> Inl e
      | Inr m \<Rightarrow> if m > d then Inr i else find_cap_above (i + 1) d vs)"

definition trigger_cap_above_deployment :: "usd_value list \<Rightarrow> usd_value \<Rightarrow> config_error + int" where
  "trigger_cap_above_deployment triggers deployment_value =
     (case optional_usd_micros deployment_value ''maxCostUsd'' of
        Inl e \<Rightarrow> Inl e
      | Inr None \<Rightarrow> Inr (- 1)
      | Inr (Some d) \<Rightarrow> find_cap_above 0 d triggers)"

section \<open>Printing and reading back\<close>

lemma usd_pattern_decimal:
  assumes "n < 10000000" "list_all is_digit f" "1 \<le> length f" "length f \<le> 6"
  shows "usd_pattern (nat_text n @ ''.'' @ f) = Some (nat_text n, Some (CHR ''.'' # f))"
  unfolding usd_pattern_def using decimal_pattern_text [of n 7 f 6] length_nat_text [of n 6] assms by simp

lemma parse_decimal:
  assumes "usd_string v = Some t" "usd_pattern t = Some (w, Some (c # f))"
    and "int (text_nat w) * micros_per_usd + int (text_nat (pad_end 6 (CHR ''0'') f)) = m"
    and "0 < m" "m \<le> max_usd_micros"
  shows "parse_usd_micros v key = Inr m"
  using assms by (simp add: parse_usd_micros_def Let_def)

lemma format_reads_back:
  assumes "0 < m" and "m \<le> max_usd_micros"
  shows "\<exists>t. format_micros m = Inr t \<and> parse_usd_micros (Usd_text t) key = Inr m
    \<and> parse_usd_micros (Usd_number t) key = Inr m"
proof -
  define whole where "whole = m div micros_per_usd"
  define s where "s = pad_start 6 (CHR ''0'') (nat_text (nat (m mod micros_per_usd)))"
  define f where "f = pad_end 2 (CHR ''0'') (strip_zeros s)"
  let ?t = "nat_text (nat whole) @ ''.'' @ f"
  have mod: "0 \<le> m mod micros_per_usd" "m mod micros_per_usd < 1000000" by (simp_all add: micros_per_usd_def)
  have ls: "length s = 6"
    using length_nat_text [of "nat (m mod micros_per_usd)" 5] mod by (simp add: s_def length_pad_start)
  have ts: "text_nat s = nat (m mod micros_per_usd)" by (simp add: s_def)
  have fmt: "format_micros m = Inr ?t"
    using assms unfolding format_micros_def Let_def whole_def f_def s_def
    by (simp add: is_safe_def max_safe_def max_usd_micros_def micros_per_usd_def del: append.simps)
  have lf: "length f \<le> 6" "1 \<le> length f"
    using length_strip [of s] ls by (auto simp: f_def pad_end_def)
  have "set f \<subseteq> insert (CHR ''0'') (set s)"
    using set_strip [of s] by (auto simp: f_def pad_end_def)
  moreover have "\<forall>c \<in> set s. is_digit c" unfolding s_def using pad_start_digits by blast
  moreover have "is_digit (CHR ''0'')" by (simp add: is_digit_def)
  ultimately have digits: "list_all is_digit f" by (auto simp: list_all_iff)
  have w: "0 \<le> whole" "whole \<le> 1000000"
    using assms by (auto simp: whole_def max_usd_micros_def micros_per_usd_def)
  have pat: "usd_pattern ?t = Some (nat_text (nat whole), Some (CHR ''.'' # f))"
    by (rule usd_pattern_decimal) (use w digits lf in auto)
  have "pad_end 6 (CHR ''0'') f = s"
    using ls by (simp add: f_def pad_end_pad_end pad_end_strip)
  then have frac: "int (text_nat (pad_end 6 (CHR ''0'') f)) = m mod micros_per_usd" using ts mod by simp
  have eq: "whole * micros_per_usd + m mod micros_per_usd = m" by (simp add: whole_def)
  have val: "int (text_nat (nat_text (nat whole))) * micros_per_usd + int (text_nat (pad_end 6 (CHR ''0'') f)) = m"
    using eq frac w by simp
  have res: "parse_usd_micros (Usd_text ?t) key = Inr m"
    by (rule parse_decimal [OF _ pat val assms]) simp
  have res': "parse_usd_micros (Usd_number ?t) key = Inr m"
    by (rule parse_decimal [OF _ pat val assms]) simp
  show ?thesis using fmt res res' by blast
qed

text \<open>
  Money round trip: every amount a setting may hold, printed by \<open>formatMicros\<close>, reads back as
  the same number of micro-dollars, whether the text arrives as a string or as a number that
  prints so.
\<close>

theorem format_parse_roundtrip:
  assumes "0 < m" and "m \<le> max_usd_micros"
  shows "\<exists>t. format_micros m = Inr t \<and> parse_usd_micros (Usd_text t) key = Inr m
    \<and> parse_usd_micros (Usd_number t) key = Inr m"
  by (rule format_reads_back [OF assms])

theorem format_parse_roundtrip_witness:
  "\<exists>t. format_micros 2500000 = Inr t \<and> parse_usd_micros (Usd_text t) ''maxCostUsd'' = Inr 2500000"
  using format_parse_roundtrip [of 2500000 "''maxCostUsd''"]
  by (auto simp: max_usd_micros_def micros_per_usd_def)

lemma parse_usd_bounds: "parse_usd_micros v key = Inr m \<Longrightarrow> 0 < m \<and> m \<le> max_usd_micros"
  by (auto simp: parse_usd_micros_def Let_def split: option.splits prod.splits if_splits)

lemma optional_usd_bounds: "optional_usd_micros v key = Inr (Some m) \<Longrightarrow> 0 < m \<and> m \<le> max_usd_micros"
  by (cases "parse_usd_micros v key") (auto simp: optional_usd_micros_def split: if_splits dest: parse_usd_bounds)

lemmas usd_pattern_shape = decimal_pattern_shape [where mw = 7 and mf = 6, folded usd_pattern_def]

text \<open>
  A dollar amount is read exactly: whatever \<open>parseUsdMicros\<close> accepts is a plain decimal of at
  most six decimals whose value in dollars times 1,000,000 is the result, above 0 and at most
  1,000,000 USD; nothing is rounded.
\<close>

theorem parse_exact:
  assumes "parse_usd_micros v key = Inr m"
  shows "\<exists>t w f. usd_string v = Some t \<and> (f = [] \<and> t = w \<or> f \<noteq> [] \<and> t = w @ CHR ''.'' # f)
    \<and> list_all is_digit (w @ f) \<and> length f \<le> 6
    \<and> m * 10 ^ length f = int (text_nat (w @ f)) * micros_per_usd
    \<and> 0 < m \<and> m \<le> max_usd_micros"
proof -
  obtain t w g where t: "usd_string v = Some t" and pat: "usd_pattern t = Some (w, g)"
    using assms by (auto simp: parse_usd_micros_def Option.bind_eq_Some_conv split: option.splits)
  obtain f where f: "(g = None \<and> f = [] \<and> t = w \<or> g = Some (CHR ''.'' # f) \<and> f \<noteq> [] \<and> t = w @ CHR ''.'' # f)"
    and d: "list_all is_digit (w @ f)" and l: "length f \<le> 6"
    using usd_pattern_shape [OF pat] by blast
  have "drop 1 (case g of None \<Rightarrow> ''.'' | Some f \<Rightarrow> f) = f" using f by auto
  then have m: "m = int (text_nat w) * micros_per_usd + int (text_nat (pad_end 6 (CHR ''0'') f))"
    using assms by (auto simp: parse_usd_micros_def t pat Let_def split: if_splits)
  have p: "(10::int) ^ (6 - length f) * 10 ^ length f = micros_per_usd"
    using l by (simp add: power_add [symmetric] micros_per_usd_def)
  have "m * 10 ^ length f = int (text_nat w) * micros_per_usd * 10 ^ length f
      + int (text_nat f) * (10 ^ (6 - length f) * 10 ^ length f)"
    unfolding m text_nat_pad_end [OF l] by (simp add: algebra_simps)
  also have "\<dots> = int (text_nat (w @ f)) * micros_per_usd"
    unfolding p by (simp add: text_nat_append algebra_simps)
  finally have e: "m * 10 ^ length f = int (text_nat (w @ f)) * micros_per_usd" .
  have b: "0 < m \<and> m \<le> max_usd_micros" by (rule parse_usd_bounds [OF assms])
  have "f = [] \<and> t = w \<or> f \<noteq> [] \<and> t = w @ CHR ''.'' # f" using f by blast
  with t d l e b show ?thesis by blast
qed

theorem parse_exact_witness:
  "\<exists>m. parse_usd_micros (Usd_text ''2'') ''maxCostUsd'' = Inr m \<and> 0 < m \<and> m \<le> max_usd_micros"
proof -
  have "text_nat ''2'' = 2" by (simp add: text_nat_def digit_val_def)
  then have m: "parse_usd_micros (Usd_text ''2'') ''maxCostUsd'' = Inr 2000000"
    by (simp add: parse_usd_micros_def usd_pattern_def decimal_pattern_def Let_def is_digit_def pad_end_def
        micros_per_usd_def max_usd_micros_def)
  from parse_exact [OF m] m show ?thesis by blast
qed

text \<open>
  A trigger can only narrow the per-job cap: the effective cap is never above the trigger's nor
  above the deployment's, it is absent only when both are, and a trigger value that does not parse
  gives the cap 0 that refuses every priced call, and says so.
\<close>

theorem cap_only_narrows:
  assumes "effective_cost_cap_micros tv dv = Inr (cap, malformed)"
  shows "(malformed \<longleftrightarrow> (\<exists>e. optional_usd_micros tv ''run.maxCostUsd'' = Inl e))
    \<and> (malformed \<longrightarrow> cap = Some 0)
    \<and> (\<forall>t. optional_usd_micros tv ''run.maxCostUsd'' = Inr (Some t) \<longrightarrow> (\<exists>c. cap = Some c \<and> c \<le> t))
    \<and> (\<forall>d. optional_usd_micros dv ''maxCostUsd'' = Inr (Some d) \<longrightarrow> (\<exists>c. cap = Some c \<and> c \<le> d))
    \<and> (cap = None \<longleftrightarrow> tv = Usd_absent \<and> dv = Usd_absent)
    \<and> (\<forall>c. cap = Some c \<longrightarrow> 0 \<le> c \<and> c \<le> max_usd_micros)"
proof -
  obtain d where d: "optional_usd_micros dv ''maxCostUsd'' = Inr d"
    using assms by (cases "optional_usd_micros dv ''maxCostUsd''") (auto simp: effective_cost_cap_micros_def Let_def)
  have none: "optional_usd_micros v k = Inr None \<longleftrightarrow> v = Usd_absent" for v k
    by (cases "parse_usd_micros v k") (auto simp: optional_usd_micros_def)
  have mx: "0 \<le> max_usd_micros" by (simp add: max_usd_micros_def micros_per_usd_def)
  have db: "\<And>x. d = Some x \<Longrightarrow> 0 < x \<and> x \<le> max_usd_micros" using d optional_usd_bounds by auto
  show ?thesis
  proof (cases "optional_usd_micros tv ''run.maxCostUsd''")
    case (Inl e)
    then have tv: "tv \<noteq> Usd_absent" by (auto simp: optional_usd_micros_def)
    from assms Inl d db mx tv show ?thesis
      by (cases d) (fastforce simp: effective_cost_cap_micros_def Let_def min_def)+
  next
    case (Inr t)
    have tb: "\<And>x. t = Some x \<Longrightarrow> 0 < x \<and> x \<le> max_usd_micros" using Inr optional_usd_bounds by auto
    have "(t = None) = (tv = Usd_absent)"
      unfolding none [symmetric, of tv "''run.maxCostUsd''"] Inr by simp
    moreover have "(d = None) = (dv = Usd_absent)"
      unfolding none [symmetric, of dv "''maxCostUsd''"] d by simp
    ultimately show ?thesis
      using assms Inr d db tb mx by (cases t; cases d) (auto simp: effective_cost_cap_micros_def Let_def)
  qed
qed

theorem cap_only_narrows_witness:
  "\<exists>cap m. effective_cost_cap_micros (Usd_text ''abc'') Usd_absent = Inr (cap, m) \<and> m \<and> cap = Some 0"
proof -
  have e: "effective_cost_cap_micros (Usd_text ''abc'') Usd_absent = Inr (Some 0, True)" by code_simp
  have "optional_usd_micros (Usd_text ''abc'') ''run.maxCostUsd'' = Inl (usd_refusal ''run.maxCostUsd'')"
    by (simp add: optional_usd_micros_def parse_usd_micros_def usd_pattern_def decimal_pattern_def Let_def is_digit_def)
  with cap_only_narrows [OF e] e show ?thesis by blast
qed

end
