(* ===== verification/DollarBudget.thy ===== *)
theory DollarBudget
  imports Complex_Main JobBudget Money
begin

text \<open>
  The dollar windows (worker/src/dollar-budget.mjs): before a container starts the job's cost cap
  is added to every active window of every ledger, and afterwards each key of the hold is moved
  to what the job really cost. Amounts are integer micro-dollars. The settlement script is
  modelled over the server's own primitives; the conversion of the runner's metered cost, a
  float, is the parameter \<open>metered\<close>: \<open>metered_micros\<close> over the float product. Log lines are returned beside the result.
\<close>

section \<open>Ledgers and windows\<close>

definition dollar_key_prefix :: string where "dollar_key_prefix = ''budget:usd''"

record dledger =
  d_prefix :: string
  d_caps :: caps

definition dollar_window_caps :: "dollar_settings \<Rightarrow> config_error + caps option" where
  "dollar_window_caps st =
     (case optional_usd_micros (daily_cost st) ''dailyCostUsd'' of Inl e \<Rightarrow> Inl e
      | Inr d \<Rightarrow> (case optional_usd_micros (weekly_cost st) ''weeklyCostUsd'' of Inl e \<Rightarrow> Inl e
      | Inr w \<Rightarrow> (case optional_usd_micros (monthly_cost st) ''monthlyCostUsd'' of Inl e \<Rightarrow> Inl e
      | Inr m \<Rightarrow> Inr (if d = None \<and> w = None \<and> m = None then None
                     else Some \<lparr>cap_day = d, cap_week = w, cap_month = m\<rparr>))))"

definition dollar_ledgers ::
  "caps option \<Rightarrow> dledger option \<Rightarrow> dledger option \<Rightarrow> dledger option \<Rightarrow> dledger list \<Rightarrow> dledger list" where
  "dollar_ledgers c scope project other models =
     (case c of None \<Rightarrow> [] | Some x \<Rightarrow> [\<lparr>d_prefix = dollar_key_prefix, d_caps = x\<rparr>])
     @ (case scope of None \<Rightarrow> [] | Some l \<Rightarrow> [l])
     @ (case project of None \<Rightarrow> [] | Some l \<Rightarrow> [l])
     @ (case other of None \<Rightarrow> [] | Some l \<Rightarrow> [l])
     @ models"

record dwindow = window +
  w_ledger :: string

definition dollar_windows :: "dledger list \<Rightarrow> int \<Rightarrow> dwindow list" where
  "dollar_windows ledgers now =
     concat (map (\<lambda>l. List.map_filter (\<lambda>(n, k, ttl, cap). case cap of None \<Rightarrow> None
          | Some x \<Rightarrow> Some \<lparr>w_name = n, w_key = k, w_cap = x, w_ttl = ttl, w_ledger = d_prefix l\<rparr>)
        [(Day, day_key now (d_prefix l), day_ttl_seconds, cap_day (d_caps l)),
         (Week, week_key now (d_prefix l), week_ttl_seconds, cap_week (d_caps l)),
         (Month, month_key now (d_prefix l), month_ttl_seconds, cap_month (d_caps l))]) ledgers)"

section \<open>Reserve\<close>

datatype dlog =
    Giveback_error string key              \<comment> \<open>\<open>dollar_giveback_error\<close>: the code and the key\<close>
  | Settle_error string string nat nat     \<comment> \<open>the event, the code, applied, of\<close>
  | Key_missing key
  | Key_clamped key

record refusal =
  rf_ledger :: string
  rf_window :: window_name
  rf_reserved :: int
  rf_cap :: int

record hold =
  h_amount :: int
  h_keys :: "key list"
  h_ledgers :: "(string \<times> key list) list"

datatype thrown = Thrown fault | Thrown_type

datatype reserved = Held hold | Dollar_cap refusal nat   \<comment> \<open>the refusal and the stranded keys\<close>

fun give_back :: "'s client \<Rightarrow> int \<Rightarrow> dwindow list \<Rightarrow> 's \<Rightarrow> nat \<times> dlog list \<times> 's" where
  "give_back C amount [] s = (0, [], s)"
| "give_back C amount (w # ws) s =
     (case c_decrby C (w_key w) amount s of
        (Inl e, s1) \<Rightarrow> (case give_back C amount ws s1 of
            (n, lg, s2) \<Rightarrow> (Suc n, Giveback_error (fault_code e) (w_key w) # lg, s2))
      | (Inr _, s1) \<Rightarrow> give_back C amount ws s1)"

fun touch_windows ::
  "'s client \<Rightarrow> int \<Rightarrow> dwindow list \<Rightarrow> dwindow list \<Rightarrow> 's \<Rightarrow> (fault + refusal option) \<times> dwindow list \<times> 's" where
  "touch_windows C amount [] touched s = (Inr None, touched, s)"
| "touch_windows C amount (w # ws) touched s =
     (case c_incrby C (w_key w) amount s of
        (Inl e, s1) \<Rightarrow> (Inl e, touched, s1)
      | (Inr v, s1) \<Rightarrow>
          (case (if v = amount then c_expire C (w_key w) (w_ttl w) s1 else (Inr (), s1)) of
             (Inl e, s2) \<Rightarrow> (Inl e, touched @ [w], s2)
           | (Inr _, s2) \<Rightarrow>
               if v > w_cap w
               then (Inr (Some \<lparr>rf_ledger = w_ledger w, rf_window = w_name w, rf_reserved = v, rf_cap = w_cap w\<rparr>),
                     touched @ [w], s2)
               else touch_windows C amount ws (touched @ [w]) s2))"

fun group_ledgers :: "(string \<times> key list) list \<Rightarrow> dwindow list \<Rightarrow> (string \<times> key list) list" where
  "group_ledgers out [] = out"
| "group_ledgers out (w # ws) =
     group_ledgers
       (if out \<noteq> [] \<and> fst (last out) = w_ledger w
        then butlast out @ [(fst (last out), snd (last out) @ [w_key w])]
        else out @ [(w_ledger w, [w_key w])]) ws"

definition hold_ledgers :: "dwindow list \<Rightarrow> (string \<times> key list) list" where
  "hold_ledgers touched = group_ledgers [] touched"

definition reserve_dollars ::
  "'s client \<Rightarrow> dledger list \<Rightarrow> int \<Rightarrow> int \<Rightarrow> 's \<Rightarrow> (thrown + reserved) \<times> dlog list \<times> 's" where
  "reserve_dollars C ledgers amount now s =
     (if \<not> is_safe amount \<or> amount < 0 then (Inl Thrown_type, [], s)
      else if amount = 0 then (Inr (Held \<lparr>h_amount = 0, h_keys = [], h_ledgers = []\<rparr>), [], s)
      else case touch_windows C amount (dollar_windows ledgers now) [] s of
        (Inl e, touched, s1) \<Rightarrow>
          (case give_back C amount touched s1 of (n, lg, s2) \<Rightarrow> (Inl (Thrown e), lg, s2))
      | (Inr (Some rf), touched, s1) \<Rightarrow>
          (case give_back C amount touched s1 of (n, lg, s2) \<Rightarrow> (Inr (Dollar_cap rf n), lg, s2))
      | (Inr None, touched, s1) \<Rightarrow>
          (Inr (Held \<lparr>h_amount = amount, h_keys = map w_key touched, h_ledgers = hold_ledgers touched\<rparr>), [], s1))"

definition hold_part :: "hold \<Rightarrow> (string \<Rightarrow> bool) \<Rightarrow> hold" where
  "hold_part h keep =
     (let ls = filter (\<lambda>l. keep (fst l)) (h_ledgers h)
      in \<lparr>h_amount = h_amount h, h_keys = concat (map snd ls), h_ledgers = ls\<rparr>)"

section \<open>Settle\<close>

text \<open>\<open>SETTLE_SCRIPT\<close>: 0 adjusted, 1 missing, 2 clamped.\<close>

definition settle_script :: "'s client \<Rightarrow> key \<Rightarrow> int \<Rightarrow> 's \<Rightarrow> (int \<times> int) \<times> 's" where
  "settle_script C k delta s =
     (if \<not> lua_exists C k s then ((1, 0), s)
      else (let (v, s1) = lua_incrby C k delta s
            in if v < 0 then (let (u, s2) = lua_incrby C k (- v) s1 in ((2, 0), s2))
               else ((0, v), s1)))"

fun settle_keys ::
  "'s client \<Rightarrow> int \<Rightarrow> key list \<Rightarrow> nat \<Rightarrow> 's \<Rightarrow> fault option \<times> nat \<times> dlog list \<times> 's" where
  "settle_keys C delta [] applied s = (None, applied, [], s)"
| "settle_keys C delta (k # ks) applied s =
     (case c_eval C (settle_script C k delta) s of
        (Inl e, s1) \<Rightarrow> (Some e, applied, [], s1)
      | (Inr (status, v), s1) \<Rightarrow>
          (case settle_keys C delta ks (Suc applied) s1 of
             (r, n, lg, s2) \<Rightarrow>
               (r, n, (if status = 1 then [Key_missing k] else if status = 2 then [Key_clamped k] else []) @ lg, s2)))"

text \<open>\<open>settled\<close> is \<open>None\<close> for a value that is no integer.\<close>

definition settle_dollars ::
  "'s client \<Rightarrow> hold \<Rightarrow> int option \<Rightarrow> string \<Rightarrow> 's \<Rightarrow> (nat \<times> nat) \<times> dlog list \<times> 's" where
  "settle_dollars C h settled event s =
     (let n = length (h_keys h)
      in case settled of
           None \<Rightarrow> ((0, n), [Settle_error event ''not-micros'' 0 n], s)
         | Some m \<Rightarrow>
             if \<not> is_safe m \<or> m < 0 \<or> \<not> is_safe (h_amount h)
             then ((0, n), [Settle_error event ''not-micros'' 0 n], s)
             else if m - h_amount h = 0 then ((n, n), [], s)
             else (case settle_keys C (m - h_amount h) (h_keys h) 0 s of
                (None, applied, lg, s1) \<Rightarrow> ((applied, n), lg, s1)
              | (Some e, applied, lg, s1) \<Rightarrow>
                  ((applied, n), lg @ [Settle_error event (fault_code e) applied n], s1)))"

definition release_dollars :: "'s client \<Rightarrow> hold \<Rightarrow> 's \<Rightarrow> (nat \<times> nat) \<times> dlog list \<times> 's" where
  "release_dollars C h = settle_dollars C h (Some 0) ''dollar_release_error''"

section \<open>What a job settles to\<close>

text \<open>\<open>meteredMicros\<close>: the cost is a finite number, \<open>None\<close> for anything else; \<open>mega\<close> is the float product
  with a million, \<open>None\<close> where it overflows.\<close>

definition metered_micros :: "(rat \<Rightarrow> rat option) \<Rightarrow> rat option \<Rightarrow> int option" where
  "metered_micros mega cost =
     (case cost of None \<Rightarrow> None
      | Some x \<Rightarrow> if x < 0 then None
          else (case mega x of None \<Rightarrow> None
                | Some p \<Rightarrow> if is_safe (ceiling p) then Some (ceiling p) else None))"

definition floor_counters :: "string list" where
  "floor_counters = [''unresolved'', ''unpriced'', ''boundExceeded'', ''longContext'', ''costUnjudged'',
     ''costUnanswered'', ''costUnreported'', ''unmeteredChildren'']"

text \<open>The exit line's token object; a number that is absent is \<open>None\<close>.\<close>

record 'c tokens =
  t_metered :: bool
  t_cost :: 'c
  t_cost_cap :: "int option"
  t_counters :: "string \<Rightarrow> int option"
  t_calls :: "int option"

record 'c usage_row =
  u_provider :: string
  u_model :: string
  u_cost :: 'c

record 'c usage =
  us_models :: "'c usage_row list"
  us_truncated :: "int option"

datatype basis = Metered | Floor

definition dollar_settlement ::
  "('c \<Rightarrow> int option) \<Rightarrow> 'c tokens option \<Rightarrow> 'c usage option \<Rightarrow> int \<Rightarrow> bool \<Rightarrow> thrown + (int \<times> basis)" where
  "dollar_settlement metered tokens usage reserved trusted =
     (if \<not> is_safe reserved \<or> reserved < 0 then Inl Thrown_type
      else (let reported = (case tokens of None \<Rightarrow> None | Some t \<Rightarrow> metered (t_cost t));
                floor = (case reported of None \<Rightarrow> reserved | Some m \<Rightarrow> max reserved m, Floor)
            in Inr (if \<not> trusted then floor
               else case tokens of None \<Rightarrow> floor
               | Some t \<Rightarrow>
                   if \<not> t_metered t then floor
                   else (case t_cost_cap t of None \<Rightarrow> floor
                   | Some cap \<Rightarrow>
                       if cap > reserved then floor
                       else if \<exists>k \<in> set floor_counters. t_counters t k \<noteq> Some 0 then floor
                       else (case reported of None \<Rightarrow> floor
                       | Some m \<Rightarrow>
                           (case usage of
                              None \<Rightarrow> if t_calls t = Some 0 \<and> m = 0 then (0, Metered) else floor
                            | Some u \<Rightarrow> (m, Metered)))))))"

text \<open>The summed cost of a model's rows, \<open>None\<close> as soon as one does not convert. \<open>lower\<close> is
  \<open>toLowerCase\<close>, \<open>cost_zero\<close> tests a cost for being exactly 0.\<close>

definition ascii_lower :: "char \<Rightarrow> char" where
  "ascii_lower c = (let n = (of_char c :: nat) in if 65 \<le> n \<and> n \<le> 90 then char_of (n + 32) else c)"

definition row_ref :: "'c usage_row \<Rightarrow> string" where
  "row_ref r = map ascii_lower (u_provider r @ ''/'' @ u_model r)"

fun model_reported :: "('c \<Rightarrow> int option) \<Rightarrow> string \<Rightarrow> 'c usage_row list \<Rightarrow> int option \<Rightarrow> int option" where
  "model_reported metered ref [] acc = acc"
| "model_reported metered ref (r # rs) acc =
     (if row_ref r \<noteq> ref then model_reported metered ref rs acc
      else model_reported metered ref rs
        (case (acc, metered (u_cost r)) of (Some a, Some m) \<Rightarrow> Some (a + m) | _ \<Rightarrow> None))"

definition model_dollar_settlement ::
  "('c \<Rightarrow> int option) \<Rightarrow> ('c \<Rightarrow> bool) \<Rightarrow> string \<Rightarrow> basis \<Rightarrow> 'c tokens option \<Rightarrow> 'c usage option \<Rightarrow> int \<Rightarrow> bool \<Rightarrow>
   thrown + (int \<times> basis)" where
  "model_dollar_settlement metered cost_zero ref b tokens usage reserved trusted =
     (if \<not> is_safe reserved \<or> reserved < 0 then Inl Thrown_type
      else (let rows = (case usage of None \<Rightarrow> [] | Some u \<Rightarrow> us_models u);
                reported = model_reported metered ref rows (Some 0);
                floor = (case reported of None \<Rightarrow> reserved | Some m \<Rightarrow> max reserved m, Floor)
            in Inr (if b \<noteq> Metered \<or> \<not> trusted then floor
               else case usage of
                 None \<Rightarrow> (case tokens of None \<Rightarrow> floor
                           | Some t \<Rightarrow> if t_calls t = Some 0 then (0, Metered) else floor)
               | Some u \<Rightarrow>
                   if us_truncated u \<noteq> Some 0 then floor
                   else if \<exists>r \<in> set rows. u_provider r = ''other'' \<and> u_model r = ''other'' \<and> \<not> cost_zero (u_cost r)
                   then floor
                   else (case reported of None \<Rightarrow> floor | Some m \<Rightarrow> (m, Metered)))))"

section \<open>What the operations do to the counters\<close>

definition settle_at :: "int \<Rightarrow> (key \<Rightarrow> int option) \<Rightarrow> key \<Rightarrow> (key \<Rightarrow> int option)" where
  "settle_at delta m k = (case m k of None \<Rightarrow> m | Some c \<Rightarrow> m(k \<mapsto> max 0 (c + delta)))"

definition settle_all :: "int \<Rightarrow> (key \<Rightarrow> int option) \<Rightarrow> key list \<Rightarrow> (key \<Rightarrow> int option)" where
  "settle_all delta m ks = foldl (settle_at delta) m ks"

lemma settle_all_simps [simp]:
  "settle_all delta m [] = m" "settle_all delta m (k # ks) = settle_all delta (settle_at delta m k) ks"
  by (simp_all add: settle_all_def)

lemma settle_all_other: "k \<notin> set ks \<Longrightarrow> settle_all delta m ks k = m k"
  by (induction ks arbitrary: m) (auto simp: settle_at_def split: option.splits)

lemma settle_all_at:
  "distinct ks \<Longrightarrow> k \<in> set ks \<Longrightarrow> settle_all delta m ks k = map_option (\<lambda>c. max 0 (c + delta)) (m k)"
proof (induction ks arbitrary: m)
  case Nil
  then show ?case by simp
next
  case (Cons j ks)
  show ?case
  proof (cases "k = j")
    case True
    with Cons.prems have "settle_all delta (settle_at delta m j) ks k = settle_at delta m j k"
      by (intro settle_all_other) auto
    with True show ?thesis by (auto simp: settle_at_def split: option.splits)
  next
    case False
    then have "settle_at delta m j k = m k" by (auto simp: settle_at_def split: option.splits)
    with False Cons show ?thesis by auto
  qed
qed

text \<open>The keys whose give-back was logged as failed.\<close>

definition failed_keys :: "dlog list \<Rightarrow> key list" where
  "failed_keys lg = List.map_filter (\<lambda>x. case x of Giveback_error c k \<Rightarrow> Some k | _ \<Rightarrow> None) lg"

definition no_settle_error :: "dlog list \<Rightarrow> bool" where
  "no_settle_error lg = list_all (\<lambda>x. case x of Settle_error e c i n \<Rightarrow> False | _ \<Rightarrow> True) lg"

lemma settle_keys_log: "settle_keys C delta ks a s = (r, n, lg, s') \<Longrightarrow> no_settle_error lg"
proof (induction ks arbitrary: a s n lg)
  case (Cons k ks)
  obtain x s1 where c: "c_eval C (settle_script C k delta) s = (x, s1)" by fastforce
  show ?case
  proof (cases x)
    case (Inl f)
    with Cons.prems c show ?thesis by (auto simp: no_settle_error_def)
  next
    case (Inr y)
    obtain st v where y: "y = (st, v)" by (cases y)
    obtain r' n' lg' s2 where rec: "settle_keys C delta ks (Suc a) s1 = (r', n', lg', s2)" by (metis prod_cases4)
    with Cons.prems c Inr y have eq: "r' = r" "n' = n" "s2 = s'"
      "lg = (if st = 1 then [Key_missing k] else if st = 2 then [Key_clamped k] else []) @ lg'" by auto
    have "no_settle_error lg'" by (rule Cons.IH) (use rec eq in simp)
    with eq(4) show ?thesis by (simp add: no_settle_error_def)
  qed
qed (simp add: no_settle_error_def)

context counter_store
begin

lemma settle_script_val: "settle_script C k delta s = (r, s') \<Longrightarrow> val s' = settle_at delta (val s) k"
proof -
  assume h: "settle_script C k delta s = (r, s')"
  show ?thesis
  proof (cases "val s k")
    case None
    with h show ?thesis by (auto simp: settle_script_def lua_exists_val settle_at_def)
  next
    case (Some c)
    obtain v s1 where i: "lua_incrby C k delta s = (v, s1)" by fastforce
    have v: "v = c + delta" "val s1 = (val s)(k \<mapsto> c + delta)"
      using lua_incrby_val [OF i] Some by (auto simp: count_at_def add_at_def)
    obtain u s2 where j: "lua_incrby C k (- v) s1 = (u, s2)" by fastforce
    have "val s2 = (val s)(k \<mapsto> 0)"
      using lua_incrby_val [OF j] v by (auto simp: count_at_def add_at_def)
    with h i j v Some show ?thesis
      by (auto simp: settle_script_def lua_exists_val settle_at_def Let_def max_def split: if_splits)
  qed
qed

lemma eval_settle_ok:
  assumes "c_eval C (settle_script C k delta) s = (Inr r, s')"
  shows "val s' = settle_at delta (val s) k"
  using eval_ok [OF assms] settle_script_val by metis

lemma eval_settle_err:
  assumes "c_eval C (settle_script C k delta) s = (Inl e, s')"
  shows "val s' = val s \<or> val s' = settle_at delta (val s) k"
  using eval_err [OF assms] settle_script_val by metis

lemma settle_keys_val:
  assumes "settle_keys C delta ks a s = (r, n, lg, s')"
  shows "(r = None \<longrightarrow> n = a + length ks \<and> val s' = settle_all delta (val s) ks) \<and>
    (\<forall>e. r = Some e \<longrightarrow> (\<exists>j. n = a + j \<and> j < length ks \<and>
       (val s' = settle_all delta (val s) (take j ks) \<or> val s' = settle_all delta (val s) (take (Suc j) ks))))"
  using assms
proof (induction ks arbitrary: a s n lg)
  case Nil
  then show ?case by simp
next
  case (Cons k ks)
  show ?case
  proof (cases "c_eval C (settle_script C k delta) s")
    case (Pair x s1)
    show ?thesis
    proof (cases x)
      case (Inl e)
      with Cons.prems Pair have "r = Some e" "n = a" "s' = s1" by auto
      with eval_settle_err [of k delta s e s1] Pair Inl show ?thesis by auto
    next
      case (Inr y)
      obtain st v where y: "y = (st, v)" by (cases y)
      obtain lg' where rec: "settle_keys C delta ks (Suc a) s1 = (r, n, lg', s')"
        using Cons.prems Pair Inr y by (auto split: prod.splits)
      have v1: "val s1 = settle_at delta (val s) k" using eval_settle_ok Pair Inr by blast
      show ?thesis
      proof (cases r)
        case None
        with Cons.IH [OF rec] v1 show ?thesis by simp
      next
        case (Some e)
        with Cons.IH [OF rec] v1 obtain j where "n = Suc a + j" "j < length ks"
          "val s' = settle_all delta (settle_at delta (val s) k) (take j ks) \<or>
           val s' = settle_all delta (settle_at delta (val s) k) (take (Suc j) ks)" by auto
        with Some show ?thesis by (auto intro!: exI [of _ "Suc j"])
      qed
    qed
  qed
qed

lemma settle_dollars_full:
  assumes "settle_dollars C h (Some m) event s = ((applied, n), lg, s')"
    and "is_safe m" "0 \<le> m" "is_safe (h_amount h)" "applied = length (h_keys h)"
  shows "val s' = (if m = h_amount h then val s else settle_all (m - h_amount h) (val s) (h_keys h))"
proof (cases "m = h_amount h")
  case True
  with assms show ?thesis by (simp add: settle_dollars_def Let_def)
next
  case False
  obtain r j lg' s1 where k: "settle_keys C (m - h_amount h) (h_keys h) 0 s = (r, j, lg', s1)"
    by (metis prod_cases4)
  with assms False have "j = applied" "s1 = s'"
    by (auto simp: settle_dollars_def Let_def split: option.splits)
  with settle_keys_val [OF k] assms(5) False show ?thesis by (cases r) auto
qed

text \<open>A settlement that stops does so at the first command that throws, with the keys before it moved.\<close>

lemma settle_keys_fault:
  "settle_keys C delta ks a s = (Some e, n, lg, s') \<Longrightarrow>
   \<exists>t. a \<le> n \<and> n < a + length ks \<and> val t = settle_all delta (val s) (take (n - a) ks)
     \<and> c_eval C (settle_script C (ks ! (n - a)) delta) t = (Inl e, s')"
proof (induction ks arbitrary: a s n lg)
  case (Cons k ks)
  obtain x s1 where c: "c_eval C (settle_script C k delta) s = (x, s1)" by fastforce
  show ?case
  proof (cases x)
    case (Inl f)
    with Cons.prems c have "n = a" "f = e" "s1 = s'" by auto
    with c Inl show ?thesis by (intro exI [of _ s]) simp
  next
    case (Inr y)
    obtain st v where y: "y = (st, v)" by (cases y)
    obtain lg' where rec: "settle_keys C delta ks (Suc a) s1 = (Some e, n, lg', s')"
      using Cons.prems c Inr y by (auto split: prod.splits)
    have v1: "val s1 = settle_at delta (val s) k" using eval_settle_ok c Inr by blast
    obtain t where t: "Suc a \<le> n" "n < Suc a + length ks" "val t = settle_all delta (val s1) (take (n - Suc a) ks)"
      "c_eval C (settle_script C (ks ! (n - Suc a)) delta) t = (Inl e, s')"
      using Cons.IH [OF rec] by blast
    have "n - a = Suc (n - Suc a)" using t(1) by simp
    with t v1 show ?thesis by (intro exI [of _ t]) simp
  qed
qed simp

text \<open>Each window is given back once, whatever the others answer: only a DECRBY that threw is logged, and
  a counter keeps the amount at most once for each of its own log lines.\<close>

lemma give_back_exact:
  assumes "give_back C a ws s = (n, lg, s')" "0 \<le> a"
  shows "n = length lg \<and> length (failed_keys lg) = n
    \<and> (\<forall>k. count_list (failed_keys lg) k \<le> count_list (map w_key ws) k)
    \<and> (\<forall>x \<in> set lg. \<exists>e k t t'. x = Giveback_error (fault_code e) k \<and> c_decrby C k a t = (Inl e, t'))
    \<and> (\<forall>k. count_at (val s) k - a * int (count_list (map w_key ws) k) \<le> count_at (val s') k \<and>
         count_at (val s') k \<le> count_at (val s) k - a * int (count_list (map w_key ws) k) + a * int (count_list (failed_keys lg) k))"
  using assms
proof (induction ws arbitrary: s n lg)
  case Nil
  then show ?case by (simp add: failed_keys_def List.map_filter_def)
next
  case (Cons w ws)
  obtain x s1 where c: "c_decrby C (w_key w) a s = (x, s1)" by fastforce
  show ?case
  proof (cases x)
    case (Inl e)
    obtain n' lg' where rec: "give_back C a ws s1 = (n', lg', s')" and n: "n = Suc n'"
      "lg = Giveback_error (fault_code e) (w_key w) # lg'"
      using Cons.prems c Inl by (auto split: prod.splits)
    have v1: "val s1 = val s \<or> val s1 = add_at (val s) (w_key w) (- a)" using decrby_err c Inl by blast
    have f: "failed_keys lg = w_key w # failed_keys lg'" by (simp add: n failed_keys_def List.map_filter_def)
    note IH = Cons.IH [OF rec Cons.prems(2)]
    have "count_at (val s) k - a * int (count_list (map w_key (w # ws)) k) \<le> count_at (val s') k \<and>
         count_at (val s') k \<le> count_at (val s) k - a * int (count_list (map w_key (w # ws)) k) + a * int (count_list (failed_keys lg) k)" for k
      using IH v1 Cons.prems(2) unfolding f by (cases "k = w_key w") (auto simp: algebra_simps dest!: spec [of _ k])
    moreover have "count_list (failed_keys lg) k \<le> count_list (map w_key (w # ws)) k" for k
      using IH unfolding f by simp
    moreover have "\<forall>x \<in> set lg. \<exists>e k t t'. x = Giveback_error (fault_code e) k \<and> c_decrby C k a t = (Inl e, t')"
      using IH c Inl unfolding n(2) by auto
    ultimately show ?thesis using IH unfolding f n(1) by (simp add: n(2))
  next
    case (Inr v)
    then have rec: "give_back C a ws s1 = (n, lg, s')" using Cons.prems c by simp
    have v1: "val s1 = add_at (val s) (w_key w) (- a)" using decrby_ok c Inr by blast
    note IH = Cons.IH [OF rec Cons.prems(2)]
    have "count_at (val s) k - a * int (count_list (map w_key (w # ws)) k) \<le> count_at (val s') k \<and>
         count_at (val s') k \<le> count_at (val s) k - a * int (count_list (map w_key (w # ws)) k) + a * int (count_list (failed_keys lg) k)" for k
      using IH v1 by (cases "k = w_key w") (auto simp: algebra_simps dest!: spec [of _ k])
    moreover have "count_list (failed_keys lg) k \<le> count_list (map w_key (w # ws)) k" for k
      using IH by (simp add: le_SucI)
    ultimately show ?thesis using IH by blast
  qed
qed

lemma touch_windows_refused:
  assumes "touch_windows C a ws ts s = (Inr (Some rf), ts', s')" "0 \<le> a"
  shows "\<exists>us w vs. ws = us @ w # vs \<and> ts' = ts @ us @ [w] \<and> val s' = bump (val s) (map w_key (us @ [w])) a
    \<and> rf_ledger rf = w_ledger w \<and> rf_window rf = w_name w \<and> rf_cap rf = w_cap w \<and> rf_cap rf < rf_reserved rf
    \<and> rf_reserved rf = count_at (val s) (w_key w) + a * int (count_list (map w_key (us @ [w])) (w_key w))
    \<and> (\<forall>u \<in> set us. count_at (val s) (w_key u) + a \<le> w_cap u)"
  using assms
proof (induction ws arbitrary: ts s)
  case (Cons w ws)
  obtain v s1 where i: "c_incrby C (w_key w) a s = (Inr v, s1)"
    using Cons.prems by (auto split: prod.splits sum.splits)
  obtain s2 where e: "(if v = a then c_expire C (w_key w) (w_ttl w) s1 else (Inr (), s1)) = (Inr (), s2)"
    using Cons.prems i by (auto split: prod.splits sum.splits)
  have v: "v = count_at (val s) (w_key w) + a" "val s2 = add_at (val s) (w_key w) a"
    using incrby_ok [OF i] maybe_expire_val [OF e] by auto
  show ?case
  proof (cases "v > w_cap w")
    case True
    with Cons.prems i e have "rf = \<lparr>rf_ledger = w_ledger w, rf_window = w_name w, rf_reserved = v, rf_cap = w_cap w\<rparr>"
      "ts' = ts @ [w]" "s' = s2" by auto
    with True v show ?thesis by (intro exI [of _ "[]"] exI [of _ w] exI [of _ ws]) simp
  next
    case False
    with Cons.prems i e have rec: "touch_windows C a ws (ts @ [w]) s2 = (Inr (Some rf), ts', s')" by simp
    obtain us x vs where *: "ws = us @ x # vs" "ts' = (ts @ [w]) @ us @ [x]" "val s' = bump (val s2) (map w_key (us @ [x])) a"
      "rf_ledger rf = w_ledger x" "rf_window rf = w_name x" "rf_cap rf = w_cap x" "rf_cap rf < rf_reserved rf"
      "rf_reserved rf = count_at (val s2) (w_key x) + a * int (count_list (map w_key (us @ [x])) (w_key x))"
      "\<forall>u \<in> set us. count_at (val s2) (w_key u) + a \<le> w_cap u"
      using Cons.IH [OF rec Cons.prems(2)] by blast
    have "\<forall>u \<in> set (w # us). count_at (val s) (w_key u) + a \<le> w_cap u"
    proof
      fix u assume "u \<in> set (w # us)"
      then show "count_at (val s) (w_key u) + a \<le> w_cap u"
        using False v(1) *(9) Cons.prems(2) unfolding v(2) by (force split: if_splits)
    qed
    moreover have "rf_reserved rf = count_at (val s) (w_key x) + a * int (count_list (map w_key ((w # us) @ [x])) (w_key x))"
      unfolding *(8) v(2) by (simp add: algebra_simps)
    ultimately show ?thesis using *(1-7) v(2) by (intro exI [of _ "w # us"] exI [of _ x] exI [of _ vs]) simp
  qed
qed simp

lemma touch_windows_ok:
  assumes "touch_windows C a ws ts s = (Inr r, ts', s')"
  shows "case r of
      None \<Rightarrow> ts' = ts @ ws \<and> val s' = bump (val s) (map w_key ws) a \<and>
        (distinct (map w_key ws) \<longrightarrow> (\<forall>w \<in> set ws. count_at (val s) (w_key w) + a \<le> w_cap w))
    | Some rf \<Rightarrow> (\<exists>us w vs. ws = us @ w # vs \<and> ts' = ts @ us @ [w] \<and>
        val s' = bump (val s) (map w_key (us @ [w])) a \<and> rf_cap rf < rf_reserved rf \<and>
        rf_ledger rf = w_ledger w \<and> rf_window rf = w_name w \<and> rf_cap rf = w_cap w)"
  using assms
proof (induction ws arbitrary: ts s)
  case Nil
  then show ?case by auto
next
  case (Cons w ws)
  obtain v s1 where i: "c_incrby C (w_key w) a s = (Inr v, s1)"
    using Cons.prems by (auto split: prod.splits sum.splits)
  obtain s2 where e: "(if v = a then c_expire C (w_key w) (w_ttl w) s1 else (Inr (), s1)) = (Inr (), s2)"
    using Cons.prems i by (auto split: prod.splits sum.splits)
  have v: "v = count_at (val s) (w_key w) + a" "val s2 = add_at (val s) (w_key w) a"
    using incrby_ok [OF i] maybe_expire_val [OF e] by auto
  show ?case
  proof (cases "v > w_cap w")
    case True
    with Cons.prems i e have "r = Some \<lparr>rf_ledger = w_ledger w, rf_window = w_name w, rf_reserved = v, rf_cap = w_cap w\<rparr>"
      "ts' = ts @ [w]" "s' = s2" by auto
    with True v show ?thesis by (auto intro!: exI [of _ "[]"])
  next
    case False
    with Cons.prems i e have rec: "touch_windows C a ws (ts @ [w]) s2 = (Inr r, ts', s')" by simp
    show ?thesis
    proof (cases r)
      case None
      have IH: "ts' = ts @ w # ws" "val s' = bump (val s2) (map w_key ws) a"
        "distinct (map w_key ws) \<longrightarrow> (\<forall>x \<in> set ws. count_at (val s2) (w_key x) + a \<le> w_cap x)"
        using Cons.IH [OF rec] None by auto
      have "\<forall>x \<in> set (w # ws). count_at (val s) (w_key x) + a \<le> w_cap x" if d: "distinct (map w_key (w # ws))"
      proof
        fix x assume x: "x \<in> set (w # ws)"
        show "count_at (val s) (w_key x) + a \<le> w_cap x"
        proof (cases "x = w")
          case True
          with False v show ?thesis by simp
        next
          case nx: False
          then have m: "w_key x \<in> w_key ` set ws" "x \<in> set ws" using x by auto
          moreover have "w_key w \<notin> w_key ` set ws" using d by simp
          ultimately have "w_key x \<noteq> w_key w" by metis
          with IH(3) d x nx v(2) show ?thesis by auto
        qed
      qed
      with None IH v show ?thesis by simp
    next
      case (Some rf)
      with Cons.IH [OF rec] obtain us x vs where *: "ws = us @ x # vs" "ts' = ts @ w # us @ [x]"
        "val s' = bump (val s2) (map w_key (us @ [x])) a" "rf_cap rf < rf_reserved rf"
        "rf_ledger rf = w_ledger x" "rf_window rf = w_name x" "rf_cap rf = w_cap x" by auto
      with Some v show ?thesis by (auto intro!: exI [of _ "w # us"])
    qed
  qed
qed

lemma touch_windows_err:
  assumes "touch_windows C a ws ts s = (Inl e, ts', s')"
  shows "\<exists>us vs. ws = us @ vs \<and> ts' = ts @ us \<and>
    (val s' = bump (val s) (map w_key us) a \<or>
     (\<exists>w vs'. vs = w # vs' \<and> val s' = bump (val s) (map w_key (us @ [w])) a))"
  using assms
proof (induction ws arbitrary: ts s)
  case Nil
  then show ?case by simp
next
  case (Cons w ws)
  show ?case
  proof (cases "c_incrby C (w_key w) a s")
    case (Pair x s1)
    show ?thesis
    proof (cases x)
      case (Inl e')
      with Cons.prems Pair have "ts' = ts" "s' = s1" by auto
      with incrby_err [of "w_key w" a s e' s1] Pair Inl show ?thesis by auto
    next
      case (Inr v)
      have v1: "val s1 = add_at (val s) (w_key w) a" using incrby_ok Pair Inr by blast
      obtain y s2 where e: "(if v = a then c_expire C (w_key w) (w_ttl w) s1 else (Inr (), s1)) = (y, s2)"
        by fastforce
      have v2: "val s2 = add_at (val s) (w_key w) a" using maybe_expire_val [OF e] v1 by simp
      show ?thesis
      proof (cases y)
        case (Inl e')
        with Cons.prems Pair Inr e have "ts' = ts @ [w]" "s' = s2" by auto
        with v2 show ?thesis by (auto intro!: exI [of _ "[w]"])
      next
        case y: (Inr u)
        have rec: "touch_windows C a ws (ts @ [w]) s2 = (Inl e, ts', s')"
          using Cons.prems Pair Inr e y by (cases "v > w_cap w") auto
        from Cons.IH [OF rec] obtain us vs where "ws = us @ vs" "ts' = ts @ w # us"
          "val s' = bump (val s2) (map w_key us) a \<or>
           (\<exists>w vs'. vs = w # vs' \<and> val s' = bump (val s2) (map w_key (us @ [w])) a)" by auto
        with v2 show ?thesis by (auto intro!: exI [of _ "w # us"])
      qed
    qed
  qed
qed

end

lemma group_ledgers_concat:
  "concat (map snd (group_ledgers out ws)) = concat (map snd out) @ map w_key ws"
proof (induction ws arbitrary: out)
  case Nil
  show ?case by simp
next
  case (Cons w ws)
  have "concat (map snd (butlast out @ [(fst (last out), snd (last out) @ [w_key w])])) = concat (map snd out) @ [w_key w]"
    if "out \<noteq> []"
    using that by (cases out rule: rev_cases) auto
  with Cons.IH show ?case by auto
qed

lemma hold_ledgers_concat: "concat (map snd (hold_ledgers ws)) = map w_key ws"
  by (simp add: hold_ledgers_def group_ledgers_concat)

lemma reserve_dollars_cases:
  assumes "reserve_dollars C ledgers a now s = (r, lg, s')" "is_safe a" "0 < a"
  obtains x ts s1 where "touch_windows C a (dollar_windows ledgers now) [] s = (x, ts, s1)"
    "case x of
       Inl e \<Rightarrow> (\<exists>n. give_back C a ts s1 = (n, lg, s') \<and> r = Inl (Thrown e))
     | Inr (Some rf) \<Rightarrow> (\<exists>n. give_back C a ts s1 = (n, lg, s') \<and> r = Inr (Dollar_cap rf n))
     | Inr None \<Rightarrow> s' = s1 \<and> lg = [] \<and>
         r = Inr (Held \<lparr>h_amount = a, h_keys = map w_key ts, h_ledgers = hold_ledgers ts\<rparr>)"
proof -
  obtain x ts s1 where t: "touch_windows C a (dollar_windows ledgers now) [] s = (x, ts, s1)"
    by (metis prod_cases3)
  obtain n lg' s2 where g: "give_back C a ts s1 = (n, lg', s2)" by (metis prod_cases3)
  show ?thesis
    by (rule that [OF t]) (use assms t g in \<open>auto simp: reserve_dollars_def split: sum.splits option.splits\<close>)
qed

lemma reserve_dollars_held:
  assumes "reserve_dollars C ledgers a now s = (Inr (Held h), lg, s')" "is_safe a" "0 < a"
  obtains ts where "touch_windows C a (dollar_windows ledgers now) [] s = (Inr None, ts, s')" "lg = []"
    "h = \<lparr>h_amount = a, h_keys = map w_key ts, h_ledgers = hold_ledgers ts\<rparr>"
proof (rule reserve_dollars_cases [OF assms])
  fix x ts s1
  assume t: "touch_windows C a (dollar_windows ledgers now) [] s = (x, ts, s1)"
    and c: "case x of Inl e \<Rightarrow> (\<exists>n. give_back C a ts s1 = (n, lg, s') \<and> Inr (Held h) = Inl (Thrown e))
     | Inr (Some rf) \<Rightarrow> (\<exists>n. give_back C a ts s1 = (n, lg, s') \<and> Inr (Held h) = Inr (Dollar_cap rf n))
     | Inr None \<Rightarrow> s' = s1 \<and> lg = [] \<and>
         Inr (Held h) = Inr (Held \<lparr>h_amount = a, h_keys = map w_key ts, h_ledgers = hold_ledgers ts\<rparr>)"
  show thesis
  proof (cases x)
    case (Inl e)
    with c show ?thesis by simp
  next
    case (Inr y)
    with c t show ?thesis by (cases y) (auto intro: that)
  qed
qed

lemma reserve_dollars_refused:
  assumes "reserve_dollars C ledgers a now s = (Inr (Dollar_cap rf n), lg, s')" "is_safe a" "0 < a"
  obtains ts s1 where "touch_windows C a (dollar_windows ledgers now) [] s = (Inr (Some rf), ts, s1)"
    "give_back C a ts s1 = (n, lg, s')"
proof (rule reserve_dollars_cases [OF assms])
  fix x ts s1
  assume t: "touch_windows C a (dollar_windows ledgers now) [] s = (x, ts, s1)"
    and c: "case x of Inl e \<Rightarrow> (\<exists>m. give_back C a ts s1 = (m, lg, s') \<and> Inr (Dollar_cap rf n) = Inl (Thrown e))
     | Inr (Some rf') \<Rightarrow> (\<exists>m. give_back C a ts s1 = (m, lg, s') \<and> Inr (Dollar_cap rf n) = Inr (Dollar_cap rf' m))
     | Inr None \<Rightarrow> s' = s1 \<and> lg = [] \<and>
         Inr (Dollar_cap rf n) = Inr (Held \<lparr>h_amount = a, h_keys = map w_key ts, h_ledgers = hold_ledgers ts\<rparr>)"
  show thesis
  proof (cases x)
    case (Inl e)
    with c show ?thesis by simp
  next
    case (Inr y)
    with c t show ?thesis by (cases y) (auto intro: that)
  qed
qed

text \<open>The groups are the ledgers': a prefix's keys are its own windows', in order; with one row per prefix
  the groups are exactly the ledgers that have a window.\<close>

lemma group_ledgers_keys:
  "concat (map snd (filter (\<lambda>l. fst l = p) (group_ledgers out ws))) =
     concat (map snd (filter (\<lambda>l. fst l = p) out)) @ map w_key (filter (\<lambda>w. w_ledger w = p) ws)"
proof (induction ws arbitrary: out)
  case (Cons w ws)
  show ?case
  proof (cases "out \<noteq> [] \<and> fst (last out) = w_ledger w")
    case True
    then obtain xs q ks where "out = xs @ [(q, ks)]" "q = w_ledger w" by (cases out rule: rev_cases) auto
    then show ?thesis by (simp add: Cons.IH)
  next
    case False
    then have "group_ledgers out (w # ws) = group_ledgers (out @ [(w_ledger w, [w_key w])]) ws" by auto
    then show ?thesis by (simp add: Cons.IH)
  qed
qed simp

lemma group_ledgers_nonempty: "\<forall>l \<in> set out. snd l \<noteq> [] \<Longrightarrow> l \<in> set (group_ledgers out ws) \<Longrightarrow> snd l \<noteq> []"
proof (induction ws arbitrary: out)
  case (Cons w ws)
  show ?case
    by (rule Cons.IH [OF _ Cons.prems(2) [unfolded group_ledgers.simps]])
       (use Cons.prems(1) in \<open>auto dest: in_set_butlastD\<close>)
qed simp

lemma group_ledgers_one:
  "\<forall>w \<in> set ws. w_ledger w = p \<Longrightarrow> group_ledgers (out @ [(p, ks)]) (ws @ vs) = group_ledgers (out @ [(p, ks @ map w_key ws)]) vs"
  by (induction ws arbitrary: ks) auto

definition ledger_group :: "int \<Rightarrow> dledger \<Rightarrow> (string \<times> key list) option" where
  "ledger_group now l = (case dollar_windows [l] now of [] \<Rightarrow> None | ws \<Rightarrow> Some (d_prefix l, map w_key ws))"

lemma dollar_windows_Cons: "dollar_windows (l # ls) now = dollar_windows [l] now @ dollar_windows ls now"
  by (simp add: dollar_windows_def)

lemma dollar_windows_ledger: "w \<in> set (dollar_windows [l] now) \<Longrightarrow> w_ledger w = d_prefix l"
  by (cases "cap_day (d_caps l)"; cases "cap_week (d_caps l)"; cases "cap_month (d_caps l)")
    (auto simp: dollar_windows_def List.map_filter_def)

lemma group_ledgers_ledgers:
  "distinct (map d_prefix ls) \<Longrightarrow> fst ` set out \<inter> d_prefix ` set ls = {} \<Longrightarrow>
   group_ledgers out (dollar_windows ls now) = out @ List.map_filter (ledger_group now) ls"
proof (induction ls arbitrary: out)
  case Nil
  then show ?case by (simp add: dollar_windows_def List.map_filter_def)
next
  case (Cons l ls)
  have own: "\<forall>w \<in> set (dollar_windows [l] now). w_ledger w = d_prefix l" using dollar_windows_ledger by blast
  show ?case
  proof (cases "dollar_windows [l] now")
    case Nil
    then have "ledger_group now l = None" by (simp add: ledger_group_def)
    then show ?thesis using Cons Nil dollar_windows_Cons [of l ls now] by (simp add: List.map_filter_def)
  next
    case (Cons w ws)
    have new: "\<not> (out \<noteq> [] \<and> fst (last out) = w_ledger w)"
    proof
      assume a: "out \<noteq> [] \<and> fst (last out) = w_ledger w"
      then have "fst (last out) \<in> fst ` set out" by (intro imageI last_in_set) simp
      moreover have "fst (last out) = d_prefix l" using a own Cons by simp
      ultimately show False using Cons.prems(2) by (simp add: disjoint_iff)
    qed
    have "group_ledgers out (dollar_windows (l # ls) now) = group_ledgers (out @ [(d_prefix l, [w_key w])]) (ws @ dollar_windows ls now)"
      using new own Cons dollar_windows_Cons [of l ls now] by auto
    also have "\<dots> = group_ledgers (out @ [(d_prefix l, map w_key (w # ws))]) (dollar_windows ls now)"
      using own Cons group_ledgers_one [of ws "d_prefix l" out "[w_key w]" "dollar_windows ls now"] by simp
    also have "\<dots> = (out @ [(d_prefix l, map w_key (w # ws))]) @ List.map_filter (ledger_group now) ls"
      by (rule Cons.IH) (use Cons.prems in auto)
    finally show ?thesis using Cons by (simp add: ledger_group_def List.map_filter_def)
  qed
qed

section \<open>Properties\<close>

lemma granted_windows:
  assumes "counter_store C val" and "is_safe a" "0 < a"
    and "distinct (map w_key (dollar_windows ledgers now))"
    and "reserve_dollars C ledgers a now s = (Inr (Held h), lg, s')"
  shows "h_amount h = a \<and> h_keys h = map w_key (dollar_windows ledgers now)
    \<and> concat (map snd (h_ledgers h)) = h_keys h
    \<and> (\<forall>k. count_at (val s') k = count_at (val s) k + (if k \<in> set (h_keys h) then a else 0))
    \<and> (\<forall>w \<in> set (dollar_windows ledgers now). count_at (val s') (w_key w) \<le> w_cap w)"
proof -
  let ?ws = "dollar_windows ledgers now"
  obtain ts where t: "touch_windows C a ?ws [] s = (Inr None, ts, s')"
    and h: "h = \<lparr>h_amount = a, h_keys = map w_key ts, h_ledgers = hold_ledgers ts\<rparr>"
    by (rule reserve_dollars_held [OF assms(5,2,3)])
  have ts: "ts = ?ws" and v: "val s' = bump (val s) (map w_key ?ws) a"
    and fit: "\<forall>w \<in> set ?ws. count_at (val s) (w_key w) + a \<le> w_cap w"
    using counter_store.touch_windows_ok [OF assms(1) t] assms(4) by auto
  have c: "count_at (val s') k = count_at (val s) k + (if k \<in> set (map w_key ?ws) then a else 0)" for k
    unfolding v count_bump count_list_distinct [OF assms(4)] by simp
  show ?thesis using h ts c fit by (auto simp: hold_ledgers_concat)
qed

text \<open>
  C6: A reservation that is granted has added the amount once at every active window of every
  ledger and nowhere else, each of those windows is within its cap after the addition, and the
  hold lists exactly those keys, grouped by ledger: under a prefix stand the keys of that prefix's
  own windows, in order, no group is empty, and with one ledger per prefix the groups are the
  ledgers with a window, one each, in order.
\<close>

theorem granted_fits:
  assumes "counter_store C val" and "is_safe a" "0 < a"
    and "distinct (map w_key (dollar_windows ledgers now))"
    and "reserve_dollars C ledgers a now s = (Inr (Held h), lg, s')"
  shows "h_amount h = a \<and> h_keys h = map w_key (dollar_windows ledgers now)
    \<and> concat (map snd (h_ledgers h)) = h_keys h
    \<and> (\<forall>p. concat (map snd (filter (\<lambda>l. fst l = p) (h_ledgers h))) = map w_key (filter (\<lambda>w. w_ledger w = p) (dollar_windows ledgers now)))
    \<and> (\<forall>l \<in> set (h_ledgers h). snd l \<noteq> [])
    \<and> (distinct (map d_prefix ledgers) \<longrightarrow> h_ledgers h = List.map_filter (ledger_group now) ledgers)
    \<and> (\<forall>k. count_at (val s') k = count_at (val s) k + (if k \<in> set (h_keys h) then a else 0))
    \<and> (\<forall>w \<in> set (dollar_windows ledgers now). count_at (val s') (w_key w) \<le> w_cap w)"
proof -
  obtain ts where t: "touch_windows C a (dollar_windows ledgers now) [] s = (Inr None, ts, s')"
    and h: "h = \<lparr>h_amount = a, h_keys = map w_key ts, h_ledgers = hold_ledgers ts\<rparr>"
    by (rule reserve_dollars_held [OF assms(5,2,3)])
  have "ts = dollar_windows ledgers now" using counter_store.touch_windows_ok [OF assms(1) t] by simp
  then have g: "h_ledgers h = group_ledgers [] (dollar_windows ledgers now)" using h by (simp add: hold_ledgers_def)
  show ?thesis
    using granted_windows [OF assms] group_ledgers_keys [of _ "[]" "dollar_windows ledgers now"]
      group_ledgers_nonempty [of "[]" _ "dollar_windows ledgers now"] group_ledgers_ledgers [of ledgers "[]" now]
    unfolding g by auto
qed

lemma one_day_windows:
  "dollar_windows [\<lparr>d_prefix = p, d_caps = \<lparr>cap_day = Some x, cap_week = None, cap_month = None\<rparr>\<rparr>] now =
     [\<lparr>w_name = Day, w_key = day_key now p, w_cap = x, w_ttl = day_ttl_seconds, w_ledger = p\<rparr>]"
  by (simp add: dollar_windows_def)

theorem granted_fits_witness:
  "\<exists>h s'. reserve_dollars mem_client
       [\<lparr>d_prefix = dollar_key_prefix, d_caps = \<lparr>cap_day = Some 10, cap_week = None, cap_month = None\<rparr>\<rparr>] 2 0 mem_init
       = (Inr (Held h), [], s') \<and> count_at (m_store s') (day_key 0 dollar_key_prefix) = 2"
proof -
  let ?l = "[\<lparr>d_prefix = dollar_key_prefix, d_caps = \<lparr>cap_day = Some 10, cap_week = None, cap_month = None\<rparr>\<rparr>]"
  obtain h s' where r: "reserve_dollars mem_client ?l 2 0 mem_init = (Inr (Held h), [], s')"
    by (simp add: reserve_dollars_def one_day_windows mem_run is_safe_def max_safe_def)
  have "count_at (m_store s') (day_key 0 dollar_key_prefix) = 2"
    using granted_fits [OF mem.counter_store_axioms _ _ _ r]
    by (simp add: is_safe_def max_safe_def one_day_windows mem_init_def)
  with r show ?thesis by blast
qed

text \<open>
  C27: A refused reservation names the first window whose total went above its cap, with that
  total, and is given back at every window it touched: what cannot be given back is a touched key
  whose own DECRBY threw, each such command is one log line, a counter keeps the amount at most once
  for each of its log lines, and every other counter is as before. So at most as many counters as
  there are stranded keys are off, and none without one.
\<close>

theorem refusal_gives_back:
  assumes "counter_store C val" and "is_safe a" "0 < a"
    and "reserve_dollars C ledgers a now s = (Inr (Dollar_cap rf n), lg, s')"
  shows "n = length lg \<and> length (failed_keys lg) = n
    \<and> (\<exists>us w vs. dollar_windows ledgers now = us @ w # vs
         \<and> rf_ledger rf = w_ledger w \<and> rf_window rf = w_name w \<and> rf_cap rf = w_cap w \<and> rf_cap rf < rf_reserved rf
         \<and> rf_reserved rf = count_at (val s) (w_key w) + a * int (count_list (map w_key (us @ [w])) (w_key w))
         \<and> (\<forall>u \<in> set us. count_at (val s) (w_key u) + a \<le> w_cap u)
         \<and> (\<forall>k. count_list (failed_keys lg) k \<le> count_list (map w_key (us @ [w])) k))
    \<and> (\<forall>x \<in> set lg. \<exists>e k t t'. x = Giveback_error (fault_code e) k \<and> c_decrby C k a t = (Inl e, t'))
    \<and> (\<forall>k. count_at (val s) k \<le> count_at (val s') k \<and> count_at (val s') k \<le> count_at (val s) k + a * int (count_list (failed_keys lg) k))
    \<and> card {k. count_at (val s') k \<noteq> count_at (val s) k} \<le> n"
proof -
  obtain ts s1 where t: "touch_windows C a (dollar_windows ledgers now) [] s = (Inr (Some rf), ts, s1)"
    and g: "give_back C a ts s1 = (n, lg, s')"
    by (rule reserve_dollars_refused [OF assms(4,2,3)])
  have a: "0 \<le> a" using assms(3) by simp
  obtain us w vs where *: "dollar_windows ledgers now = us @ w # vs" "ts = us @ [w]" "val s1 = bump (val s) (map w_key (us @ [w])) a"
    "rf_ledger rf = w_ledger w" "rf_window rf = w_name w" "rf_cap rf = w_cap w" "rf_cap rf < rf_reserved rf"
    "rf_reserved rf = count_at (val s) (w_key w) + a * int (count_list (map w_key (us @ [w])) (w_key w))"
    "\<forall>u \<in> set us. count_at (val s) (w_key u) + a \<le> w_cap u"
    using counter_store.touch_windows_refused [OF assms(1) t a] by auto
  note gb = counter_store.give_back_exact [OF assms(1) g a]
  have net: "count_at (val s1) k - a * int (count_list (map w_key ts) k) = count_at (val s) k" for k
    unfolding *(3) *(2) count_bump by simp
  have n: "n = length lg" "length (failed_keys lg) = n" using gb by auto
  have bounds: "count_at (val s) k \<le> count_at (val s') k \<and> count_at (val s') k \<le> count_at (val s) k + a * int (count_list (failed_keys lg) k)" for k
    using gb net [of k] by metis
  have "{k. count_at (val s') k \<noteq> count_at (val s) k} \<subseteq> set (failed_keys lg)"
  proof
    fix k assume "k \<in> {k. count_at (val s') k \<noteq> count_at (val s) k}"
    moreover have "count_at (val s') k = count_at (val s) k" if "count_list (failed_keys lg) k = 0"
      using bounds [of k] unfolding that by simp
    ultimately have "count_list (failed_keys lg) k \<noteq> 0" by blast
    then show "k \<in> set (failed_keys lg)" by (simp add: count_list_0_iff)
  qed
  then have "card {k. count_at (val s') k \<noteq> count_at (val s) k} \<le> card (set (failed_keys lg))" by (intro card_mono) simp_all
  also have "\<dots> \<le> n" using card_length [of "failed_keys lg"] n by simp
  finally have "card {k. count_at (val s') k \<noteq> count_at (val s) k} \<le> n" .
  moreover have "\<exists>us w vs. dollar_windows ledgers now = us @ w # vs
         \<and> rf_ledger rf = w_ledger w \<and> rf_window rf = w_name w \<and> rf_cap rf = w_cap w \<and> rf_cap rf < rf_reserved rf
         \<and> rf_reserved rf = count_at (val s) (w_key w) + a * int (count_list (map w_key (us @ [w])) (w_key w))
         \<and> (\<forall>u \<in> set us. count_at (val s) (w_key u) + a \<le> w_cap u)
         \<and> (\<forall>k. count_list (failed_keys lg) k \<le> count_list (map w_key (us @ [w])) k)"
    using * gb by (intro exI [of _ us] exI [of _ w] exI [of _ vs]) simp
  ultimately show ?thesis using n bounds gb by blast
qed

theorem refusal_gives_back_witness:
  "\<exists>rf s'. reserve_dollars mem_client
       [\<lparr>d_prefix = dollar_key_prefix, d_caps = \<lparr>cap_day = Some 1, cap_week = None, cap_month = None\<rparr>\<rparr>] 2 0 mem_init
       = (Inr (Dollar_cap rf 0), [], s') \<and> count_at (m_store s') (day_key 0 dollar_key_prefix) = 0"
proof -
  let ?l = "[\<lparr>d_prefix = dollar_key_prefix, d_caps = \<lparr>cap_day = Some 1, cap_week = None, cap_month = None\<rparr>\<rparr>]"
  obtain rf s' where r: "reserve_dollars mem_client ?l 2 0 mem_init = (Inr (Dollar_cap rf 0), [], s')"
    by (simp add: reserve_dollars_def one_day_windows mem_run is_safe_def max_safe_def)
  have "\<forall>k. count_at (m_store mem_init) k \<le> count_at (m_store s') k \<and>
      count_at (m_store s') k \<le> count_at (m_store mem_init) k + 2 * int (count_list (failed_keys []) k)"
    using refusal_gives_back [OF mem.counter_store_axioms _ _ r]
    by (simp add: is_safe_def max_safe_def failed_keys_def List.map_filter_def)
  then have "count_at (m_store s') (day_key 0 dollar_key_prefix) = 0"
    by (auto simp: mem_init_def failed_keys_def List.map_filter_def intro: order_antisym)
  with r show ?thesis by blast
qed

text \<open>What the keys before the j-th hold once their move is made.\<close>

definition moved_to :: "int \<Rightarrow> (key \<Rightarrow> int option) \<Rightarrow> key list \<Rightarrow> nat \<Rightarrow> key \<Rightarrow> int option" where
  "moved_to d m ks j = (\<lambda>k. if k \<in> set (take j ks) then map_option (\<lambda>c. max 0 (c + d)) (m k) else m k)"

text \<open>
  C26: A settlement moves every key of the hold from the reserved to the settled amount, in order: a
  key that exists moves by the difference and never below 0, a key that is gone is not created, and
  no other key changes. It says \<open>applied\<close> for all of them, and logs no failure, exactly when all
  have moved; it says fewer only when the command of the key at that place threw, with the keys
  before it moved and the fault's code logged, and then the keys after it are as they were, and the
  key itself may have moved unanswered.
\<close>

theorem settle_moves_shares:
  assumes "counter_store C val" and "distinct (h_keys h)"
    and "is_safe m" "0 \<le> m" "is_safe (h_amount h)" "m \<noteq> h_amount h"
    and "settle_dollars C h (Some m) ev s = ((applied, n), lg, s')"
  shows "n = length (h_keys h)
    \<and> (if applied = n then no_settle_error lg \<and> val s' = moved_to (m - h_amount h) (val s) (h_keys h) n
       else applied < n
         \<and> (\<exists>e t lg'. c_eval C (settle_script C (h_keys h ! applied) (m - h_amount h)) t = (Inl e, s')
              \<and> val t = moved_to (m - h_amount h) (val s) (h_keys h) applied
              \<and> lg = lg' @ [Settle_error ev (fault_code e) applied n] \<and> no_settle_error lg')
         \<and> (val s' = moved_to (m - h_amount h) (val s) (h_keys h) applied
            \<or> val s' = moved_to (m - h_amount h) (val s) (h_keys h) (Suc applied)))"
proof -
  let ?d = "m - h_amount h"
  have moved: "settle_all ?d (val s) (take j (h_keys h)) = moved_to ?d (val s) (h_keys h) j" for j
    by (rule ext) (simp add: moved_to_def settle_all_at settle_all_other distinct_take assms(2))
  obtain r i lg' s1 where k: "settle_keys C ?d (h_keys h) 0 s = (r, i, lg', s1)"
    by (metis prod_cases4)
  with assms(3-7) have i: "i = applied" "s1 = s'" "n = length (h_keys h)"
    and lg: "lg = (case r of None \<Rightarrow> lg' | Some e \<Rightarrow> lg' @ [Settle_error ev (fault_code e) applied n])"
    by (auto simp: settle_dollars_def Let_def split: option.splits)
  note keys = counter_store.settle_keys_val [OF assms(1) k] and ne = settle_keys_log [OF k]
  show ?thesis
  proof (cases r)
    case None
    with keys i have "applied = n" "val s' = settle_all ?d (val s) (take n (h_keys h))" by auto
    then show ?thesis using moved [of n] i ne lg None by simp
  next
    case (Some e)
    obtain t where t: "applied < n" "val t = settle_all ?d (val s) (take applied (h_keys h))"
      "c_eval C (settle_script C (h_keys h ! applied) ?d) t = (Inl e, s')"
      using counter_store.settle_keys_fault [OF assms(1) k [unfolded Some]] i by auto
    have "val s' = settle_all ?d (val s) (take applied (h_keys h)) \<or> val s' = settle_all ?d (val s) (take (Suc applied) (h_keys h))"
      using keys Some i by auto
    moreover have "\<exists>e t lg'. c_eval C (settle_script C (h_keys h ! applied) ?d) t = (Inl e, s')
        \<and> val t = moved_to ?d (val s) (h_keys h) applied \<and> lg = lg' @ [Settle_error ev (fault_code e) applied n] \<and> no_settle_error lg'"
      using t moved ne lg Some by (intro exI [of _ e] exI [of _ t] exI [of _ lg']) simp
    ultimately show ?thesis using t(1) moved i(3) by simp
  qed
qed

theorem settle_moves_shares_witness:
  "\<exists>s'. settle_dollars mem_client \<lparr>h_amount = 5, h_keys = [''k''], h_ledgers = []\<rparr> (Some 2) ''e''
       (mem_init\<lparr>m_store := [''k'' \<mapsto> 9]\<rparr>) = ((1, 1), [], s') \<and> m_store s' ''k'' = Some 6"
proof -
  let ?h = "\<lparr>h_amount = 5, h_keys = [''k''], h_ledgers = []\<rparr> :: hold"
  let ?s = "mem_init\<lparr>m_store := [''k'' \<mapsto> 9]\<rparr>"
  obtain s' where r: "settle_dollars mem_client ?h (Some 2) ''e'' ?s = ((1, 1), [], s')"
    by (simp add: settle_dollars_def settle_script_def mem_run is_safe_def max_safe_def Let_def count_at_def)
  have "m_store s' = moved_to (2 - 5) (m_store ?s) [''k''] 1"
    using settle_moves_shares [OF mem.counter_store_axioms _ _ _ _ _ r] by (simp add: is_safe_def max_safe_def)
  with r show ?thesis by (auto simp: moved_to_def)
qed

text \<open>
  A granted reservation that is released in full leaves every counter where it was.
\<close>

theorem release_restores:
  assumes "counter_store C val" and "is_safe a" "0 < a"
    and "distinct (map w_key (dollar_windows ledgers now))" and "\<forall>k. 0 \<le> count_at (val s) k"
    and "reserve_dollars C ledgers a now s = (Inr (Held h), lg, s1)"
    and "release_dollars C h s1 = ((length (h_keys h), n), lg', s2)"
  shows "\<forall>k. count_at (val s2) k = count_at (val s) k"
proof
  fix k
  let ?ws = "dollar_windows ledgers now"
  obtain ts where t: "touch_windows C a ?ws [] s = (Inr None, ts, s1)"
    and h: "h = \<lparr>h_amount = a, h_keys = map w_key ts, h_ledgers = hold_ledgers ts\<rparr>"
    by (rule reserve_dollars_held [OF assms(6,2,3)])
  have v: "val s1 = bump (val s) (h_keys h) a" "ts = ?ws"
    using counter_store.touch_windows_ok [OF assms(1) t] h by auto
  have d: "distinct (h_keys h)" using assms(4) h v by simp
  have "val s2 = settle_all (- a) (val s1) (h_keys h)"
    using counter_store.settle_dollars_full [OF assms(1) assms(7) [unfolded release_dollars_def]] assms(2,3) h
    by (simp add: is_safe_def max_safe_def)
  moreover have "count_at (val s1) k = count_at (val s) k + (if k \<in> set (h_keys h) then a else 0)"
    unfolding v(1) count_bump count_list_distinct [OF d] by simp
  ultimately show "count_at (val s2) k = count_at (val s) k"
    using assms(3) assms(5) [rule_format, of k] settle_all_at [OF d, of k "- a" "val s1"] settle_all_other [of k "h_keys h" "- a" "val s1"]
    by (cases "k \<in> set (h_keys h)"; cases "val s1 k") (auto simp: count_at_def max_def)
qed

theorem release_restores_witness:
  "\<exists>h s1 lg' n s2. reserve_dollars mem_client
       [\<lparr>d_prefix = dollar_key_prefix, d_caps = \<lparr>cap_day = Some 10, cap_week = None, cap_month = None\<rparr>\<rparr>] 2 0 mem_init
       = (Inr (Held h), [], s1) \<and> release_dollars mem_client h s1 = ((1, n), lg', s2)
       \<and> count_at (m_store s2) (day_key 0 dollar_key_prefix) = 0"
proof -
  let ?l = "[\<lparr>d_prefix = dollar_key_prefix, d_caps = \<lparr>cap_day = Some 10, cap_week = None, cap_month = None\<rparr>\<rparr>]"
  obtain h s1 where r: "reserve_dollars mem_client ?l 2 0 mem_init = (Inr (Held h), [], s1)"
    and h: "h_keys h = [day_key 0 dollar_key_prefix]" "h_amount h = 2"
    by (simp add: reserve_dollars_def one_day_windows mem_run is_safe_def max_safe_def)
  have f: "m_fail s1 = (\<lambda>_. None)" "m_store s1 = [day_key 0 dollar_key_prefix \<mapsto> 2]"
    using r by (auto simp: reserve_dollars_def one_day_windows mem_run is_safe_def max_safe_def count_at_def add_at_def)
  obtain n lg' s2 where rel: "release_dollars mem_client h s1 = ((length (h_keys h), n), lg', s2)"
    using h f by (simp add: release_dollars_def settle_dollars_def settle_script_def mem_run is_safe_def max_safe_def Let_def
        count_at_def)
  have "\<forall>k. count_at (m_store s2) k = count_at (m_store mem_init) k"
    using release_restores [OF mem.counter_store_axioms _ _ _ _ r rel]
    by (simp add: is_safe_def max_safe_def one_day_windows mem_init_def count_at_def)
  with r rel h show ?thesis by (auto simp: mem_init_def count_at_def)
qed

text \<open>
  C9: A job never settles below what it is known to have cost: at the floor it keeps at least its
  reservation and at least the reported cost, and only a trusted, fully counted exit line under a
  cap within the reservation settles to the reported cost itself.
\<close>

theorem settlement_never_undercharges:
  "(case dollar_settlement metered tok us reserved trusted of
      Inl _ \<Rightarrow> reserved < 0 \<or> \<not> is_safe reserved
    | Inr (m, Floor) \<Rightarrow> m = max reserved (case tok of None \<Rightarrow> reserved
          | Some t \<Rightarrow> case metered (t_cost t) of None \<Rightarrow> reserved | Some c \<Rightarrow> c)
    | Inr (m, Metered) \<Rightarrow> trusted \<and> (\<exists>t cap. tok = Some t \<and> t_metered t \<and> t_cost_cap t = Some cap \<and> cap \<le> reserved \<and>
          (\<forall>k \<in> set floor_counters. t_counters t k = Some 0) \<and> metered (t_cost t) = Some m \<and>
          (us \<noteq> None \<or> t_calls t = Some 0 \<and> m = 0)))"
  by (auto simp: dollar_settlement_def Let_def split: option.splits if_splits)

theorem settlement_never_undercharges_witness:
  "dollar_settlement Some (Some \<lparr>t_metered = True, t_cost = 3, t_cost_cap = Some 8, t_counters = (\<lambda>_. Some 0), t_calls = Some 2\<rparr>)
     (Some \<lparr>us_models = [], us_truncated = Some 0\<rparr>) 10 True = Inr (3, Metered)
   \<and> (\<exists>cap. Some 8 = Some cap \<and> cap \<le> (10::int))"
proof -
  let ?t = "\<lparr>t_metered = True, t_cost = 3, t_cost_cap = Some 8, t_counters = (\<lambda>_. Some 0), t_calls = Some (2::int)\<rparr>"
  have "dollar_settlement Some (Some ?t) (Some \<lparr>us_models = [], us_truncated = Some 0\<rparr>) 10 True = Inr (3, Metered)"
    by (simp add: dollar_settlement_def is_safe_def max_safe_def)
  then show ?thesis
    using settlement_never_undercharges [where metered = Some and tok = "Some ?t" and us = "Some \<lparr>us_models = [], us_truncated = Some 0\<rparr>" and reserved = 10 and trusted = True] by auto
qed

lemma model_reported_None: "model_reported metered ref rs None = None"
  by (induction rs) auto

lemma model_reported_Some:
  "model_reported metered ref rs (Some a) = Some m \<longleftrightarrow>
     (\<exists>ps. m = a + sum_list ps \<and> map (\<lambda>r. metered (u_cost r)) (filter (\<lambda>r. row_ref r = ref) rs) = map Some ps)"
proof (induction rs arbitrary: a)
  case Nil
  show ?case by auto
next
  case (Cons r rs)
  show ?case
  proof (cases "row_ref r = ref")
    case True
    show ?thesis
    proof (cases "metered (u_cost r)")
      case None
      with True show ?thesis by (simp add: model_reported_None Cons_eq_map_conv)
    next
      case (Some c)
      with True show ?thesis
        by (auto simp: Cons.IH Cons_eq_map_conv add.assoc)
    qed
  next
    case False
    then show ?thesis using Cons.IH by simp
  qed
qed

text \<open>
  A model window settles metered only when the whole job did, and then to the sum of that
  model's own rows (0 for a run without calls); at the floor it keeps at least the reservation and
  at least those rows.
\<close>

theorem model_settlement_never_undercharges:
  "(case model_dollar_settlement metered cost_zero ref b tok us reserved trusted of
      Inl _ \<Rightarrow> reserved < 0 \<or> \<not> is_safe reserved
    | Inr (m, Floor) \<Rightarrow> reserved \<le> m \<and> (\<forall>u ps. us = Some u \<longrightarrow>
          map (\<lambda>r. metered (u_cost r)) (filter (\<lambda>r. row_ref r = ref) (us_models u)) = map Some ps \<longrightarrow> sum_list ps \<le> m)
    | Inr (m, Metered) \<Rightarrow> b = Metered \<and> trusted \<and>
        (case us of None \<Rightarrow> m = 0 \<and> (\<exists>t. tok = Some t \<and> t_calls t = Some 0)
         | Some u \<Rightarrow> us_truncated u = Some 0 \<and> (\<exists>ps. m = sum_list ps \<and>
             map (\<lambda>r. metered (u_cost r)) (filter (\<lambda>r. row_ref r = ref) (us_models u)) = map Some ps)))"
proof -
  let ?rows = "case us of None \<Rightarrow> [] | Some u \<Rightarrow> us_models u"
  define rep where "rep = model_reported metered ref ?rows (Some 0)"
  have r: "rep = Some c \<Longrightarrow> \<exists>ps. c = sum_list ps \<and>
      map (\<lambda>r. metered (u_cost r)) (filter (\<lambda>r. row_ref r = ref) ?rows) = map Some ps" for c
    by (simp add: rep_def model_reported_Some)
  have p: "map (\<lambda>r. metered (u_cost r)) (filter (\<lambda>r. row_ref r = ref) ?rows) = map Some ps \<Longrightarrow> rep = Some (sum_list ps)" for ps
    by (auto simp: rep_def model_reported_Some)
  show ?thesis
  proof (cases us)
    case None
    then have "rep = Some 0" by (simp add: rep_def)
    with None show ?thesis
      by (cases tok) (auto simp: model_dollar_settlement_def Let_def rep_def)
  next
    case (Some u)
    show ?thesis
      unfolding model_dollar_settlement_def Let_def rep_def [symmetric]
      using r p Some by (cases rep) (simp_all, auto)
  qed
qed

theorem model_settlement_never_undercharges_witness:
  "\<exists>m. model_dollar_settlement Some (\<lambda>c. c = (0::int)) ''p/m'' Floor None
      (Some \<lparr>us_models = [\<lparr>u_provider = ''P'', u_model = ''m'', u_cost = 30\<rparr>], us_truncated = Some 0\<rparr>) 10 True = Inr (m, Floor) \<and> 30 \<le> m"
proof -
  let ?u = "\<lparr>us_models = [\<lparr>u_provider = ''P'', u_model = ''m'', u_cost = (30::int)\<rparr>], us_truncated = Some 0\<rparr>"
  let ?r = "model_dollar_settlement Some (\<lambda>c. c = (0::int)) ''p/m'' Floor None (Some ?u) 10 True"
  have ref: "row_ref \<lparr>u_provider = ''P'', u_model = ''m'', u_cost = (30::int)\<rparr> = ''p/m''"
    by code_simp
  note s = model_settlement_never_undercharges [where metered = Some and cost_zero = "\<lambda>c. c = (0::int)" and ref = "''p/m''" and b = Floor
      and tok = None and us = "Some ?u" and reserved = 10 and trusted = True]
  obtain m where m: "?r = Inr (m, Floor)"
    using s by (cases ?r) (auto simp: is_safe_def max_safe_def split: basis.splits prod.splits)
  have "\<forall>ps. [Some 30] = map Some ps \<longrightarrow> sum_list ps \<le> m" using s ref unfolding m by simp
  from spec [OF this, of "[30]"] show ?thesis using m by auto
qed

end
