(* ===== verification/DollarFloors.thy ===== *)
theory DollarFloors
  imports DollarBudget
begin

text \<open>
  Which deployment windows a run record's money is in, and what the records say a window's
  counter must at least hold (the second half of worker/src/dollar-budget.mjs). A record names
  the day, week or month window its settled amount went into; the doctor sums the records of a
  window and compares the sum with the counter, to notice a Valkey that lost history. The hash of
  \<open>valkeyEndpointTag\<close> is a parameter; a record's fields of another type than text are \<open>Not_text\<close>.
\<close>

section \<open>Keys back to windows\<close>

text \<open>A pattern of digits and separators: \<open>d\<close> stands for a digit.\<close>

definition shaped :: "string \<Rightarrow> string \<Rightarrow> bool" where
  "shaped p s = list_all2 (\<lambda>x c. if x = CHR ''d'' then is_digit c else c = x) p s"

definition after :: "string \<Rightarrow> string \<Rightarrow> string option" where
  "after p s = (if take (length p) s = p then Some (drop (length p) s) else None)"

definition deployment_windows :: "window_name list" where
  "deployment_windows = [Day, Week, Month]"

fun window_key_re :: "window_name \<Rightarrow> string \<times> string" where
  "window_key_re Day = (dollar_key_prefix @ '':'', ''dddd-dd-dd'')"
| "window_key_re Week = (dollar_key_prefix @ '':w:'', ''dddd-dd-dd'')"
| "window_key_re Month = (dollar_key_prefix @ '':m:'', ''dddd-dd'')"

definition match_window :: "string \<Rightarrow> window_name \<Rightarrow> string option" where
  "match_window key w =
     (case window_key_re w of (p, sh) \<Rightarrow>
        (case after p key of None \<Rightarrow> None | Some b \<Rightarrow> if shaped sh b then Some b else None))"

fun first_match :: "string \<Rightarrow> window_name list \<Rightarrow> (window_name \<times> string) option" where
  "first_match key [] = None"
| "first_match key (w # ws) =
     (case match_window key w of Some b \<Rightarrow> Some (w, b) | None \<Rightarrow> first_match key ws)"

definition deployment_window_of_key :: "string \<Rightarrow> (window_name \<times> string) option" where
  "deployment_window_of_key key = first_match key deployment_windows"

record window_at =
  wa_key :: key
  wa_bucket :: "string option"
  wa_start :: int
  wa_end :: int
  wa_ttl :: int

definition window_at_key :: "key \<Rightarrow> int \<Rightarrow> int \<Rightarrow> int \<Rightarrow> window_at" where
  "window_at_key k a b ttl =
     \<lparr>wa_key = k, wa_bucket = map_option snd (deployment_window_of_key k), wa_start = a, wa_end = b, wa_ttl = ttl\<rparr>"

fun deployment_windows_at :: "int \<Rightarrow> window_name \<Rightarrow> window_at" where
  "deployment_windows_at now Day =
     (let (y, mo, dd) = civil (utc_day now)
      in window_at_key (day_key now dollar_key_prefix)
           (date_utc y (int mo) dd * day_ms) (date_utc y (int mo) (dd + 1) * day_ms) day_ttl_seconds)"
| "deployment_windows_at now Week =
     (let (y, mo, dd) = civil (utc_day now);
          day = date_utc y (int mo) dd * day_ms;
          monday = day - ((weekday (utc_day day) + 6) mod 7) * 86400000
      in window_at_key (week_key now dollar_key_prefix) monday (monday + 7 * 86400000) week_ttl_seconds)"
| "deployment_windows_at now Month =
     (let (y, mo, dd) = civil (utc_day now)
      in window_at_key (month_key now dollar_key_prefix)
           (date_utc y (int mo) 1 * day_ms) (date_utc y (int mo + 1) 1 * day_ms) month_ttl_seconds)"

section \<open>The windows a record names\<close>

definition is_hex :: "char \<Rightarrow> bool" where
  "is_hex c \<longleftrightarrow> c \<in> set ''0123456789abcdef''"

definition valkey_tag :: "string \<Rightarrow> bool" where
  "valkey_tag s \<longleftrightarrow> length s = 16 \<and> list_all is_hex s"

text \<open>An endpoint as its parts: a socket path, or a host, a port and a database, each absent,
  an integer or something that is no integer. \<open>hash16\<close> is the hash.\<close>

datatype num_field = No_value | Number_value int | Not_number

datatype endpoint = Socket string | Address string num_field num_field

definition field_or :: "int \<Rightarrow> num_field \<Rightarrow> int option" where
  "field_or d f = (case f of No_value \<Rightarrow> Some d | Number_value n \<Rightarrow> Some n | Not_number \<Rightarrow> None)"

definition int_text :: "int \<Rightarrow> string" where
  "int_text n = (if n < 0 then CHR ''-'' # nat_text (nat (- n)) else nat_text (nat n))"

definition bare_host :: "string \<Rightarrow> string" where
  "bare_host h =
     (if 2 \<le> length h \<and> hd h = CHR ''['' \<and> last h = CHR '']'' \<and> CHR ''\<newline>'' \<notin> set h
      then butlast (tl h) else h)"

definition valkey_endpoint_tag :: "(string \<Rightarrow> string) \<Rightarrow> endpoint option \<Rightarrow> string option" where
  "valkey_endpoint_tag hash16 e =
     (case e of None \<Rightarrow> None
      | Some (Socket p) \<Rightarrow> Some (hash16 (''unix:'' @ p))
      | Some (Address host port db) \<Rightarrow>
          (let h0 = map ascii_lower (bare_host host);
               h = (if h0 = [] then ''127.0.0.1'' else h0)
           in case (field_or 6379 port, field_or 0 db) of
                (Some p, Some n) \<Rightarrow>
                  if \<not> is_safe p \<or> p < 0 \<or> \<not> is_safe n \<or> n < 0 then None
                  else Some (hash16 (h @ '':'' @ int_text p @ ''/'' @ int_text n))
              | _ \<Rightarrow> None))"

record reserved_in =
  ri_bucket :: "window_name \<Rightarrow> string option"
  ri_valkey :: string

fun index_of :: "'a \<Rightarrow> 'a list \<Rightarrow> nat option" where
  "index_of x [] = None"
| "index_of x (y # ys) = (if x = y then Some 0 else map_option Suc (index_of x ys))"

definition share_held :: "hold \<Rightarrow> nat \<Rightarrow> int option \<Rightarrow> key \<Rightarrow> int option" where
  "share_held h applied target k =
     (case index_of k (h_keys h) of
        Some i \<Rightarrow> if i < applied then target else Some (h_amount h)
      | None \<Rightarrow> Some (h_amount h))"

fun found_windows ::
  "hold \<Rightarrow> nat \<Rightarrow> int option \<Rightarrow> int \<Rightarrow> key list \<Rightarrow> (window_name \<Rightarrow> string option) \<Rightarrow> (window_name \<Rightarrow> string option)" where
  "found_windows h applied target rec [] found = found"
| "found_windows h applied target rec (k # ks) found =
     found_windows h applied target rec ks
       (case deployment_window_of_key k of None \<Rightarrow> found
        | Some (w, b) \<Rightarrow>
            (case share_held h applied target k of
               Some x \<Rightarrow> if is_safe x \<and> rec \<le> x then found(w \<mapsto> b) else found
             | None \<Rightarrow> found))"

definition deployment_windows_of ::
  "hold option \<Rightarrow> nat \<Rightarrow> int option \<Rightarrow> int option \<Rightarrow> string option \<Rightarrow> reserved_in option" where
  "deployment_windows_of hold applied target recorded valkey =
     (case (valkey, hold) of
        (Some v, Some h) \<Rightarrow>
          if \<not> valkey_tag v then None
          else (case List.find (\<lambda>l. fst l = dollar_key_prefix) (h_ledgers h) of
             None \<Rightarrow> None
           | Some l \<Rightarrow>
               (case recorded of None \<Rightarrow> None
                | Some r \<Rightarrow>
                    if \<not> is_safe (h_amount h) \<or> \<not> is_safe r \<or> \<not> is_safe (int applied) then None
                    else (let found = found_windows h applied target r (snd l) Map.empty
                          in if \<forall>w \<in> set deployment_windows. found w = None then None
                             else Some \<lparr>ri_bucket = found, ri_valkey = v\<rparr>)))
      | _ \<Rightarrow> None)"

section \<open>Reading a record back\<close>

datatype field = Text_value string | Not_text

record raw_reserved =
  rr_day :: "field option"
  rr_week :: "field option"
  rr_month :: "field option"
  rr_valkey :: "field option"

definition calendar_date :: "field \<Rightarrow> int option" where
  "calendar_date f =
     (case f of Not_text \<Rightarrow> None
      | Text_value s \<Rightarrow>
          if \<not> shaped ''dddd-dd-dd'' s then None
          else (let y = int (text_nat (take 4 s)); m = text_nat (take 2 (drop 5 s)); d = text_nat (drop 8 s)
                in if m < 1 \<or> 12 < m \<or> d < 1 \<or> 31 < d then None
                   else (let t = make_day y (int m - 1) (int d)
                         in if iso_date t = s then Some t else None)))"

definition month_text :: "field \<Rightarrow> bool" where
  "month_text f =
     (case f of Not_text \<Rightarrow> False
      | Text_value s \<Rightarrow> shaped ''dddd-dd'' s \<and>
          (s ! 5 = CHR ''0'' \<and> s ! 6 \<noteq> CHR ''0'' \<or> s ! 5 = CHR ''1'' \<and> s ! 6 \<in> set ''012''))"

fun field_text :: "field option \<Rightarrow> string option" where
  "field_text (Some (Text_value s)) = Some s"
| "field_text _ = None"

definition reserved_in_of :: "raw_reserved option \<Rightarrow> reserved_in option" where
  "reserved_in_of v =
     (case v of None \<Rightarrow> None
      | Some r \<Rightarrow>
          (case field_text (rr_valkey r) of None \<Rightarrow> None
           | Some tag \<Rightarrow>
               if \<not> valkey_tag tag then None
               else if (case rr_day r of None \<Rightarrow> False | Some f \<Rightarrow> calendar_date f = None) then None
               else if (case rr_week r of None \<Rightarrow> False | Some f \<Rightarrow> map_option weekday (calendar_date f) \<noteq> Some 1) then None
               else if (case rr_month r of None \<Rightarrow> False | Some f \<Rightarrow> \<not> month_text f) then None
               else if rr_day r = None \<and> rr_week r = None \<and> rr_month r = None then None
               else Some \<lparr>ri_bucket = (\<lambda>w. field_text (case w of Day \<Rightarrow> rr_day r | Week \<Rightarrow> rr_week r | Month \<Rightarrow> rr_month r)),
                          ri_valkey = tag\<rparr>))"

text \<open>The \<open>dollars\<close> object of a record (\<open>dollarsRecord\<close>): \<open>None\<close> in the settled amount for a value that is
  no integer.\<close>

record dollars =
  do_reserved :: "int option"
  do_settled :: "int option"
  do_basis :: string
  do_model_basis :: "string option"
  do_reserved_in :: "raw_reserved option"

record run_record =
  rc_host :: string
  rc_dollars :: "dollars option"

definition raw_of :: "reserved_in \<Rightarrow> raw_reserved" where
  "raw_of r =
     \<lparr>rr_day = map_option Text_value (ri_bucket r Day), rr_week = map_option Text_value (ri_bucket r Week),
      rr_month = map_option Text_value (ri_bucket r Month), rr_valkey = Some (Text_value (ri_valkey r))\<rparr>"

definition model_basis :: "string list" where
  "model_basis = [''metered'', ''floor'', ''refunded'']"

definition dollars_record :: "int \<Rightarrow> int \<Rightarrow> string \<Rightarrow> string option \<Rightarrow> reserved_in option \<Rightarrow> dollars" where
  "dollars_record reserved settled basis mb ri =
     \<lparr>do_reserved = Some reserved, do_settled = Some settled, do_basis = basis,
      do_model_basis = (case mb of None \<Rightarrow> None | Some b \<Rightarrow> if b \<in> set model_basis then Some b else None),
      do_reserved_in = map_option raw_of ri\<rparr>"

definition floor_step ::
  "string \<Rightarrow> string \<Rightarrow> (window_name \<Rightarrow> string option) \<Rightarrow> (window_name \<Rightarrow> int option) \<Rightarrow> run_record \<Rightarrow> (window_name \<Rightarrow> int option)" where
  "floor_step host valkey buckets floors r =
     (if rc_host r \<noteq> host then floors
      else (case rc_dollars r of None \<Rightarrow> floors
        | Some d \<Rightarrow>
            (case do_settled d of None \<Rightarrow> floors
             | Some m \<Rightarrow>
                 if \<not> is_safe m \<or> m < 0 then floors
                 else (case reserved_in_of (do_reserved_in d) of None \<Rightarrow> floors
                   | Some ri \<Rightarrow>
                       if ri_valkey ri \<noteq> valkey then floors
                       else (\<lambda>w. case floors w of None \<Rightarrow> None
                          | Some f \<Rightarrow> if ri_bucket ri w = buckets w \<and> is_safe (f + m) then Some (f + m) else Some f)))))"

definition dollar_window_floors ::
  "run_record list \<Rightarrow> string \<Rightarrow> string \<Rightarrow> (window_name \<Rightarrow> string option) \<Rightarrow> (window_name \<Rightarrow> int option)" where
  "dollar_window_floors records host valkey buckets =
     foldl (floor_step host valkey buckets) (\<lambda>w. map_option (\<lambda>_. 0) (buckets w)) records"

section \<open>Keys and buckets\<close>

lemma shaped_append:
  "length p = length s \<Longrightarrow> shaped (p @ q) (s @ t) \<longleftrightarrow> shaped p s \<and> shaped q t"
  by (simp add: shaped_def list_all2_append)

lemma shaped_length: "shaped p s \<Longrightarrow> length s = length p"
  by (simp add: shaped_def list_all2_lengthD)

lemma shaped_digits: "length s = n \<Longrightarrow> (\<And>c. c \<in> set s \<Longrightarrow> is_digit c) \<Longrightarrow> shaped (replicate n (CHR ''d'')) s"
  by (auto simp: shaped_def list_all2_conv_all_nth)

lemma shaped_two: "n < 100 \<Longrightarrow> shaped ''dd'' (two n)"
  using shaped_digits [of "two n" 2] length_two [of n] by (auto simp: two_def numeral_2_eq_2 dest: pad_start_digits)

lemma shaped_iso_year: "0 \<le> y \<Longrightarrow> y \<le> 9999 \<Longrightarrow> shaped ''dddd'' (iso_year y)"
  using shaped_digits [of "iso_year y" 4] length_iso_year [of y]
  by (auto simp: iso_year_def numeral_eq_Suc dest: pad_start_digits)

lemma shaped_iso_month:
  assumes "0 \<le> y" "y \<le> 9999" "m < 12"
  shows "shaped ''dddd-dd'' (iso_month y m)"
proof -
  have "shaped (''dddd'' @ ''-dd'') (iso_year y @ ''-'' @ two (Suc m))"
    using assms length_iso_year [of y] shaped_iso_year [of y] shaped_two [of "Suc m"]
    by (subst shaped_append) (auto simp: shaped_def)
  then show ?thesis by (simp add: iso_month_def)
qed

lemma plain_civil:
  assumes "plain_year d" "civil d = (y, m, dd)"
  shows "100 \<le> y" "y \<le> 9999" "m < 12" "1 \<le> dd" "dd \<le> 31"
  using civil_spec(1-4) [OF assms(2)] month_length_le [of m "is_leap y"] assms(1) by (auto simp: plain_year_def)

lemma shaped_iso_date:
  assumes "plain_year d"
  shows "shaped ''dddd-dd-dd'' (iso_date d)"
proof -
  obtain y m dd where c: "civil d = (y, m, dd)" by (cases "civil d") auto
  note b = plain_civil [OF assms c]
  have "shaped (''dddd-dd'' @ ''-dd'') (iso_month y m @ ''-'' @ two (nat dd))"
    using b length_iso_month [of y m] shaped_iso_month [of y m] shaped_two [of "nat dd"]
    by (subst shaped_append) (auto simp: shaped_def)
  then show ?thesis by (simp add: iso_date_def c)
qed

lemma match_window_day: "match_window (dollar_key_prefix @ '':'' @ b) Day = (if shaped ''dddd-dd-dd'' b then Some b else None)"
  by (simp add: match_window_def after_def dollar_key_prefix_def)

lemma match_window_week:
  "match_window (dollar_key_prefix @ '':w:'' @ b) Day = None"
  "match_window (dollar_key_prefix @ '':w:'' @ b) Week = (if shaped ''dddd-dd-dd'' b then Some b else None)"
  by (simp_all add: match_window_def after_def dollar_key_prefix_def shaped_def is_digit_def)

lemma match_window_month:
  "match_window (dollar_key_prefix @ '':m:'' @ b) Day = None"
  "match_window (dollar_key_prefix @ '':m:'' @ b) Week = None"
  "match_window (dollar_key_prefix @ '':m:'' @ b) Month = (if shaped ''dddd-dd'' b then Some b else None)"
  by (simp_all add: match_window_def after_def dollar_key_prefix_def shaped_def is_digit_def)

lemma window_of_day_key:
  "plain_year (utc_day t) \<Longrightarrow>
     deployment_window_of_key (day_key t dollar_key_prefix) = Some (Day, iso_date (utc_day t))"
  by (simp add: deployment_window_of_key_def deployment_windows_def day_key_plain match_window_day [simplified] shaped_iso_date)

lemma window_of_week_key:
  "plain_year (utc_day t) \<Longrightarrow> plain_year (monday_of (utc_day t)) \<Longrightarrow>
     deployment_window_of_key (week_key t dollar_key_prefix) = Some (Week, iso_date (monday_of (utc_day t)))"
  by (simp add: deployment_window_of_key_def deployment_windows_def week_key_plain match_window_week [simplified] shaped_iso_date)

lemma window_of_month_key:
  assumes "plain_year (utc_day t)" "civil (utc_day t) = (y, m, d)"
  shows "deployment_window_of_key (month_key t dollar_key_prefix) = Some (Month, iso_month y m)"
  using plain_civil [OF assms] shaped_iso_month [of y m]
  by (simp add: deployment_window_of_key_def deployment_windows_def month_key_plain [OF assms] match_window_month [simplified])

section \<open>Reading the buckets back\<close>

lemma text_nat_two [simp]: "text_nat (two n) = n"
  by (simp add: two_def)

lemma text_nat_iso_year: "0 \<le> y \<Longrightarrow> y \<le> 9999 \<Longrightarrow> text_nat (iso_year y) = nat y"
  by (simp add: iso_year_def)

lemma calendar_date_iso:
  assumes "plain_year d"
  shows "calendar_date (Text_value (iso_date d)) = Some d"
proof -
  obtain y m dd where c: "civil d = (y, m, dd)" by (cases "civil d") auto
  note b = plain_civil [OF assms c]
  have l: "length (iso_year y) = 4" "length (two (Suc m)) = 2"
    using b by (simp_all add: length_iso_year length_two)
  have t: "iso_date d = iso_year y @ ''-'' @ two (Suc m) @ ''-'' @ two (nat dd)"
    by (simp add: iso_date_def iso_month_def c)
  have parts: "take 4 (iso_date d) = iso_year y" "take 2 (drop 5 (iso_date d)) = two (Suc m)"
    "drop 8 (iso_date d) = two (nat dd)"
    unfolding t using l by (simp_all add: numeral_eq_Suc)
  have "make_day y (int m) dd = d" by (rule make_day_civil [OF c])
  then show ?thesis
    using b shaped_iso_date [OF assms]
    by (simp add: calendar_date_def parts text_nat_iso_year Let_def)
qed

lemma month_text_iso:
  assumes "0 \<le> y" "y \<le> 9999" "m < 12"
  shows "month_text (Text_value (iso_month y m))"
proof -
  have n: "iso_month y m ! 5 = two (Suc m) ! 0" "iso_month y m ! 6 = two (Suc m) ! 1"
    using length_iso_year [of y] assms by (simp_all add: iso_month_def nth_append)
  have "m = 0 \<or> m = 1 \<or> m = 2 \<or> m = 3 \<or> m = 4 \<or> m = 5 \<or> m = 6 \<or> m = 7 \<or> m = 8 \<or> m = 9 \<or> m = 10 \<or> m = 11"
    using assms(3) by arith
  then have "two (Suc m) ! 0 = CHR ''0'' \<and> two (Suc m) ! 1 \<noteq> CHR ''0'' \<or>
      two (Suc m) ! 0 = CHR ''1'' \<and> two (Suc m) ! 1 \<in> set ''012''"
    by (elim disjE) (simp_all add: two_def pad_start_def nat_text.simps digit_char_def)
  with assms n shaped_iso_month [of y m] show ?thesis by (simp add: month_text_def)
qed

section \<open>Properties\<close>

text \<open>
  Writer and reader agree on the windows: in the years 100 to 9999 the key a reservation
  writes is read back as its window and bucket, and a record that names those buckets under a
  well-formed tag is accepted with the same buckets.
\<close>

theorem window_keys_read_back:
  assumes "plain_year (utc_day t)" "plain_year (monday_of (utc_day t))" "civil (utc_day t) = (y, m, d)" "valkey_tag v"
  shows "deployment_window_of_key (day_key t dollar_key_prefix) = Some (Day, iso_date (utc_day t))
    \<and> deployment_window_of_key (week_key t dollar_key_prefix) = Some (Week, iso_date (monday_of (utc_day t)))
    \<and> deployment_window_of_key (month_key t dollar_key_prefix) = Some (Month, iso_month y m)
    \<and> (let r = \<lparr>ri_bucket = (\<lambda>w. Some (case w of Day \<Rightarrow> iso_date (utc_day t) | Week \<Rightarrow> iso_date (monday_of (utc_day t))
          | Month \<Rightarrow> iso_month y m)), ri_valkey = v\<rparr>
       in reserved_in_of (Some (raw_of r)) = Some r)"
proof -
  note b = plain_civil [OF assms(1,3)]
  have "month_text (Text_value (iso_month y m))" using b by (simp add: month_text_iso)
  then show ?thesis
    using assms calendar_date_iso [OF assms(1)] calendar_date_iso [OF assms(2)]
    by (auto simp: window_of_day_key window_of_week_key window_of_month_key [OF assms(1,3)] reserved_in_of_def raw_of_def
        Let_def monday_of_weekday fun_eq_iff split: window_name.splits)
qed

lemma civil_epoch: "civil 0 = (1970, 0, 1)"
  by (simp add: civil_def month_lengths_def day_from_year_def)

theorem window_keys_read_back_witness:
  "deployment_window_of_key (month_key 0 dollar_key_prefix) = Some (Month, ''1970-01'')"
proof -
  have u: "utc_day 0 = 0" "monday_of 0 = - 3" by (simp_all add: utc_day_def monday_of_def weekday_def)
  have "valkey_tag ''0123456789abcdef''" by (simp add: valkey_tag_def is_hex_def)
  moreover have "iso_month 1970 0 = ''1970-01''"
    by (simp add: iso_month_def iso_year_def two_def pad_start_def nat_text.simps digit_char_def)
  ultimately show ?thesis
    using window_keys_read_back [of 0 1970 0 1 "''0123456789abcdef''"] by (simp add: u plain_year_def civil_epoch)
qed

text \<open>
  The bounds a reader is told for a window are its own: an instant lies between a window's
  start (included) and end (excluded) exactly when a reservation at that instant writes the same key.
\<close>

theorem window_bounds_exact:
  assumes "plain_year (utc_day t)" "plain_year (utc_day u)"
    and "plain_year (monday_of (utc_day t))" "plain_year (monday_of (utc_day u))"
  shows "(let a = deployment_windows_at t Day in wa_start a \<le> u \<and> u < wa_end a \<longleftrightarrow> wa_key a = day_key u dollar_key_prefix)
    \<and> (let a = deployment_windows_at t Week in wa_start a \<le> u \<and> u < wa_end a \<longleftrightarrow> wa_key a = week_key u dollar_key_prefix)
    \<and> (let a = deployment_windows_at t Month in wa_start a \<le> u \<and> u < wa_end a \<longleftrightarrow> wa_key a = month_key u dollar_key_prefix)"
proof -
  obtain y m d where c: "civil (utc_day t) = (y, m, d)" by (cases "civil (utc_day t)") auto
  obtain z n e where k: "civil (utc_day u) = (z, n, e)" by (cases "civil (utc_day u)") auto
  note b = plain_civil [OF assms(1) c] and b' = plain_civil [OF assms(2) k]
  have du: "date_utc y (int m) x = make_day y (int m) x" "date_utc y (int m + 1) x = make_day y (int m + 1) x" for x
    using b by (simp_all add: date_utc_def)
  have day: "date_utc y (int m) d = utc_day t" "date_utc y (int m) (d + 1) = utc_day t + 1"
    using make_day_civil [OF c] by (simp_all add: du, simp add: make_day_def Let_def)
  have in_days: "a * day_ms \<le> u \<and> u < b * day_ms \<longleftrightarrow> a \<le> utc_day u \<and> utc_day u < b" for a b
    by (simp add: utc_day_def day_ms_def) linarith
  have "day_key t dollar_key_prefix = day_key u dollar_key_prefix \<longleftrightarrow> utc_day t = utc_day u"
    using assms(1,2) by (simp add: day_key_plain iso_date_inj)
  then have D: "let a = deployment_windows_at t Day in wa_start a \<le> u \<and> u < wa_end a \<longleftrightarrow> wa_key a = day_key u dollar_key_prefix"
    by (auto simp: c day window_at_key_def in_days)
  have "week_key t dollar_key_prefix = week_key u dollar_key_prefix \<longleftrightarrow> monday_of (utc_day u) = monday_of (utc_day t)"
    using assms by (auto simp: week_key_plain iso_date_inj)
  moreover have "utc_day (utc_day t * day_ms) = utc_day t" by (simp add: utc_day_def day_ms_def)
  then have "wa_start (deployment_windows_at t Week) = monday_of (utc_day t) * day_ms"
    "wa_end (deployment_windows_at t Week) = (monday_of (utc_day t) + 7) * day_ms"
    by (simp_all add: c day window_at_key_def monday_of_def Let_def day_ms_def algebra_simps)
  ultimately have W: "let a = deployment_windows_at t Week in wa_start a \<le> u \<and> u < wa_end a \<longleftrightarrow> wa_key a = week_key u dollar_key_prefix"
    using monday_of_eq [of "utc_day u" "monday_of (utc_day t)"] monday_of_weekday
    by (simp add: Let_def in_days) (simp add: c window_at_key_def Let_def)
  have "month_key t dollar_key_prefix = month_key u dollar_key_prefix \<longleftrightarrow> z = y \<and> n = m"
    using b b' by (auto simp: month_key_plain [OF assms(1) c] month_key_plain [OF assms(2) k] iso_month_inj)
  then have M: "let a = deployment_windows_at t Month in wa_start a \<le> u \<and> u < wa_end a \<longleftrightarrow> wa_key a = month_key u dollar_key_prefix"
    using civil_month_iff [OF k b(3), of y]
    by (simp add: c du window_at_key_def in_days make_day_first Let_def add.assoc)
  from D W M show ?thesis by blast
qed

theorem window_bounds_exact_witness:
  "let a = deployment_windows_at 0 Day in wa_start a \<le> 5 \<and> 5 < wa_end a \<longleftrightarrow> wa_key a = day_key 5 dollar_key_prefix"
proof -
  have u: "utc_day 0 = 0" "utc_day 5 = 0" "monday_of 0 = - 3" by (simp_all add: utc_day_def monday_of_def weekday_def day_ms_def)
  show ?thesis using window_bounds_exact [of 0 5] by (simp add: u plain_year_def)
qed

section \<open>Shares of a window\<close>

text \<open>A settlement whose faults never hide a script that ran.\<close>

definition no_lost_reply :: "'s client \<Rightarrow> ('s \<Rightarrow> key \<Rightarrow> int option) \<Rightarrow> bool" where
  "no_lost_reply C val \<longleftrightarrow>
     (\<forall>k d st e st'. c_eval C (settle_script C k d) st = (Inl e, st') \<longrightarrow> val st' = val st)"

context counter_store
begin

lemma settle_keys_exact:
  assumes "no_lost_reply C val" "settle_keys C delta ks a s = (r, n, lg, s')"
  shows "\<exists>j \<le> length ks. n = a + j \<and> val s' = settle_all delta (val s) (take j ks)"
  using assms(2)
proof (induction ks arbitrary: a s n lg)
  case Nil
  then show ?case by simp
next
  case (Cons k ks)
  obtain x s1 where e: "c_eval C (settle_script C k delta) s = (x, s1)" by fastforce
  show ?case
  proof (cases x)
    case (Inl f)
    with e assms(1) have "val s1 = val s" by (auto simp: no_lost_reply_def)
    with Cons.prems e Inl show ?thesis by (auto intro!: exI [of _ 0])
  next
    case (Inr y)
    obtain st v where y: "y = (st, v)" by (cases y)
    obtain lg' where rec: "settle_keys C delta ks (Suc a) s1 = (r, n, lg', s')"
      using Cons.prems e Inr y by (auto split: prod.splits)
    have "val s1 = settle_at delta (val s) k" using eval_settle_ok e Inr by blast
    moreover obtain j where "j \<le> length ks" "n = Suc a + j" "val s' = settle_all delta (val s1) (take j ks)"
      using Cons.IH [OF rec] by blast
    ultimately show ?thesis by (intro exI [of _ "Suc j"]) simp
  qed
qed

lemma settle_dollars_exact:
  assumes "no_lost_reply C val" "settle_dollars C h (Some m) ev s = ((applied, n), lg, s')"
  shows "val s' = settle_all (m - h_amount h) (val s) (take applied (h_keys h)) \<or> m = h_amount h \<and> val s' = val s"
proof -
  obtain r j lg' s1 where k: "settle_keys C (m - h_amount h) (h_keys h) 0 s = (r, j, lg', s1)"
    by (metis prod_cases4)
  show ?thesis
    using settle_keys_exact [OF assms(1) k] assms(2) k
    by (auto simp: settle_dollars_def Let_def split: if_splits option.splits)
qed

end

lemma index_of_take: "k \<in> set (take a ks) \<longleftrightarrow> (case index_of k ks of Some i \<Rightarrow> i < a | None \<Rightarrow> False)"
proof (induction ks arbitrary: a)
  case Nil
  show ?case by simp
next
  case (Cons x ks)
  then show ?case by (cases a) (auto split: option.splits)
qed

lemma found_windows_share:
  "found_windows h applied target rec ks f w = Some b \<Longrightarrow> f w = Some b \<or>
     (\<exists>k \<in> set ks. deployment_window_of_key k = Some (w, b) \<and>
        (\<exists>x. share_held h applied target k = Some x \<and> rec \<le> x))"
proof (induction ks arbitrary: f)
  case Nil
  then show ?case by simp
next
  case (Cons k ks)
  let ?f = "case deployment_window_of_key k of None \<Rightarrow> f
        | Some (w, b) \<Rightarrow> (case share_held h applied target k of
               Some x \<Rightarrow> if is_safe x \<and> rec \<le> x then f(w \<mapsto> b) else f | None \<Rightarrow> f)"
  have "found_windows h applied target rec ks ?f w = Some b" using Cons.prems by simp
  from Cons.IH [OF this] show ?case
  proof
    assume "?f w = Some b"
    then show ?thesis by (auto split: option.splits if_splits)
  qed auto
qed

lemma deployment_windows_of_share:
  assumes "deployment_windows_of (Some h) applied target (Some r) v = Some ri" "ri_bucket ri w = Some b"
    and "concat (map snd (h_ledgers h)) = h_keys h"
  shows "\<exists>k \<in> set (h_keys h). deployment_window_of_key k = Some (w, b) \<and>
    (\<exists>x. share_held h applied target k = Some x \<and> r \<le> x)"
proof -
  obtain l where l: "List.find (\<lambda>l. fst l = dollar_key_prefix) (h_ledgers h) = Some l"
    and f: "found_windows h applied target r (snd l) Map.empty w = Some b"
    using assms(1,2) by (auto simp: deployment_windows_of_def Let_def split: option.splits if_splits)
  have "l \<in> set (h_ledgers h)" using l by (auto simp: find_Some_iff)
  then have "set (snd l) \<subseteq> set (h_keys h)" using arg_cong [OF assms(3), of set] by auto
  with found_windows_share [OF f] show ?thesis by auto
qed

text \<open>
  A window a record names holds at least what the record states: when no fault hides a script
  that ran, the job's share of that window's counter after its settlement (or its release, or a
  settlement that stopped part-way) is at least the recorded amount.
\<close>

theorem named_window_holds_record:
  assumes "counter_store C val" and "no_lost_reply C val"
    and "concat (map snd (h_ledgers h)) = h_keys h" "distinct (h_keys h)"
    and "\<forall>k \<in> set (h_keys h). \<exists>c. val s k = Some c \<and> h_amount h \<le> c" "0 \<le> m"
    and "settle_dollars C h (Some m) ev s = ((applied, n), lg, s')"
    and "deployment_windows_of (Some h) applied (Some m) (Some r) tag = Some ri" "ri_bucket ri w = Some b"
  shows "\<exists>k \<in> set (h_keys h). deployment_window_of_key k = Some (w, b) \<and>
    r \<le> h_amount h + (count_at (val s') k - count_at (val s) k)"
proof -
  obtain k x where k: "k \<in> set (h_keys h)" "deployment_window_of_key k = Some (w, b)"
    and x: "share_held h applied (Some m) k = Some x" "r \<le> x"
    using deployment_windows_of_share [OF assms(8,9,3)] by blast
  obtain c where c: "val s k = Some c" "h_amount h \<le> c" using assms(5) k by blast
  let ?t = "take applied (h_keys h)"
  have d: "distinct ?t" using assms(4) by (rule distinct_take)
  have share: "x = (if k \<in> set ?t then m else h_amount h)"
    using x(1) by (auto simp: share_held_def index_of_take split: option.splits if_splits)
  have "x = h_amount h + (count_at (val s') k - count_at (val s) k)"
    using counter_store.settle_dollars_exact [OF assms(1,2,7)] share c assms(6)
      settle_all_at [OF d, of k "m - h_amount h" "val s"] settle_all_other [of k ?t "m - h_amount h" "val s"]
    by (cases "k \<in> set ?t") (auto simp: count_at_def)
  with k x(2) show ?thesis by auto
qed

lemma mem_no_lost_reply: "no_lost_reply mem_client m_store"
  by (auto simp: no_lost_reply_def mem_step_def Let_def split: if_splits prod.splits)

abbreviation day_zero_hold :: hold where
  "day_zero_hold \<equiv> \<lparr>h_amount = 5, h_keys = [day_key 0 dollar_key_prefix],
     h_ledgers = [(dollar_key_prefix, [day_key 0 dollar_key_prefix])]\<rparr>"

lemma day_zero_windows:
  "is_safe r \<Longrightarrow> deployment_windows_of (Some day_zero_hold) a (Some t) (Some r) (Some ''0123456789abcdef'') =
     (if is_safe (int a) \<and> (if 0 < a then is_safe t \<and> r \<le> t else r \<le> 5)
      then Some \<lparr>ri_bucket = [Day \<mapsto> iso_date 0], ri_valkey = ''0123456789abcdef''\<rparr> else None)"
proof -
  have "utc_day 0 = 0" by (simp add: utc_day_def)
  then have "deployment_window_of_key (day_key 0 dollar_key_prefix) = Some (Day, iso_date 0)"
    using window_of_day_key [of 0] by (simp add: plain_year_def)
  then show "is_safe r \<Longrightarrow> ?thesis"
    by (auto simp: deployment_windows_of_def valkey_tag_def is_hex_def share_held_def is_safe_def max_safe_def
        deployment_windows_def Let_def)
qed

theorem named_window_holds_record_witness:
  "\<exists>s'. settle_dollars mem_client day_zero_hold (Some 2) ''e''
       (mem_init\<lparr>m_store := [day_key 0 dollar_key_prefix \<mapsto> 9]\<rparr>) = ((1, 1), [], s')
     \<and> 2 \<le> 5 + (count_at (m_store s') (day_key 0 dollar_key_prefix) - 9)"
proof -
  let ?k = "day_key 0 dollar_key_prefix"
  let ?s = "mem_init\<lparr>m_store := [?k \<mapsto> 9]\<rparr>"
  obtain s' where r: "settle_dollars mem_client day_zero_hold (Some 2) ''e'' ?s = ((1, 1), [], s')"
    by (simp add: settle_dollars_def settle_script_def mem_run is_safe_def max_safe_def Let_def count_at_def)
  have w: "deployment_windows_of (Some day_zero_hold) 1 (Some 2) (Some 2) (Some ''0123456789abcdef'') =
      Some \<lparr>ri_bucket = [Day \<mapsto> iso_date 0], ri_valkey = ''0123456789abcdef''\<rparr>"
    by (simp add: day_zero_windows is_safe_def max_safe_def)
  have "\<exists>k \<in> set (h_keys day_zero_hold). deployment_window_of_key k = Some (Day, iso_date 0) \<and>
      2 \<le> h_amount day_zero_hold + (count_at (m_store s') k - count_at (m_store ?s) k)"
    by (rule named_window_holds_record [OF mem.counter_store_axioms mem_no_lost_reply _ _ _ _ r w]) simp_all
  with r show ?thesis by (auto simp: count_at_def)
qed

text \<open>
  C19: The floor of a window is the sum of the amounts of this host's records that name its bucket
  on this Valkey, and so never more than the shares those records stand for.
\<close>

definition counted :: "string \<Rightarrow> string \<Rightarrow> window_name \<Rightarrow> string option \<Rightarrow> run_record \<Rightarrow> int" where
  "counted host valkey w bucket r =
     (case rc_dollars r of None \<Rightarrow> 0
      | Some d \<Rightarrow> (case (do_settled d, reserved_in_of (do_reserved_in d)) of
          (Some m, Some ri) \<Rightarrow>
            if rc_host r = host \<and> is_safe m \<and> 0 \<le> m \<and> ri_valkey ri = valkey \<and> ri_bucket ri w = bucket then m else 0
        | _ \<Rightarrow> 0))"

lemma counted_nonneg: "0 \<le> counted host valkey w b r"
  by (auto simp: counted_def split: option.splits)

lemma floor_step_at:
  "floors w = Some f \<Longrightarrow> floor_step host valkey buckets floors r w =
     Some (if is_safe (f + counted host valkey w (buckets w) r) then f + counted host valkey w (buckets w) r else f)"
  by (auto simp: floor_step_def counted_def split: option.splits)

lemma floors_fold:
  assumes "floors w = Some f0" "0 \<le> f0"
  shows "\<exists>f. foldl (floor_step host valkey buckets) floors rs w = Some f \<and> f0 \<le> f \<and>
    f \<le> f0 + (\<Sum>r\<leftarrow>rs. counted host valkey w (buckets w) r) \<and>
    (is_safe (f0 + (\<Sum>r\<leftarrow>rs. counted host valkey w (buckets w) r)) \<longrightarrow>
       f = f0 + (\<Sum>r\<leftarrow>rs. counted host valkey w (buckets w) r))"
  using assms
proof (induction rs arbitrary: floors f0)
  case Nil
  then show ?case by simp
next
  case (Cons r rs)
  let ?c = "counted host valkey w (buckets w)"
  let ?f1 = "if is_safe (f0 + ?c r) then f0 + ?c r else f0"
  have tot: "0 \<le> (\<Sum>r\<leftarrow>rs. ?c r)" by (rule sum_list_nonneg) (auto simp: counted_nonneg)
  have n: "0 \<le> ?c r" by (rule counted_nonneg)
  have "floor_step host valkey buckets floors r w = Some ?f1" 
    using floor_step_at [where floors = floors and w = w and f = f0] Cons.prems(1) by simp
  moreover have "0 \<le> ?f1" using Cons.prems(2) n by simp
  ultimately obtain f where f: "foldl (floor_step host valkey buckets) (floor_step host valkey buckets floors r) rs w = Some f"
    "?f1 \<le> f" "f \<le> ?f1 + (\<Sum>r\<leftarrow>rs. ?c r)"
    "is_safe (?f1 + (\<Sum>r\<leftarrow>rs. ?c r)) \<longrightarrow> f = ?f1 + (\<Sum>r\<leftarrow>rs. ?c r)"
    using Cons.IH by blast
  have s: "is_safe (f0 + ?c r)" if "is_safe (f0 + (?c r + (\<Sum>r\<leftarrow>rs. ?c r)))"
    using that tot n Cons.prems(2) by (simp add: is_safe_def)
  show ?case
    using f n s by (auto split: if_splits simp: add.assoc)
qed

theorem floors_sum:
  "case buckets w of
     None \<Rightarrow> dollar_window_floors rs host valkey buckets w = None
   | Some b \<Rightarrow> (let total = (\<Sum>r\<leftarrow>rs. counted host valkey w (Some b) r)
       in \<exists>f. dollar_window_floors rs host valkey buckets w = Some f \<and> 0 \<le> f \<and> f \<le> total \<and>
            f = (if is_safe total then total else f))"
proof (cases "buckets w")
  case None
  have "foldl (floor_step host valkey buckets) floors rs w = None" if "floors w = None" for floors
    using that
  proof (induction rs arbitrary: floors)
    case (Cons r rs)
    have "floor_step host valkey buckets floors r w = None"
      using Cons.prems by (auto simp: floor_step_def split: option.splits)
    with Cons.IH show ?case by simp
  qed simp
  with None show ?thesis by (simp add: dollar_window_floors_def)
next
  case (Some b)
  then show ?thesis
    using floors_fold [of "\<lambda>w. map_option (\<lambda>_. 0) (buckets w)" w 0 host valkey buckets rs]
    by (auto simp: dollar_window_floors_def Let_def)
qed

definition lossy_client :: "mem client" where
  "lossy_client = mem_client\<lparr>c_eval := (\<lambda>f s. (Inl (Fault (Some ''ECONNRESET'')), snd (f s)))\<rparr>"

lemma lossy_sel [simp]:
  "c_incr lossy_client = c_incr mem_client" "c_decr lossy_client = c_decr mem_client"
  "c_incrby lossy_client = c_incrby mem_client" "c_decrby lossy_client = c_decrby mem_client"
  "c_expire lossy_client = c_expire mem_client" "c_get lossy_client = c_get mem_client"
  "lua_exists lossy_client = lua_exists mem_client" "lua_incrby lossy_client = lua_incrby mem_client"
  "c_eval lossy_client = (\<lambda>f s. (Inl (Fault (Some ''ECONNRESET'')), snd (f s)))"
  by (simp_all add: lossy_client_def)

interpretation lossy: counter_store lossy_client m_store
proof unfold_locales
  fix f s e s'
  assume "c_eval lossy_client f s = (Inl e, s')"
  then show "m_store s' = m_store s \<or> (\<exists>t r u. m_store t = m_store s \<and> f t = (r, u) \<and> m_store s' = m_store u)"
    by (metis Pair_inject lossy_sel(9) prod.collapse)
next
  fix f s r s'
  assume "c_eval lossy_client f s = (Inr r, s')"
  then show "\<exists>t u. m_store t = m_store s \<and> f t = (r, u) \<and> m_store s' = m_store u" by simp
next
  fix k t s x s'
  assume "c_expire lossy_client k t s = (x, s')"
  then have "c_expire mem_client k t s = (x, s')" by (simp del: mem_client_sel)
  then show "m_store s' = m_store s" by (rule mem.expire_val)
next
  fix k s v s'
  show "lua_exists lossy_client k s = (m_store s k \<noteq> None)" by simp
qed (simp_all only: lossy_sel mem.incr_ok, (rule mem.incr_ok mem.incr_err mem.decr_ok mem.decr_err mem.incrby_ok
    mem.incrby_err mem.decrby_ok mem.decrby_err mem.get_ok mem.get_err mem.lua_incrby_val; assumption)+)

text \<open>
  The hypothesis on lost replies is needed: a settlement whose script ran while its answer was
  lost counts no key as settled, so the record keeps the whole reservation and names the window,
  whose counter already holds the smaller settled amount. The floor is then above the counter with
  no history lost.
\<close>

theorem lost_reply_floor:
  "counter_store lossy_client m_store \<and>
   (let k = day_key 0 dollar_key_prefix; tag = ''0123456789abcdef'';
        (res, lg, s') = settle_dollars lossy_client day_zero_hold (Some 2) ''dollar_settle_error'' (mem_init\<lparr>m_store := [k \<mapsto> 5]\<rparr>);
        ri = deployment_windows_of (Some day_zero_hold) (fst res) (Some 2) (Some 5) (Some tag);
        r = \<lparr>rc_host = ''h'', rc_dollars = Some (dollars_record 5 5 ''floor'' None ri)\<rparr>
    in res = (0, 1) \<and> count_at (m_store s') k = 2 \<and>
       dollar_window_floors [r] ''h'' tag [Day \<mapsto> iso_date 0] Day = Some 5)"
proof
  show "counter_store lossy_client m_store" by (rule lossy.counter_store_axioms)
  have p: "plain_year 0" by (simp add: plain_year_def)
  show "let k = day_key 0 dollar_key_prefix; tag = ''0123456789abcdef'';
        (res, lg, s') = settle_dollars lossy_client day_zero_hold (Some 2) ''dollar_settle_error'' (mem_init\<lparr>m_store := [k \<mapsto> 5]\<rparr>);
        ri = deployment_windows_of (Some day_zero_hold) (fst res) (Some 2) (Some 5) (Some tag);
        r = \<lparr>rc_host = ''h'', rc_dollars = Some (dollars_record 5 5 ''floor'' None ri)\<rparr>
    in res = (0, 1) \<and> count_at (m_store s') k = 2 \<and>
       dollar_window_floors [r] ''h'' tag [Day \<mapsto> iso_date 0] Day = Some 5"
    using calendar_date_iso [OF p]
    by (simp add: settle_dollars_def settle_script_def mem_run is_safe_def max_safe_def count_at_def add_at_def day_zero_windows
        dollars_record_def dollar_window_floors_def floor_step_def reserved_in_of_def raw_of_def valkey_tag_def is_hex_def)
qed

end
