(* ===== verification/JobSize.thy ===== *)
theory JobSize
  imports Decimal
begin

text \<open>
  Job sizes (worker/src/job-size.mjs): a job's memory in MiB and its CPU weight in hundredths, read
  from the strings an operator writes, resolved per job from its project row and the deployment's
  settings, and turned into the flags its container is started with. A value of another type than
  text or number is \<open>Size_other\<close>; a JavaScript number is the decimal text \<open>String\<close> prints for it.
\<close>

section \<open>Bounds\<close>

definition job_memory_floor_mib :: int where "job_memory_floor_mib = 512"
definition job_memory_ceiling_mib :: int where "job_memory_ceiling_mib = 1024 * 1024"
definition job_cpus_floor_centi :: int where "job_cpus_floor_centi = 25"
definition job_cpus_ceiling_centi :: int where "job_cpus_ceiling_centi = 256 * 100"
definition cpu_shares_min :: int where "cpu_shares_min = 2"
definition cpu_shares_max :: int where "cpu_shares_max = 262144"
definition shm_ceiling_mib :: int where "shm_ceiling_mib = 1024"
definition codemode_worker_heap_mib :: int where "codemode_worker_heap_mib = 256"

datatype size_value = Size_text string | Size_number string | Size_absent | Size_other

text \<open>The refusals, named by their rule; \<open>Keyed\<close> is one with the setting it was read from.\<close>

datatype size_error = Memory_shape | Memory_low | Memory_high | Cpus_shape | Cpus_low | Cpus_high
  | Codemode_memory | Not_a_size | Keyed string size_error

record size =
  mem_mib :: int
  cpu_centi :: int

definition codemode_workers_of :: "int \<Rightarrow> size_error + int" where
  "codemode_workers_of mem =
     (if \<not> is_safe mem \<or> mem < job_memory_floor_mib \<or> mem > job_memory_ceiling_mib then Inl Codemode_memory
      else Inr (max 1 (mem div (2 * codemode_worker_heap_mib))))"

section \<open>Reading and printing\<close>

text \<open>\<open>/^[1-9]\d*[mg]$/\<close>: the digits and whether the unit is \<open>g\<close>.\<close>

definition memory_pattern :: "string \<Rightarrow> (string \<times> bool) option" where
  "memory_pattern s =
     (let w = takeWhile is_digit s
      in if w \<noteq> [] \<and> hd w \<noteq> CHR ''0'' \<and> (dropWhile is_digit s = ''m'' \<or> dropWhile is_digit s = ''g'')
         then Some (w, dropWhile is_digit s = ''g'') else None)"

definition parse_memory :: "size_value \<Rightarrow> size_error + int" where
  "parse_memory v =
     (case (case v of Size_text s \<Rightarrow> memory_pattern s | _ \<Rightarrow> None) of
        None \<Rightarrow> Inl Memory_shape
      | Some (digits, giga) \<Rightarrow>
          if length digits > length (nat_text (nat job_memory_ceiling_mib)) + 1 then Inl Memory_high
          else (let mib = int (text_nat digits) * (if giga then 1024 else 1)
                in if mib < job_memory_floor_mib then Inl Memory_low
                   else if mib > job_memory_ceiling_mib then Inl Memory_high
                   else Inr mib))"

fun size_string :: "size_value \<Rightarrow> string option" where
  "size_string (Size_text t) = Some t"
| "size_string (Size_number t) = Some t"
| "size_string _ = None"

text \<open>\<open>Number(whole) * 100 + Number(fraction.padEnd(2, "0"))\<close> of a match.\<close>

definition centi_of :: "string \<Rightarrow> string option \<Rightarrow> int" where
  "centi_of w g =
     int (text_nat w) * 100 + int (text_nat (pad_end 2 (CHR ''0'') (case g of None \<Rightarrow> [] | Some f \<Rightarrow> drop 1 f)))"

definition parse_cpus :: "size_value \<Rightarrow> size_error + int" where
  "parse_cpus v =
     (case Option.bind (size_string v) (decimal_pattern 6 2) of
        None \<Rightarrow> Inl Cpus_shape
      | Some (w, g) \<Rightarrow>
          (let centi = centi_of w g
           in if centi < job_cpus_floor_centi then Inl Cpus_low
              else if centi > job_cpus_ceiling_centi then Inl Cpus_high
              else Inr centi))"

definition format_memory :: "int \<Rightarrow> string" where
  "format_memory mem =
     (if mem mod 1024 = 0 then nat_text (nat (mem div 1024)) @ ''g'' else nat_text (nat mem) @ ''m'')"

definition format_cpus :: "int \<Rightarrow> string" where
  "format_cpus cpu =
     (let whole = nat_text (nat (cpu div 100));
          fraction = strip_zeros (pad_start 2 (CHR ''0'') (nat_text (nat (cpu mod 100))))
      in if fraction = [] then whole else whole @ ''.'' @ fraction)"

section \<open>What a size becomes\<close>

text \<open>\<open>Math.round(x)\<close> is \<open>floor(x + 1/2)\<close>.\<close>

definition cpu_shares_of :: "int \<Rightarrow> int" where
  "cpu_shares_of cpu = min cpu_shares_max (max cpu_shares_min ((2 * (cpu * 1024) + 100) div 200))"

definition shm_mib_of :: "int \<Rightarrow> int" where
  "shm_mib_of mem = min shm_ceiling_mib (mem div 2)"

text \<open>A count that is no integer is \<open>None\<close>.\<close>

definition known_cpus :: "int option \<Rightarrow> int option" where
  "known_cpus n = (case n of Some c \<Rightarrow> if is_safe c \<and> 1 \<le> c then Some c else None | None \<Rightarrow> None)"

definition host_cpu_ceiling :: "int option \<Rightarrow> int option" where
  "host_cpu_ceiling host = map_option (\<lambda>c. c - (if 4 \<le> c then 1 else 0)) (known_cpus host)"

definition cpu_ceiling_centi :: "int option \<Rightarrow> int option \<Rightarrow> int option" where
  "cpu_ceiling_centi host budget =
     (let runtime = map_option (\<lambda>c. c * 100) (known_cpus host)
      in case budget of
           Some b \<Rightarrow> if is_safe b \<and> 0 < b
                     then Some (case runtime of None \<Rightarrow> b | Some r \<Rightarrow> min b r)
                     else map_option (\<lambda>c. c * 100) (host_cpu_ceiling host)
         | None \<Rightarrow> map_option (\<lambda>c. c * 100) (host_cpu_ceiling host))"

text \<open>The facts \<open>docker info\<close> reported, \<open>None\<close> where it said nothing.\<close>

definition unenforced_size_flags :: "bool option \<Rightarrow> bool option \<Rightarrow> string list" where
  "unenforced_size_flags swap_limit cpu_shares =
     (if swap_limit = Some False then [''--memory-swap''] else []) @
     (if cpu_shares = Some False then [''--cpu-shares''] else [])"

definition job_size_ok :: "size \<Rightarrow> bool" where
  "job_size_ok s \<longleftrightarrow>
     is_safe (mem_mib s) \<and> job_memory_floor_mib \<le> mem_mib s \<and> mem_mib s \<le> job_memory_ceiling_mib \<and>
     is_safe (cpu_centi s) \<and> job_cpus_floor_centi \<le> cpu_centi s \<and> cpu_centi s \<le> job_cpus_ceiling_centi"

definition assert_job_size :: "size option \<Rightarrow> size_error + unit" where
  "assert_job_size s = (case s of Some z \<Rightarrow> if job_size_ok z then Inr () else Inl Not_a_size | None \<Rightarrow> Inl Not_a_size)"

record sizing =
  sz_memory :: string
  sz_memory_swap :: string
  sz_cpus :: "string option"
  sz_cpu_shares :: int
  sz_shm_size :: string

definition container_sizing :: "size option \<Rightarrow> int option \<Rightarrow> int option \<Rightarrow> size_error + sizing" where
  "container_sizing s host budget =
     (case (assert_job_size s, s) of
        (Inr _, Some z) \<Rightarrow>
          Inr \<lparr>sz_memory = format_memory (mem_mib z), sz_memory_swap = format_memory (mem_mib z),
               sz_cpus = map_option format_cpus (cpu_ceiling_centi host budget),
               sz_cpu_shares = cpu_shares_of (cpu_centi z),
               sz_shm_size = format_memory (shm_mib_of (mem_mib z))\<rparr>
      | (Inl e, _) \<Rightarrow> Inl e
      | _ \<Rightarrow> Inl Not_a_size)"

section \<open>The runtime's own refusal of a CPU count\<close>

definition lower_char :: "char \<Rightarrow> char" where
  "lower_char c = (let n = (of_char c :: nat) in if 65 \<le> n \<and> n \<le> 90 then char_of (n + 32) else c)"

definition starts_with_ci :: "string \<Rightarrow> string \<Rightarrow> bool" where
  "starts_with_ci p s \<longleftrightarrow> map lower_char (take (length p) s) = p"

text \<open>The match at the head of the text: \<open>range of cpus is from [0-9.]+ to ([0-9]{1,5})\<close>. The greedy
  \<open>[0-9.]+\<close> cannot run over the blank that follows it.\<close>

definition range_here :: "string \<Rightarrow> string option" where
  "range_here s =
     (if \<not> starts_with_ci ''range of cpus is from '' s then None
      else (let r = drop (length ''range of cpus is from '') s;
                n = takeWhile (\<lambda>c. is_digit c \<or> c = CHR ''.'') r;
                t = drop (length n) r
            in if n = [] \<or> \<not> starts_with_ci '' to '' t then None
               else (let d = take 5 (takeWhile is_digit (drop 4 t))
                     in if d = [] then None else Some d)))"

fun cpu_range_refusal :: "string \<Rightarrow> int option" where
  "cpu_range_refusal [] = None"
| "cpu_range_refusal (c # cs) =
     (case range_here (c # cs) of Some d \<Rightarrow> Some (int (text_nat d)) | None \<Rightarrow> cpu_range_refusal cs)"

section \<open>Which size a job runs at\<close>

datatype size_source = From_project | From_env | From_default

record size_defaults =
  sd_size :: size
  sd_mem_set :: bool
  sd_cpu_set :: bool

definition unset_value :: "size_value \<Rightarrow> bool" where
  "unset_value v \<longleftrightarrow> v = Size_absent \<or> v = Size_text []"

definition read_setting ::
  "string \<Rightarrow> (size_value \<Rightarrow> size_error + int) \<Rightarrow> size_value \<Rightarrow> size_value \<Rightarrow> size_error + (int \<times> bool)" where
  "read_setting key parse fallback raw =
     (if unset_value raw then map_sum id (\<lambda>n. (n, False)) (parse fallback)
      else map_sum (Keyed key) (\<lambda>n. (n, True)) (parse raw))"

definition job_size_defaults :: "size_value \<Rightarrow> size_value \<Rightarrow> size_error + size_defaults" where
  "job_size_defaults env_memory env_cpus =
     (case read_setting ''PI_JOB_MEMORY'' parse_memory (Size_text ''4g'') env_memory of
        Inl e \<Rightarrow> Inl e
      | Inr (m, ms) \<Rightarrow>
          (case read_setting ''PI_JOB_CPUS'' parse_cpus (Size_text ''2'') env_cpus of
             Inl e \<Rightarrow> Inl e
           | Inr (c, cs) \<Rightarrow> Inr \<lparr>sd_size = \<lparr>mem_mib = m, cpu_centi = c\<rparr>, sd_mem_set = ms, sd_cpu_set = cs\<rparr>))"

text \<open>A row of the limits file: the scope and the knobs the job's size and the host budget read.\<close>

record limit_row =
  lr_scope :: "string option"
  lr_memory :: size_value
  lr_cpus :: size_value
  lr_host_share :: "int option"
  lr_min_jobs :: "int option"

definition project_row :: "limit_row list \<Rightarrow> string option \<Rightarrow> limit_row option" where
  "project_row limits project =
     (case project of None \<Rightarrow> None
      | Some p \<Rightarrow> find (\<lambda>l. lr_scope l = Some (''project:'' @ p)) limits)"

record job_size = size +
  js_source :: size_source

definition row_memory :: "limit_row option \<Rightarrow> (size_error + int) option" where
  "row_memory row =
     (case row of Some l \<Rightarrow> (case lr_memory l of Size_text t \<Rightarrow> Some (parse_memory (Size_text t)) | _ \<Rightarrow> None)
      | None \<Rightarrow> None)"

definition row_cpus :: "limit_row option \<Rightarrow> (size_error + int) option" where
  "row_cpus row =
     (case row of Some l \<Rightarrow> if lr_cpus l = Size_absent then None else Some (parse_cpus (lr_cpus l))
      | None \<Rightarrow> None)"

definition field_of :: "(size_error + int) option \<Rightarrow> int \<Rightarrow> int" where
  "field_of r fallback = (case r of Some (Inr n) \<Rightarrow> n | _ \<Rightarrow> fallback)"

definition pick_size :: "size_defaults \<Rightarrow> (size_error + int) option \<Rightarrow> (size_error + int) option \<Rightarrow> size_error + job_size" where
  "pick_size d rm rc =
     (case rm of Some (Inl e) \<Rightarrow> Inl e
      | _ \<Rightarrow> (case rc of Some (Inl e) \<Rightarrow> Inl e
         | _ \<Rightarrow> Inr \<lparr>mem_mib = field_of rm (mem_mib (sd_size d)), cpu_centi = field_of rc (cpu_centi (sd_size d)),
                   js_source = (if rm \<noteq> None \<or> rc \<noteq> None then From_project
                                else if sd_mem_set d \<or> sd_cpu_set d then From_env else From_default)\<rparr>))"

definition resolve_job_size ::
  "string option \<Rightarrow> limit_row list \<Rightarrow> size_value \<Rightarrow> size_value \<Rightarrow> size_error + job_size" where
  "resolve_job_size project limits env_memory env_cpus =
     (case job_size_defaults env_memory env_cpus of
        Inl e \<Rightarrow> Inl e
      | Inr d \<Rightarrow> (let row = project_row limits project in pick_size d (row_memory row) (row_cpus row)))"

definition recorded_job_size :: "size option \<Rightarrow> size_source option \<Rightarrow> job_size option" where
  "recorded_job_size s source =
     (case (s, source) of
        (Some z, Some src) \<Rightarrow>
          if job_size_ok z then Some \<lparr>mem_mib = mem_mib z, cpu_centi = cpu_centi z, js_source = src\<rparr> else None
      | _ \<Rightarrow> None)"

section \<open>Reading what was printed\<close>

lemma nat_text_digit_list: "list_all is_digit (nat_text n)"
  by (auto simp: list_all_iff dest: nat_text_digits)

lemma takeWhile_nat_text:
  "\<not> is_digit c \<Longrightarrow> takeWhile is_digit (nat_text n @ c # r) = nat_text n \<and> dropWhile is_digit (nat_text n @ c # r) = c # r"
  using nat_text_digit_list [of n] by (auto simp: takeWhile_append dropWhile_append list_all_iff)

lemma memory_pattern_text:
  "0 < n \<Longrightarrow> memory_pattern (nat_text n @ ''m'') = Some (nat_text n, False)"
  "0 < n \<Longrightarrow> memory_pattern (nat_text n @ ''g'') = Some (nat_text n, True)"
  using takeWhile_nat_text [of "CHR ''m''" n "[]"] takeWhile_nat_text [of "CHR ''g''" n "[]"] nat_text_head [of n]
  by (simp_all add: memory_pattern_def Let_def is_digit_def)

lemma ceiling_digits: "length (nat_text (nat job_memory_ceiling_mib)) = 7"
  by (simp add: job_memory_ceiling_mib_def nat_text.simps)

lemma parse_memory_bounds: "parse_memory v = Inr m \<Longrightarrow> job_memory_floor_mib \<le> m \<and> m \<le> job_memory_ceiling_mib"
  by (auto simp: parse_memory_def Let_def split: option.splits size_value.splits prod.splits if_splits)

lemma parse_cpus_bounds: "parse_cpus v = Inr c \<Longrightarrow> job_cpus_floor_centi \<le> c \<and> c \<le> job_cpus_ceiling_centi"
  by (auto simp: parse_cpus_def Let_def split: option.splits prod.splits if_splits)

lemma parse_format_memory:
  assumes "job_memory_floor_mib \<le> m" "m \<le> job_memory_ceiling_mib"
  shows "parse_memory (Size_text (format_memory m)) = Inr m"
proof -
  have b: "512 \<le> m" "m \<le> 1048576" using assms by (simp_all add: job_memory_floor_mib_def job_memory_ceiling_mib_def)
  show ?thesis
  proof (cases "m mod 1024 = 0")
    case True
    then have "1024 * (m div 1024) = m" by auto
    with b have n: "0 < nat (m div 1024)" "m = int (nat (m div 1024)) * 1024" "nat (m div 1024) < 10000000"
      by linarith+
    have "length (nat_text (nat (m div 1024))) \<le> 7" using length_nat_text [of "nat (m div 1024)" 6] n by simp
    with n assms True show ?thesis
      by (simp add: parse_memory_def format_memory_def memory_pattern_text ceiling_digits)
  next
    case False
    have "length (nat_text (nat m)) \<le> 7" using length_nat_text [of "nat m" 6] b by simp
    with b assms False show ?thesis
      by (simp add: parse_memory_def format_memory_def memory_pattern_text ceiling_digits)
  qed
qed

lemma decimal_pattern_whole:
  assumes "length (nat_text n) \<le> mw"
  shows "decimal_pattern mw mf (nat_text n) = Some (nat_text n, None)"
proof -
  have tw: "takeWhile is_digit (nat_text n) = nat_text n" and dw: "dropWhile is_digit (nat_text n) = []"
    using nat_text_digit_list [of n] by (simp_all add: list_all_iff)
  have "nat_text n = ''0'' \<or> hd (nat_text n) \<noteq> CHR ''0''"
    using nat_text_head [of n] by (cases "n = 0") (simp_all add: nat_text.simps [of 0] digit_char_def)
  then show ?thesis using assms unfolding decimal_pattern_def Let_def tw dw by auto
qed

lemma parse_format_cpus:
  assumes "job_cpus_floor_centi \<le> c" "c \<le> job_cpus_ceiling_centi" "size_string v = Some (format_cpus c)"
  shows "parse_cpus v = Inr c"
proof -
  have b: "25 \<le> c" "c \<le> 25600" using assms by (simp_all add: job_cpus_floor_centi_def job_cpus_ceiling_centi_def)
  define s where "s = pad_start 2 (CHR ''0'') (nat_text (nat (c mod 100)))"
  have "nat (c mod 100) < 10 ^ Suc 1" by (simp add: nat_less_iff)
  then have ls: "length s = 2" using length_nat_text [of "nat (c mod 100)" 1] by (simp add: s_def length_pad_start)
  have ts: "int (text_nat s) = c mod 100" by (simp add: s_def)
  have ds: "list_all is_digit s" unfolding s_def list_all_iff using pad_start_digits by blast
  have lw: "length (nat_text (nat (c div 100))) \<le> 6"
    using length_nat_text [of "nat (c div 100)" 5] b by simp
  have eq: "int (nat (c div 100)) * 100 + c mod 100 = c" using b by simp
  have fin: "centi = c \<Longrightarrow> (if centi < job_cpus_floor_centi then Inl Cpus_low
              else if centi > job_cpus_ceiling_centi then Inl Cpus_high else Inr centi) = Inr c" for centi
    using assms by simp
  show ?thesis
  proof (cases "strip_zeros s = []")
    case True
    then have "pad_end 2 (CHR ''0'') [] = s" using pad_end_strip [OF ls] by simp
    then have "centi_of (nat_text (nat (c div 100))) None = c" using ts eq by (simp add: centi_of_def)
    with fin True assms(3) decimal_pattern_whole [OF lw] show ?thesis
      by (simp add: parse_cpus_def format_cpus_def s_def [symmetric])
  next
    case False
    have "list_all is_digit (strip_zeros s)" using ds set_strip [of s] by (auto simp: list_all_iff)
    then have "decimal_pattern 6 2 (nat_text (nat (c div 100)) @ ''.'' @ strip_zeros s) =
        Some (nat_text (nat (c div 100)), Some (CHR ''.'' # strip_zeros s))"
      using False ls length_strip [of s] lw by (intro decimal_pattern_text) (auto simp: Suc_le_eq)
    moreover have "centi_of (nat_text (nat (c div 100))) (Some (CHR ''.'' # strip_zeros s)) = c"
      using ts eq pad_end_strip [OF ls] by (simp add: centi_of_def)
    ultimately show ?thesis using fin False assms(3)
      by (simp add: parse_cpus_def format_cpus_def s_def [symmetric])
  qed
qed

section \<open>Properties\<close>

lemma cpu_shares_less: "1 \<le> a \<Longrightarrow> a < b \<Longrightarrow> b \<le> job_cpus_ceiling_centi \<Longrightarrow> cpu_shares_of a < cpu_shares_of b"
proof -
  assume h: "1 \<le> a" "a < b" "b \<le> job_cpus_ceiling_centi"
  have "(2 * (a * 1024) + 100) div 200 + 10 \<le> (2 * (b * 1024) + 100) div 200"
    using h zdiv_mono1 [of "2 * (a * 1024) + 100 + 10 * 200" "2 * (b * 1024) + 100" 200] by simp
  moreover have "(2 * (b * 1024) + 100) div 200 \<le> cpu_shares_max"
    using h by (simp add: cpu_shares_max_def job_cpus_ceiling_centi_def)
  moreover have "cpu_shares_min \<le> (2 * (a * 1024) + 100) div 200"
    using h by (simp add: cpu_shares_min_def)
  ultimately show ?thesis by (simp add: cpu_shares_of_def min_def max_def)
qed

text \<open>
  One spelling per size: every size within the bounds, printed, is read back as the same size,
  a CPU size as text or as a number that prints so; and nothing outside the bounds is ever read.
\<close>

theorem size_text_roundtrip:
  assumes "job_size_ok s" "parse_memory v = Inr m" "parse_cpus w = Inr c"
  shows "parse_memory (Size_text (format_memory (mem_mib s))) = Inr (mem_mib s)
    \<and> parse_cpus (Size_text (format_cpus (cpu_centi s))) = Inr (cpu_centi s)
    \<and> parse_cpus (Size_number (format_cpus (cpu_centi s))) = Inr (cpu_centi s)
    \<and> job_size_ok \<lparr>mem_mib = m, cpu_centi = c\<rparr>"
  using assms parse_memory_bounds [OF assms(2)] parse_cpus_bounds [OF assms(3)]
  by (simp add: job_size_ok_def parse_format_memory parse_format_cpus)
     (simp add: is_safe_def max_safe_def job_memory_floor_mib_def job_memory_ceiling_mib_def
       job_cpus_floor_centi_def job_cpus_ceiling_centi_def)

lemmas size_bounds = job_size_ok_def is_safe_def max_safe_def job_memory_floor_mib_def job_memory_ceiling_mib_def
  job_cpus_floor_centi_def job_cpus_ceiling_centi_def

lemma parse_defaults: "parse_memory (Size_text ''4g'') = Inr 4096" "parse_cpus (Size_text ''2'') = Inr 200"
proof -
  have f: "format_memory 4096 = ''4g''" "format_cpus 200 = ''2''"
    by (simp_all add: format_memory_def format_cpus_def nat_text.simps digit_char_def pad_start_def strip_zeros_def)
  show "parse_memory (Size_text ''4g'') = Inr 4096"
    using parse_format_memory [of 4096] by (simp add: f job_memory_floor_mib_def job_memory_ceiling_mib_def)
  show "parse_cpus (Size_text ''2'') = Inr 200"
    using parse_format_cpus [of 200 "Size_text ''2''"] by (simp add: f job_cpus_floor_centi_def job_cpus_ceiling_centi_def)
qed

theorem size_text_roundtrip_witness:
  "parse_memory (Size_text (format_memory 1536)) = Inr 1536 \<and> parse_cpus (Size_number (format_cpus 125)) = Inr 125"
  using size_text_roundtrip [OF _ parse_defaults, of "\<lparr>mem_mib = 1536, cpu_centi = 125\<rparr>"]
  by (simp add: size_bounds)

text \<open>
  What a size becomes: the memory flag reads back as the size and the swap flag is the same
  text, shared memory is at most half the memory and at most 1 GiB, every job on a host gets the
  same CPU ceiling, which is never above the runtime's own count, and a larger CPU size gets
  strictly more shares.
\<close>

theorem sizing_faithful:
  assumes "container_sizing (Some a) (Some n) budget = Inr x" "container_sizing (Some b) (Some n) budget = Inr y"
    and "is_safe n" "1 \<le> n"
  shows "parse_memory (Size_text (sz_memory x)) = Inr (mem_mib a) \<and> sz_memory_swap x = sz_memory x
    \<and> sz_shm_size x = format_memory (shm_mib_of (mem_mib a)) \<and> 2 * shm_mib_of (mem_mib a) \<le> mem_mib a \<and> shm_mib_of (mem_mib a) \<le> 1024
    \<and> sz_cpus x = sz_cpus y \<and> (\<exists>c \<le> n * 100. sz_cpus x = Some (format_cpus c))
    \<and> (cpu_centi a < cpu_centi b \<longleftrightarrow> sz_cpu_shares x < sz_cpu_shares y)
    \<and> cpu_shares_min \<le> sz_cpu_shares x \<and> sz_cpu_shares x \<le> cpu_shares_max"
proof -
  have ok: "job_size_ok a" "job_size_ok b"
    using assms by (auto simp: container_sizing_def assert_job_size_def split: if_splits)
  have x: "x = \<lparr>sz_memory = format_memory (mem_mib a), sz_memory_swap = format_memory (mem_mib a),
      sz_cpus = map_option format_cpus (cpu_ceiling_centi (Some n) budget), sz_cpu_shares = cpu_shares_of (cpu_centi a),
      sz_shm_size = format_memory (shm_mib_of (mem_mib a))\<rparr>"
    and y: "sz_cpus y = sz_cpus x" "sz_cpu_shares y = cpu_shares_of (cpu_centi b)"
    using assms ok by (auto simp: container_sizing_def assert_job_size_def)
  have ceiling: "\<exists>c \<le> n * 100. cpu_ceiling_centi (Some n) budget = Some c"
    using assms(3,4) by (auto simp: cpu_ceiling_centi_def host_cpu_ceiling_def known_cpus_def Let_def split: option.splits)
  have "1 \<le> cpu_centi a" "1 \<le> cpu_centi b" "cpu_centi a \<le> job_cpus_ceiling_centi" "cpu_centi b \<le> job_cpus_ceiling_centi"
    using ok by (auto simp: job_size_ok_def job_cpus_floor_centi_def)
  then have "cpu_centi a < cpu_centi b \<longleftrightarrow> cpu_shares_of (cpu_centi a) < cpu_shares_of (cpu_centi b)"
    using cpu_shares_less [of "cpu_centi a" "cpu_centi b"] cpu_shares_less [of "cpu_centi b" "cpu_centi a"]
    by (cases "cpu_centi a" "cpu_centi b" rule: linorder_cases) auto
  moreover have "cpu_shares_min \<le> cpu_shares_of (cpu_centi a) \<and> cpu_shares_of (cpu_centi a) \<le> cpu_shares_max"
    by (auto simp: cpu_shares_of_def cpu_shares_min_def cpu_shares_max_def)
  moreover have "2 * shm_mib_of (mem_mib a) \<le> mem_mib a" "shm_mib_of (mem_mib a) \<le> 1024"
    by (simp_all add: shm_mib_of_def shm_ceiling_mib_def min_def) linarith
  ultimately show ?thesis
    using ok parse_format_memory [of "mem_mib a"] ceiling y unfolding x by (auto simp: job_size_ok_def)
qed

theorem sizing_faithful_witness:
  "\<exists>x. container_sizing (Some \<lparr>mem_mib = 4096, cpu_centi = 200\<rparr>) (Some 4) None = Inr x \<and> sz_memory_swap x = sz_memory x"
proof -
  let ?s = "\<lparr>mem_mib = 4096, cpu_centi = 200\<rparr> :: size"
  obtain x where x: "container_sizing (Some ?s) (Some 4) None = Inr x"
    by (simp add: container_sizing_def assert_job_size_def size_bounds)
  with sizing_faithful [OF x x] show ?thesis by (simp add: is_safe_def max_safe_def)
qed

lemma map_sum_Inr: "map_sum f g x = Inr y \<longleftrightarrow> (\<exists>z. x = Inr z \<and> y = g z)"
  by (cases x) auto

lemma job_size_defaults_Inr:
  assumes "job_size_defaults em ec = Inr d"
  shows "parse_memory (if unset_value em then Size_text ''4g'' else em) = Inr (mem_mib (sd_size d))"
    "parse_cpus (if unset_value ec then Size_text ''2'' else ec) = Inr (cpu_centi (sd_size d))"
    "sd_mem_set d \<longleftrightarrow> \<not> unset_value em" "sd_cpu_set d \<longleftrightarrow> \<not> unset_value ec"
  using assms
  by (auto simp: job_size_defaults_def read_setting_def map_sum_Inr split: sum.splits if_splits prod.splits)

lemma pick_size_Inr:
  assumes "pick_size d rm rc = Inr j"
  shows "case rm of None \<Rightarrow> mem_mib j = mem_mib (sd_size d) | Some r \<Rightarrow> r = Inr (mem_mib j)"
    "case rc of None \<Rightarrow> cpu_centi j = cpu_centi (sd_size d) | Some r \<Rightarrow> r = Inr (cpu_centi j)"
    "js_source j = (if rm \<noteq> None \<or> rc \<noteq> None then From_project
       else if sd_mem_set d \<or> sd_cpu_set d then From_env else From_default)"
  using assms by (auto simp: pick_size_def field_of_def split: option.splits sum.splits)

text \<open>
  A job always gets a size within the bounds, field by field: what its project row sets is
  taken from the row, the rest from the deployment's settings, and the source names the most
  specific place that supplied a field.
\<close>

theorem resolve_size_fields:
  assumes "resolve_job_size project limits em ec = Inr j"
  shows "job_memory_floor_mib \<le> mem_mib j \<and> mem_mib j \<le> job_memory_ceiling_mib
    \<and> job_cpus_floor_centi \<le> cpu_centi j \<and> cpu_centi j \<le> job_cpus_ceiling_centi
    \<and> parse_memory (case project_row limits project of
          Some l \<Rightarrow> (case lr_memory l of Size_text t \<Rightarrow> Size_text t | _ \<Rightarrow> if unset_value em then Size_text ''4g'' else em)
        | None \<Rightarrow> if unset_value em then Size_text ''4g'' else em) = Inr (mem_mib j)
    \<and> parse_cpus (case project_row limits project of
          Some l \<Rightarrow> if lr_cpus l = Size_absent then (if unset_value ec then Size_text ''2'' else ec) else lr_cpus l
        | None \<Rightarrow> if unset_value ec then Size_text ''2'' else ec) = Inr (cpu_centi j)
    \<and> js_source j = (if case project_row limits project of Some l \<Rightarrow> (\<exists>t. lr_memory l = Size_text t) \<or> lr_cpus l \<noteq> Size_absent
                        | None \<Rightarrow> False then From_project
         else if unset_value em \<and> unset_value ec then From_default else From_env)"
proof -
  obtain d where d: "job_size_defaults em ec = Inr d"
    using assms by (cases "job_size_defaults em ec") (auto simp: resolve_job_size_def)
  note D = job_size_defaults_Inr [OF d]
  define row where "row = project_row limits project"
  have p: "pick_size d (row_memory row) (row_cpus row) = Inr j"
    using assms d by (simp add: resolve_job_size_def row_def Let_def)
  have pm: "parse_memory (case row of
          Some l \<Rightarrow> (case lr_memory l of Size_text t \<Rightarrow> Size_text t | _ \<Rightarrow> if unset_value em then Size_text ''4g'' else em)
        | None \<Rightarrow> if unset_value em then Size_text ''4g'' else em) = Inr (mem_mib j)"
    using pick_size_Inr(1) [OF p] D(1) by (auto simp: row_memory_def split: option.splits size_value.splits)
  have pc: "parse_cpus (case row of
          Some l \<Rightarrow> if lr_cpus l = Size_absent then (if unset_value ec then Size_text ''2'' else ec) else lr_cpus l
        | None \<Rightarrow> if unset_value ec then Size_text ''2'' else ec) = Inr (cpu_centi j)"
    using pick_size_Inr(2) [OF p] D(2) by (auto simp: row_cpus_def split: option.splits if_splits)
  have "row_memory row \<noteq> None \<or> row_cpus row \<noteq> None \<longleftrightarrow>
      (case row of Some l \<Rightarrow> (\<exists>t. lr_memory l = Size_text t) \<or> lr_cpus l \<noteq> Size_absent | None \<Rightarrow> False)"
    by (auto simp: row_memory_def row_cpus_def split: option.splits size_value.splits)
  then have "js_source j = (if case row of Some l \<Rightarrow> (\<exists>t. lr_memory l = Size_text t) \<or> lr_cpus l \<noteq> Size_absent
                        | None \<Rightarrow> False then From_project
         else if unset_value em \<and> unset_value ec then From_default else From_env)"
    using pick_size_Inr(3) [OF p] D(3,4) by simp
  then show ?thesis
    using pm pc parse_memory_bounds [OF pm] parse_cpus_bounds [OF pc] unfolding row_def by blast
qed

theorem resolve_size_fields_witness:
  "\<exists>j. resolve_job_size (Some ''p'')
        [\<lparr>lr_scope = Some ''project:p'', lr_memory = Size_text ''4g'', lr_cpus = Size_absent, lr_host_share = None, lr_min_jobs = None\<rparr>]
        Size_absent Size_absent = Inr j \<and> js_source j = From_project"
proof -
  let ?l = "[\<lparr>lr_scope = Some ''project:p'', lr_memory = Size_text ''4g'', lr_cpus = Size_absent, lr_host_share = None, lr_min_jobs = None\<rparr>]"
  have "job_size_defaults Size_absent Size_absent = Inr \<lparr>sd_size = \<lparr>mem_mib = 4096, cpu_centi = 200\<rparr>, sd_mem_set = False, sd_cpu_set = False\<rparr>"
    by (simp add: job_size_defaults_def read_setting_def unset_value_def parse_defaults)
  then obtain j where j: "resolve_job_size (Some ''p'') ?l Size_absent Size_absent = Inr j"
    by (simp add: resolve_job_size_def Let_def project_row_def pick_size_def row_memory_def row_cpus_def parse_defaults)
  from resolve_size_fields [OF j] have "js_source j = From_project" by (simp add: project_row_def)
  with j show ?thesis by blast
qed

end
