(* ===== verification/HostFacts.thy ===== *)
theory HostFacts
  imports JobSize
begin

text \<open>
  The numbers the host budget works from (the first half of worker/src/host-budget.mjs): the four
  settings, the memory and CPU a host's facts give under them, the cgroup limits of a rootless
  account, and the size assumed for a container that carries none. A budget is an integer, off
  (\<open>Infinity\<close>) or unknown (\<open>null\<close>).
\<close>

datatype amount = Unknown | Unlimited | At int

datatype setting = Auto | Off | Value int

record budget_settings =
  bs_memory :: setting
  bs_cpus :: setting
  bs_reserve_memory :: setting
  bs_reserve_cpus :: setting

datatype budget_error = Memory_amount | Memory_amount_high | Cpu_amount | Cpu_amount_zero | Cpu_amount_high
  | Below_one_job | At_key string budget_error

definition reserve_memory_min_mib :: int where "reserve_memory_min_mib = 1024"
definition reserve_memory_max_mib :: int where "reserve_memory_max_mib = 4096"
definition reserve_cpus_from :: int where "reserve_cpus_from = 4"
definition budget_cpus_ceiling_centi :: int where "budget_cpus_ceiling_centi = 4096 * 100"
definition budget_memory_ceiling_mib :: int where "budget_memory_ceiling_mib = 64 * 1024 * 1024"

section \<open>The settings\<close>

definition parse_budget_memory :: "string \<Rightarrow> bool \<Rightarrow> budget_error + int" where
  "parse_budget_memory value zero =
     (if zero \<and> value = ''0'' then Inr 0
      else case memory_pattern value of
        None \<Rightarrow> Inl Memory_amount
      | Some (digits, giga) \<Rightarrow>
          if 9 < length digits then Inl Memory_amount
          else (let mib = int (text_nat digits) * (if giga then 1024 else 1)
                in if mib > budget_memory_ceiling_mib then Inl Memory_amount_high else Inr mib))"

definition parse_budget_cpus :: "string \<Rightarrow> bool \<Rightarrow> budget_error + int" where
  "parse_budget_cpus value zero =
     (case decimal_pattern 6 2 value of
        None \<Rightarrow> Inl Cpu_amount
      | Some (w, g) \<Rightarrow>
          (let centi = centi_of w g
           in if centi = 0 \<and> \<not> zero then Inl Cpu_amount_zero
              else if centi > budget_cpus_ceiling_centi then Inl Cpu_amount_high
              else Inr centi))"

text \<open>\<open>String.prototype.trim\<close> on ASCII text: blank, tab, line feed, vertical tab, form feed, return.\<close>

definition is_blank :: "char \<Rightarrow> bool" where
  "is_blank c \<longleftrightarrow> (of_char c :: nat) \<in> {32, 9, 10, 11, 12, 13}"

definition trim :: "string \<Rightarrow> string" where
  "trim s = rev (dropWhile is_blank (rev (dropWhile is_blank s)))"

text \<open>One setting; \<open>off\<close> is a word of the two budgets only.\<close>

definition read_budget ::
  "string \<Rightarrow> bool \<Rightarrow> (string \<Rightarrow> budget_error + int) \<Rightarrow> string option \<Rightarrow> budget_error + setting" where
  "read_budget key off_ok parse raw =
     (case raw of None \<Rightarrow> Inr Auto
      | Some r \<Rightarrow>
          if trim r = [] \<or> trim r = ''auto'' then Inr Auto
          else if off_ok \<and> trim r = ''off'' then Inr Off
          else map_sum (At_key key) Value (parse (trim r)))"

record budget_env =
  be_memory :: "string option"
  be_cpus :: "string option"
  be_reserve_memory :: "string option"
  be_reserve_cpus :: "string option"

definition below_default :: "setting \<Rightarrow> int \<Rightarrow> bool" where
  "below_default s d = (case s of Value n \<Rightarrow> n < d | _ \<Rightarrow> False)"

definition host_budget_settings :: "budget_env \<Rightarrow> size \<Rightarrow> budget_error + budget_settings" where
  "host_budget_settings env job_default =
     (case read_budget ''PI_HOST_MEMORY_BUDGET'' True (\<lambda>t. parse_budget_memory t False) (be_memory env) of
        Inl e \<Rightarrow> Inl e
      | Inr memory \<Rightarrow> (case read_budget ''PI_HOST_CPU_BUDGET'' True (\<lambda>t. parse_budget_cpus t False) (be_cpus env) of
        Inl e \<Rightarrow> Inl e
      | Inr cpus \<Rightarrow> (case read_budget ''PI_HOST_RESERVE_MEMORY'' False (\<lambda>t. parse_budget_memory t True) (be_reserve_memory env) of
        Inl e \<Rightarrow> Inl e
      | Inr reserve_memory \<Rightarrow> (case read_budget ''PI_HOST_RESERVE_CPUS'' False (\<lambda>t. parse_budget_cpus t True) (be_reserve_cpus env) of
        Inl e \<Rightarrow> Inl e
      | Inr reserve_cpus \<Rightarrow>
          if below_default memory (mem_mib job_default) then Inl (At_key ''PI_HOST_MEMORY_BUDGET'' Below_one_job)
          else if below_default cpus (cpu_centi job_default) then Inl (At_key ''PI_HOST_CPU_BUDGET'' Below_one_job)
          else Inr \<lparr>bs_memory = memory, bs_cpus = cpus, bs_reserve_memory = reserve_memory,
                    bs_reserve_cpus = reserve_cpus\<rparr>))))"

section \<open>The budget of a host\<close>

definition known :: "int option \<Rightarrow> int option" where
  "known v = (case v of Some n \<Rightarrow> if is_safe n \<and> 0 < n then Some n else None | None \<Rightarrow> None)"

definition smaller_known :: "int option \<Rightarrow> int option \<Rightarrow> int option" where
  "smaller_known a b =
     (case (known a, known b) of
        (Some x, Some y) \<Rightarrow> Some (min x y)
      | (Some x, None) \<Rightarrow> Some x
      | (None, y) \<Rightarrow> y)"

record facts =
  fa_mem_total :: "int option"
  fa_host_cpus :: "int option"
  fa_user_mem :: "int option"
  fa_user_cpu :: "int option"

text \<open>What \<open>detail\<close> says of one dimension: the total, the reserve and whether the floor set the number.\<close>

record detail =
  dt_total :: "int option"
  dt_reserve :: "int option"
  dt_floored :: bool

definition dimension :: "setting \<Rightarrow> int option \<Rightarrow> setting \<Rightarrow> (int \<Rightarrow> int) \<Rightarrow> int \<Rightarrow> amount \<times> detail" where
  "dimension s tot reserve auto_reserve floor =
     (case s of
        Off \<Rightarrow> (Unlimited, \<lparr>dt_total = None, dt_reserve = None, dt_floored = False\<rparr>)
      | Value n \<Rightarrow> (At n, \<lparr>dt_total = None, dt_reserve = None, dt_floored = False\<rparr>)
      | Auto \<Rightarrow>
          (case tot of
             None \<Rightarrow> (Unknown, \<lparr>dt_total = None, dt_reserve = None, dt_floored = False\<rparr>)
           | Some t \<Rightarrow>
               (let r = (case reserve of Value n \<Rightarrow> n | _ \<Rightarrow> auto_reserve t)
                in (At (max (t - r) floor), \<lparr>dt_total = Some t, dt_reserve = Some r, dt_floored = (t - r < floor)\<rparr>))))"

record host_budget =
  hb_mem :: amount
  hb_cpu :: amount

definition compute_host_budget :: "budget_settings \<Rightarrow> facts \<Rightarrow> size \<Rightarrow> host_budget \<times> detail \<times> detail" where
  "compute_host_budget st f job_default =
     (let (m, dm) = dimension (bs_memory st) (smaller_known (fa_mem_total f) (fa_user_mem f)) (bs_reserve_memory st)
                      (\<lambda>t. min reserve_memory_max_mib (max reserve_memory_min_mib (t div 10))) (mem_mib job_default);
          (c, dc) = dimension (bs_cpus st)
                      (smaller_known (case fa_host_cpus f of Some n \<Rightarrow> if is_safe n then Some (n * 100) else None | None \<Rightarrow> None)
                         (fa_user_cpu f))
                      (bs_reserve_cpus st) (\<lambda>t. if t \<ge> reserve_cpus_from * 100 then 100 else 0) (cpu_centi job_default)
      in (\<lparr>hb_mem = m, hb_cpu = c\<rparr>, dm, dc))"

section \<open>The limits of a rootless account\<close>

definition user_service_cgroup_dirs :: "nat \<Rightarrow> string list" where
  "user_service_cgroup_dirs uid =
     (let u = nat_text uid
      in [''/sys/fs/cgroup/user.slice/user-'' @ u @ ''.slice'',
          ''/sys/fs/cgroup/user.slice/user-'' @ u @ ''.slice/user@'' @ u @ ''.service''])"

definition digits_upto :: "nat \<Rightarrow> string \<Rightarrow> bool" where
  "digits_upto n s \<longleftrightarrow> s \<noteq> [] \<and> length s \<le> n \<and> list_all is_digit s"

definition parse_memory_max :: "string option \<Rightarrow> int option" where
  "parse_memory_max text =
     (let v = trim (case text of None \<Rightarrow> [] | Some t \<Rightarrow> t)
      in if \<not> digits_upto 20 v then None
         else (let bytes = int (text_nat v)
               in if is_safe bytes \<and> 1048576 \<le> bytes then Some (bytes div 1048576) else None))"

text \<open>\<open>fquot\<close> is \<open>Math.floor((quota * 100) / period)\<close>, in floating point for a quota above \<open>2\<^sup>53 / 100\<close>.\<close>

definition parse_cpu_max :: "(int \<Rightarrow> int \<Rightarrow> int) \<Rightarrow> string option \<Rightarrow> int option" where
  "parse_cpu_max fquot text =
     (let v = trim (case text of None \<Rightarrow> [] | Some t \<Rightarrow> t);
          q = takeWhile is_digit v; r = drop (length q) v
      in if \<not> digits_upto 15 q \<or> r = [] \<or> hd r \<noteq> CHR '' '' \<or> \<not> digits_upto 15 (tl r) then None
         else (let quota = int (text_nat q); period = int (text_nat (tl r))
               in if period \<le> 0 \<or> quota \<le> 0 then None
                  else (let centi = fquot quota period in if 0 < centi then Some centi else None)))"

text \<open>\<open>readFile\<close> gives the text or throws (\<open>None\<close>).\<close>

fun read_limits ::
  "(int \<Rightarrow> int \<Rightarrow> int) \<Rightarrow> (string \<Rightarrow> string option) \<Rightarrow> string list \<Rightarrow> int option \<Rightarrow> int option \<Rightarrow> int option \<times> int option" where
  "read_limits fquot read [] m c = (m, c)"
| "read_limits fquot read (d # ds) m c =
     read_limits fquot read ds
       (smaller_known m (parse_memory_max (read (d @ ''/memory.max''))))
       (smaller_known c (parse_cpu_max fquot (read (d @ ''/cpu.max''))))"

definition read_user_service_limits ::
  "(int \<Rightarrow> int \<Rightarrow> int) \<Rightarrow> int option \<Rightarrow> (string \<Rightarrow> string option) option \<Rightarrow> int option \<times> int option" where
  "read_user_service_limits fquot uid read =
     (case (uid, read) of
        (Some u, Some rd) \<Rightarrow>
          if \<not> is_safe u \<or> u < 0 then (None, None)
          else read_limits fquot rd (user_service_cgroup_dirs (nat u)) None None
      | _ \<Rightarrow> (None, None))"

section \<open>Rows, fields and guesses\<close>

definition host_share_of :: "limit_row list \<Rightarrow> string option \<Rightarrow> int option" where
  "host_share_of limits project =
     (case project_row limits project of
        Some l \<Rightarrow> (case lr_host_share l of Some s \<Rightarrow> if is_safe s then Some s else None | None \<Rightarrow> None)
      | None \<Rightarrow> None)"

definition min_jobs_of :: "limit_row list \<Rightarrow> string option \<Rightarrow> int" where
  "min_jobs_of limits project =
     (case project_row limits project of
        Some l \<Rightarrow> (case lr_min_jobs l of Some n \<Rightarrow> if is_safe n \<and> 0 < n then n else 0 | None \<Rightarrow> 0)
      | None \<Rightarrow> 0)"

definition budget_field :: "amount \<Rightarrow> string" where
  "budget_field a =
     (case a of Unlimited \<Rightarrow> ''off''
      | At n \<Rightarrow> if is_safe n then (if n < 0 then CHR ''-'' # nat_text (nat (- n)) else nat_text (nat n)) else []
      | Unknown \<Rightarrow> [])"

definition published_amount :: "string option \<Rightarrow> amount" where
  "published_amount v =
     (case v of None \<Rightarrow> Unknown
      | Some t \<Rightarrow> if t = ''off'' then Unlimited else if digits_upto 15 t then At (int (text_nat t)) else Unknown)"

definition cap_at :: "int \<Rightarrow> amount \<Rightarrow> int" where
  "cap_at v limit = (case limit of At n \<Rightarrow> if is_safe n \<and> 0 < n then min v n else v | _ \<Rightarrow> v)"

definition starts_with :: "string \<Rightarrow> string \<Rightarrow> bool" where
  "starts_with p s \<longleftrightarrow> take (length p) s = p"

definition row_size :: "limit_row \<Rightarrow> int \<times> int \<Rightarrow> int \<times> int" where
  "row_size l acc =
     (if (case lr_scope l of Some s \<Rightarrow> starts_with ''project:'' s | None \<Rightarrow> False)
      then (case lr_memory l of Size_text t \<Rightarrow> (case parse_memory (Size_text t) of Inr x \<Rightarrow> max (fst acc) x | Inl _ \<Rightarrow> fst acc)
                | _ \<Rightarrow> fst acc,
            if lr_cpus l = Size_absent then snd acc
            else (case parse_cpus (lr_cpus l) of Inr x \<Rightarrow> max (snd acc) x | Inl _ \<Rightarrow> snd acc))
      else acc)"

fun largest_row :: "limit_row list \<Rightarrow> int \<times> int \<Rightarrow> int \<times> int" where
  "largest_row [] acc = acc"
| "largest_row (l # ls) acc = largest_row ls (row_size l acc)"

definition pessimistic_size :: "limit_row list \<Rightarrow> size \<Rightarrow> host_budget \<Rightarrow> size" where
  "pessimistic_size limits job_default budget =
     (case largest_row limits (mem_mib job_default, cpu_centi job_default) of
        (m, c) \<Rightarrow> \<lparr>mem_mib = cap_at m (hb_mem budget), cpu_centi = cap_at c (hb_cpu budget)\<rparr>)"

definition largest_fit_in :: "amount \<Rightarrow> int option \<Rightarrow> amount" where
  "largest_fit_in b share =
     (case b of At n \<Rightarrow> (case share of None \<Rightarrow> At n | Some s \<Rightarrow> At ((s * n) div 100)) | x \<Rightarrow> x)"

definition largest_fit :: "host_budget \<Rightarrow> int option \<Rightarrow> host_budget" where
  "largest_fit budget share =
     \<lparr>hb_mem = largest_fit_in (hb_mem budget) share, hb_cpu = largest_fit_in (hb_cpu budget) share\<rparr>"

section \<open>Properties\<close>

lemma smaller_known_pos: "smaller_known a b = Some n \<Longrightarrow> 0 < n"
  by (auto simp: smaller_known_def known_def min_def split: option.splits if_splits)

lemma read_budget_Value:
  "read_budget key off_ok parse raw = Inr (Value n) \<Longrightarrow> \<exists>t. parse t = Inr n"
  by (auto simp: read_budget_def map_sum_Inr split: option.splits if_splits)

lemma dimension_floor:
  assumes "\<not> below_default s d" "dimension s tot reserve auto d = (a, dt)"
  shows "case a of At n \<Rightarrow> d \<le> n \<and> (if dt_floored dt then n = d else
      case (tot, dt_reserve dt) of (Some t, Some r) \<Rightarrow> s \<noteq> Auto \<or> n + r = t | _ \<Rightarrow> s \<noteq> Auto)
    | Unknown \<Rightarrow> s = Auto \<and> tot = None | Unlimited \<Rightarrow> s = Off"
  using assms by (auto simp: dimension_def below_default_def Let_def split: setting.splits option.splits)

text \<open>
  A host's budget is never below one job of the default size, so no setting refuses every
  default job; an automatic budget that is not held up by that floor leaves exactly the reserve
  free; and a budget is unknown only when \<open>auto\<close> has no fact to work from.
\<close>

theorem budget_holds_one_job:
  assumes "host_budget_settings env jd = Inr st" "compute_host_budget st f jd = (b, dm, dc)"
  shows "(case hb_mem b of
        At n \<Rightarrow> mem_mib jd \<le> n \<and> (if dt_floored dm then n = mem_mib jd else
          case (smaller_known (fa_mem_total f) (fa_user_mem f), dt_reserve dm) of
            (Some t, Some r) \<Rightarrow> bs_memory st \<noteq> Auto \<or> n + r = t | _ \<Rightarrow> bs_memory st \<noteq> Auto)
      | Unknown \<Rightarrow> bs_memory st = Auto \<and> smaller_known (fa_mem_total f) (fa_user_mem f) = None
      | Unlimited \<Rightarrow> bs_memory st = Off)
    \<and> (case hb_cpu b of At n \<Rightarrow> cpu_centi jd \<le> n | Unknown \<Rightarrow> bs_cpus st = Auto | Unlimited \<Rightarrow> bs_cpus st = Off)"
proof -
  have nb: "\<not> below_default (bs_memory st) (mem_mib jd)" "\<not> below_default (bs_cpus st) (cpu_centi jd)"
    using assms(1) by (auto simp: host_budget_settings_def split: sum.splits if_splits)
  obtain m c where d: "dimension (bs_memory st) (smaller_known (fa_mem_total f) (fa_user_mem f)) (bs_reserve_memory st)
      (\<lambda>t. min reserve_memory_max_mib (max reserve_memory_min_mib (t div 10))) (mem_mib jd) = (m, dm)"
    "dimension (bs_cpus st)
      (smaller_known (case fa_host_cpus f of Some n \<Rightarrow> if is_safe n then Some (n * 100) else None | None \<Rightarrow> None) (fa_user_cpu f))
      (bs_reserve_cpus st) (\<lambda>t. if t \<ge> reserve_cpus_from * 100 then 100 else 0) (cpu_centi jd) = (c, dc)"
    and b: "b = \<lparr>hb_mem = m, hb_cpu = c\<rparr>"
    using assms(2) by (auto simp: compute_host_budget_def split: prod.splits)
  show ?thesis
    using dimension_floor [OF nb(1) d(1)] dimension_floor [OF nb(2) d(2)] b by (auto split: amount.splits)
qed

theorem budget_holds_one_job_witness:
  "\<exists>b dm dc. compute_host_budget \<lparr>bs_memory = Auto, bs_cpus = Off, bs_reserve_memory = Auto, bs_reserve_cpus = Auto\<rparr>
       \<lparr>fa_mem_total = Some 32768, fa_host_cpus = None, fa_user_mem = None, fa_user_cpu = None\<rparr> \<lparr>mem_mib = 4096, cpu_centi = 200\<rparr> = (b, dm, dc)
     \<and> (\<exists>n. hb_mem b = At n \<and> 4096 \<le> n)"
proof -
  let ?jd = "\<lparr>mem_mib = 4096, cpu_centi = 200\<rparr> :: size"
  let ?st = "\<lparr>bs_memory = Auto, bs_cpus = Off, bs_reserve_memory = Auto, bs_reserve_cpus = Auto\<rparr>"
  let ?f = "\<lparr>fa_mem_total = Some 32768, fa_host_cpus = None, fa_user_mem = None, fa_user_cpu = None\<rparr>"
  have s: "host_budget_settings \<lparr>be_memory = Some ''auto'', be_cpus = Some ''off'', be_reserve_memory = None, be_reserve_cpus = None\<rparr> ?jd
      = Inr ?st"
    by (simp add: host_budget_settings_def read_budget_def trim_def is_blank_def below_default_def)
  obtain b dm dc where c: "compute_host_budget ?st ?f ?jd = (b, dm, dc)" by (metis prod_cases3)
  have "smaller_known (Some 32768) None = Some 32768" by (simp add: smaller_known_def known_def is_safe_def max_safe_def)
  with budget_holds_one_job [OF s c] c have "\<exists>n. hb_mem b = At n \<and> 4096 \<le> n"
    by (auto split: amount.splits)
  with c show ?thesis by blast
qed

lemma row_size_ge: "fst acc \<le> fst (row_size l acc)" "snd acc \<le> snd (row_size l acc)"
  by (auto simp: row_size_def split: size_value.split sum.split)

lemma largest_row_ge: "fst acc \<le> fst (largest_row ls acc) \<and> snd acc \<le> snd (largest_row ls acc)"
proof (induction ls arbitrary: acc)
  case (Cons l ls)
  from Cons.IH [of "row_size l acc"] row_size_ge [of acc l] show ?case by simp
qed simp

lemma row_size_covers:
  assumes "lr_scope l = Some s" "starts_with ''project:'' s"
  shows "parse_memory (lr_memory l) = Inr m \<Longrightarrow> m \<le> fst (row_size l acc)"
    and "lr_cpus l \<noteq> Size_absent \<Longrightarrow> parse_cpus (lr_cpus l) = Inr c \<Longrightarrow> c \<le> snd (row_size l acc)"
proof -
  assume m: "parse_memory (lr_memory l) = Inr m"
  then obtain t where "lr_memory l = Size_text t"
    by (cases "lr_memory l") (auto simp: parse_memory_def)
  with m assms show "m \<le> fst (row_size l acc)" by (simp add: row_size_def)
next
  assume "lr_cpus l \<noteq> Size_absent" "parse_cpus (lr_cpus l) = Inr c"
  with assms show "c \<le> snd (row_size l acc)" by (simp add: row_size_def)
qed

lemma largest_row_covers:
  assumes "l \<in> set ls" "lr_scope l = Some s" "starts_with ''project:'' s"
  shows "parse_memory (lr_memory l) = Inr m \<Longrightarrow> m \<le> fst (largest_row ls acc)"
    and "lr_cpus l \<noteq> Size_absent \<Longrightarrow> parse_cpus (lr_cpus l) = Inr c \<Longrightarrow> c \<le> snd (largest_row ls acc)"
proof -
  obtain us vs where ls: "ls = us @ l # vs" using split_list [OF assms(1)] by blast
  have app: "largest_row (us @ l # vs) acc = largest_row vs (row_size l (largest_row us acc))"
    by (induction us arbitrary: acc) auto
  note ge = largest_row_ge [of "row_size l (largest_row us acc)" vs]
  show "parse_memory (lr_memory l) = Inr m \<Longrightarrow> m \<le> fst (largest_row ls acc)"
    using row_size_covers(1) [OF assms(2,3), of m "largest_row us acc"] ge unfolding ls app by simp
  show "lr_cpus l \<noteq> Size_absent \<Longrightarrow> parse_cpus (lr_cpus l) = Inr c \<Longrightarrow> c \<le> snd (largest_row ls acc)"
    using row_size_covers(2) [OF assms(2,3), of c "largest_row us acc"] ge unfolding ls app by simp
qed

text \<open>
  The size assumed for a surviving container without a label covers every size a job of this
  deployment can resolve to, up to the budget, and is never above a budget that is a number.
\<close>

theorem pessimistic_covers:
  assumes "job_size_defaults em ec = Inr d" "resolve_job_size project limits em ec = Inr j"
    and "pessimistic_size limits (sd_size d) b = s"
  shows "cap_at (mem_mib j) (hb_mem b) \<le> mem_mib s \<and> cap_at (cpu_centi j) (hb_cpu b) \<le> cpu_centi s
    \<and> (case hb_mem b of At n \<Rightarrow> mem_mib s \<le> (if is_safe n \<and> 0 < n then n else mem_mib s) | _ \<Rightarrow> True)"
proof -
  obtain m c where mc: "largest_row limits (mem_mib (sd_size d), cpu_centi (sd_size d)) = (m, c)" by fastforce
  have s: "s = \<lparr>mem_mib = cap_at m (hb_mem b), cpu_centi = cap_at c (hb_cpu b)\<rparr>"
    using assms(3) by (simp add: pessimistic_size_def mc)
  define row where "row = project_row limits project"
  have p: "pick_size d (row_memory row) (row_cpus row) = Inr j"
    using assms(1,2) by (simp add: resolve_job_size_def row_def Let_def)
  have base: "mem_mib (sd_size d) \<le> m" "cpu_centi (sd_size d) \<le> c"
    using largest_row_ge [of "(mem_mib (sd_size d), cpu_centi (sd_size d))" limits] mc by simp_all
  have rows: "l \<in> set limits \<and> (\<exists>p. lr_scope l = Some (''project:'' @ p))" if "row = Some l" for l
    using that by (auto simp: row_def project_row_def find_Some_iff split: option.splits)
  have m: "mem_mib j \<le> m"
  proof (cases "row_memory row")
    case None
    then show ?thesis using pick_size_Inr(1) [OF p] base by simp
  next
    case (Some r)
    then obtain l where l: "row = Some l" "parse_memory (lr_memory l) = Inr (mem_mib j)"
      using pick_size_Inr(1) [OF p] by (auto simp: row_memory_def split: option.splits size_value.splits)
    obtain q where "l \<in> set limits" "lr_scope l = Some (''project:'' @ q)" using rows [OF l(1)] by blast
    from largest_row_covers(1) [OF this _ l(2), of "(mem_mib (sd_size d), cpu_centi (sd_size d))"] mc show ?thesis
      by (simp add: starts_with_def)
  qed
  have c: "cpu_centi j \<le> c"
  proof (cases "row_cpus row")
    case None
    then show ?thesis using pick_size_Inr(2) [OF p] base by simp
  next
    case (Some r)
    then obtain l where l: "row = Some l" "lr_cpus l \<noteq> Size_absent" "parse_cpus (lr_cpus l) = Inr (cpu_centi j)"
      using pick_size_Inr(2) [OF p] by (auto simp: row_cpus_def split: option.splits if_splits)
    obtain q where "l \<in> set limits" "lr_scope l = Some (''project:'' @ q)" using rows [OF l(1)] by blast
    from largest_row_covers(2) [OF this _ l(2,3), of "(mem_mib (sd_size d), cpu_centi (sd_size d))"] mc show ?thesis
      by (simp add: starts_with_def)
  qed
  show ?thesis using m c s by (auto simp: cap_at_def split: amount.splits)
qed

theorem pessimistic_covers_witness:
  "\<exists>d j. job_size_defaults Size_absent Size_absent = Inr d \<and> resolve_job_size None [] Size_absent Size_absent = Inr j
     \<and> mem_mib j \<le> mem_mib (pessimistic_size [] (sd_size d) \<lparr>hb_mem = Unknown, hb_cpu = Unknown\<rparr>)"
proof -
  obtain d where d: "job_size_defaults Size_absent Size_absent = Inr d"
    by (simp add: job_size_defaults_def read_setting_def unset_value_def parse_defaults)
  then obtain j where j: "resolve_job_size None [] Size_absent Size_absent = Inr j"
    by (simp add: resolve_job_size_def Let_def project_row_def pick_size_def row_memory_def row_cpus_def)
  from pessimistic_covers [OF d j refl, of "\<lparr>hb_mem = Unknown, hb_cpu = Unknown\<rparr>"] d j show ?thesis
    by (simp add: cap_at_def)
qed

end
