(* ===== verification/HostBudget.thy ===== *)
theory HostBudget
  imports HostFacts "HOL-Library.Char_ord" "HOL-Library.List_Lexorder" "HOL-Library.Product_Lexorder"
begin

text \<open>
  The host budget's ledger (the second half of worker/src/host-budget.mjs): which waiting job may
  start now, which room is kept for the jobs that wait, and how a hold is given back. The ledger
  and the waiters are Maps keyed by job id, here lists without repeated ids in the Map's order. An
  object's identity, which the code compares after an await, is a stamp of its own. A step of an
  asynchronous piece (verify, sweep, seed, refresh) is what it does when its answer arrives.
\<close>

definition hold_verify_after_ms :: int where "hold_verify_after_ms = 15000"
definition hold_drop_on_error_ms :: int where "hold_drop_on_error_ms = 120000"

record cand =
  wt_id :: string
  wt_project :: "string option"
  wt_size :: size
  wt_first :: int
  wt_suspended :: bool

record waiter = cand +
  wt_last :: int
  wt_checked :: int
  wt_reader :: bool
  wt_stamp :: nat

record orphan =
  or_name :: "string option"
  or_venue :: "string option"
  or_since :: int

record entry =
  e_id :: string
  e_project :: "string option"
  e_size :: size
  e_at :: int
  e_ticket :: "nat option"
  e_name :: "string option"
  e_orphan :: "orphan option"
  e_guess :: "size option"
  e_stamp :: nat

section \<open>The admission rule\<close>

definition fits :: "int \<Rightarrow> amount \<Rightarrow> bool" where
  "fits x b = (case b of At n \<Rightarrow> x \<le> n | _ \<Rightarrow> True)"

definition within_share :: "int \<Rightarrow> amount \<Rightarrow> int option \<Rightarrow> bool" where
  "within_share x b share =
     (case share of None \<Rightarrow> True | Some s \<Rightarrow> (case b of At n \<Rightarrow> x * 100 \<le> s * n | _ \<Rightarrow> True))"

definition sum_of :: "size list \<Rightarrow> int \<times> int" where
  "sum_of ss = (sum_list (map mem_mib ss), sum_list (map cpu_centi ss))"

text \<open>\<open>byAge\<close>: the older first, the id breaks a tie.\<close>

definition by_age :: "cand list \<Rightarrow> cand list" where
  "by_age ws = sort_key (\<lambda>w. (wt_first w, wt_id w)) ws"

definition has_project :: "string option \<Rightarrow> bool" where
  "has_project p \<longleftrightarrow> p \<noteq> None \<and> p \<noteq> Some []"

definition running_of :: "entry list \<Rightarrow> string option \<Rightarrow> int" where
  "running_of ledger p = int (length (filter (\<lambda>e. has_project (e_project e) \<and> e_project e = p) ledger))"

fun tier1 :: "(string option \<Rightarrow> int) \<Rightarrow> entry list \<Rightarrow> string option list \<Rightarrow> cand list \<Rightarrow> cand list" where
  "tier1 min_of ledger seen [] = []"
| "tier1 min_of ledger seen (w # ws) =
     (if \<not> has_project (wt_project w) \<or> wt_project w \<in> set seen then tier1 min_of ledger seen ws
      else (if 0 < min_of (wt_project w) \<and> running_of ledger (wt_project w) < min_of (wt_project w) then [w] else [])
           @ tier1 min_of ledger (wt_project w # seen) ws)"

definition rank_holds :: "(string option \<Rightarrow> int) \<Rightarrow> cand list \<Rightarrow> entry list \<Rightarrow> cand list" where
  "rank_holds min_of waiters ledger =
     (let active = by_age (filter (\<lambda>w. \<not> wt_suspended w) waiters);
          t1 = tier1 min_of ledger [] active
      in case active of [] \<Rightarrow> t1
         | oldest # _ \<Rightarrow> if oldest \<in> set t1 then t1 else t1 @ [oldest])"

datatype why = Share | Memory | Cpu | Count | Unseeded | Running_here

definition ids_before :: "string \<Rightarrow> cand list \<Rightarrow> cand list" where
  "ids_before i holds = takeWhile (\<lambda>h. wt_id h \<noteq> i) holds"

definition rank_of :: "string \<Rightarrow> cand list \<Rightarrow> int" where
  "rank_of i holds = (if i \<in> wt_id ` set holds then int (length (ids_before i holds)) else - 1)"

text \<open>\<open>None\<close> is \<open>{ ok: true }\<close>. Without a rank every hold counts, and \<open>ids_before\<close> is then the whole list.\<close>

definition admit ::
  "host_budget \<Rightarrow> int option \<Rightarrow> entry list \<Rightarrow> cand list \<Rightarrow> cand \<Rightarrow> (string option \<Rightarrow> int option) \<Rightarrow> why option" where
  "admit budget count ledger holds ask share_of =
     (let share = (if has_project (wt_project ask) then share_of (wt_project ask) else None);
          mine = sum_of (map e_size (filter (\<lambda>e. e_project e = wt_project ask) ledger));
          counted = map e_size ledger @ [wt_size ask] @ map wt_size (ids_before (wt_id ask) holds);
          need = sum_of counted
      in if share \<noteq> None \<and>
            (\<not> within_share (fst mine + mem_mib (wt_size ask)) (hb_mem budget) share \<or>
             \<not> within_share (snd mine + cpu_centi (wt_size ask)) (hb_cpu budget) share)
         then Some Share
         else if \<not> fits (fst need) (hb_mem budget) then Some Memory
         else if \<not> fits (snd need) (hb_cpu budget) then Some Cpu
         else if \<not> fits (int (length counted)) (case count of Some n \<Rightarrow> if is_safe n then At n else Unknown | None \<Rightarrow> Unknown)
         then Some Count
         else None)"

datatype never = Host_size | Share_size

definition never_fits :: "size \<Rightarrow> host_budget \<Rightarrow> int option \<Rightarrow> never option" where
  "never_fits s budget share =
     (if \<not> fits (mem_mib s) (hb_mem budget) \<or> \<not> fits (cpu_centi s) (hb_cpu budget) then Some Host_size
      else if \<not> within_share (mem_mib s) (hb_mem budget) share \<or> \<not> within_share (cpu_centi s) (hb_cpu budget) share
      then Some Share_size
      else None)"

section \<open>The state and its doors\<close>

record host =
  ho_budget :: host_budget
  ho_ledger :: "entry list"
  ho_waiters :: "waiter list"
  ho_handling :: "string \<Rightarrow> nat"
  ho_tickets :: nat
  ho_unseeded :: "string list"
  ho_default_venue :: "string option"
  ho_stamp :: nat

text \<open>The Map operations on lists keyed by an id.\<close>

definition lookup :: "('a \<Rightarrow> string) \<Rightarrow> string \<Rightarrow> 'a list \<Rightarrow> 'a option" where
  "lookup key i xs = List.find (\<lambda>x. key x = i) xs"

definition remove :: "('a \<Rightarrow> string) \<Rightarrow> string \<Rightarrow> 'a list \<Rightarrow> 'a list" where
  "remove key i xs = filter (\<lambda>x. key x \<noteq> i) xs"

definition put :: "('a \<Rightarrow> string) \<Rightarrow> 'a \<Rightarrow> 'a list \<Rightarrow> 'a list" where
  "put key x xs = (if key x \<in> key ` set xs then map (\<lambda>y. if key y = key x then x else y) xs else xs @ [x])"

definition blocked_by_seed :: "host \<Rightarrow> string option \<Rightarrow> bool" where
  "blocked_by_seed h venue =
     (if ho_unseeded h = [] then False
      else if ''*'' \<in> set (ho_unseeded h) then True
      else (case (case venue of Some v \<Rightarrow> Some v | None \<Rightarrow> ho_default_venue h) of
              None \<Rightarrow> True | Some v \<Rightarrow> v \<in> set (ho_unseeded h)))"

record pickup =
  pk_id :: string
  pk_ticket :: "nat option"
  pk_project :: "string option"
  pk_size :: size
  pk_venue :: "string option"
  pk_name :: "string option"
  pk_reader :: bool

datatype gate_result = Admitted_here | Deferred why int

definition enter :: "string \<Rightarrow> host \<Rightarrow> nat \<times> host" where
  "enter i h = (Suc (ho_tickets h),
     h\<lparr>ho_handling := (ho_handling h)(i := Suc (ho_handling h i)), ho_tickets := Suc (ho_tickets h)\<rparr>)"

definition leave :: "string \<Rightarrow> host \<Rightarrow> host" where
  "leave i h = h\<lparr>ho_handling := (ho_handling h)(i := ho_handling h i - 1)\<rparr>"

definition ask_of :: "pickup \<Rightarrow> host \<Rightarrow> int \<Rightarrow> cand" where
  "ask_of p h t =
     \<lparr>wt_id = pk_id p, wt_project = pk_project p, wt_size = pk_size p,
      wt_first = (case lookup wt_id (pk_id p) (ho_waiters h) of Some w \<Rightarrow> wt_first w | None \<Rightarrow> t),
      wt_suspended = False\<rparr>"

definition gate_holds :: "pickup \<Rightarrow> limit_row list \<Rightarrow> int \<Rightarrow> host \<Rightarrow> cand list" where
  "gate_holds p limits t h =
     rank_holds (min_jobs_of limits) (put wt_id (ask_of p h t) (map cand.truncate (ho_waiters h))) (ho_ledger h)"

text \<open>An orphan carries the container name this pickup will use.\<close>

definition name_taken :: "pickup \<Rightarrow> host \<Rightarrow> bool" where
  "name_taken p h \<longleftrightarrow> pk_name p \<noteq> None \<and>
     (\<exists>e \<in> set (ho_ledger h). case e_orphan e of None \<Rightarrow> False | Some x \<Rightarrow> or_name x = pk_name p)"

definition gate :: "pickup \<Rightarrow> limit_row list \<Rightarrow> int option \<Rightarrow> int \<Rightarrow> host \<Rightarrow> gate_result \<times> host" where
  "gate p limits count t h =
     (if blocked_by_seed h (pk_venue p) then (Deferred Unseeded (- 1), h)
      else if lookup e_id (pk_id p) (ho_ledger h) \<noteq> None then (Deferred Running_here (- 1), h)
      else if name_taken p h then (Deferred Running_here (- 1), h)
      else (let ask = ask_of p h t; holds = gate_holds p limits t h
            in case admit (ho_budget h) count (ho_ledger h) holds ask (host_share_of limits) of
                 None \<Rightarrow>
                   (Admitted_here,
                    h\<lparr>ho_waiters := remove wt_id (pk_id p) (ho_waiters h),
                      ho_ledger := put e_id \<lparr>e_id = pk_id p, e_project = pk_project p, e_size = pk_size p, e_at = t,
                         e_ticket = pk_ticket p, e_name = pk_name p, e_orphan = None, e_guess = None,
                         e_stamp = ho_stamp h\<rparr> (ho_ledger h),
                      ho_stamp := Suc (ho_stamp h)\<rparr>)
               | Some w \<Rightarrow>
                   (Deferred w (rank_of (pk_id p) holds),
                    h\<lparr>ho_waiters := put wt_id \<lparr>wt_id = pk_id p, wt_project = pk_project p, wt_size = pk_size p,
                         wt_first = wt_first ask, wt_suspended = (w = Share), wt_last = t, wt_checked = t,
                         wt_reader = (pk_reader p \<or> (case lookup wt_id (pk_id p) (ho_waiters h) of Some x \<Rightarrow> wt_reader x | None \<Rightarrow> False)),
                         wt_stamp = ho_stamp h\<rparr> (ho_waiters h),
                      ho_stamp := Suc (ho_stamp h)\<rparr>)))"

definition suspend :: "string \<Rightarrow> int \<Rightarrow> host \<Rightarrow> host" where
  "suspend i t h =
     (case lookup wt_id i (ho_waiters h) of None \<Rightarrow> h
      | Some w \<Rightarrow> h\<lparr>ho_waiters := put wt_id (w\<lparr>wt_suspended := True, wt_last := t, wt_stamp := ho_stamp h\<rparr>) (ho_waiters h),
                     ho_stamp := Suc (ho_stamp h)\<rparr>)"

definition forget :: "string \<Rightarrow> host \<Rightarrow> host" where
  "forget i h = h\<lparr>ho_waiters := remove wt_id i (ho_waiters h)\<rparr>"

definition release :: "string \<Rightarrow> nat option \<Rightarrow> host \<Rightarrow> bool \<times> host" where
  "release i ticket h =
     (case lookup e_id i (ho_ledger h) of None \<Rightarrow> (False, h)
      | Some e \<Rightarrow> if e_orphan e \<noteq> None \<or> e_ticket e \<noteq> ticket then (False, h)
                  else (True, h\<lparr>ho_ledger := remove e_id i (ho_ledger h)\<rparr>))"

definition orphan_door :: "string \<Rightarrow> string option \<Rightarrow> string option \<Rightarrow> nat option \<Rightarrow> int \<Rightarrow> host \<Rightarrow> bool \<times> host" where
  "orphan_door i name venue ticket t h =
     (case lookup e_id i (ho_ledger h) of None \<Rightarrow> (False, h)
      | Some e \<Rightarrow> if e_orphan e \<noteq> None \<or> e_ticket e \<noteq> ticket then (False, h)
                  else (True, h\<lparr>ho_ledger := put e_id
                          (e\<lparr>e_orphan := Some \<lparr>or_name = name, or_venue = venue, or_since = t\<rparr>, e_stamp := ho_stamp h\<rparr>) (ho_ledger h),
                        ho_stamp := Suc (ho_stamp h)\<rparr>))"

section \<open>The tick\<close>

datatype job_read = No_answer | State string

definition current_waiter :: "waiter \<Rightarrow> host \<Rightarrow> bool" where
  "current_waiter w h \<longleftrightarrow>
     (case lookup wt_id (wt_id w) (ho_waiters h) of Some v \<Rightarrow> wt_stamp v = wt_stamp w | None \<Rightarrow> False)"

text \<open>One waiter of \<open>verify\<close>: \<open>w\<close> as the tick that began at \<open>t\<close> read it, judged when its answer arrives at \<open>clock\<close>.\<close>

definition verify_one :: "waiter \<Rightarrow> job_read \<Rightarrow> int \<Rightarrow> int \<Rightarrow> host \<Rightarrow> host" where
  "verify_one w read t clock h =
     (if t - max (wt_last w) (wt_checked w) < hold_verify_after_ms then h
      else case (if wt_reader w then read else No_answer) of
        No_answer \<Rightarrow>
          if clock - wt_last w \<ge> hold_drop_on_error_ms \<and> current_waiter w h
          then h\<lparr>ho_waiters := remove wt_id (wt_id w) (ho_waiters h)\<rparr> else h
      | State st \<Rightarrow>
          if \<not> current_waiter w h then h
          else if st = ''completed'' \<or> st = ''failed'' \<or> st = ''unknown'' \<or> (st = ''active'' \<and> ho_handling h (wt_id w) = 0)
          then h\<lparr>ho_waiters := remove wt_id (wt_id w) (ho_waiters h)\<rparr>
          else h\<lparr>ho_waiters := put wt_id (w\<lparr>wt_checked := t, wt_stamp := ho_stamp h\<rparr>) (ho_waiters h),
                 ho_stamp := Suc (ho_stamp h)\<rparr>)"

text \<open>Whether \<open>sweep\<close> asks the runtime about an entry, and what its answer does.\<close>

definition sweep_asks :: "entry \<Rightarrow> host \<Rightarrow> bool" where
  "sweep_asks e h =
     (case e_orphan e of None \<Rightarrow> False
      | Some x \<Rightarrow> \<not> (or_name x \<noteq> None \<and> (\<exists>f \<in> set (ho_ledger h). e_orphan f = None \<and> e_name f = or_name x)))"

definition sweep_one :: "entry \<Rightarrow> bool option \<Rightarrow> host \<Rightarrow> host" where
  "sweep_one e gone h =
     (if gone = Some True \<and> (case lookup e_id (e_id e) (ho_ledger h) of Some f \<Rightarrow> e_stamp f = e_stamp e | None \<Rightarrow> False)
      then h\<lparr>ho_ledger := remove e_id (e_id e) (ho_ledger h)\<rparr> else h)"

record survivor =
  sv_name :: "string option"
  sv_venue :: "string option"
  sv_mem :: "int option"
  sv_cpu :: "int option"

definition survivor_entry :: "survivor \<Rightarrow> string \<Rightarrow> size \<Rightarrow> int \<Rightarrow> host \<Rightarrow> entry" where
  "survivor_entry c name guess t h =
     (let labelled = (case (sv_mem c, sv_cpu c) of
            (Some m, Some k) \<Rightarrow> is_safe m \<and> 0 < m \<and> is_safe k \<and> 0 < k | _ \<Rightarrow> False)
      in \<lparr>e_id = ''container:'' @ name, e_project = None,
          e_size = (if labelled then \<lparr>mem_mib = the (sv_mem c), cpu_centi = the (sv_cpu c)\<rparr>
                    else pessimistic_size [] guess (ho_budget h)),
          e_at = t, e_ticket = None, e_name = Some name,
          e_orphan = Some \<lparr>or_name = Some name, or_venue = sv_venue c, or_since = t\<rparr>,
          e_guess = (if labelled then None else Some guess), e_stamp = ho_stamp h\<rparr>)"

fun seed_entries :: "size \<Rightarrow> int \<Rightarrow> survivor list \<Rightarrow> host \<Rightarrow> host" where
  "seed_entries guess t [] h = h"
| "seed_entries guess t (c # cs) h =
     seed_entries guess t cs
       (case sv_name c of None \<Rightarrow> h
        | Some n \<Rightarrow> if n = [] then h
            else h\<lparr>ho_ledger := put e_id (survivor_entry c n guess t h) (ho_ledger h), ho_stamp := Suc (ho_stamp h)\<rparr>)"

text \<open>One venue's boot listing; \<open>None\<close> is a listing that threw or was no array.\<close>

definition seed_venue :: "string \<Rightarrow> survivor list option \<Rightarrow> limit_row list \<Rightarrow> size \<Rightarrow> int \<Rightarrow> host \<Rightarrow> host" where
  "seed_venue venue listed limits job_default t h =
     (case listed of None \<Rightarrow> h
      | Some cs \<Rightarrow>
          (let h1 = seed_entries (pessimistic_size limits job_default \<lparr>hb_mem = Unknown, hb_cpu = Unknown\<rparr>) t cs h
           in h1\<lparr>ho_unseeded := filter (\<lambda>v. v \<noteq> venue) (ho_unseeded h1)\<rparr>))"

definition refresh :: "budget_settings \<Rightarrow> facts \<Rightarrow> size \<Rightarrow> host \<Rightarrow> host" where
  "refresh st f job_default h =
     (let b = fst (compute_host_budget st f job_default)
      in h\<lparr>ho_budget := b,
           ho_ledger := map (\<lambda>e. case e_guess e of None \<Rightarrow> e | Some g \<Rightarrow> e\<lparr>e_size := pessimistic_size [] g b\<rparr>) (ho_ledger h)\<rparr>)"

record snapshot =
  sn_budget :: host_budget
  sn_used :: "int \<times> int"
  sn_held :: "int \<times> int"
  sn_running :: nat
  sn_orphans :: nat
  sn_holds :: nat
  sn_waiters :: nat
  sn_seeded :: bool
  sn_unseeded :: "string list"

definition holds_now :: "limit_row list \<Rightarrow> host \<Rightarrow> cand list" where
  "holds_now limits h = rank_holds (min_jobs_of limits) (map cand.truncate (ho_waiters h)) (ho_ledger h)"

definition snapshot_of :: "limit_row list \<Rightarrow> host \<Rightarrow> snapshot" where
  "snapshot_of limits h =
     (let holds = holds_now limits h
      in \<lparr>sn_budget = ho_budget h, sn_used = sum_of (map e_size (ho_ledger h)), sn_held = sum_of (map wt_size holds),
          sn_running = length (ho_ledger h), sn_orphans = length (filter (\<lambda>e. e_orphan e \<noteq> None) (ho_ledger h)),
          sn_holds = length holds, sn_waiters = length (ho_waiters h), sn_seeded = (ho_unseeded h = []),
          sn_unseeded = sort (ho_unseeded h)\<rparr>)"

section \<open>Sequences of operations\<close>

datatype host_op =
    Enter string
  | Leave string
  | Gate pickup "limit_row list" "int option" int
  | Suspend string int
  | Forget string
  | Release string "nat option"
  | Orphan string "string option" "string option" "nat option" int
  | Verify waiter job_read int int
  | Sweep entry "bool option"
  | Seed string "survivor list option" "limit_row list" size int
  | Refresh budget_settings facts size

fun host_do :: "host_op \<Rightarrow> host \<Rightarrow> host" where
  "host_do (Enter i) h = snd (enter i h)"
| "host_do (Leave i) h = leave i h"
| "host_do (Gate p limits count t) h = snd (gate p limits count t h)"
| "host_do (Suspend i t) h = suspend i t h"
| "host_do (Forget i) h = forget i h"
| "host_do (Release i k) h = snd (release i k h)"
| "host_do (Orphan i n v k t) h = snd (orphan_door i n v k t h)"
| "host_do (Verify w r t c) h = verify_one w r t c h"
| "host_do (Sweep e g) h = sweep_one e g h"
| "host_do (Seed v cs limits jd t) h = seed_venue v cs limits jd t h"
| "host_do (Refresh st f jd) h = refresh st f jd h"

section \<open>Maps as lists\<close>

lemma lookup_Some: "lookup key i xs = Some x \<Longrightarrow> x \<in> set xs \<and> key x = i"
  by (auto simp: lookup_def find_Some_iff)

lemma lookup_None: "lookup key i xs = None \<longleftrightarrow> i \<notin> key ` set xs"
  by (auto simp: lookup_def find_None_iff)

lemma set_remove [simp]: "set (remove key i xs) = {x \<in> set xs. key x \<noteq> i}"
  by (auto simp: remove_def)

lemma set_put: "set (put key x xs) = insert x {y \<in> set xs. key y \<noteq> key x}"
proof (cases "key x \<in> key ` set xs")
  case True
  then show ?thesis by (auto simp: put_def)
next
  case False
  then have "\<forall>y \<in> set xs. key y \<noteq> key x" by (metis imageI)
  then have "{y \<in> set xs. key y \<noteq> key x} = set xs" by blast
  with False show ?thesis by (simp add: put_def)
qed

lemma put_new: "key x \<notin> key ` set xs \<Longrightarrow> put key x xs = xs @ [x]"
  by (simp add: put_def)

lemma put_keys: "map key (put key x xs) = (if key x \<in> key ` set xs then map key xs else map key xs @ [key x])"
  by (auto simp: put_def)

lemma remove_keys: "map key (remove key i xs) = filter (\<lambda>k. k \<noteq> i) (map key xs)"
  by (simp add: remove_def filter_map o_def)

lemma lookup_put: "lookup key i (put key x xs) = (if i = key x then Some x else lookup key i xs)"
proof (cases "key x \<in> key ` set xs")
  case False
  then show ?thesis
    by (induction xs) (auto simp: put_def lookup_def)
next
  case True
  have "List.find (\<lambda>y. key y = i) (map (\<lambda>y. if key y = key x then x else y) xs) =
      (if i = key x then (if key x \<in> key ` set xs then Some x else None) else List.find (\<lambda>y. key y = i) xs)"
    by (induction xs) auto
  with True show ?thesis by (simp add: put_def lookup_def)
qed

lemma lookup_remove: "lookup key i (remove key j xs) = (if i = j then None else lookup key i xs)"
  by (induction xs) (auto simp: lookup_def remove_def)

lemma sum_of_append [simp]: "sum_of (xs @ ys) = (fst (sum_of xs) + fst (sum_of ys), snd (sum_of xs) + snd (sum_of ys))"
  by (simp add: sum_of_def)

lemma sum_of_Cons [simp]: "sum_of (x # xs) = (mem_mib x + fst (sum_of xs), cpu_centi x + snd (sum_of xs))"
  by (simp add: sum_of_def)

lemma sum_of_Nil [simp]: "sum_of [] = (0, 0)"
  by (simp add: sum_of_def)

definition size_pos :: "size \<Rightarrow> bool" where
  "size_pos s \<longleftrightarrow> 0 \<le> mem_mib s \<and> 0 \<le> cpu_centi s"

lemma sum_of_pos: "list_all size_pos ss \<Longrightarrow> 0 \<le> fst (sum_of ss) \<and> 0 \<le> snd (sum_of ss)"
  by (induction ss) (auto simp: size_pos_def)

lemma sum_of_remove:
  "list_all size_pos (map e_size xs) \<Longrightarrow>
     fst (sum_of (map e_size (remove key i xs))) \<le> fst (sum_of (map e_size xs)) \<and>
     snd (sum_of (map e_size (remove key i xs))) \<le> snd (sum_of (map e_size xs))"
  by (induction xs) (auto simp: remove_def size_pos_def)

lemma fits_unbounded [simp]: "fits x Unknown" "fits x Unlimited"
  by (simp_all add: fits_def)

lemma fits_mono: "fits y b \<Longrightarrow> x \<le> y \<Longrightarrow> fits x b"
  by (auto simp: fits_def split: amount.splits)

section \<open>The order of the holds\<close>

abbreviation age :: "cand \<Rightarrow> int \<times> string" where
  "age w \<equiv> (wt_first w, wt_id w)"

lemma set_by_age [simp]: "set (by_age ws) = set ws"
  by (simp add: by_age_def)

lemma sorted_by_age: "sorted (map age (by_age ws))"
  by (simp add: by_age_def)

lemma distinct_by_age: "distinct (map wt_id ws) \<Longrightarrow> distinct (map wt_id (by_age ws))"
  by (simp add: distinct_map by_age_def)

definition wants :: "(string option \<Rightarrow> int) \<Rightarrow> entry list \<Rightarrow> cand \<Rightarrow> bool" where
  "wants min_of ledger w \<longleftrightarrow> has_project (wt_project w) \<and> 0 < min_of (wt_project w) \<and>
     running_of ledger (wt_project w) < min_of (wt_project w)"

lemma tier1_set:
  assumes "sorted (map age ws)" "distinct (map wt_id ws)"
  shows "set (tier1 min_of ledger seen ws) =
    {w \<in> set ws. wt_project w \<notin> set seen \<and> wants min_of ledger w \<and> (\<forall>v \<in> set ws. wt_project v = wt_project w \<longrightarrow> age w \<le> age v)}"
  using assms
proof (induction ws arbitrary: seen)
  case (Cons w ws)
  have le: "\<And>v. v \<in> set ws \<Longrightarrow> age w \<le> age v" using Cons.prems(1) by auto
  have lt: "\<not> age v \<le> age w" if "v \<in> set ws" for v
  proof -
    have "wt_id w \<notin> wt_id ` set ws" using Cons.prems(2) by simp
    then have "wt_id v \<noteq> wt_id w" using that by (metis imageI)
    then have "age v \<noteq> age w" by simp
    with le [OF that] show ?thesis by (meson antisym)
  qed
  have IH: "set (tier1 min_of ledger s ws) =
    {w \<in> set ws. wt_project w \<notin> set s \<and> wants min_of ledger w \<and> (\<forall>v \<in> set ws. wt_project v = wt_project w \<longrightarrow> age w \<le> age v)}" for s
    using Cons by simp
  show ?case
  proof (cases "\<not> has_project (wt_project w) \<or> wt_project w \<in> set seen")
    case True
    then have t: "tier1 min_of ledger seen (w # ws) = tier1 min_of ledger seen ws" by simp
    have no: "wt_project v \<noteq> wt_project w" if "wt_project v \<notin> set seen" "wants min_of ledger v" for v
      using True that by (auto simp: wants_def)
    show ?thesis unfolding t IH using no [THEN not_sym] by (auto simp del: less_eq_prod_simp)
  next
    case False
    then have t: "tier1 min_of ledger seen (w # ws) =
        (if wants min_of ledger w then [w] else []) @ tier1 min_of ledger (wt_project w # seen) ws"
      by (auto simp: wants_def)
    show ?thesis unfolding t set_append IH using le lt False by (auto simp del: less_eq_prod_simp)
  qed
qed simp

lemma tier1_subset: "set (tier1 min_of ledger seen ws) \<subseteq> set ws"
  by (induction ws arbitrary: seen) auto

lemma distinct_tier1: "distinct (map wt_id ws) \<Longrightarrow> distinct (map wt_id (tier1 min_of ledger seen ws))"
proof (induction ws arbitrary: seen)
  case (Cons w ws)
  have "wt_id w \<notin> wt_id ` set (tier1 min_of ledger s ws)" for s
    using Cons.prems tier1_subset [of min_of ledger s ws] by auto
  with Cons show ?case by auto
qed simp

lemma sorted_tier1: "sorted (map age ws) \<Longrightarrow> sorted (map age (tier1 min_of ledger seen ws))"
proof (induction ws arbitrary: seen)
  case (Cons w ws)
  have "\<forall>v \<in> set (tier1 min_of ledger s ws). age w \<le> age v" for s
    using Cons.prems tier1_subset [of min_of ledger s ws] by auto
  with Cons show ?case by (auto simp del: less_eq_prod_simp)
qed simp

text \<open>
  Who keeps room, exactly: with no id twice, the holds are the oldest unsuspended waiter of
  each project that runs fewer jobs than its minimum, and the oldest unsuspended waiter of all;
  each once, the projects' oldest first.
\<close>

theorem holds_exact:
  assumes "distinct (map wt_id ws)"
  shows "(let U = {w \<in> set ws. \<not> wt_suspended w}; holds = rank_holds min_of ws ledger
    in distinct (map wt_id holds)
     \<and> set holds = {w \<in> U. (\<forall>v \<in> U. age w \<le> age v) \<or>
          (wants min_of ledger w \<and> (\<forall>v \<in> U. wt_project v = wt_project w \<longrightarrow> age w \<le> age v))}
     \<and> (\<exists>t1 t2. holds = t1 @ t2 \<and> sorted (map age t1) \<and> (\<forall>w \<in> set t1. wants min_of ledger w) \<and> length t2 \<le> 1))"
proof -
  define A where "A = by_age (filter (\<lambda>w. \<not> wt_suspended w) ws)"
  have d: "distinct (map wt_id A)" unfolding A_def by (intro distinct_by_age) (simp add: assms distinct_map_filter)
  have s: "sorted (map age A)" by (simp add: A_def sorted_by_age)
  have U: "set A = {w \<in> set ws. \<not> wt_suspended w}" by (simp add: A_def)
  define T where "T = tier1 min_of ledger [] A"
  have T: "set T = {w \<in> set A. wants min_of ledger w \<and> (\<forall>v \<in> set A. wt_project v = wt_project w \<longrightarrow> age w \<le> age v)}"
    unfolding T_def using tier1_set [OF s d, of min_of ledger "[]"] by simp
  have dT: "distinct (map wt_id T)" "sorted (map age T)"
    unfolding T_def by (simp_all add: distinct_tier1 [OF d] sorted_tier1 [OF s])
  have r: "rank_holds min_of ws ledger = (case A of [] \<Rightarrow> T | x # _ \<Rightarrow> if x \<in> set T then T else T @ [x])"
    unfolding rank_holds_def Let_def T_def A_def by (rule refl)
  show ?thesis
  proof (cases A)
    case Nil
    then have "T = []" using T by simp
    with Nil r U [symmetric] show ?thesis by (auto simp: Let_def)
  next
    case (Cons x xs)
    have xA: "x \<in> set A" using Cons by simp
    have inj: "inj_on wt_id (set A)" using d by (simp add: distinct_map)
    have first: "w \<in> set A \<and> (\<forall>v \<in> set A. age w \<le> age v) \<longleftrightarrow> w = x" for w
    proof
      assume w: "w \<in> set A \<and> (\<forall>v \<in> set A. age w \<le> age v)"
      then have "age w \<le> age x" using Cons by simp
      moreover have "age x \<le> age w" using w s Cons by auto
      ultimately have "age w = age x" by (rule antisym)
      then have "wt_id w = wt_id x" by simp
      with w xA show "w = x" using inj by (auto dest: inj_onD)
    next
      assume "w = x"
      then show "w \<in> set A \<and> (\<forall>v \<in> set A. age w \<le> age v)" using s Cons by (auto simp del: less_eq_prod_simp)
    qed
    have "set (rank_holds min_of ws ledger) = insert x (set T)"
      unfolding r using Cons by (cases "x \<in> set T") auto
    also have "\<dots> = {w \<in> set A. (\<forall>v \<in> set A. age w \<le> age v) \<or>
          (wants min_of ledger w \<and> (\<forall>v \<in> set A. wt_project v = wt_project w \<longrightarrow> age w \<le> age v))}"
      using T first xA by blast
    finally have S: "set (rank_holds min_of ws ledger) = \<dots>" .
    have di: "wt_id x \<notin> wt_id ` set T" if "x \<notin> set T"
    proof
      assume "wt_id x \<in> wt_id ` set T"
      then obtain y where "y \<in> set T" "wt_id x = wt_id y" by blast
      moreover from this have "y \<in> set A" using T by blast
      ultimately show False using that inj_onD [OF inj _ xA] by auto
    qed
    have "distinct (map wt_id (rank_holds min_of ws ledger))"
      unfolding r using Cons dT(1) di by (cases "x \<in> set T") simp_all
    moreover have "\<exists>t1 t2. rank_holds min_of ws ledger = t1 @ t2 \<and> sorted (map age t1) \<and>
        (\<forall>w \<in> set t1. wants min_of ledger w) \<and> length t2 \<le> 1"
      unfolding r using Cons dT(2) T
      by (intro exI [of _ T] exI [of _ "if x \<in> set T then [] else [x]"]) (simp del: less_eq_prod_simp)
    ultimately show ?thesis using S unfolding U Let_def by blast
  qed
qed

theorem holds_exact_witness:
  "wt_id ` set (rank_holds (\<lambda>_. 0)
     [\<lparr>wt_id = ''j'', wt_project = None, wt_size = \<lparr>mem_mib = 1, cpu_centi = 1\<rparr>, wt_first = 0, wt_suspended = False\<rparr>] []) = {''j''}"
proof -
  let ?w = "\<lparr>wt_id = ''j'', wt_project = None, wt_size = \<lparr>mem_mib = 1, cpu_centi = 1\<rparr>, wt_first = 0, wt_suspended = False\<rparr>"
  have "set (rank_holds (\<lambda>_. 0) [?w] []) = {w \<in> {w \<in> set [?w]. \<not> wt_suspended w}. (\<forall>v \<in> {w \<in> set [?w]. \<not> wt_suspended w}. age w \<le> age v) \<or>
          (wants (\<lambda>_. 0) [] w \<and> (\<forall>v \<in> {w \<in> set [?w]. \<not> wt_suspended w}. wt_project v = wt_project w \<longrightarrow> age w \<le> age v))}"
    using holds_exact [of "[?w]" "\<lambda>_. 0" "[]"] unfolding Let_def by simp
  also have "\<dots> = {?w}" by (auto simp del: less_eq_prod_simp)
  finally show ?thesis by simp
qed

section \<open>The gate\<close>

definition sums_fit :: "host_budget \<Rightarrow> size list \<Rightarrow> bool" where
  "sums_fit b ss \<longleftrightarrow> fits (fst (sum_of ss)) (hb_mem b) \<and> fits (snd (sum_of ss)) (hb_cpu b)"

definition count_amount :: "int option \<Rightarrow> amount" where
  "count_amount count = (case count of Some n \<Rightarrow> if is_safe n then At n else Unknown | None \<Rightarrow> Unknown)"

lemma admit_None:
  "admit b count ledger holds ask share_of = None \<longleftrightarrow>
     (let share = (if has_project (wt_project ask) then share_of (wt_project ask) else None);
          mine = sum_of (map e_size (filter (\<lambda>e. e_project e = wt_project ask) ledger));
          counted = map e_size ledger @ [wt_size ask] @ map wt_size (ids_before (wt_id ask) holds)
      in within_share (fst mine + mem_mib (wt_size ask)) (hb_mem b) share \<and>
         within_share (snd mine + cpu_centi (wt_size ask)) (hb_cpu b) share \<and>
         sums_fit b counted \<and> fits (int (length counted)) (count_amount count))"
  by (cases "share_of (wt_project ask)") (auto simp: admit_def Let_def sums_fit_def count_amount_def within_share_def)

lemma gate_cases:
  assumes "gate p limits count t h = (r, h')"
  obtains (stopped) "h' = h" "r = Deferred Unseeded (- 1) \<or> r = Deferred Running_here (- 1)"
  | (admitted) "r = Admitted_here" "\<not> blocked_by_seed h (pk_venue p)" "lookup e_id (pk_id p) (ho_ledger h) = None"
      "admit (ho_budget h) count (ho_ledger h) (gate_holds p limits t h) (ask_of p h t) (host_share_of limits) = None"
      "h' = h\<lparr>ho_waiters := remove wt_id (pk_id p) (ho_waiters h),
              ho_ledger := put e_id \<lparr>e_id = pk_id p, e_project = pk_project p, e_size = pk_size p, e_at = t,
                 e_ticket = pk_ticket p, e_name = pk_name p, e_orphan = None, e_guess = None,
                 e_stamp = ho_stamp h\<rparr> (ho_ledger h), ho_stamp := Suc (ho_stamp h)\<rparr>"
  | (deferred) w where "r = Deferred w (rank_of (pk_id p) (gate_holds p limits t h))"
      "lookup e_id (pk_id p) (ho_ledger h) = None"
      "admit (ho_budget h) count (ho_ledger h) (gate_holds p limits t h) (ask_of p h t) (host_share_of limits) = Some w"
      "h' = h\<lparr>ho_waiters := put wt_id \<lparr>wt_id = pk_id p, wt_project = pk_project p, wt_size = pk_size p,
               wt_first = wt_first (ask_of p h t), wt_suspended = (w = Share), wt_last = t, wt_checked = t,
               wt_reader = (pk_reader p \<or> (case lookup wt_id (pk_id p) (ho_waiters h) of Some x \<Rightarrow> wt_reader x | None \<Rightarrow> False)),
               wt_stamp = ho_stamp h\<rparr> (ho_waiters h), ho_stamp := Suc (ho_stamp h)\<rparr>"
proof (cases "blocked_by_seed h (pk_venue p) \<or> lookup e_id (pk_id p) (ho_ledger h) \<noteq> None \<or> name_taken p h")
  case True
  with assms have "h' = h" "r = Deferred Unseeded (- 1) \<or> r = Deferred Running_here (- 1)"
    by (auto simp: gate_def split: if_splits)
  then show ?thesis by (rule stopped)
next
  case False
  show ?thesis
  proof (cases "admit (ho_budget h) count (ho_ledger h) (gate_holds p limits t h) (ask_of p h t) (host_share_of limits)")
    case None
    with False assms show ?thesis by (intro admitted) (simp_all add: gate_def Let_def)
  next
    case (Some w)
    with False assms show ?thesis by (intro deferred [of w]) (simp_all add: gate_def Let_def)
  qed
qed

text \<open>
  C7: The admission promise: a job that is let start was not held here before; with it, and with
  the room of every hold ranked above it, the host stays within its memory, its CPU and its job
  count, and the job's project stays within its share of both.
\<close>

theorem gate_keeps_promises:
  assumes "gate p limits count t h = (Admitted_here, h')"
  shows "pk_id p \<notin> e_id ` set (ho_ledger h)
    \<and> (\<exists>e. ho_ledger h' = ho_ledger h @ [e] \<and> e_id e = pk_id p \<and> e_size e = pk_size p \<and> e_ticket e = pk_ticket p \<and> e_orphan e = None)
    \<and> pk_id p \<notin> wt_id ` set (ho_waiters h')
    \<and> (let all = map e_size (ho_ledger h') @ map wt_size (ids_before (pk_id p) (gate_holds p limits t h))
       in sums_fit (ho_budget h) all \<and> fits (int (length all)) (count_amount count))
    \<and> (let mine = sum_of (map e_size (filter (\<lambda>e. e_project e = pk_project p) (ho_ledger h')));
           share = (if has_project (pk_project p) then host_share_of limits (pk_project p) else None)
       in within_share (fst mine) (hb_mem (ho_budget h)) share \<and> within_share (snd mine) (hb_cpu (ho_budget h)) share)"
  using assms
proof (cases rule: gate_cases)
  case admitted
  define e where "e = \<lparr>e_id = pk_id p, e_project = pk_project p, e_size = pk_size p, e_at = t,
                 e_ticket = pk_ticket p, e_name = pk_name p, e_orphan = None, e_guess = None, e_stamp = ho_stamp h\<rparr>"
  have n: "pk_id p \<notin> e_id ` set (ho_ledger h)" using admitted(3) by (simp add: lookup_None)
  then have l: "ho_ledger h' = ho_ledger h @ [e]" using admitted(5) by (simp add: put_new e_def)
  have a: "wt_project (ask_of p h t) = pk_project p" "wt_size (ask_of p h t) = pk_size p" "wt_id (ask_of p h t) = pk_id p"
    by (simp_all add: ask_of_def)
  have w: "pk_id p \<notin> wt_id ` set (ho_waiters h')" using admitted(5) by auto
  have ee: "e_id e = pk_id p" "e_size e = pk_size p" "e_ticket e = pk_ticket p" "e_orphan e = None" "e_project e = pk_project p"
    by (simp_all add: e_def)
  show ?thesis
    using admitted(4) [unfolded admit_None Let_def a] n w ee unfolding l Let_def
    by (intro conjI exI [of _ e]) simp_all
qed auto

abbreviation empty_host :: host where
  "empty_host \<equiv> \<lparr>ho_budget = \<lparr>hb_mem = At 8192, hb_cpu = At 400\<rparr>, ho_ledger = [], ho_waiters = [], ho_handling = (\<lambda>_. 0),
     ho_tickets = 0, ho_unseeded = [], ho_default_venue = None, ho_stamp = 0\<rparr>"

abbreviation a_pickup :: pickup where
  "a_pickup \<equiv> \<lparr>pk_id = ''j'', pk_ticket = Some 1, pk_project = None, pk_size = \<lparr>mem_mib = 4096, cpu_centi = 200\<rparr>, pk_venue = None,
     pk_name = None, pk_reader = False\<rparr>"

lemma gate_empty: "\<exists>h'. gate a_pickup [] (Some 3) 0 empty_host = (Admitted_here, h') \<and> ho_budget h' = ho_budget empty_host"
  by (simp add: gate_def blocked_by_seed_def name_taken_def lookup_def admit_def ask_of_def gate_holds_def rank_holds_def put_def has_project_def
      fits_def ids_before_def is_safe_def max_safe_def Let_def by_age_def)

theorem gate_keeps_promises_witness:
  "\<exists>h'. gate a_pickup [] (Some 3) 0 empty_host = (Admitted_here, h') \<and> sums_fit (ho_budget h') (map e_size (ho_ledger h'))"
proof -
  obtain h' where g: "gate a_pickup [] (Some 3) 0 empty_host = (Admitted_here, h')" and b: "ho_budget h' = ho_budget empty_host"
    using gate_empty by blast
  obtain e where "ho_ledger h' = [e]" "e_size e = \<lparr>mem_mib = 4096, cpu_centi = 200\<rparr>"
    using gate_keeps_promises [OF g] by auto
  with g b show ?thesis by (auto simp: sums_fit_def fits_def)
qed

text \<open>
  A refusal takes nothing: the ledger is unchanged; an unread boot listing or a job that
  already runs here changes nothing at all; any other refusal makes the job a waiter that keeps
  the age it had, holds no room exactly when its own share stopped it, and leaves the other waiters
  as they were.
\<close>

theorem gate_refusal_harmless:
  assumes "gate p limits count t h = (Deferred w r, h')"
  shows "ho_ledger h' = ho_ledger h \<and> ho_budget h' = ho_budget h
    \<and> (if w = Unseeded \<or> w = Running_here then h' = h
       else (\<forall>i. lookup wt_id i (ho_waiters h') =
           (if i = pk_id p then lookup wt_id i (ho_waiters h') else lookup wt_id i (ho_waiters h)))
         \<and> (\<exists>v. lookup wt_id (pk_id p) (ho_waiters h') = Some v \<and> wt_size v = pk_size p \<and> wt_suspended v = (w = Share)
             \<and> wt_first v = (case lookup wt_id (pk_id p) (ho_waiters h) of Some x \<Rightarrow> wt_first x | None \<Rightarrow> t)))"
  using assms
proof (cases rule: gate_cases)
  case (deferred w')
  then have "w' = w" "w \<noteq> Unseeded" "w \<noteq> Running_here"
    by (auto simp: admit_def Let_def split: if_splits)
  with deferred(4) show ?thesis by (auto simp: lookup_put ask_of_def split: option.splits)
qed auto

theorem gate_refusal_harmless_witness:
  "\<exists>w r h'. gate a_pickup [] (Some 0) 0 empty_host = (Deferred w r, h') \<and> ho_ledger h' = []"
proof -
  obtain w r h' where g: "gate a_pickup [] (Some 0) 0 empty_host = (Deferred w r, h')"
    by (simp add: gate_def blocked_by_seed_def name_taken_def lookup_def admit_def ask_of_def gate_holds_def rank_holds_def put_def has_project_def
        fits_def ids_before_def is_safe_def max_safe_def Let_def by_age_def)
  from gate_refusal_harmless [OF g] g show ?thesis by auto
qed

text \<open>
  A size never fits exactly when it could not start on an empty host: \<open>neverFits\<close> answers null
  iff the admission rule lets the job start with nothing running, nothing held and a free job slot.
\<close>

theorem never_fits_exact:
  "never_fits (wt_size ask) b (if has_project (wt_project ask) then share_of (wt_project ask) else None) = None
     \<longleftrightarrow> admit b None [] [] ask share_of = None"
  by (simp add: never_fits_def admit_None Let_def sums_fit_def ids_before_def count_amount_def)

section \<open>Giving back\<close>

definition keyed :: "host \<Rightarrow> bool" where
  "keyed h \<longleftrightarrow> distinct (map e_id (ho_ledger h)) \<and> distinct (map wt_id (ho_waiters h))"

lemma distinct_put: "distinct (map key xs) \<Longrightarrow> distinct (map key (put key x xs))"
  by (simp add: put_keys)

lemma distinct_remove: "distinct (map key xs) \<Longrightarrow> distinct (map key (remove key i xs))"
  by (simp add: remove_keys)

lemma keyed_seed: "keyed h \<Longrightarrow> keyed (seed_entries guess t cs h)"
proof (induction cs arbitrary: h)
  case (Cons c cs)
  have "keyed (case sv_name c of None \<Rightarrow> h
        | Some n \<Rightarrow> if n = [] then h
            else h\<lparr>ho_ledger := put e_id (survivor_entry c n guess t h) (ho_ledger h), ho_stamp := Suc (ho_stamp h)\<rparr>)"
    using Cons.prems by (auto simp: keyed_def distinct_put split: option.splits)
  with Cons.IH show ?case by simp
qed simp

lemma keyed_gate:
  assumes "keyed h"
  shows "keyed (snd (gate p limits count t h))"
proof -
  obtain r h' where g: "gate p limits count t h = (r, h')" by fastforce
  then have "keyed h'"
    by (cases rule: gate_cases) (use assms in \<open>auto simp: keyed_def distinct_put distinct_remove\<close>)
  with g show ?thesis by simp
qed

lemma ledger_same [simp]:
  "ho_ledger (snd (enter i h)) = ho_ledger h" "ho_ledger (leave i h) = ho_ledger h" "ho_ledger (suspend i t h) = ho_ledger h"
  "ho_ledger (forget i h) = ho_ledger h" "ho_ledger (verify_one w r t c h) = ho_ledger h"
  by (simp_all add: enter_def leave_def suspend_def forget_def verify_one_def split: option.split job_read.split)

lemma keyed_step: "keyed h \<Longrightarrow> keyed (host_do op h)"
proof (cases op)
  case (Refresh st f jd)
  assume "keyed h"
  have "map e_id (ho_ledger (refresh st f jd h)) = map e_id (ho_ledger h)"
    by (simp add: refresh_def Let_def split: option.splits)
  with \<open>keyed h\<close> Refresh show ?thesis by (simp add: keyed_def) (simp add: refresh_def Let_def)
next
  case (Seed v cs limits jd t)
  assume "keyed h"
  with Seed show ?thesis using keyed_seed [OF \<open>keyed h\<close>] by (auto simp: seed_venue_def Let_def keyed_def split: option.splits)
next
  case (Gate p limits count t)
  assume "keyed h"
  with Gate show ?thesis by (simp add: keyed_gate)
qed (auto simp: keyed_def distinct_put distinct_remove enter_def leave_def suspend_def forget_def release_def
    orphan_door_def verify_one_def sweep_one_def Let_def split: option.splits job_read.splits)

text \<open>
  A hold is given back once and by its own pickup: \<open>release\<close> succeeds exactly for a running
  entry taken under that ticket, removes that entry and no other, and a second call, another
  ticket or an orphan changes nothing.
\<close>

theorem release_exact:
  assumes "keyed h" "release i k h = (ok, h')"
  shows "(ok \<longleftrightarrow> (\<exists>e \<in> set (ho_ledger h). e_id e = i \<and> e_orphan e = None \<and> e_ticket e = k))
    \<and> h' = (if ok then h\<lparr>ho_ledger := remove e_id i (ho_ledger h)\<rparr> else h)
    \<and> release i k h' = (False, h')"
proof (cases "lookup e_id i (ho_ledger h)")
  case None
  then have n: "\<forall>e \<in> set (ho_ledger h). e_id e \<noteq> i" by (auto simp: lookup_None)
  have "release i k h = (False, h)" using None by (simp add: release_def)
  with assms(2) n show ?thesis by auto
next
  case (Some e)
  have e: "e \<in> set (ho_ledger h)" "e_id e = i" using lookup_Some [OF Some] by auto
  have u: "f = e" if "f \<in> set (ho_ledger h)" "e_id f = i" for f
    using that e assms(1) by (auto simp: keyed_def distinct_map dest: inj_onD)
  show ?thesis
  proof (cases "e_orphan e \<noteq> None \<or> e_ticket e \<noteq> k")
    case True
    then have "release i k h = (False, h)" using Some by (simp add: release_def)
    with assms(2) True u show ?thesis by auto
  next
    case False
    then have "release i k h = (True, h\<lparr>ho_ledger := remove e_id i (ho_ledger h)\<rparr>)" using Some by (auto simp: release_def)
    with assms(2) False e show ?thesis by (auto simp: release_def lookup_remove)
  qed
qed

theorem release_exact_witness:
  "\<exists>h'. release ''j'' (Some 1) (empty_host\<lparr>ho_ledger := [\<lparr>e_id = ''j'', e_project = None, e_size = \<lparr>mem_mib = 1, cpu_centi = 1\<rparr>, e_at = 0,
      e_ticket = Some 1, e_name = None, e_orphan = None, e_guess = None, e_stamp = 0\<rparr>]\<rparr>) = (True, h') \<and> ho_ledger h' = []"
proof -
  let ?h = "empty_host\<lparr>ho_ledger := [\<lparr>e_id = ''j'', e_project = None, e_size = \<lparr>mem_mib = 1, cpu_centi = 1\<rparr>, e_at = 0,
      e_ticket = Some 1, e_name = None, e_orphan = None, e_guess = None, e_stamp = 0\<rparr>]\<rparr>"
  have k: "keyed ?h" by (simp add: keyed_def)
  obtain ok h' where r: "release ''j'' (Some 1) ?h = (ok, h')" by fastforce
  from release_exact [OF k r] r show ?thesis by (auto simp: remove_def)
qed

lemma stays_gate: "e \<in> set (ho_ledger h) \<Longrightarrow> e \<in> set (ho_ledger (snd (gate p limits count t h)))"
proof -
  assume e: "e \<in> set (ho_ledger h)"
  obtain r h' where g: "gate p limits count t h = (r, h')" by fastforce
  then have "e \<in> set (ho_ledger h')"
  proof (cases rule: gate_cases)
    case admitted
    have "e_id e \<noteq> pk_id p" using admitted(3) imageI [OF e, of e_id] by (auto simp: lookup_None)
    with e show ?thesis unfolding admitted(5) by (simp add: set_put)
  qed (use e in auto)
  with g show ?thesis by simp
qed

lemma lookup_keyed:
  assumes "distinct (map key xs)" "e \<in> set xs"
  shows "lookup key (key e) xs = Some e"
proof (cases "lookup key (key e) xs")
  case None
  with assms(2) show ?thesis by (auto simp: lookup_None)
next
  case (Some f)
  from lookup_Some [OF Some] assms have "f = e" by (auto simp: distinct_map dest: inj_onD)
  with Some show ?thesis by simp
qed

lemma stays_release:
  assumes "keyed h" "e \<in> set (ho_ledger h)" "e_orphan e = Some x"
  shows "e \<in> set (ho_ledger (snd (release i k h)))" "e \<in> set (ho_ledger (snd (orphan_door i n v k t h)))"
proof -
  have l: "lookup e_id (e_id e) (ho_ledger h) = Some e" using assms(1,2) by (simp add: keyed_def lookup_keyed)
  have "e \<in> set (ho_ledger (snd (release i k h))) \<and> e \<in> set (ho_ledger (snd (orphan_door i n v k t h)))"
  proof (cases "i = e_id e")
    case True
    with l assms(2,3) show ?thesis by (simp add: release_def orphan_door_def)
  next
    case False
    show ?thesis
    proof (cases "lookup e_id i (ho_ledger h)")
      case (Some f)
      then have "e_id f = i" by (auto dest: lookup_Some)
      with Some False assms(2) show ?thesis by (simp add: release_def orphan_door_def set_put)
    qed (use assms(2) in \<open>simp add: release_def orphan_door_def\<close>)
  qed
  then show "e \<in> set (ho_ledger (snd (release i k h)))" "e \<in> set (ho_ledger (snd (orphan_door i n v k t h)))" by auto
qed

lemma stays_sweep:
  assumes "keyed h" "e \<in> set (ho_ledger h)" "g \<noteq> Some True \<or> e_id f \<noteq> e_id e \<or> e_stamp f \<noteq> e_stamp e"
  shows "e \<in> set (ho_ledger (sweep_one f g h))"
proof -
  have l: "lookup e_id (e_id e) (ho_ledger h) = Some e" using assms(1,2) by (simp add: keyed_def lookup_keyed)
  show ?thesis
  proof (cases "e_id f = e_id e")
    case True
    with l assms(2,3) show ?thesis by (auto simp: sweep_one_def)
  qed (use assms(2) in \<open>simp add: sweep_one_def\<close>)
qed

lemma stays_seed:
  "e \<in> set (ho_ledger h) \<Longrightarrow> \<forall>c \<in> set cs. \<forall>n. sv_name c = Some n \<longrightarrow> e_id e \<noteq> ''container:'' @ n \<Longrightarrow>
   e \<in> set (ho_ledger (seed_entries guess t cs h))"
proof (induction cs arbitrary: h)
  case (Cons c cs)
  have "e \<in> set (ho_ledger (case sv_name c of None \<Rightarrow> h
        | Some n \<Rightarrow> if n = [] then h
            else h\<lparr>ho_ledger := put e_id (survivor_entry c n guess t h) (ho_ledger h), ho_stamp := Suc (ho_stamp h)\<rparr>))"
    using Cons.prems by (simp add: set_put survivor_entry_def Let_def split: option.split)
  then show ?case unfolding seed_entries.simps by (rule Cons.IH) (use Cons.prems in simp)
qed simp

text \<open>
  A container that may still run keeps its room: an orphan's entry stays in the ledger, an
  orphan under the same id and name, through every operation but a sweep answered "gone" for that
  very entry (or a boot listing that lists the same container again), at the same size unless that
  size was a guess a refresh caps anew.
\<close>

theorem orphan_keeps_room:
  assumes "keyed h" "e \<in> set (ho_ledger h)" "e_orphan e = Some x"
    and "case op of Sweep f g \<Rightarrow> g \<noteq> Some True \<or> e_id f \<noteq> e_id e \<or> e_stamp f \<noteq> e_stamp e
         | Seed v cs limits jd t \<Rightarrow> \<forall>c \<in> set (case cs of None \<Rightarrow> [] | Some l \<Rightarrow> l). \<forall>n. sv_name c = Some n \<longrightarrow> e_id e \<noteq> ''container:'' @ n
         | _ \<Rightarrow> True"
  shows "\<exists>f \<in> set (ho_ledger (host_do op h)). e_id f = e_id e \<and> e_orphan f = Some x \<and> e_stamp f = e_stamp e
    \<and> (e_size f = e_size e \<or> (\<exists>st fa jd g. op = Refresh st fa jd \<and> e_guess e = Some g
         \<and> e_size f = pessimistic_size [] g (fst (compute_host_budget st fa jd))))"
proof -
  have stay: "?thesis" if "e \<in> set (ho_ledger (host_do op h))"
    using that assms(3) by blast
  show ?thesis
  proof (cases op)
    case (Gate p limits count t)
    then show ?thesis using stay stays_gate [OF assms(2)] by simp
  next
    case (Release i k)
    then show ?thesis using stay stays_release(1) [OF assms(1-3)] by simp
  next
    case (Orphan i n v k t)
    then show ?thesis using stay stays_release(2) [OF assms(1-3)] by simp
  next
    case (Sweep f g)
    then show ?thesis using stay stays_sweep [OF assms(1,2), of g f] assms(4) by simp
  next
    case (Seed v cs limits jd t)
    have "e \<in> set (ho_ledger (seed_venue v cs limits jd t h))"
      using stays_seed [OF assms(2)] assms(2,4) Seed by (simp add: seed_venue_def Let_def split: option.split)
    then show ?thesis using stay Seed by simp
  next
    case (Refresh st fa jd)
    let ?b = "fst (compute_host_budget st fa jd)"
    show ?thesis
    proof (cases "e_guess e")
      case None
      with assms(2) have "e \<in> set (ho_ledger (refresh st fa jd h))"
        by (auto simp: refresh_def Let_def intro!: image_eqI [of _ _ e])
      then show ?thesis using stay Refresh by simp
    next
      case (Some g)
      with assms(2) have "e\<lparr>e_size := pessimistic_size [] g ?b\<rparr> \<in> set (ho_ledger (refresh st fa jd h))"
        by (auto simp: refresh_def Let_def intro!: image_eqI [of _ _ e])
      with Refresh Some assms(3) show ?thesis by (intro bexI [of _ "e\<lparr>e_size := pessimistic_size [] g ?b\<rparr>"]) simp_all
    qed
  qed (use stay assms(2) in simp_all)
qed

theorem orphan_keeps_room_witness:
  "\<exists>f. ho_ledger (host_do (Release ''j'' (Some 1)) (empty_host\<lparr>ho_ledger := [\<lparr>e_id = ''j'', e_project = None,
      e_size = \<lparr>mem_mib = 1, cpu_centi = 1\<rparr>, e_at = 0, e_ticket = Some 1, e_name = None,
      e_orphan = Some \<lparr>or_name = None, or_venue = None, or_since = 0\<rparr>, e_guess = None, e_stamp = 0\<rparr>]\<rparr>)) = [f] \<and> e_id f = ''j''"
proof -
  let ?e = "\<lparr>e_id = ''j'', e_project = None, e_size = \<lparr>mem_mib = 1, cpu_centi = 1\<rparr>, e_at = 0, e_ticket = Some 1, e_name = None,
      e_orphan = Some \<lparr>or_name = None, or_venue = None, or_since = 0\<rparr>, e_guess = None, e_stamp = 0\<rparr>"
  let ?h = "empty_host\<lparr>ho_ledger := [?e]\<rparr>"
  have "\<exists>f \<in> set (ho_ledger (host_do (Release ''j'' (Some 1)) ?h)). e_id f = e_id ?e"
    using orphan_keeps_room [of ?h ?e "\<lparr>or_name = None, or_venue = None, or_since = 0\<rparr>" "Release ''j'' (Some 1)"]
    by (auto simp: keyed_def)
  then show ?thesis by (simp add: release_def lookup_def)
qed

section \<open>The budget holds\<close>

definition sizes_ok :: "host \<Rightarrow> bool" where
  "sizes_ok h \<longleftrightarrow> (\<forall>e \<in> set (ho_ledger h). size_pos (e_size e)) \<and> (\<forall>w \<in> set (ho_waiters h). size_pos (wt_size w))"

definition ledger_fits :: "host \<Rightarrow> bool" where
  "ledger_fits h \<longleftrightarrow> sums_fit (ho_budget h) (map e_size (ho_ledger h))"

text \<open>What a running worker does: no boot listing and no new facts, and sizes that are not negative.\<close>

fun plain_op :: "host_op \<Rightarrow> bool" where
  "plain_op (Gate p limits count t) = size_pos (pk_size p)"
| "plain_op (Verify w r t c) = size_pos (wt_size w)"
| "plain_op (Seed v cs limits jd t) = False"
| "plain_op (Refresh st f jd) = False"
| "plain_op _ = True"

lemma sizes_step:
  assumes "sizes_ok h" "plain_op op"
  shows "sizes_ok (host_do op h)"
proof (cases op)
  case (Gate p limits count t)
  obtain r h' where g: "gate p limits count t h = (r, h')" by fastforce
  then have "sizes_ok h'"
    by (cases rule: gate_cases) (use assms Gate in \<open>auto simp: sizes_ok_def set_put\<close>)
  with g Gate show ?thesis by simp
qed (use assms in \<open>auto simp: sizes_ok_def set_put enter_def leave_def suspend_def forget_def release_def orphan_door_def
    verify_one_def sweep_one_def split: option.splits job_read.splits dest!: lookup_Some\<close>)

lemma sums_fit_le:
  "sums_fit b ss \<Longrightarrow> fst (sum_of rs) \<le> fst (sum_of ss) \<Longrightarrow> snd (sum_of rs) \<le> snd (sum_of ss) \<Longrightarrow> sums_fit b rs"
  by (auto simp: sums_fit_def intro: fits_mono)

lemma rank_holds_sub: "set (rank_holds m ws l) \<subseteq> set ws"
  using tier1_subset [of m l "[]" "by_age (filter (\<lambda>w. \<not> wt_suspended w) ws)"]
  by (auto simp: rank_holds_def Let_def split: list.splits if_splits) (metis filter_is_subset set_by_age list.set_intros(1) subsetD)+

lemma put_sizes: "map e_size (put e_id (e\<lparr>e_orphan := x, e_stamp := s\<rparr>) xs) = map e_size xs"
  if "e \<in> set xs" "distinct (map e_id xs)"
proof -
  have "y = e" if "y \<in> set xs" "e_id y = e_id e" for y
    using that \<open>e \<in> set xs\<close> \<open>distinct (map e_id xs)\<close> by (auto simp: distinct_map dest: inj_onD)
  moreover have "e_id e \<in> e_id ` set xs" using that by blast
  ultimately show ?thesis by (auto simp: put_def)
qed

lemma ledger_fits_step:
  assumes "keyed h" "sizes_ok h" "plain_op op" "ledger_fits h"
  shows "ledger_fits (host_do op h)"
proof -
  have pos: "list_all size_pos (map e_size (ho_ledger h))" using assms(2) by (auto simp: sizes_ok_def list_all_iff)
  have rem: "ledger_fits (h\<lparr>ho_ledger := remove e_id i (ho_ledger h)\<rparr>)" for i
    using assms(4) sum_of_remove [OF pos, of e_id i] by (auto simp: ledger_fits_def intro: sums_fit_le)
  show ?thesis
  proof (cases op)
    case (Gate p limits count t)
    obtain r h' where g: "gate p limits count t h = (r, h')" by fastforce
    then have "ledger_fits h'"
    proof (cases rule: gate_cases)
      case admitted
      let ?above = "map wt_size (ids_before (pk_id p) (gate_holds p limits t h))"
      have "set (ids_before (pk_id p) (gate_holds p limits t h)) \<subseteq> set (put wt_id (ask_of p h t) (map cand.truncate (ho_waiters h)))"
        unfolding ids_before_def gate_holds_def using rank_holds_sub set_takeWhileD by fast
      then have "list_all size_pos ?above"
        using assms(2,3) Gate by (auto simp: list_all_iff set_put sizes_ok_def ask_of_def cand.defs)
      then have "0 \<le> fst (sum_of ?above)" "0 \<le> snd (sum_of ?above)" using sum_of_pos by auto
      moreover have "ho_budget h' = ho_budget h"
        "map e_size (ho_ledger h') = map e_size (ho_ledger h) @ [pk_size p]"
        using admitted(3,5) by (simp_all add: put_new lookup_None)
      moreover have "sums_fit (ho_budget h) (map e_size (ho_ledger h) @ [pk_size p] @ ?above)"
        using admitted(4) by (simp add: admit_None Let_def ask_of_def)
      ultimately show ?thesis by (auto simp: ledger_fits_def intro: sums_fit_le)
    qed (use assms(4) in \<open>auto simp: ledger_fits_def\<close>)
    with g Gate show ?thesis by simp
  next
    case (Orphan i n v k t)
    have "ledger_fits (snd (orphan_door i n v k t h))"
    proof (cases "lookup e_id i (ho_ledger h)")
      case (Some f)
      have "f \<in> set (ho_ledger h)" "distinct (map e_id (ho_ledger h))"
        using lookup_Some [OF Some] assms(1) by (auto simp: keyed_def)
      from put_sizes [OF this] Some assms(4) show ?thesis by (simp add: orphan_door_def ledger_fits_def)
    qed (use assms(4) in \<open>simp add: orphan_door_def\<close>)
    with Orphan show ?thesis by simp
  qed (use assms(3,4) rem in \<open>auto simp: ledger_fits_def enter_def leave_def suspend_def forget_def release_def
      verify_one_def sweep_one_def split: option.splits job_read.splits\<close>)
qed

end
