(* ===== verification/HostRuns.thy ===== *)
theory HostRuns
  imports HostBudget
begin

text \<open>
  What really runs on a host, beside what its ledger says. A machine is the host budget's state,
  the job containers that may be running, and the runtime's answers a sweep still waits for. An
  event is one thing the worker, a container or the runtime does; \<open>mc_do\<close> is \<open>None\<close> where the event
  cannot happen (index.mjs \<open>releaseAllHolds\<close>: a hold goes back only once the pickup's own
  container has ended or was declared an orphan; \<open>makeContainerGone\<close>: the runtime says "gone" only
  of a container that does not run). A container counts from the admission to its end, so it may
  start at any moment between.
\<close>

record container =
  ct_id :: string
  ct_ticket :: "nat option"
  ct_name :: string
  ct_venue :: "string option"
  ct_size :: size
  ct_left :: bool

record machine =
  mc_host :: host
  mc_live :: "container list"
  mc_answers :: "(entry \<times> bool option) list"

datatype event =
    Keeps host_op
  | Starts pickup "limit_row list" "int option" int
  | Ends string "nat option"
  | Gives_back string "nat option"
  | Leaves string "string option" "string option" "nat option" int
  | Asks entry "bool option"
  | Answers entry "bool option"
  | Refreshes budget_settings facts size

text \<open>The operations that touch neither the ledger nor the budget; \<open>Gate\<close> is \<open>Starts\<close> below.\<close>

fun quiet :: "host_op \<Rightarrow> bool" where
  "quiet (Enter i) = True"
| "quiet (Leave i) = True"
| "quiet (Suspend i t) = True"
| "quiet (Forget i) = True"
| "quiet (Verify w r t c) = size_pos (wt_size w)"
| "quiet _ = False"

definition is_of :: "string \<Rightarrow> nat option \<Rightarrow> container \<Rightarrow> bool" where
  "is_of i k c \<longleftrightarrow> ct_id c = i \<and> ct_ticket c = k"

definition started :: "pickup \<Rightarrow> container list" where
  "started p = (case pk_name p of None \<Rightarrow> []
     | Some n \<Rightarrow> [\<lparr>ct_id = pk_id p, ct_ticket = pk_ticket p, ct_name = n, ct_venue = pk_venue p, ct_size = pk_size p, ct_left = False\<rparr>])"

text \<open>The runtime's truth about an orphan's container.\<close>

definition truly_gone :: "orphan \<Rightarrow> container list \<Rightarrow> bool" where
  "truly_gone x live \<longleftrightarrow> list_all (\<lambda>c. \<not> (or_name x = Some (ct_name c) \<and> or_venue x = ct_venue c)) live"

fun mc_do :: "event \<Rightarrow> machine \<Rightarrow> machine option" where
  "mc_do (Keeps op) m = (if quiet op then Some (m\<lparr>mc_host := host_do op (mc_host m)\<rparr>) else None)"
| "mc_do (Starts p limits count t) m =
     (if \<not> size_pos (pk_size p) then None
      else case gate p limits count t (mc_host m) of
        (Admitted_here, h) \<Rightarrow> Some (m\<lparr>mc_host := h, mc_live := mc_live m @ started p\<rparr>)
      | (Deferred _ _, h) \<Rightarrow> Some (m\<lparr>mc_host := h\<rparr>))"
| "mc_do (Ends i k) m = Some (m\<lparr>mc_live := filter (\<lambda>c. \<not> is_of i k c) (mc_live m)\<rparr>)"
| "mc_do (Gives_back i k) m =
     (if list_all (\<lambda>c. is_of i k c \<longrightarrow> ct_left c) (mc_live m)
      then Some (m\<lparr>mc_host := snd (release i k (mc_host m))\<rparr>) else None)"
| "mc_do (Leaves i n v k t) m =
     (if list_all (\<lambda>c. is_of i k c \<longrightarrow> n = Some (ct_name c) \<and> v = ct_venue c) (mc_live m)
      then Some (m\<lparr>mc_host := snd (orphan_door i n v k t (mc_host m)),
                   mc_live := map (\<lambda>c. if is_of i k c then c\<lparr>ct_left := True\<rparr> else c) (mc_live m)\<rparr>)
      else None)"
| "mc_do (Asks e g) m =
     (case e_orphan e of None \<Rightarrow> None
      | Some x \<Rightarrow> if e \<in> set (ho_ledger (mc_host m)) \<and> sweep_asks e (mc_host m) \<and> (g = Some True \<longrightarrow> truly_gone x (mc_live m))
                  then Some (m\<lparr>mc_answers := (e, g) # mc_answers m\<rparr>) else None)"
| "mc_do (Answers e g) m =
     (if (e, g) \<in> set (mc_answers m)
      then Some (m\<lparr>mc_host := sweep_one e g (mc_host m), mc_answers := remove1 (e, g) (mc_answers m)\<rparr>) else None)"
| "mc_do (Refreshes st f jd) m =
     (if fst (compute_host_budget st f jd) = ho_budget (mc_host m)
      then Some (m\<lparr>mc_host := refresh st f jd (mc_host m)\<rparr>) else None)"

fun mc_all :: "event list \<Rightarrow> machine \<Rightarrow> machine option" where
  "mc_all [] m = Some m"
| "mc_all (e # es) m = (case mc_do e m of None \<Rightarrow> None | Some m' \<Rightarrow> mc_all es m')"

section \<open>What the ledger accounts for\<close>

definition covers :: "entry \<Rightarrow> container \<Rightarrow> bool" where
  "covers e c \<longleftrightarrow> e_id e = ct_id c \<and> e_ticket e = ct_ticket c
     \<and> mem_mib (ct_size c) \<le> mem_mib (e_size e) \<and> cpu_centi (ct_size c) \<le> cpu_centi (e_size e)
     \<and> (case e_orphan e of None \<Rightarrow> \<not> ct_left c
        | Some x \<Rightarrow> ct_left c \<and> or_name x = Some (ct_name c) \<and> or_venue x = ct_venue c)"

definition capped :: "host_budget \<Rightarrow> entry \<Rightarrow> bool" where
  "capped b e \<longleftrightarrow> (case e_guess e of None \<Rightarrow> True | Some g \<Rightarrow> e_size e = pessimistic_size [] g b)"

definition guesses_capped :: "host \<Rightarrow> bool" where
  "guesses_capped h \<longleftrightarrow> (\<forall>e \<in> set (ho_ledger h). capped (ho_budget h) e)"

definition stamped :: "host \<Rightarrow> bool" where
  "stamped h \<longleftrightarrow> (\<forall>e \<in> set (ho_ledger h). e_stamp e < ho_stamp h)"

text \<open>A worker whose boot listings are read: every container that may run has an entry of its own.\<close>

definition accounted :: "host \<Rightarrow> container list \<Rightarrow> bool" where
  "accounted h live \<longleftrightarrow> keyed h \<and> sizes_ok h \<and> ledger_fits h \<and> guesses_capped h \<and> stamped h
     \<and> distinct (map ct_id live) \<and> (\<forall>c \<in> set live. \<exists>e \<in> set (ho_ledger h). covers e c)"

definition answer_true :: "host \<Rightarrow> container list \<Rightarrow> entry \<times> bool option \<Rightarrow> bool" where
  "answer_true h live a \<longleftrightarrow> e_stamp (fst a) < ho_stamp h
     \<and> (snd a = Some True \<longrightarrow> (\<forall>f \<in> set (ho_ledger h). e_id f = e_id (fst a) \<and> e_stamp f = e_stamp (fst a)
          \<longrightarrow> e_id f \<notin> ct_id ` set live))"

definition machine_ok :: "machine \<Rightarrow> bool" where
  "machine_ok m \<longleftrightarrow> accounted (mc_host m) (mc_live m) \<and> (\<forall>a \<in> set (mc_answers m). answer_true (mc_host m) (mc_live m) a)"

lemma covers_sums:
  "distinct (map ct_id live) \<Longrightarrow> distinct (map e_id ledger) \<Longrightarrow> list_all size_pos (map e_size ledger) \<Longrightarrow>
   \<forall>c \<in> set live. \<exists>e \<in> set ledger. covers e c \<Longrightarrow>
   fst (sum_of (map ct_size live)) \<le> fst (sum_of (map e_size ledger)) \<and>
   snd (sum_of (map ct_size live)) \<le> snd (sum_of (map e_size ledger)) \<and> length live \<le> length ledger"
proof (induction live arbitrary: ledger)
  case Nil
  then show ?case using sum_of_pos [of "map e_size ledger"] by simp
next
  case (Cons c live)
  obtain e where e: "e \<in> set ledger" "covers e c" using Cons.prems(4) by auto
  obtain xs ys where l: "ledger = xs @ e # ys" using e(1) by (auto simp: in_set_conv_decomp)
  have "\<exists>f \<in> set (xs @ ys). covers f d" if "d \<in> set live" for d
  proof -
    have "d \<in> set (c # live)" using that by simp
    then obtain f where f: "f \<in> set ledger" "covers f d" using Cons.prems(4) by blast
    have "ct_id d \<noteq> ct_id c" using Cons.prems(1) that by (metis distinct.simps(2) imageI list.map(2) list.set_map)
    then have "f \<noteq> e" using f(2) e(2) by (auto simp: covers_def)
    with f l show ?thesis by auto
  qed
  then have "fst (sum_of (map ct_size live)) \<le> fst (sum_of (map e_size (xs @ ys))) \<and>
      snd (sum_of (map ct_size live)) \<le> snd (sum_of (map e_size (xs @ ys))) \<and> length live \<le> length (xs @ ys)"
    using Cons.prems l by (intro Cons.IH) auto
  then show ?case using e(2) by (simp add: l covers_def)
qed

lemma entry_of:
  assumes "accounted h live" "c \<in> set live" "e \<in> set (ho_ledger h)" "e_id e = ct_id c"
  shows "covers e c"
proof -
  obtain f where f: "f \<in> set (ho_ledger h)" "covers f c" using assms(1,2) by (auto simp: accounted_def)
  then have "e_id f = e_id e" using assms(4) by (simp add: covers_def)
  then have "f = e" using assms(1,3) f(1) by (auto simp: accounted_def keyed_def distinct_map dest: inj_onD)
  with f(2) show ?thesis by simp
qed

section \<open>Every event keeps the account\<close>

lemma ok_host:
  assumes "machine_ok m" "ho_ledger h = ho_ledger (mc_host m)" "ho_budget h = ho_budget (mc_host m)"
    "ho_stamp (mc_host m) \<le> ho_stamp h" "keyed h" "sizes_ok h"
  shows "machine_ok (m\<lparr>mc_host := h\<rparr>)"
proof -
  have a: "accounted h (mc_live m)"
    using assms by (auto simp: machine_ok_def accounted_def ledger_fits_def guesses_capped_def stamped_def)
  have "answer_true h (mc_live m) x" if "x \<in> set (mc_answers m)" for x
    using assms(1-4) that by (fastforce simp: machine_ok_def answer_true_def)
  with a show ?thesis by (simp add: machine_ok_def)
qed

lemma quiet_same:
  assumes "quiet op"
  shows "plain_op op" "ho_ledger (host_do op h) = ho_ledger h" "ho_budget (host_do op h) = ho_budget h"
    "ho_stamp h \<le> ho_stamp (host_do op h)"
  using assms by (cases op; auto simp: enter_def leave_def suspend_def forget_def verify_one_def split: option.splits job_read.splits)+

lemma ok_keeps: "machine_ok m \<Longrightarrow> quiet op \<Longrightarrow> machine_ok (m\<lparr>mc_host := host_do op (mc_host m)\<rparr>)"
  by (rule ok_host) (auto simp: quiet_same keyed_step sizes_step machine_ok_def accounted_def)

lemma ok_ends: "machine_ok m \<Longrightarrow> machine_ok (m\<lparr>mc_live := filter P (mc_live m)\<rparr>)"
  by (auto simp: machine_ok_def accounted_def answer_true_def distinct_map_filter)

text \<open>An entry leaves the ledger only when no container runs under its id.\<close>

lemma ok_remove:
  assumes "machine_ok m" "i \<notin> ct_id ` set (mc_live m)" "set as \<subseteq> set (mc_answers m)"
  shows "machine_ok (m\<lparr>mc_host := (mc_host m)\<lparr>ho_ledger := remove e_id i (ho_ledger (mc_host m))\<rparr>, mc_answers := as\<rparr>)"
proof -
  let ?h = "mc_host m" let ?h' = "?h\<lparr>ho_ledger := remove e_id i (ho_ledger ?h)\<rparr>"
  have a: "accounted ?h (mc_live m)" using assms(1) by (simp add: machine_ok_def)
  then have "list_all size_pos (map e_size (ho_ledger ?h))" by (auto simp: accounted_def sizes_ok_def list_all_iff)
  from sum_of_remove [OF this, of e_id i] a have "ledger_fits ?h'"
    by (auto simp: accounted_def ledger_fits_def intro: sums_fit_le)
  moreover have "\<exists>e \<in> set (ho_ledger ?h'). covers e c" if "c \<in> set (mc_live m)" for c
  proof -
    obtain e where e: "e \<in> set (ho_ledger ?h)" "covers e c" using a \<open>c \<in> set (mc_live m)\<close> by (auto simp: accounted_def)
    moreover have "e_id e \<noteq> i" using assms(2) that e(2) by (auto simp: covers_def)
    ultimately show ?thesis by auto
  qed
  moreover have "guesses_capped ?h'" using a by (auto simp: accounted_def guesses_capped_def)
  moreover have "keyed ?h'" "sizes_ok ?h'" "stamped ?h'"
    using a by (auto simp: accounted_def keyed_def sizes_ok_def stamped_def distinct_remove)
  ultimately have "accounted ?h' (mc_live m)" using a by (simp add: accounted_def)
  then show ?thesis using assms(1,3) by (auto simp: machine_ok_def answer_true_def)
qed

lemma ok_gives_back:
  assumes "machine_ok m" "list_all (\<lambda>c. is_of i k c \<longrightarrow> ct_left c) (mc_live m)"
  shows "machine_ok (m\<lparr>mc_host := snd (release i k (mc_host m))\<rparr>)"
proof (cases "fst (release i k (mc_host m))")
  case True
  then obtain e where e: "lookup e_id i (ho_ledger (mc_host m)) = Some e" "e_orphan e = None" "e_ticket e = k"
    by (auto simp: release_def split: option.splits if_splits)
  have a: "accounted (mc_host m) (mc_live m)" using assms(1) by (simp add: machine_ok_def)
  have "i \<notin> ct_id ` set (mc_live m)"
  proof
    assume "i \<in> ct_id ` set (mc_live m)"
    then obtain c where c: "c \<in> set (mc_live m)" "ct_id c = i" by auto
    with entry_of [OF a, of c e] e lookup_Some [OF e(1)] have "covers e c" by auto
    with e c assms(2) show False by (auto simp: covers_def is_of_def list_all_iff)
  qed
  from ok_remove [OF assms(1) this, of "mc_answers m"] e show ?thesis by (simp add: release_def)
next
  case False
  then have "snd (release i k (mc_host m)) = mc_host m" by (auto simp: release_def split: option.splits if_splits)
  with assms(1) show ?thesis by simp
qed

lemma ok_answers:
  assumes "machine_ok m" "(e, g) \<in> set (mc_answers m)"
  shows "machine_ok (m\<lparr>mc_host := sweep_one e g (mc_host m), mc_answers := remove1 (e, g) (mc_answers m)\<rparr>)"
proof -
  let ?L = "ho_ledger (mc_host m)"
  have sub: "set (remove1 (e, g) (mc_answers m)) \<subseteq> set (mc_answers m)" by (rule set_remove1_subset)
  show ?thesis
  proof (cases "g = Some True \<and> (case lookup e_id (e_id e) ?L of Some f \<Rightarrow> e_stamp f = e_stamp e | None \<Rightarrow> False)")
    case True
    then obtain f where f: "lookup e_id (e_id e) ?L = Some f" "e_stamp f = e_stamp e" by (auto split: option.splits)
    have "e_id e \<notin> ct_id ` set (mc_live m)"
      using assms True lookup_Some [OF f(1)] f(2) by (fastforce simp: machine_ok_def answer_true_def)
    from ok_remove [OF assms(1) this sub] True show ?thesis by (simp add: sweep_one_def)
  next
    case False
    then have "sweep_one e g (mc_host m) = mc_host m" by (auto simp: sweep_one_def)
    with assms(1) sub show ?thesis by (auto simp: machine_ok_def)
  qed
qed

lemma started_ids: "c \<in> set (started p) \<Longrightarrow> ct_id c = pk_id p" "length (started p) \<le> 1"
  by (auto simp: started_def split: option.splits)

lemma ok_starts:
  assumes "machine_ok m" "size_pos (pk_size p)" "gate p limits count t (mc_host m) = (r, h)"
  shows "machine_ok (m\<lparr>mc_host := h, mc_live := mc_live m @ (if r = Admitted_here then started p else [])\<rparr>)"
proof -
  let ?h = "mc_host m"
  have a: "accounted ?h (mc_live m)" using assms(1) by (simp add: machine_ok_def)
  have h: "h = host_do (Gate p limits count t) ?h" using assms(3) by simp
  have k: "keyed h" "sizes_ok h" "ledger_fits h"
    unfolding h using a assms(2) by (simp_all only: accounted_def keyed_step sizes_step ledger_fits_step plain_op.simps)
  have st: "stamped ?h" "guesses_capped ?h" using a by (simp_all add: accounted_def)
  from assms(3) show ?thesis
  proof (cases rule: gate_cases)
    case stopped
    with assms(1) show ?thesis by auto
  next
    case (deferred w)
    have "machine_ok (m\<lparr>mc_host := h\<rparr>)" by (rule ok_host [OF assms(1)]) (use k deferred(4) in auto)
    with deferred(1) show ?thesis by simp
  next
    case admitted
    define e where "e = \<lparr>e_id = pk_id p, e_project = pk_project p, e_size = pk_size p, e_at = t, e_ticket = pk_ticket p,
        e_name = pk_name p, e_orphan = None, e_guess = None, e_stamp = ho_stamp ?h\<rparr>"
    have new: "pk_id p \<notin> e_id ` set (ho_ledger ?h)" using admitted(3) by (simp add: lookup_None)
    have l: "ho_ledger h = ho_ledger ?h @ [e]" "ho_budget h = ho_budget ?h" "ho_stamp h = Suc (ho_stamp ?h)"
      using admitted(5) new by (simp_all add: put_new e_def)
    have live: "pk_id p \<notin> ct_id ` set (mc_live m)"
    proof
      assume "pk_id p \<in> ct_id ` set (mc_live m)"
      then obtain c where c: "c \<in> set (mc_live m)" "ct_id c = pk_id p" by auto
      obtain f where "f \<in> set (ho_ledger ?h)" "covers f c" using a c(1) by (auto simp: accounted_def)
      then have "pk_id p \<in> e_id ` set (ho_ledger ?h)" using c(2) by (auto simp: covers_def intro!: image_eqI [of _ _ f])
      with new show False by simp
    qed
    have cov: "covers e c" if "c \<in> set (started p)" for c
      using that by (auto simp: started_def covers_def e_def split: option.splits)
    have "distinct (map ct_id (mc_live m @ started p))"
      using a live by (auto simp: accounted_def started_def split: option.splits)
    moreover have "\<exists>f \<in> set (ho_ledger h). covers f c" if "c \<in> set (mc_live m @ started p)" for c
      using that a cov unfolding l(1) accounted_def by auto
    moreover have "stamped h" "guesses_capped h"
      using st l by (auto simp: stamped_def guesses_capped_def capped_def e_def less_Suc_eq)
    ultimately have acc: "accounted h (mc_live m @ started p)" using k by (simp add: accounted_def)
    have "answer_true h (mc_live m @ started p) x" if "x \<in> set (mc_answers m)" for x
    proof -
      have x: "answer_true ?h (mc_live m) x" using assms(1) that by (simp add: machine_ok_def)
      then have "e_stamp e \<noteq> e_stamp (fst x)" by (simp add: answer_true_def e_def)
      moreover have "e_id f \<noteq> ct_id c" if "f \<in> set (ho_ledger ?h)" "c \<in> set (started p)" for f c
        using new that started_ids(1) by (metis imageI)
      ultimately show ?thesis using x unfolding answer_true_def l(1,3) by (auto simp: less_SucI)
    qed
    with acc admitted(1) show ?thesis by (simp add: machine_ok_def)
  qed
qed

lemma capped_same: "e_guess e' = e_guess e \<Longrightarrow> e_size e' = e_size e \<Longrightarrow> capped b e' = capped b e"
  by (simp add: capped_def split: option.split)

text \<open>A failed stop: the pickup's entry, if it has one, becomes an orphan under its container's name.\<close>

lemma ok_leaves:
  assumes "machine_ok m" "list_all (\<lambda>c. is_of i k c \<longrightarrow> n = Some (ct_name c) \<and> v = ct_venue c) (mc_live m)"
  shows "machine_ok (m\<lparr>mc_host := snd (orphan_door i n v k t (mc_host m)),
           mc_live := map (\<lambda>c. if is_of i k c then c\<lparr>ct_left := True\<rparr> else c) (mc_live m)\<rparr>)"
proof -
  let ?h = "mc_host m" and ?left = "\<lambda>c. if is_of i k c then c\<lparr>ct_left := True\<rparr> else c"
  define h where "h = snd (orphan_door i n v k t ?h)"
  have a: "accounted ?h (mc_live m)" using assms(1) by (simp add: machine_ok_def)
  have h: "h = host_do (Orphan i n v k t) ?h" by (simp add: h_def)
  have k: "keyed h" "sizes_ok h" "ledger_fits h"
    unfolding h using a by (simp_all only: accounted_def keyed_step sizes_step ledger_fits_step plain_op.simps)
  have ids: "map ct_id (map ?left (mc_live m)) = map ct_id (mc_live m)" by simp
  have idset: "ct_id ` set (map ?left (mc_live m)) = ct_id ` set (mc_live m)" by (metis ids list.set_map)
  show ?thesis
  proof (cases "fst (orphan_door i n v k t ?h)")
    case True
    then obtain e where e: "lookup e_id i (ho_ledger ?h) = Some e" "e_orphan e = None" "e_ticket e = k"
      by (auto simp: orphan_door_def split: option.splits if_splits)
    define e' where "e' = e\<lparr>e_orphan := Some \<lparr>or_name = n, or_venue = v, or_since = t\<rparr>, e_stamp := ho_stamp ?h\<rparr>"
    have he: "h = ?h\<lparr>ho_ledger := put e_id e' (ho_ledger ?h), ho_stamp := Suc (ho_stamp ?h)\<rparr>"
      using e by (simp add: h_def orphan_door_def e'_def)
    have ee: "e \<in> set (ho_ledger ?h)" "e_id e = i" using lookup_Some [OF e(1)] by auto
    have L: "set (ho_ledger h) = insert e' {f \<in> set (ho_ledger ?h). e_id f \<noteq> i}"
      using ee(2) by (simp add: he set_put e'_def)
    have cov: "\<exists>f \<in> set (ho_ledger h). covers f (?left c)" if c: "c \<in> set (mc_live m)" for c
    proof (cases "ct_id c = i")
      case True
      have "covers e c" by (rule entry_of [OF a c ee(1)]) (simp add: True ee(2))
      then have "is_of i k c" "covers e' (?left c)"
        using e assms(2) c True by (auto simp: is_of_def covers_def e'_def list_all_iff)
      then show ?thesis unfolding L by blast
    next
      case False
      then have "?left c = c" by (simp add: is_of_def)
      moreover obtain f where "f \<in> set (ho_ledger ?h)" "covers f c" using a c by (auto simp: accounted_def)
      moreover from this have "e_id f \<noteq> i" using False by (simp add: covers_def)
      ultimately show ?thesis unfolding L by auto
    qed
    have "capped (ho_budget ?h) e'"
      using capped_same [of e' e "ho_budget ?h"] a ee(1) by (simp add: e'_def accounted_def guesses_capped_def)
    then have gc: "guesses_capped h" using a unfolding guesses_capped_def L by (auto simp: he accounted_def guesses_capped_def)
    have "e_stamp f < ho_stamp h" if "f \<in> set (ho_ledger h)" for f
    proof (cases "f = e'")
      case False
      then have "f \<in> set (ho_ledger ?h)" using that L by simp
      then show ?thesis using a by (simp add: he accounted_def stamped_def less_SucI)
    qed (simp add: he e'_def)
    then have sh: "stamped h" by (simp add: stamped_def)
    have dl: "distinct (map ct_id (map ?left (mc_live m)))"
      using a unfolding ids by (simp add: accounted_def)
    have "\<forall>c \<in> set (map ?left (mc_live m)). \<exists>f \<in> set (ho_ledger h). covers f c"
      unfolding list.set_map ball_simps by (rule ballI) (rule cov)
    then have acc: "accounted h (map ?left (mc_live m))"
      unfolding accounted_def by (intro conjI k gc sh dl)
    have "answer_true h (map ?left (mc_live m)) x" if "x \<in> set (mc_answers m)" for x
    proof -
      have x: "answer_true ?h (mc_live m) x" using assms(1) that by (simp add: machine_ok_def)
      then have "e_stamp e' \<noteq> e_stamp (fst x)" by (simp add: answer_true_def e'_def)
      with x show ?thesis unfolding answer_true_def L idset by (auto simp: he)
    qed
    with acc show ?thesis by (simp add: machine_ok_def h_def)
  next
    case False
    then have same: "h = ?h" by (auto simp: h_def orphan_door_def split: option.splits if_splits)
    have "?left c = c" if c: "c \<in> set (mc_live m)" for c
    proof (cases "is_of i k c")
      case True
      obtain f where f: "f \<in> set (ho_ledger ?h)" "covers f c" using a c by (auto simp: accounted_def)
      then have "lookup e_id i (ho_ledger ?h) = Some f"
        using lookup_keyed [of e_id "ho_ledger ?h" f] a True by (auto simp: accounted_def keyed_def covers_def is_of_def)
      then have "e_orphan f \<noteq> None" using False f(2) True by (auto simp: orphan_door_def covers_def is_of_def split: if_splits)
      then have "ct_left c" using f(2) by (auto simp: covers_def)
      then show ?thesis by (cases c) simp
    qed simp
    then have "map ?left (mc_live m) = mc_live m" by (intro map_idI) simp
    with assms(1) same h_def show ?thesis by simp
  qed
qed

lemma ok_asks:
  assumes "machine_ok m" "e \<in> set (ho_ledger (mc_host m))" "e_orphan e = Some x" "g = Some True \<longrightarrow> truly_gone x (mc_live m)"
  shows "machine_ok (m\<lparr>mc_answers := (e, g) # mc_answers m\<rparr>)"
proof -
  let ?h = "mc_host m"
  have a: "accounted ?h (mc_live m)" using assms(1) by (simp add: machine_ok_def)
  have "e_id e \<notin> ct_id ` set (mc_live m)" if "g = Some True"
  proof
    assume "e_id e \<in> ct_id ` set (mc_live m)"
    then obtain c where c: "c \<in> set (mc_live m)" "e_id e = ct_id c" by auto
    from entry_of [OF a c(1) assms(2) c(2)] assms(3) have "or_name x = Some (ct_name c)" "or_venue x = ct_venue c"
      by (auto simp: covers_def)
    with assms(4) that c(1) show False by (auto simp: truly_gone_def list_all_iff)
  qed
  then have "answer_true ?h (mc_live m) (e, g)"
    using a assms(2) by (auto simp: answer_true_def accounted_def stamped_def)
  with assms(1) show ?thesis by (simp add: machine_ok_def)
qed

text \<open>A refresh that reads the same facts changes no entry.\<close>

lemma refresh_same:
  assumes "guesses_capped h" "fst (compute_host_budget st f jd) = ho_budget h"
  shows "refresh st f jd h = h"
proof -
  have "(case e_guess e of None \<Rightarrow> e | Some g \<Rightarrow> e\<lparr>e_size := pessimistic_size [] g (ho_budget h)\<rparr>) = e" if "e \<in> set (ho_ledger h)" for e
    using that assms(1) by (cases e) (auto simp: guesses_capped_def capped_def split: option.splits)
  then have "map (\<lambda>e. case e_guess e of None \<Rightarrow> e | Some g \<Rightarrow> e\<lparr>e_size := pessimistic_size [] g (ho_budget h)\<rparr>) (ho_ledger h) = ho_ledger h"
    by (rule map_idI)
  then show ?thesis unfolding refresh_def assms(2) Let_def by simp
qed

lemma machine_step:
  assumes "machine_ok m" "mc_do ev m = Some m'"
  shows "machine_ok m' \<and> ho_budget (mc_host m') = ho_budget (mc_host m)"
proof (cases ev)
  case (Keeps op)
  with assms(2) have "quiet op" "m' = m\<lparr>mc_host := host_do op (mc_host m)\<rparr>" by (auto split: if_splits)
  with ok_keeps [OF assms(1)] quiet_same show ?thesis by simp
next
  case (Starts p limits count t)
  obtain r h where g: "gate p limits count t (mc_host m) = (r, h)" by fastforce
  have "size_pos (pk_size p)" and m': "m' = m\<lparr>mc_host := h, mc_live := mc_live m @ (if r = Admitted_here then started p else [])\<rparr>"
    using assms(2) Starts g by (auto split: if_splits gate_result.splits)
  moreover have "ho_budget h = ho_budget (mc_host m)" using g by (cases rule: gate_cases) auto
  ultimately show ?thesis using ok_starts [OF assms(1) _ g] by simp
next
  case (Ends i k)
  with assms(2) ok_ends [OF assms(1)] show ?thesis by auto
next
  case (Gives_back i k)
  with assms(2) have "list_all (\<lambda>c. is_of i k c \<longrightarrow> ct_left c) (mc_live m)" "m' = m\<lparr>mc_host := snd (release i k (mc_host m))\<rparr>"
    by (auto split: if_splits)
  with ok_gives_back [OF assms(1)] show ?thesis by (simp add: release_def split: option.split)
next
  case (Leaves i n v k t)
  with assms(2) have "list_all (\<lambda>c. is_of i k c \<longrightarrow> n = Some (ct_name c) \<and> v = ct_venue c) (mc_live m)"
    "m' = m\<lparr>mc_host := snd (orphan_door i n v k t (mc_host m)), mc_live := map (\<lambda>c. if is_of i k c then c\<lparr>ct_left := True\<rparr> else c) (mc_live m)\<rparr>"
    by (auto split: if_splits)
  with ok_leaves [OF assms(1)] show ?thesis by (simp add: orphan_door_def split: option.split)
next
  case (Asks e g)
  with assms(2) obtain x where "e_orphan e = Some x" "e \<in> set (ho_ledger (mc_host m))"
    "g = Some True \<longrightarrow> truly_gone x (mc_live m)" "m' = m\<lparr>mc_answers := (e, g) # mc_answers m\<rparr>"
    by (auto split: option.splits if_splits)
  with ok_asks [OF assms(1)] show ?thesis by simp
next
  case (Answers e g)
  with assms(2) have "(e, g) \<in> set (mc_answers m)"
    "m' = m\<lparr>mc_host := sweep_one e g (mc_host m), mc_answers := remove1 (e, g) (mc_answers m)\<rparr>" by (auto split: if_splits)
  with ok_answers [OF assms(1)] show ?thesis by (simp add: sweep_one_def)
next
  case (Refreshes st f jd)
  have "guesses_capped (mc_host m)" using assms(1) by (simp add: machine_ok_def accounted_def)
  from refresh_same [OF this, of st f jd] assms Refreshes show ?thesis by (auto split: if_splits)
qed

lemma machine_all: "machine_ok m \<Longrightarrow> mc_all evs m = Some m' \<Longrightarrow> machine_ok m' \<and> ho_budget (mc_host m') = ho_budget (mc_host m)"
proof (induction evs arbitrary: m)
  case (Cons ev evs)
  then obtain n where "mc_do ev m = Some n" "mc_all evs n = Some m'" by (auto split: option.splits)
  with machine_step [OF Cons.prems(1)] Cons.IH [of n] show ?case by simp
qed simp

text \<open>
  C3: The host is never overcommitted: start a worker whose ledger accounts for every container that
  may run and fits the budget. Then after any sequence of pickups, refusals, ends of containers,
  releases (by any pickup, under any ticket, any number of times, once its own container ended or
  was declared an orphan), failed stops, verifications and sweeps whose answers arrive at any later
  time, the memory and the CPU of the containers that really may run are within the budget, there are
  no more of them than the ledger counts, and each has a ledger entry of its own that is at least
  its size, an orphan under its name once its pickup has left it. Only a boot listing or a changed
  budget is left out.
\<close>

theorem host_never_overcommits:
  assumes "accounted (mc_host m) (mc_live m)" "mc_answers m = []" and "mc_all evs m = Some m'"
  shows "sums_fit (ho_budget (mc_host m)) (map ct_size (mc_live m'))
    \<and> ho_budget (mc_host m') = ho_budget (mc_host m)
    \<and> length (mc_live m') \<le> length (ho_ledger (mc_host m'))
    \<and> distinct (map ct_id (mc_live m')) \<and> (\<forall>c \<in> set (mc_live m'). \<exists>e \<in> set (ho_ledger (mc_host m')). covers e c)"
proof -
  have "machine_ok m" using assms(1,2) by (simp add: machine_ok_def)
  from machine_all [OF this assms(3)] have a: "accounted (mc_host m') (mc_live m')"
    and b: "ho_budget (mc_host m') = ho_budget (mc_host m)" by (simp_all add: machine_ok_def)
  have "fst (sum_of (map ct_size (mc_live m'))) \<le> fst (sum_of (map e_size (ho_ledger (mc_host m')))) \<and>
   snd (sum_of (map ct_size (mc_live m'))) \<le> snd (sum_of (map e_size (ho_ledger (mc_host m')))) \<and> length (mc_live m') \<le> length (ho_ledger (mc_host m'))"
    using a by (intro covers_sums) (auto simp: accounted_def keyed_def sizes_ok_def list_all_iff)
  then show ?thesis using a b by (auto simp: accounted_def ledger_fits_def intro: sums_fit_le)
qed

abbreviation named_pickup :: pickup where
  "named_pickup \<equiv> a_pickup\<lparr>pk_name := Some ''pi-job-j''\<rparr>"

abbreviation idle_machine :: machine where
  "idle_machine \<equiv> \<lparr>mc_host = empty_host, mc_live = [], mc_answers = []\<rparr>"

theorem host_never_overcommits_witness:
  "\<exists>m'. mc_all [Starts named_pickup [] (Some 3) 0, Leaves ''j'' (Some ''pi-job-j'') None (Some 1) 5, Gives_back ''j'' (Some 1)] idle_machine = Some m'
     \<and> length (mc_live m') = 1 \<and> length (ho_ledger (mc_host m')) \<ge> 1"
proof -
  let ?evs = "[Starts named_pickup [] (Some 3) 0, Leaves ''j'' (Some ''pi-job-j'') None (Some 1) 5, Gives_back ''j'' (Some 1)]"
  obtain m' where m': "mc_all ?evs idle_machine = Some m'" "length (mc_live m') = 1"
    by (simp add: gate_def blocked_by_seed_def name_taken_def lookup_def admit_def ask_of_def gate_holds_def rank_holds_def put_def
        has_project_def fits_def ids_before_def is_safe_def max_safe_def Let_def by_age_def size_pos_def started_def is_of_def)
  have "length (mc_live m') \<le> length (ho_ledger (mc_host m'))"
    using host_never_overcommits [OF _ _ m'(1)]
    by (simp add: accounted_def keyed_def sizes_ok_def ledger_fits_def sums_fit_def fits_def guesses_capped_def stamped_def)
  with m' show ?thesis by auto
qed

end
