(* ===== verification/PlanArith.thy ===== *)
theory PlanArith
  imports JobBudget "HOL-Library.Char_ord" "HOL-Library.List_Lexorder"
begin

text \<open>
  The arithmetic of delegated allocation (worker/src/priorities.mjs, from \<open>micros\<close> on): integer
  weights split the money above the operator's floors, a step bounds how far one plan may move it,
  and an envelope change carries a vector over. The code computes in BigInt, so the model's integers
  are exact. An object with amounts or weights is an association list without repeated keys, its
  value \<open>None\<close> where it is no integer; a vector inside is a function on the keys it is read at.
  A TypeError is \<open>None\<close>.
\<close>

definition weight_max :: int where "weight_max = 1000"
definition other_id :: string where "other_id = ''_other''"

text \<open>The key of the unallocated money in a step vector.\<close>

definition unallocated_key :: string where "unallocated_key = ''''"

type_synonym fields = "(string \<times> int option) list"

definition sorted_keys :: "('a::linorder \<times> 'b) list \<Rightarrow> 'a list" where
  "sorted_keys o' = sort (map fst o')"

definition field :: "fields \<Rightarrow> string \<Rightarrow> int option" where
  "field o' k = Option.bind (map_of o' k) id"

record delegation =
  dg_enabled :: bool
  dg_writers :: "string list"
  dg_min_interval_hours :: "int option"
  dg_max_step_pct :: "int option"
  dg_max_plan_days :: "int option"

record envelope =
  en_version :: int
  en_window :: window_name
  en_total :: "int option"
  en_floors :: fields
  en_weights :: fields
  en_delegation :: "delegation option"

record vector =
  ve_allocations :: fields
  ve_unallocated :: "int option option"   \<comment> \<open>\<open>None\<close> where the vector has no such field\<close>

definition is_weight :: "int option \<Rightarrow> bool" where
  "is_weight v = (case v of None \<Rightarrow> False | Some w \<Rightarrow> 0 \<le> w \<and> w \<le> weight_max)"

definition micros :: "int option \<Rightarrow> int option" where
  "micros v = (case v of None \<Rightarrow> None | Some n \<Rightarrow> if is_safe n \<and> 0 \<le> n then Some n else None)"

text \<open>BigInt division truncates toward zero.\<close>

definition trunc_div :: "int \<Rightarrow> int \<Rightarrow> int" where
  "trunc_div n d = sgn n * sgn d * (\<bar>n\<bar> div \<bar>d\<bar>)"

definition trunc_mod :: "int \<Rightarrow> int \<Rightarrow> int" where
  "trunc_mod a b = a - b * trunc_div a b"

definition floor_div :: "int \<Rightarrow> int \<Rightarrow> int" where
  "floor_div a b = (let q = trunc_div a b in if trunc_mod a b \<noteq> 0 \<and> ((a < 0) \<noteq> (b < 0)) then q - 1 else q)"

definition total_of :: "string list \<Rightarrow> (string \<Rightarrow> int) \<Rightarrow> int" where
  "total_of ks f = sum_list (map f ks)"

text \<open>The keys that get one of the \<open>left\<close> micro-dollars: the largest fractions, ties in \<open>keys\<close> order
  (the sort is stable).\<close>

definition winners :: "string list \<Rightarrow> (string \<Rightarrow> int) \<Rightarrow> int \<Rightarrow> string list" where
  "winners ks frac left = take (nat left) (sort_key (\<lambda>k. - frac k) ks)"

definition largest_remainder :: "int \<Rightarrow> string list \<Rightarrow> (string \<Rightarrow> int) \<Rightarrow> string \<Rightarrow> int" where
  "largest_remainder amount ks w =
     (let tot = total_of ks w
      in if tot = 0 then (\<lambda>_. 0)
         else (let given = total_of ks (\<lambda>k. trunc_div (amount * w k) tot);
                   lucky = winners ks (\<lambda>k. trunc_mod (amount * w k) tot) (amount - given)
               in (\<lambda>k. trunc_div (amount * w k) tot + (if k \<in> set lucky then 1 else 0))))"

definition blend :: "string list \<Rightarrow> (string \<Rightarrow> int) \<Rightarrow> (string \<Rightarrow> int) \<Rightarrow> int \<Rightarrow> int \<Rightarrow> string \<Rightarrow> int" where
  "blend ks b t step largest =
     (let whole = (\<lambda>k. floor_div ((t k - b k) * step) largest);
          lucky = winners ks (\<lambda>k. (t k - b k) * step - whole k * largest) (total_of ks b - total_of ks (\<lambda>k. b k + whole k))
      in (\<lambda>k. b k + whole k + (if k \<in> set lucky then 1 else 0)))"

definition envelope_entries :: "envelope \<Rightarrow> string list" where
  "envelope_entries e = sorted_keys (en_floors e)"

definition amounts :: "fields \<Rightarrow> string \<Rightarrow> int" where
  "amounts o' k = (case micros (field o' k) of Some n \<Rightarrow> n | None \<Rightarrow> 0)"

definition all_micros :: "fields \<Rightarrow> string list \<Rightarrow> bool" where
  "all_micros o' ks \<longleftrightarrow> (\<forall>k \<in> set ks. micros (field o' k) \<noteq> None)"

text \<open>The total, the floors and the entries of a well-formed envelope.\<close>

definition envelope_numbers :: "envelope \<Rightarrow> (int \<times> (string \<Rightarrow> int) \<times> string list) option" where
  "envelope_numbers e =
     (let entries = envelope_entries e
      in if other_id \<notin> set entries then None
         else (case micros (en_total e) of None \<Rightarrow> None
           | Some tot \<Rightarrow>
               if \<not> all_micros (en_floors e) entries then None
               else if total_of entries (amounts (en_floors e)) > tot then None
               else Some (tot, amounts (en_floors e), entries)))"

definition unallocated_of :: "vector \<Rightarrow> int option" where
  "unallocated_of v = micros (case ve_unallocated v of None \<Rightarrow> Some 0 | Some x \<Rightarrow> x)"

definition vector_numbers :: "vector \<Rightarrow> string list \<Rightarrow> int \<Rightarrow> ((string \<Rightarrow> int) \<times> int) option" where
  "vector_numbers v entries tot =
     (if sorted_keys (ve_allocations v) \<noteq> entries then None
      else if \<not> all_micros (ve_allocations v) entries then None
      else (case unallocated_of v of None \<Rightarrow> None
        | Some u \<Rightarrow> if total_of entries (amounts (ve_allocations v)) + u \<noteq> tot then None
                    else Some (amounts (ve_allocations v), u)))"

definition step_vector :: "(string \<Rightarrow> int) \<Rightarrow> int \<Rightarrow> string \<Rightarrow> int" where
  "step_vector f u k = (if k = unallocated_key then u else f k)"

definition largest_move :: "string list \<Rightarrow> (string \<Rightarrow> int) \<Rightarrow> (string \<Rightarrow> int) \<Rightarrow> int" where
  "largest_move ks b t = fold (\<lambda>k m. max m \<bar>t k - b k\<bar>) ks 0"

record allocation =
  al_allocations :: "string \<Rightarrow> int"
  al_unallocated :: int
  al_clamped :: bool
  al_target :: "(string \<Rightarrow> int) \<times> int"
  al_repos :: "(string \<times> (string \<times> int) list) list"

definition weights_of :: "fields \<Rightarrow> string \<Rightarrow> int" where
  "weights_of o' k = (case field o' k of Some w \<Rightarrow> w | None \<Rightarrow> 0)"

definition repo_split :: "int \<Rightarrow> fields \<Rightarrow> (string \<times> int) list option" where
  "repo_split amount rw =
     (let refs = sorted_keys rw
      in if \<exists>r \<in> set refs. \<not> is_weight (field rw r) then None
         else Some (map (\<lambda>r. (r, largest_remainder amount refs (weights_of rw) r)) refs))"

fun repo_splits :: "(string \<Rightarrow> bool) \<Rightarrow> (string \<Rightarrow> int) \<Rightarrow> (string \<times> fields) list \<Rightarrow> (string \<times> (string \<times> int) list) list option" where
  "repo_splits known alloc [] = Some []"
| "repo_splits known alloc ((p, rw) # ps) =
     (if \<not> known p then None
      else (case repo_split (alloc p) rw of None \<Rightarrow> None
        | Some s \<Rightarrow> map_option (\<lambda>rest. (p, s) # rest) (repo_splits known alloc ps)))"

definition target_of :: "int \<Rightarrow> (string \<Rightarrow> int) \<Rightarrow> string list \<Rightarrow> (string \<Rightarrow> int) \<Rightarrow> (string \<Rightarrow> int) \<times> int" where
  "target_of tot floors entries w =
     (let remainder = tot - total_of entries floors;
          any = (\<exists>k \<in> set entries. w k > 0);
          shares = largest_remainder (if any then remainder else 0) entries w
      in (\<lambda>k. floors k + shares k, if any then 0 else remainder))"

text \<open>The step: the vector to apply, its unallocated money and whether the step bound.\<close>

definition stepped ::
  "int \<Rightarrow> string list \<Rightarrow> (string \<Rightarrow> int) \<times> int \<Rightarrow> int \<Rightarrow> (string \<Rightarrow> int) \<times> int \<Rightarrow> (string \<Rightarrow> int) \<times> int \<times> bool" where
  "stepped tot entries target pct before =
     (let ks = unallocated_key # entries;
          b = step_vector (fst before) (snd before);
          t = step_vector (fst target) (snd target);
          step = trunc_div (tot * pct) 100;
          largest = largest_move ks b t
      in if largest > step then (let x = blend ks b t step largest in (x, x unallocated_key, True))
         else (fst target, snd target, False))"

definition allocate :: "envelope \<Rightarrow> fields \<Rightarrow> vector option \<Rightarrow> (string \<times> fields) list \<Rightarrow> allocation option" where
  "allocate e weights current repos =
     (case envelope_numbers e of None \<Rightarrow> None
      | Some (tot, floors, entries) \<Rightarrow>
          if (\<exists>k \<in> set entries. \<not> is_weight (field weights k)) \<or> (\<exists>k \<in> set (map fst weights). k \<notin> set entries) then None
          else (let target = target_of tot floors entries (weights_of weights)
                in case (case current of
                     None \<Rightarrow> Some (fst target, snd target, False)
                   | Some v \<Rightarrow>
                       (case Option.bind (en_delegation e) dg_max_step_pct of None \<Rightarrow> None
                        | Some pct \<Rightarrow> if pct < 1 \<or> pct > 100 then None
                            else map_option (stepped tot entries target pct) (vector_numbers v entries tot))) of
                   None \<Rightarrow> None
                 | Some (alloc, u, clamped) \<Rightarrow>
                     map_option (\<lambda>rs. \<lparr>al_allocations = alloc, al_unallocated = u, al_clamped = clamped,
                                       al_target = target, al_repos = rs\<rparr>)
                       (repo_splits (\<lambda>p. p \<in> set entries \<and> p \<noteq> other_id) alloc repos)))"

definition neutral_allocation :: "envelope \<Rightarrow> allocation option" where
  "neutral_allocation e = allocate e (en_weights e) None []"

definition repo_shares :: "fields \<Rightarrow> (string \<times> fields) list \<Rightarrow> (string \<times> (string \<times> int) list) list option" where
  "repo_shares allocations repos =
     (let kept = filter (\<lambda>(p, _). p \<noteq> other_id \<and> map_of allocations p \<noteq> None) repos
      in if \<exists>p \<in> set (map fst kept). micros (field allocations p) = None then None
         else repo_splits (\<lambda>_. True) (amounts allocations) kept)"

definition rebase_weights :: "fields \<Rightarrow> int \<Rightarrow> (string \<Rightarrow> int) \<Rightarrow> string list \<Rightarrow> string \<Rightarrow> int" where
  "rebase_weights old u floors entries k =
     (if k = unallocated_key then u
      else (if k \<in> set (map fst old) then max 0 (amounts old k - floors k) else 0)
           + (if k = other_id then total_of (filter (\<lambda>i. i \<notin> set entries) (sorted_keys old)) (amounts old) else 0))"

definition rebase :: "vector \<Rightarrow> envelope \<Rightarrow> ((string \<Rightarrow> int) \<times> int) option" where
  "rebase v e =
     (case envelope_numbers e of None \<Rightarrow> None
      | Some (tot, floors, entries) \<Rightarrow>
          (case unallocated_of v of None \<Rightarrow> None
           | Some u \<Rightarrow>
               if \<not> all_micros (ve_allocations v) (map fst (ve_allocations v)) then None
               else (let w = rebase_weights (ve_allocations v) u floors entries;
                         ks = unallocated_key # entries;
                         remainder = tot - total_of entries floors;
                         shares = largest_remainder remainder ks w
                     in Some (\<lambda>k. floors k + shares k,
                              if \<exists>k \<in> set ks. w k > 0 then shares unallocated_key else remainder))))"

section \<open>Handing out what the floors left\<close>

lemma total_of_simps [simp]: "total_of [] f = 0" "total_of (k # ks) f = f k + total_of ks f"
  by (simp_all add: total_of_def)

lemma total_of_add: "total_of ks (\<lambda>k. f k + g k) = total_of ks f + total_of ks g"
  by (induction ks) auto

lemma total_of_diff: "total_of ks (\<lambda>k. f k - g k) = total_of ks f - (total_of ks g :: int)"
  by (induction ks) auto

lemma total_of_mult: "total_of ks (\<lambda>k. c * f k) = c * total_of ks f"
  by (induction ks) (auto simp: algebra_simps)

lemma total_of_cong: "(\<And>k. k \<in> set ks \<Longrightarrow> f k = g k) \<Longrightarrow> total_of ks f = total_of ks g"
  by (induction ks) auto

lemma total_of_mono: "(\<And>k. k \<in> set ks \<Longrightarrow> f k \<le> g k) \<Longrightarrow> total_of ks f \<le> total_of ks g"
  by (induction ks) (auto intro: add_mono)

lemma total_of_nonneg: "(\<And>k. k \<in> set ks \<Longrightarrow> 0 \<le> f k) \<Longrightarrow> 0 \<le> total_of ks f"
  by (induction ks) (auto intro: add_nonneg_nonneg)

lemma total_of_member: "(\<And>k. k \<in> set ks \<Longrightarrow> 0 \<le> f k) \<Longrightarrow> k \<in> set ks \<Longrightarrow> f k \<le> total_of ks f"
proof (induction ks)
  case (Cons x ks)
  have "0 \<le> total_of ks f" "0 \<le> f x" using Cons.prems(1) by (auto intro: total_of_nonneg)
  with Cons show ?case by (cases "k = x") fastforce+
qed simp

lemma total_of_sort: "total_of (sort_key g ks) f = total_of ks f"
proof -
  have "sum_list (map f (insort_key g x xs)) = f x + sum_list (map f xs)" for x xs
    by (induction xs) auto
  then show ?thesis unfolding total_of_def by (induction ks) auto
qed

lemma indicator_sum:
  assumes "distinct ks" "set W \<subseteq> set ks" "distinct W"
  shows "total_of ks (\<lambda>k. if k \<in> set W then 1 else 0) = int (length W)"
proof -
  have "total_of ks (\<lambda>k. if k \<in> S then 1 else 0) = int (card (S \<inter> set ks))" for S
    using assms(1)
  proof (induction ks)
    case (Cons x ks)
    have "S \<inter> set (x # ks) = (if x \<in> S then insert x (S \<inter> set ks) else S \<inter> set ks)" by auto
    with Cons show ?case by (auto simp: card_insert_if)
  qed simp
  from this [of "set W"] show ?thesis using assms(2,3) by (simp add: Int_absorb2 distinct_card)
qed

text \<open>A share of the fractions: fractions below \<open>d\<close> that sum to \<open>d\<close> times \<open>left\<close>.\<close>

lemma left_bounds:
  assumes "\<And>k. k \<in> set ks \<Longrightarrow> 0 \<le> f k \<and> f k < d" "total_of ks f = d * left" "0 < d"
  shows "0 \<le> left" "left \<le> int (length ks)"
proof -
  have "0 \<le> total_of ks f" using assms(1) by (intro total_of_nonneg) auto
  then show "0 \<le> left" using assms(2,3) by (simp add: zero_le_mult_iff)
  have "total_of ks f \<le> total_of ks (\<lambda>_. d)" using assms(1) by (intro total_of_mono) (auto simp: less_imp_le)
  also have "total_of ks (\<lambda>_. d) = d * int (length ks)" by (induction ks) (auto simp: algebra_simps)
  finally show "left \<le> int (length ks)" using assms(2,3) by simp
qed

lemma winners_sub: "set (winners ks f left) \<subseteq> set ks"
  using set_take_subset [of "nat left" "sort_key (\<lambda>k. - f k) ks"] by (simp add: winners_def)

lemma winners_count:
  assumes "distinct ks" "0 \<le> left" "left \<le> int (length ks)"
  shows "total_of ks (\<lambda>k. if k \<in> set (winners ks f left) then 1 else 0) = left"
proof -
  have "distinct (winners ks f left)" using assms(1) by (simp add: winners_def)
  then have "total_of ks (\<lambda>k. if k \<in> set (winners ks f left) then 1 else 0) = int (length (winners ks f left))"
    using assms(1) winners_sub by (intro indicator_sum) auto
  also have "\<dots> = left" using assms(2,3) by (simp add: winners_def)
  finally show ?thesis .
qed

lemma winners_positive:
  assumes "\<And>k. k \<in> set ks \<Longrightarrow> 0 \<le> f k \<and> f k < d" "total_of ks f = d * left" "0 < d"
    and "k \<in> set (winners ks f left)"
  shows "0 < f k"
proof (rule ccontr)
  assume "\<not> 0 < f k"
  then have z: "f k = 0" using assms(1,4) winners_sub [of ks f left] by force
  let ?s = "sort_key (\<lambda>k. - f k) ks"
  obtain i where i: "i < nat left" "i < length ?s" "?s ! i = k"
    using assms(4) by (auto simp: winners_def in_set_conv_nth)
  have "sorted (map (\<lambda>k. - f k) ?s)" by simp
  then have le: "f (?s ! j) \<le> 0" if "i \<le> j" "j < length ?s" for j
    using sorted_nth_mono [of "map (\<lambda>k. - f k) ?s" i j] that i z by simp
  have rest: "total_of (drop i ?s) f \<le> total_of (drop i ?s) (\<lambda>_. 0)"
  proof (rule total_of_mono)
    fix x assume "x \<in> set (drop i ?s)"
    then obtain j where "j < length (drop i ?s)" "drop i ?s ! j = x" by (auto simp: in_set_conv_nth)
    then show "f x \<le> 0" using le [of "i + j"] by simp
  qed
  have zero: "total_of xs (\<lambda>_. 0) = 0" for xs by (induction xs) auto
  have first: "total_of (take i ?s) f \<le> d * int i"
  proof -
    have "total_of (take i ?s) f \<le> total_of (take i ?s) (\<lambda>_. d)"
      using assms(1) by (intro total_of_mono) (auto simp: less_imp_le dest!: in_set_takeD)
    also have "total_of (take i ?s) (\<lambda>_. d) = d * int (length (take i ?s))"
      by (simp add: total_of_def sum_list_triv del: length_take)
    finally show ?thesis using i by simp
  qed
  have "total_of ks f = total_of (take i ?s @ drop i ?s) f" by (simp add: total_of_sort)
  also have "\<dots> = total_of (take i ?s) f + total_of (drop i ?s) f" by (simp add: total_of_def del: append_take_drop_id)
  finally have "d * left \<le> d * int i" using first rest zero assms(2) by simp
  with assms(3) i show False by simp
qed

lemma trunc_div_nonneg: "0 \<le> a \<Longrightarrow> 0 < b \<Longrightarrow> trunc_div a b = a div b \<and> trunc_mod a b = a mod b"
  by (auto simp: trunc_div_def trunc_mod_def sgn_if minus_mult_div_eq_mod [symmetric])

lemma floor_div_div: "0 < b \<Longrightarrow> floor_div a b = a div b"
proof -
  assume b: "0 < b"
  show ?thesis
  proof (cases "0 \<le> a")
    case True
    with b trunc_div_nonneg [OF True b] show ?thesis by (simp add: floor_div_def)
  next
    case False
    define q r where "q = (- a) div b" and "r = (- a) mod b"
    have qr: "- a = b * q + r" "0 \<le> r" "r < b" using b by (simp_all add: q_def r_def)
    have t: "trunc_div a b = - q" using False b by (simp add: trunc_div_def q_def sgn_if)
    then have m: "trunc_mod a b = - r" using qr by (simp add: trunc_mod_def)
    have "a div b = (if r = 0 then - q else - q - 1)"
    proof (cases "r = 0")
      case True
      then show ?thesis using qr b by (auto intro!: int_div_pos_eq [of _ _ _ 0])
    next
      case r0: False
      have "a = b * (- q - 1) + (b - r)" using qr(1) by (simp add: algebra_simps)
      then show ?thesis using r0 qr b by (auto intro!: int_div_pos_eq [of _ _ _ "b - r"])
    qed
    then show ?thesis using False b t m by (auto simp: floor_div_def Let_def)
  qed
qed

section \<open>The split and the blend\<close>

lemma largest_remainder_spec:
  assumes "distinct ks" "0 \<le> amount" "\<And>k. k \<in> set ks \<Longrightarrow> 0 \<le> w k" "total_of ks w \<noteq> 0"
  shows "total_of ks (largest_remainder amount ks w) = amount"
    "k \<in> set ks \<Longrightarrow> \<bar>largest_remainder amount ks w k * total_of ks w - amount * w k\<bar> < total_of ks w"
    "k \<in> set ks \<Longrightarrow> amount * w k div total_of ks w \<le> largest_remainder amount ks w k"
proof -
  define tot where "tot = total_of ks w"
  define q where "q = (\<lambda>k. amount * w k div tot)"
  define r where "r = (\<lambda>k. amount * w k mod tot)"
  have tot: "0 < tot" using total_of_nonneg [of ks w] assms(3,4) by (simp add: tot_def)
  have pos: "k \<in> set ks \<Longrightarrow> 0 \<le> amount * w k" for k using assms(2,3) by simp
  have fr: "k \<in> set ks \<Longrightarrow> 0 \<le> r k \<and> r k < tot" for k using tot by (simp add: r_def)
  have "total_of ks (\<lambda>k. amount * w k) = total_of ks (\<lambda>k. tot * q k + r k)"
    by (rule total_of_cong) (simp add: q_def r_def)
  then have "amount * tot = tot * total_of ks q + total_of ks r"
    by (simp add: total_of_mult total_of_add tot_def)
  then have left: "total_of ks r = tot * (amount - total_of ks q)" by (simp add: algebra_simps)
  have td: "k \<in> set ks \<Longrightarrow> trunc_div (amount * w k) tot = q k \<and> trunc_mod (amount * w k) tot = r k" for k
    using trunc_div_nonneg [OF pos tot] by (simp add: q_def r_def)
  have given: "total_of ks (\<lambda>k. trunc_div (amount * w k) tot) = total_of ks q"
    using td by (intro total_of_cong) simp
  define W where "W = winners ks (\<lambda>k. trunc_mod (amount * w k) tot) (amount - total_of ks q)"
  have eq: "largest_remainder amount ks w k = trunc_div (amount * w k) tot + (if k \<in> set W then 1 else 0)" for k
    using assms(4) by (simp add: largest_remainder_def tot_def [symmetric] Let_def given W_def)
  have fr': "k \<in> set ks \<Longrightarrow> 0 \<le> trunc_mod (amount * w k) tot \<and> trunc_mod (amount * w k) tot < tot" for k
    using fr td by simp
  have left': "total_of ks (\<lambda>k. trunc_mod (amount * w k) tot) = tot * (amount - total_of ks q)"
    using left td by (metis (no_types, lifting) total_of_cong)
  have lb: "0 \<le> amount - total_of ks q" "amount - total_of ks q \<le> int (length ks)"
    using left_bounds [OF fr left tot] by auto
  have "total_of ks (largest_remainder amount ks w) = total_of ks (\<lambda>k. q k + (if k \<in> set W then 1 else 0))"
    using td by (intro total_of_cong) (simp add: eq)
  also have "\<dots> = total_of ks q + (amount - total_of ks q)"
    using winners_count [OF assms(1) lb, of "\<lambda>k. trunc_mod (amount * w k) tot"] by (simp add: total_of_add W_def)
  finally show "total_of ks (largest_remainder amount ks w) = amount" by simp
  show "amount * w k div total_of ks w \<le> largest_remainder amount ks w k" if k: "k \<in> set ks"
    using td [OF k] by (simp add: eq q_def tot_def)
  show "\<bar>largest_remainder amount ks w k * total_of ks w - amount * w k\<bar> < total_of ks w" if k: "k \<in> set ks"
  proof -
    have win: "k \<in> set W \<Longrightarrow> 0 < r k"
      using winners_positive [OF fr' left' tot, of k] td [OF k] by (simp add: W_def)
    have "amount * w k = q k * tot + r k" by (simp add: q_def r_def)
    then show ?thesis using td [OF k] fr [OF k] win by (auto simp: eq tot_def [symmetric] algebra_simps)
  qed
qed

lemma largest_remainder_zero: "total_of ks w = 0 \<Longrightarrow> largest_remainder amount ks w k = 0"
  by (simp add: largest_remainder_def)

lemma largest_remainder_nonneg:
  assumes "distinct ks" "0 \<le> amount" "\<And>k. k \<in> set ks \<Longrightarrow> 0 \<le> w k" "k \<in> set ks"
  shows "0 \<le> largest_remainder amount ks w k"
proof (cases "total_of ks w = 0")
  case False
  have "0 < total_of ks w" using False total_of_nonneg [of ks w] assms(3) by simp
  then have "0 \<le> amount * w k div total_of ks w" using assms by (simp add: pos_imp_zdiv_nonneg_iff)
  with largest_remainder_spec(3) [OF assms(1-3) False assms(4)] show ?thesis by linarith
qed (simp add: largest_remainder_zero)

lemma largest_move_ge: "k \<in> set ks \<Longrightarrow> \<bar>t k - b k\<bar> \<le> largest_move ks b t" "0 \<le> largest_move ks b t"
proof -
  have mono: "m \<le> fold (\<lambda>k m. max m \<bar>t k - b k\<bar>) xs m" for m xs
    by (induction xs arbitrary: m) (auto intro: order_trans [OF max.cobounded1])
  show "0 \<le> largest_move ks b t" using mono [of 0 ks] by (simp add: largest_move_def)
  have "k \<in> set xs \<Longrightarrow> \<bar>t k - b k\<bar> \<le> fold (\<lambda>k m. max m \<bar>t k - b k\<bar>) xs m" for xs m
  proof (induction xs arbitrary: m)
    case (Cons x xs)
    then show ?case using mono [of "max m \<bar>t x - b x\<bar>" xs] by (cases "k = x") auto
  qed simp
  then show "k \<in> set ks \<Longrightarrow> \<bar>t k - b k\<bar> \<le> largest_move ks b t" by (simp add: largest_move_def)
qed

lemma scaled_move_bounds:
  assumes "\<bar>d\<bar> \<le> (largest::int)" "0 \<le> step" "step < largest"
  shows "- step \<le> d * step div largest" "d * step div largest + (if 0 < d * step mod largest then 1 else 0) \<le> step"
    "min 0 d \<le> d * step div largest" "d * step div largest + (if 0 < d * step mod largest then 1 else 0) \<le> max 0 d"
proof -
  have L: "0 < largest" using assms by simp
  define q r where "q = d * step div largest" and "r = d * step mod largest"
  have qr: "d * step = largest * q + r" "0 \<le> r" "r < largest" using L by (simp_all add: q_def r_def)
  have ub: "x * largest \<ge> d * step \<Longrightarrow> q + (if 0 < r then 1 else 0) \<le> x" for x
  proof -
    assume "x * largest \<ge> d * step"
    then have "largest * q + r \<le> largest * x" using qr(1) by (simp add: mult.commute)
    then have h: "r \<le> largest * (x - q)" by (simp add: algebra_simps)
    show "q + (if 0 < r then 1 else 0) \<le> x"
    proof (cases "0 < r")
      case True
      with h have "0 < largest * (x - q)" by linarith
      with L have "0 < x - q" by (simp add: zero_less_mult_iff)
      with True show ?thesis by simp
    next
      case False
      with h qr(2) have "0 \<le> largest * (x - q)" by linarith
      with L False show ?thesis by (simp add: zero_le_mult_iff)
    qed
  qed
  have lb: "x * largest \<le> d * step \<Longrightarrow> x \<le> q" for x
    using zdiv_mono1 [of "x * largest" "d * step" largest] L by (simp add: q_def)
  have d: "- largest \<le> d" "d \<le> largest" using assms(1) by auto
  show "- step \<le> d * step div largest"
    using lb [of "- step"] mult_right_mono [OF d(1) assms(2)] by (simp add: q_def [symmetric] mult.commute)
  show "d * step div largest + (if 0 < d * step mod largest then 1 else 0) \<le> step"
    using ub [of step] mult_right_mono [OF d(2) assms(2)] by (simp add: q_def [symmetric] r_def [symmetric] mult.commute)
  show "min 0 d \<le> d * step div largest"
  proof (cases "0 \<le> d")
    case True
    then show ?thesis using lb [of 0] assms(2) by (simp add: q_def [symmetric])
  next
    case False
    have "d * largest \<le> d * step" using False assms(3) by (simp add: mult_le_cancel_left)
    with False lb [of d] show ?thesis by (simp add: q_def [symmetric])
  qed
  show "d * step div largest + (if 0 < d * step mod largest then 1 else 0) \<le> max 0 d"
  proof (cases "0 \<le> d")
    case True
    have "d * step \<le> d * largest" using True assms(3) by (simp add: mult_left_mono)
    with True ub [of d] show ?thesis by (simp add: q_def [symmetric] r_def [symmetric])
  next
    case False
    have "d * step \<le> 0" using False assms(2) by (simp add: mult_le_0_iff)
    with False ub [of 0] show ?thesis by (simp add: q_def [symmetric] r_def [symmetric])
  qed
qed

lemma blend_spec:
  assumes "distinct ks" "total_of ks b = total_of ks t" "0 \<le> step" "step < largest_move ks b t"
  shows "total_of ks (blend ks b t step (largest_move ks b t)) = total_of ks b"
    "k \<in> set ks \<Longrightarrow> \<bar>blend ks b t step (largest_move ks b t) k - b k\<bar> \<le> step"
    "k \<in> set ks \<Longrightarrow> min (b k) (t k) \<le> blend ks b t step (largest_move ks b t) k"
    "k \<in> set ks \<Longrightarrow> blend ks b t step (largest_move ks b t) k \<le> max (b k) (t k)"
proof -
  define D where "D = largest_move ks b t"
  have D: "0 < D" using assms(3,4) by (simp add: D_def)
  define q where "q = (\<lambda>k. (t k - b k) * step div D)"
  define r where "r = (\<lambda>k. (t k - b k) * step mod D)"
  have fd: "floor_div x D = x div D" for x using floor_div_div [OF D] by simp
  have "total_of ks (\<lambda>k. step * (t k - b k)) = total_of ks (\<lambda>k. D * q k + r k)"
    by (rule total_of_cong) (simp add: q_def r_def mult.commute)
  then have "0 = D * total_of ks q + total_of ks r"
    using assms(2) by (simp add: total_of_mult total_of_add total_of_diff)
  moreover have lq: "total_of ks b - total_of ks (\<lambda>k. b k + q k) = - total_of ks q" by (simp add: total_of_add)
  ultimately have left: "total_of ks r = D * (total_of ks b - total_of ks (\<lambda>k. b k + q k))" by simp
  have fr: "k \<in> set ks \<Longrightarrow> 0 \<le> r k \<and> r k < D" for k using D by (simp add: r_def)
  define W where "W = winners ks r (total_of ks b - total_of ks (\<lambda>k. b k + q k))"
  have rem: "(\<lambda>k. (t k - b k) * step - q k * D) = r" by (auto simp: q_def r_def minus_div_mult_eq_mod)
  have eq: "blend ks b t step D k = b k + q k + (if k \<in> set W then 1 else 0)" for k
    unfolding blend_def Let_def fd W_def q_def [symmetric] rem by simp
  have lb: "0 \<le> total_of ks b - total_of ks (\<lambda>k. b k + q k)" "total_of ks b - total_of ks (\<lambda>k. b k + q k) \<le> int (length ks)"
    using left_bounds [OF fr left D] by auto
  have "total_of ks (blend ks b t step D) = total_of ks (\<lambda>k. (b k + q k) + (if k \<in> set W then 1 else 0))"
    by (rule total_of_cong) (simp add: eq)
  also have "\<dots> = total_of ks b"
    using winners_count [OF assms(1) lb, of r] by (simp add: total_of_add [of ks "\<lambda>k. b k + q k"] W_def)
  finally show "total_of ks (blend ks b t step (largest_move ks b t)) = total_of ks b" by (simp add: D_def)
  have win: "k \<in> set W \<Longrightarrow> 0 < r k" for k
    using winners_positive [OF fr left D, of k] by (simp add: W_def)
  have move: "\<bar>t k - b k\<bar> \<le> D" if "k \<in> set ks" for k using largest_move_ge(1) [OF that] by (simp add: D_def)
  have bl: "q k \<le> q k + (if k \<in> set W then 1 else 0)" "q k + (if k \<in> set W then 1 else 0) \<le> q k + (if 0 < r k then 1 else 0)" for k
    using win by auto
  show "\<bar>blend ks b t step (largest_move ks b t) k - b k\<bar> \<le> step" if k: "k \<in> set ks"
    using scaled_move_bounds(1,2) [OF move [OF k] assms(3)] assms(4) bl [of k]
    by (auto simp: D_def [symmetric] eq q_def r_def split: if_splits)
  show "min (b k) (t k) \<le> blend ks b t step (largest_move ks b t) k" if k: "k \<in> set ks"
    using scaled_move_bounds(3) [OF move [OF k] assms(3)] assms(4) bl(1) [of k]
    by (auto simp: D_def [symmetric] eq q_def r_def split: if_splits)
  show "blend ks b t step (largest_move ks b t) k \<le> max (b k) (t k)" if k: "k \<in> set ks"
    using scaled_move_bounds(4) [OF move [OF k] assms(3)] assms(4) bl(2) [of k]
    by (auto simp: D_def [symmetric] eq q_def r_def split: if_splits)
qed

section \<open>Allocation and re-base\<close>

lemma envelope_numbers_Some:
  assumes "envelope_numbers e = Some (tot, floors, entries)"
  shows "entries = envelope_entries e" "floors = amounts (en_floors e)" "total_of entries floors \<le> tot"
    "micros (en_total e) = Some tot" "other_id \<in> set entries"
  using assms by (auto simp: envelope_numbers_def Let_def split: if_splits option.splits)

lemma micros_nonneg: "micros v = Some n \<Longrightarrow> 0 \<le> n \<and> n \<le> max_safe"
  by (auto simp: micros_def is_safe_def split: option.splits if_splits)

lemma amounts_nonneg: "0 \<le> amounts o' k"
  by (auto simp: amounts_def dest: micros_nonneg split: option.splits)

lemma entries_distinct: "distinct (map fst (en_floors e)) \<Longrightarrow> distinct (envelope_entries e)"
  by (simp add: envelope_entries_def sorted_keys_def)

lemma target_of_sum:
  assumes "distinct entries" "total_of entries floors \<le> tot" "\<And>k. k \<in> set entries \<Longrightarrow> 0 \<le> w k"
  shows "total_of entries (fst (target_of tot floors entries w)) + snd (target_of tot floors entries w) = tot"
    "k \<in> set entries \<Longrightarrow> floors k \<le> fst (target_of tot floors entries w) k"
    "0 \<le> snd (target_of tot floors entries w)"
proof -
  define rem where "rem = tot - total_of entries floors"
  have r: "0 \<le> rem" using assms(2) by (simp add: rem_def)
  have any: "total_of entries w \<noteq> 0 \<longleftrightarrow> (\<exists>k \<in> set entries. w k > 0)"
  proof
    assume "\<exists>k \<in> set entries. w k > 0"
    then show "total_of entries w \<noteq> 0" using total_of_member [of entries w] assms(3) by fastforce
  next
    assume n: "total_of entries w \<noteq> 0"
    show "\<exists>k \<in> set entries. w k > 0"
    proof (rule ccontr)
      assume "\<not> (\<exists>k \<in> set entries. w k > 0)"
      then have "total_of entries w = total_of entries (\<lambda>_. 0)"
        using assms(3) by (intro total_of_cong) (force intro: antisym simp: not_less)
      also have "\<dots> = 0" by (induction entries) auto
      finally show False using n by simp
    qed
  qed
  show "total_of entries (fst (target_of tot floors entries w)) + snd (target_of tot floors entries w) = tot"
  proof (cases "total_of entries w = 0")
    case True
    then have "\<not> (\<exists>k \<in> set entries. w k > 0)" using any by simp
    moreover have "largest_remainder a entries w = (\<lambda>_. 0)" for a using True by (simp add: largest_remainder_def)
    ultimately show ?thesis by (simp add: target_of_def Let_def)
  next
    case False
    then have "\<exists>k \<in> set entries. w k > 0" using any by simp
    then show ?thesis
      using largest_remainder_spec(1) [OF assms(1) r assms(3) False]
      by (simp add: target_of_def Let_def total_of_add rem_def [symmetric]) (simp add: rem_def)
  qed
  show "0 \<le> snd (target_of tot floors entries w)" using r by (simp add: target_of_def Let_def rem_def)
  show "floors k \<le> fst (target_of tot floors entries w) k" if "k \<in> set entries"
  proof -
    have "0 \<le> largest_remainder (if \<exists>k \<in> set entries. w k > 0 then rem else 0) entries w k"
      using r by (intro largest_remainder_nonneg assms(1,3) that) auto
    then show ?thesis unfolding rem_def by (simp add: target_of_def Let_def split del: if_split)
  qed
qed

lemma vector_numbers_Some:
  assumes "vector_numbers v entries tot = Some (b, u)"
  shows "b = amounts (ve_allocations v)" "0 \<le> u" "total_of entries b + u = tot"
  using assms by (auto simp: vector_numbers_def unallocated_of_def dest: micros_nonneg split: if_splits option.splits)

lemma step_vector_total:
  "unallocated_key \<notin> set entries \<Longrightarrow> total_of (unallocated_key # entries) (step_vector f u) = u + total_of entries f"
proof -
  assume n: "unallocated_key \<notin> set entries"
  have "total_of entries (step_vector f u) = total_of entries f"
    using n by (intro total_of_cong) (auto simp: step_vector_def)
  then show ?thesis by (simp add: step_vector_def)
qed

lemma stepped_spec:
  assumes "stepped tot entries (ta, tu) pct (b, u) = (x, y, c)"
    and "distinct entries" "unallocated_key \<notin> set entries" "0 \<le> tot" "0 \<le> pct"
    and "total_of entries ta + tu = tot" "total_of entries b + u = tot"
  shows "total_of entries x + y = tot"
    "k \<in> set entries \<Longrightarrow> min (b k) (ta k) \<le> x k \<and> \<bar>x k - b k\<bar> \<le> tot * pct div 100"
    "min u tu \<le> y \<and> \<bar>y - u\<bar> \<le> tot * pct div 100"
    "c \<or> (x = ta \<and> y = tu)"
proof -
  let ?ks = "unallocated_key # entries" and ?b = "step_vector b u" and ?t = "step_vector ta tu"
  define S where "S = tot * pct div 100"
  have S: "trunc_div (tot * pct) 100 = S" "0 \<le> S"
    using trunc_div_nonneg [of "tot * pct" 100] assms(4,5) by (simp_all add: S_def pos_imp_zdiv_nonneg_iff)
  have ne: "k \<noteq> unallocated_key" if "k \<in> set entries" for k using that assms(3) by auto
  have d: "distinct ?ks" using assms(2,3) by simp
  have eq: "total_of ?ks ?b = total_of ?ks ?t"
    using assms(6,7) step_vector_total [OF assms(3)] by (simp del: total_of_simps)
  have "total_of entries x + y = tot \<and> (\<forall>k \<in> set entries. min (b k) (ta k) \<le> x k \<and> \<bar>x k - b k\<bar> \<le> S) \<and>
      (min u tu \<le> y \<and> \<bar>y - u\<bar> \<le> S) \<and> (c \<or> (x = ta \<and> y = tu))"
  proof (cases "S < largest_move ?ks ?b ?t")
    case True
    then have x: "x = blend ?ks ?b ?t S (largest_move ?ks ?b ?t)" "y = x unallocated_key" "c"
      using assms(1) by (auto simp: stepped_def Let_def S)
    note bs = blend_spec [OF d eq S(2) True, folded x(1)]
    have "total_of entries x + y = total_of ?ks x" using x(2) by simp
    also have "\<dots> = tot" using bs(1) step_vector_total [OF assms(3), of b u] assms(7) by simp
    finally have "total_of entries x + y = tot" .
    moreover have "min (b k) (ta k) \<le> x k \<and> \<bar>x k - b k\<bar> \<le> S" if "k \<in> set entries" for k
      using bs(2,3) [of k] that ne [OF that] by (simp add: step_vector_def)
    moreover have "min u tu \<le> y \<and> \<bar>y - u\<bar> \<le> S"
      using bs(2,3) [of unallocated_key] x(2) by (simp add: step_vector_def)
    ultimately show ?thesis using x(3) by blast
  next
    case False
    then have x: "x = ta" "y = tu" using assms(1) by (auto simp: stepped_def Let_def S)
    have mv: "\<bar>?t k - ?b k\<bar> \<le> S" if "k \<in> set ?ks" for k using largest_move_ge(1) [OF that, of ?t ?b] False by simp
    have "\<bar>ta k - b k\<bar> \<le> S" if "k \<in> set entries" for k
      using mv [of k] that ne [OF that] by (simp add: step_vector_def)
    moreover have "\<bar>tu - u\<bar> \<le> S" using mv [of unallocated_key] by (simp add: step_vector_def)
    ultimately show ?thesis using x assms(6) by simp
  qed
  then show "total_of entries x + y = tot"
    "k \<in> set entries \<Longrightarrow> min (b k) (ta k) \<le> x k \<and> \<bar>x k - b k\<bar> \<le> tot * pct div 100"
    "min u tu \<le> y \<and> \<bar>y - u\<bar> \<le> tot * pct div 100" "c \<or> (x = ta \<and> y = tu)"
    by (auto simp: S_def)
qed

lemma allocate_Some:
  assumes "allocate e weights current repos = Some a"
  obtains tot floors entries where "envelope_numbers e = Some (tot, floors, entries)"
    "\<forall>k \<in> set entries. is_weight (field weights k)"
    "al_target a = target_of tot floors entries (weights_of weights)"
    "repo_splits (\<lambda>p. p \<in> set entries \<and> p \<noteq> other_id) (al_allocations a) repos = Some (al_repos a)"
    "case current of None \<Rightarrow> (al_allocations a, al_unallocated a) = al_target a \<and> \<not> al_clamped a
     | Some v \<Rightarrow> (\<exists>pct before. Option.bind (en_delegation e) dg_max_step_pct = Some pct \<and> 1 \<le> pct \<and> pct \<le> 100 \<and>
          vector_numbers v entries tot = Some before \<and>
          stepped tot entries (al_target a) pct before = (al_allocations a, al_unallocated a, al_clamped a))"
proof -
  obtain tot floors entries where n: "envelope_numbers e = Some (tot, floors, entries)"
    using assms by (auto simp: allocate_def split: option.splits)
  define target where "target = target_of tot floors entries (weights_of weights)"
  define st where "st = (case current of None \<Rightarrow> Some (fst target, snd target, False)
                   | Some v \<Rightarrow> (case Option.bind (en_delegation e) dg_max_step_pct of None \<Rightarrow> None
                        | Some pct \<Rightarrow> if pct < 1 \<or> pct > 100 then None
                            else map_option (stepped tot entries target pct) (vector_numbers v entries tot)))"
  have w: "\<forall>k \<in> set entries. is_weight (field weights k)"
    using assms n by (auto simp: allocate_def split: if_splits)
  obtain al u c where s: "st = Some (al, u, c)"
    and r: "map_option (\<lambda>rs. \<lparr>al_allocations = al, al_unallocated = u, al_clamped = c, al_target = target, al_repos = rs\<rparr>)
        (repo_splits (\<lambda>p. p \<in> set entries \<and> p \<noteq> other_id) al repos) = Some a"
    using assms n by (auto simp: allocate_def target_def st_def Let_def split: if_splits option.splits)
  from r obtain rs where rs: "repo_splits (\<lambda>p. p \<in> set entries \<and> p \<noteq> other_id) al repos = Some rs"
    "a = \<lparr>al_allocations = al, al_unallocated = u, al_clamped = c, al_target = target, al_repos = rs\<rparr>" by auto
  show ?thesis
  proof (rule that [OF n w])
    show "al_target a = target_of tot floors entries (weights_of weights)" by (simp add: rs target_def)
    show "repo_splits (\<lambda>p. p \<in> set entries \<and> p \<noteq> other_id) (al_allocations a) repos = Some (al_repos a)" using rs by simp
    show "case current of None \<Rightarrow> (al_allocations a, al_unallocated a) = al_target a \<and> \<not> al_clamped a
     | Some v \<Rightarrow> (\<exists>pct before. Option.bind (en_delegation e) dg_max_step_pct = Some pct \<and> 1 \<le> pct \<and> pct \<le> 100 \<and>
          vector_numbers v entries tot = Some before \<and>
          stepped tot entries (al_target a) pct before = (al_allocations a, al_unallocated a, al_clamped a))"
      using s rs(2) by (auto simp: st_def split: option.splits if_splits)
  qed
qed

lemma weights_nonneg: "is_weight (field ws k) \<Longrightarrow> 0 \<le> weights_of ws k"
  by (auto simp: is_weight_def weights_of_def split: option.splits)

lemma repo_split_sum:
  assumes "repo_split amount rw = Some s" "0 \<le> amount" "distinct (map fst rw)"
  shows "sum_list (map snd s) = (if total_of (sorted_keys rw) (weights_of rw) = 0 then 0 else amount) \<and> (\<forall>x \<in> set (map snd s). 0 \<le> x)"
proof -
  let ?refs = "sorted_keys rw"
  have s: "s = map (\<lambda>r. (r, largest_remainder amount ?refs (weights_of rw) r)) ?refs"
    and w: "\<And>r. r \<in> set ?refs \<Longrightarrow> 0 \<le> weights_of rw r"
    using assms(1) weights_nonneg by (auto simp: repo_split_def Let_def split: if_splits)
  have d: "distinct ?refs" using assms(3) by (simp add: sorted_keys_def)
  have "sum_list (map snd s) = total_of ?refs (largest_remainder amount ?refs (weights_of rw))"
    by (simp add: s total_of_def o_def)
  moreover have "total_of ?refs (\<lambda>_. 0) = 0" by (simp add: total_of_def)
  ultimately show ?thesis
    using largest_remainder_spec(1) [OF d assms(2) w] largest_remainder_nonneg [OF d assms(2) w]
    by (auto simp: s largest_remainder_def)
qed

lemma repo_splits_each:
  assumes "repo_splits known alloc ps = Some rs" "(p, s) \<in> set rs"
  shows "known p \<and> (\<exists>rw. (p, rw) \<in> set ps \<and> repo_split (alloc p) rw = Some s)"
  using assms
proof (induction ps arbitrary: rs)
  case (Cons x ps)
  obtain q rw where x: "x = (q, rw)" by (cases x)
  from Cons.prems(1) x obtain s' rest where h: "known q" "repo_split (alloc q) rw = Some s'"
    "repo_splits known alloc ps = Some rest" "rs = (q, s') # rest"
    by (auto split: if_splits option.splits)
  with Cons.IH [OF h(3)] Cons.prems(2) x show ?case by auto
qed simp

lemma allocate_total:
  assumes "allocate e weights current repos = Some a" "envelope_numbers e = Some (tot, floors, entries)"
    and "distinct (map fst (en_floors e))" "unallocated_key \<notin> set entries"
  shows "total_of entries (al_allocations a) + al_unallocated a = tot \<and> 0 \<le> al_unallocated a \<and>
    (\<forall>k \<in> set entries. 0 \<le> al_allocations a k \<and>
         (case current of None \<Rightarrow> floors k | Some v \<Rightarrow> min (floors k) (amounts (ve_allocations v) k)) \<le> al_allocations a k)"
proof -
  have en: "entries = envelope_entries e" "floors = amounts (en_floors e)" "total_of entries floors \<le> tot" "0 \<le> tot"
    using envelope_numbers_Some [OF assms(2)] micros_nonneg by auto
  have d: "distinct entries" using assms(3) en(1) entries_distinct by simp
  have fl: "0 \<le> floors k" for k by (simp add: en(2) amounts_nonneg)
  from assms(1) obtain tot' floors' entries' where A: "envelope_numbers e = Some (tot', floors', entries')"
    "\<forall>k \<in> set entries'. is_weight (field weights k)" "al_target a = target_of tot' floors' entries' (weights_of weights)"
    "repo_splits (\<lambda>p. p \<in> set entries' \<and> p \<noteq> other_id) (al_allocations a) repos = Some (al_repos a)"
    "case current of None \<Rightarrow> (al_allocations a, al_unallocated a) = al_target a \<and> \<not> al_clamped a
     | Some v \<Rightarrow> (\<exists>pct before. Option.bind (en_delegation e) dg_max_step_pct = Some pct \<and> 1 \<le> pct \<and> pct \<le> 100 \<and>
          vector_numbers v entries' tot' = Some before \<and>
          stepped tot' entries' (al_target a) pct before = (al_allocations a, al_unallocated a, al_clamped a))"
    by (rule allocate_Some)
  have eq: "tot' = tot" "floors' = floors" "entries' = entries" using A(1) assms(2) by auto
  have w: "\<And>k. k \<in> set entries \<Longrightarrow> 0 \<le> weights_of weights k" using A(2) weights_nonneg by (simp add: eq)
  note T = target_of_sum [where w = "weights_of weights", OF d en(3) w]
  obtain ta tu where t: "al_target a = (ta, tu)" by fastforce
  have tt: "total_of entries ta + tu = tot" "\<And>k. k \<in> set entries \<Longrightarrow> floors k \<le> ta k" "0 \<le> tu"
    using T t A(3) by (auto simp: eq)
  show ?thesis
  proof (cases current)
    case None
    with A(5) t tt show ?thesis using fl by (auto intro: order_trans [OF fl])
  next
    case (Some v)
    with A(5) obtain pct b u where s: "1 \<le> pct" "vector_numbers v entries tot = Some (b, u)"
      "stepped tot entries (ta, tu) pct (b, u) = (al_allocations a, al_unallocated a, al_clamped a)"
      by (auto simp: eq t)
    have v: "b = amounts (ve_allocations v)" "0 \<le> u" "total_of entries b + u = tot" using vector_numbers_Some [OF s(2)] by auto
    have p0: "0 \<le> pct" using s(1) by simp
    note st = stepped_spec [OF s(3) d assms(4) en(4) p0 tt(1) v(3)]
    have "0 \<le> al_allocations a k \<and> min (floors k) (b k) \<le> al_allocations a k" if "k \<in> set entries" for k
      using st(2) [OF that] tt(2) [OF that] fl [of k] amounts_nonneg [of "ve_allocations v" k] v(1) by auto
    moreover have "0 \<le> al_unallocated a" using st(3) tt(3) v(2) by auto
    ultimately show ?thesis using st(1) Some v(1) by simp
  qed
qed

text \<open>
  A project's money over its repos: one share each, none negative, none further than one micro-dollar
  from its exact proportion, and together the whole amount, or nothing when every repo weighs 0.
\<close>

definition fair_split :: "int \<Rightarrow> fields \<Rightarrow> (string \<times> int) list \<Rightarrow> bool" where
  "fair_split amount rw s \<longleftrightarrow>
     (let W = total_of (sorted_keys rw) (weights_of rw)
      in map fst s = sorted_keys rw
       \<and> sum_list (map snd s) = (if \<forall>r \<in> set (sorted_keys rw). weights_of rw r = 0 then 0 else amount)
       \<and> (\<forall>(r, x) \<in> set s. 0 \<le> x \<and> \<bar>x * W - amount * weights_of rw r\<bar> \<le> W))"

lemma repo_split_fair:
  assumes "repo_split amount rw = Some s" "0 \<le> amount" "distinct (map fst rw)"
  shows "fair_split amount rw s"
proof -
  let ?refs = "sorted_keys rw" and ?W = "total_of (sorted_keys rw) (weights_of rw)"
  have s: "s = map (\<lambda>r. (r, largest_remainder amount ?refs (weights_of rw) r)) ?refs"
    and w: "\<And>r. r \<in> set ?refs \<Longrightarrow> 0 \<le> weights_of rw r"
    using assms(1) weights_nonneg by (auto simp: repo_split_def Let_def split: if_splits)
  have d: "distinct ?refs" using assms(3) by (simp add: sorted_keys_def)
  have zero: "?W = 0 \<longleftrightarrow> (\<forall>r \<in> set ?refs. weights_of rw r = 0)"
    unfolding total_of_def using w by (subst sum_list_nonneg_eq_0_iff) auto
  have W: "0 \<le> ?W" unfolding total_of_def using w by (intro sum_list_nonneg) auto
  have near: "\<bar>x * ?W - amount * weights_of rw r\<bar> \<le> ?W" if "(r, x) \<in> set s" for r x
  proof (cases "?W = 0")
    case True
    moreover have "r \<in> set ?refs" using that s by auto
    ultimately show ?thesis using zero by simp
  next
    case False
    have "r \<in> set ?refs" "x = largest_remainder amount ?refs (weights_of rw) r" using that s by auto
    then show ?thesis using largest_remainder_spec(2) [OF d assms(2) w] False W by fastforce
  qed
  have "map fst s = ?refs" by (simp add: s o_def)
  moreover have "\<forall>(r, x) \<in> set s. 0 \<le> x \<and> \<bar>x * ?W - amount * weights_of rw r\<bar> \<le> ?W"
    using near repo_split_sum [OF assms] by force
  ultimately show ?thesis using repo_split_sum [OF assms] zero unfolding fair_split_def Let_def by simp
qed

lemma repo_splits_all:
  "repo_splits known alloc ps = Some rs \<Longrightarrow>
   list_all2 (\<lambda>(p, rw) (q, s). q = p \<and> known p \<and> repo_split (alloc p) rw = Some s) ps rs"
proof (induction ps arbitrary: rs)
  case (Cons x ps)
  obtain p rw where "x = (p, rw)" by (cases x)
  with Cons show ?case by (auto split: if_splits option.splits)
qed simp

text \<open>
  C8: An allocation never gives out more than the envelope: the entries and the unallocated money
  sum to the total exactly, nothing is negative, no entry is below its floor (below the lower of its
  floor and where it was, when a step holds it back), and every project the plan gives repos, an
  entry and never \<open>_other\<close>, has its allocation split over them, in the plan's order: a share for
  each, each within a micro-dollar of its proportion, that sum to the allocation exactly unless
  every repo of the project weighs nothing.
\<close>

theorem allocate_sound:
  assumes "allocate e weights current repos = Some a" "envelope_numbers e = Some (tot, floors, entries)"
    and "distinct (map fst (en_floors e))" "unallocated_key \<notin> set entries"
    and "\<forall>(p, rw) \<in> set repos. distinct (map fst rw)"
  shows "total_of entries (al_allocations a) + al_unallocated a = tot \<and> 0 \<le> al_unallocated a
    \<and> (\<forall>k \<in> set entries. 0 \<le> al_allocations a k \<and>
         (case current of None \<Rightarrow> floors k | Some v \<Rightarrow> min (floors k) (amounts (ve_allocations v) k)) \<le> al_allocations a k)
    \<and> list_all2 (\<lambda>(p, rw) (q, s). q = p \<and> p \<in> set entries \<and> p \<noteq> other_id \<and> fair_split (al_allocations a p) rw s) repos (al_repos a)"
proof -
  obtain tot' floors' entries' where A: "envelope_numbers e = Some (tot', floors', entries')"
    "repo_splits (\<lambda>p. p \<in> set entries' \<and> p \<noteq> other_id) (al_allocations a) repos = Some (al_repos a)"
    by (rule allocate_Some [OF assms(1)])
  have eq: "entries' = entries" using A(1) assms(2) by auto
  note main = allocate_total [OF assms(1-4)]
  have "list_all2 (\<lambda>(p, rw) (q, s). q = p \<and> p \<in> set entries \<and> p \<noteq> other_id \<and> fair_split (al_allocations a p) rw s) repos (al_repos a)"
  proof (rule list.rel_mono_strong [OF repo_splits_all [OF A(2)]])
    fix x y
    assume x: "x \<in> set repos" and y: "(case x of (p, rw) \<Rightarrow> \<lambda>(q, s). q = p \<and> (p \<in> set entries' \<and> p \<noteq> other_id) \<and> repo_split (al_allocations a p) rw = Some s) y"
    obtain p rw q s where xy: "x = (p, rw)" "y = (q, s)" by (metis surj_pair)
    have "distinct (map fst rw)" "0 \<le> al_allocations a p" using assms(5) main x y by (auto simp: xy eq)
    with y show "(case x of (p, rw) \<Rightarrow> \<lambda>(q, s). q = p \<and> p \<in> set entries \<and> p \<noteq> other_id \<and> fair_split (al_allocations a p) rw s) y"
      by (simp add: xy eq repo_split_fair)
  qed
  with main show ?thesis by blast
qed

abbreviation demo_envelope :: envelope where
  "demo_envelope \<equiv> \<lparr>en_version = 1, en_window = Day, en_total = Some 10, en_floors = [(''_other'', Some 1), (''a'', Some 2)],
     en_weights = [(''_other'', Some 0), (''a'', Some 1)],
     en_delegation = Some \<lparr>dg_enabled = True, dg_writers = [], dg_min_interval_hours = Some 1, dg_max_step_pct = Some 50, dg_max_plan_days = None\<rparr>\<rparr>"

lemma demo_entries: "envelope_entries demo_envelope = [''_other'', ''a'']"
  by (simp add: envelope_entries_def sorted_keys_def)

lemma demo_numbers: "envelope_numbers demo_envelope = Some (10, amounts (en_floors demo_envelope), [''_other'', ''a''])"
  using demo_entries
  by (simp add: envelope_numbers_def Let_def other_id_def all_micros_def micros_def field_def is_safe_def max_safe_def amounts_def)

lemma demo_allocates: "\<exists>a. allocate demo_envelope [(''_other'', Some 0), (''a'', Some 1)] None [] = Some a"
  using demo_numbers by (simp add: allocate_def is_weight_def field_def weight_max_def Let_def)

theorem allocate_sound_witness:
  "\<exists>a. allocate demo_envelope [(''_other'', Some 0), (''a'', Some 1)] None [] = Some a
     \<and> al_allocations a ''_other'' + al_allocations a ''a'' + al_unallocated a = 10"
proof -
  obtain a where a: "allocate demo_envelope [(''_other'', Some 0), (''a'', Some 1)] None [] = Some a"
    using demo_allocates by blast
  from allocate_sound [OF a demo_numbers] a show ?thesis by (simp add: unallocated_key_def)
qed

text \<open>
  C29: One plan moves the money by at most the step: with a vector in effect no entry, and not the
  unallocated money either, moves by more than \<open>floor(total * maxStepPct / 100)\<close> micro-dollars, and
  an allocation that was not clamped is the target itself.
\<close>

theorem step_bounded:
  assumes "allocate e weights (Some v) repos = Some a" "envelope_numbers e = Some (tot, floors, entries)"
    and "distinct (map fst (en_floors e))" "unallocated_key \<notin> set entries"
    and "Option.bind (en_delegation e) dg_max_step_pct = Some pct"
  shows "(\<forall>k \<in> set entries. \<bar>al_allocations a k - amounts (ve_allocations v) k\<bar> \<le> tot * pct div 100)
    \<and> (\<exists>u. unallocated_of v = Some u \<and> \<bar>al_unallocated a - u\<bar> \<le> tot * pct div 100)
    \<and> (al_clamped a \<or> (al_allocations a, al_unallocated a) = al_target a)"
proof -
  have en: "entries = envelope_entries e" "total_of entries floors \<le> tot" "0 \<le> tot"
    using envelope_numbers_Some [OF assms(2)] micros_nonneg by auto
  have d: "distinct entries" using assms(3) en(1) entries_distinct by simp
  from assms(1) obtain b u where A: "\<forall>k \<in> set entries. is_weight (field weights k)"
    "al_target a = target_of tot floors entries (weights_of weights)" "1 \<le> pct"
    "vector_numbers v entries tot = Some (b, u)"
    "stepped tot entries (al_target a) pct (b, u) = (al_allocations a, al_unallocated a, al_clamped a)"
    by (rule allocate_Some) (use assms(2,5) in auto)
  have w: "\<And>k. k \<in> set entries \<Longrightarrow> 0 \<le> weights_of weights k" using A(1) weights_nonneg by simp
  obtain ta tu where t: "al_target a = (ta, tu)" by fastforce
  have tt: "total_of entries ta + tu = tot"
    using target_of_sum(1) [where w = "weights_of weights", OF d en(2) w] t A(2) by simp
  note v = vector_numbers_Some [OF A(4)]
  have "unallocated_of v = Some u" using A(4) by (auto simp: vector_numbers_def split: if_splits option.splits)
  moreover have p0: "0 \<le> pct" using A(3) by simp
  moreover note st = stepped_spec [OF A(5) [unfolded t] d assms(4) en(3) p0 tt v(3)]
  ultimately show ?thesis using st(2,3,4) v(1) t by auto
qed

abbreviation demo_vector :: vector where
  "demo_vector \<equiv> \<lparr>ve_allocations = [(''_other'', Some 8), (''a'', Some 2)], ve_unallocated = None\<rparr>"

theorem step_bounded_witness:
  "\<exists>a. allocate demo_envelope [(''_other'', Some 0), (''a'', Some 1)] (Some demo_vector) [] = Some a
     \<and> \<bar>al_allocations a ''a'' - 2\<bar> \<le> 5"
proof -
  have sk: "sorted_keys (ve_allocations demo_vector) = [''_other'', ''a'']" by (simp add: sorted_keys_def)
  have vn: "\<exists>x. vector_numbers demo_vector [''_other'', ''a''] 10 = Some x"
    using sk by (simp add: vector_numbers_def all_micros_def micros_def field_def is_safe_def max_safe_def amounts_def unallocated_of_def)
  have "\<exists>a. allocate demo_envelope [(''_other'', Some 0), (''a'', Some 1)] (Some demo_vector) [] = Some a"
    using demo_numbers vn
    by (auto simp: allocate_def is_weight_def field_def weight_max_def Let_def split: prod.split)
  then obtain a where a: "allocate demo_envelope [(''_other'', Some 0), (''a'', Some 1)] (Some demo_vector) [] = Some a"
    by blast
  have "\<bar>al_allocations a ''a'' - amounts (ve_allocations demo_vector) ''a''\<bar> \<le> 10 * 50 div 100"
    using step_bounded [OF a demo_numbers] by (simp add: unallocated_key_def)
  moreover have "amounts (ve_allocations demo_vector) ''a'' = 2"
    by (simp add: amounts_def micros_def field_def is_safe_def max_safe_def)
  ultimately show ?thesis using a by auto
qed

lemma rebase_split:
  assumes "rebase v e = Some (alloc, u)" "envelope_numbers e = Some (tot, floors, entries)"
    and "distinct (map fst (en_floors e))" "unallocated_key \<notin> set entries"
  shows "total_of entries alloc + u = tot \<and> 0 \<le> u \<and> (\<forall>k \<in> set entries. floors k \<le> alloc k)
    \<and> (\<exists>w. unallocated_of v = Some (w unallocated_key)
         \<and> (\<forall>k \<in> set entries. w k = (if k \<in> set (map fst (ve_allocations v)) then max 0 (amounts (ve_allocations v) k - floors k) else 0)
              + (if k = other_id then total_of (filter (\<lambda>i. i \<notin> set entries) (sorted_keys (ve_allocations v))) (amounts (ve_allocations v)) else 0))
         \<and> (\<forall>k \<in> set entries. \<bar>(alloc k - floors k) * total_of (unallocated_key # entries) w - (tot - total_of entries floors) * w k\<bar>
               \<le> total_of (unallocated_key # entries) w))"
proof -
  have en: "entries = envelope_entries e" "total_of entries floors \<le> tot"
    using envelope_numbers_Some [OF assms(2)] by auto
  have d: "distinct (unallocated_key # entries)" using assms(3,4) en(1) entries_distinct by simp
  obtain u0 where u0: "unallocated_of v = Some u0"
    using assms(1,2) by (auto simp: rebase_def split: option.splits)
  define w where "w = rebase_weights (ve_allocations v) u0 floors entries"
  define R where "R = tot - total_of entries floors"
  let ?ks = "unallocated_key # entries"
  have R: "0 \<le> R" using en(2) by (simp add: R_def)
  have r: "alloc = (\<lambda>k. floors k + largest_remainder R ?ks w k)"
    "u = (if \<exists>k \<in> set ?ks. w k > 0 then largest_remainder R ?ks w unallocated_key else R)"
    using assms(1,2) u0 by (auto simp: rebase_def Let_def w_def R_def split: if_splits)
  have un: "0 \<le> u0" "u0 \<le> max_safe" using u0 micros_nonneg by (auto simp: unallocated_of_def)
  have w0: "0 \<le> w k" for k
    using un by (auto simp: w_def rebase_weights_def intro!: add_nonneg_nonneg total_of_nonneg amounts_nonneg)
  have wk: "w k = (if k \<in> set (map fst (ve_allocations v)) then max 0 (amounts (ve_allocations v) k - floors k) else 0)
      + (if k = other_id then total_of (filter (\<lambda>i. i \<notin> set entries) (sorted_keys (ve_allocations v))) (amounts (ve_allocations v)) else 0)"
    if "k \<in> set entries" for k
    using that assms(4) by (auto simp: w_def rebase_weights_def)
  have wu: "unallocated_of v = Some (w unallocated_key)" using u0 by (simp add: w_def rebase_weights_def)
  have shares: "total_of ?ks (largest_remainder R ?ks w) = (if total_of ?ks w = 0 then 0 else R)"
  proof (cases "total_of ?ks w = 0")
    case True
    then have "largest_remainder R ?ks w = (\<lambda>_. 0)" by (intro ext largest_remainder_zero)
    then show ?thesis using True by (simp only: if_True) (simp add: total_of_def)
  next
    case False
    with largest_remainder_spec(1) [OF d R w0] show ?thesis by simp
  qed
  have any: "(\<exists>k \<in> set ?ks. w k > 0) \<longleftrightarrow> total_of ?ks w \<noteq> 0"
  proof
    assume "\<exists>k \<in> set ?ks. w k > 0"
    then obtain k where "k \<in> set ?ks" "w k > 0" by blast
    then show "total_of ?ks w \<noteq> 0" using total_of_member [of ?ks w k] w0 by fastforce
  next
    assume n: "total_of ?ks w \<noteq> 0"
    show "\<exists>k \<in> set ?ks. w k > 0"
    proof (rule ccontr)
      assume "\<not> (\<exists>k \<in> set ?ks. w k > 0)"
      then have "w k = 0" if "k \<in> set ?ks" for k using w0 [of k] that by force
      then have "total_of ?ks w = total_of ?ks (\<lambda>_. 0)" by (rule total_of_cong)
      then show False using n by (simp add: total_of_def)
    qed
  qed
  have nn: "0 \<le> largest_remainder R ?ks w k" if "k \<in> set ?ks" for k
    using largest_remainder_nonneg [where w = w, OF d R _ that] w0 by blast
  have sum: "total_of entries alloc + u = tot"
  proof (cases "total_of ?ks w = 0")
    case True
    then have "largest_remainder R ?ks w = (\<lambda>_. 0)" by (intro ext largest_remainder_zero)
    with r any True show ?thesis by (simp add: R_def del: total_of_simps)
  next
    case False
    have "total_of entries alloc = total_of entries floors + total_of entries (largest_remainder R ?ks w)"
      by (simp add: r(1) total_of_add)
    moreover have "largest_remainder R ?ks w unallocated_key + total_of entries (largest_remainder R ?ks w) = R"
      using shares False by (simp only: if_False total_of_simps)
    moreover have "u = largest_remainder R ?ks w unallocated_key" using r(2) any False by (simp only: if_True not_False_eq_True)
    ultimately show ?thesis by (simp add: R_def)
  qed
  have near: "\<bar>(alloc k - floors k) * total_of ?ks w - R * w k\<bar> \<le> total_of ?ks w" if k: "k \<in> set entries" for k
  proof (cases "total_of ?ks w = 0")
    case True
    then have "w k = 0" using total_of_member [of ?ks w k] w0 [of k] k by (metis list.set_intros(2) order_antisym w0)
    then show ?thesis using True by (simp del: total_of_simps)
  next
    case False
    have "k \<in> set ?ks" using k by simp
    from largest_remainder_spec(2) [where w = w, OF d R _ False this] w0
    show ?thesis by (simp add: r(1) del: total_of_simps)
  qed
  have "0 \<le> u" using r(2) nn [of unallocated_key] R by (simp del: total_of_simps)
  moreover have "\<forall>k \<in> set entries. floors k \<le> alloc k" using nn by (simp add: r(1))
  ultimately show ?thesis using sum wk wu near by (intro conjI exI [of _ w]) (simp_all add: R_def [symmetric] del: total_of_simps)
qed

text \<open>
  An envelope change loses no money: the re-based vector covers the new envelope's entries, sums
  with its unallocated money to the new total exactly and keeps every new floor; money the old
  vector held above the new floors, the unallocated and the dropped entries' money, is what the
  headroom is split by.
\<close>

theorem rebase_sound:
  assumes "rebase v e = Some (alloc, u)" "envelope_numbers e = Some (tot, floors, entries)"
    and "distinct (map fst (en_floors e))" "unallocated_key \<notin> set entries"
  shows "total_of entries alloc + u = tot \<and> 0 \<le> u \<and> (\<forall>k \<in> set entries. floors k \<le> alloc k)
    \<and> (\<exists>w. unallocated_of v = Some (w unallocated_key)
         \<and> (\<forall>k \<in> set entries. w k = (if k \<in> set (map fst (ve_allocations v)) then max 0 (amounts (ve_allocations v) k - floors k) else 0)
              + (if k = other_id then total_of (filter (\<lambda>i. i \<notin> set entries) (sorted_keys (ve_allocations v))) (amounts (ve_allocations v)) else 0))
         \<and> (\<forall>k \<in> set entries. \<bar>(alloc k - floors k) * total_of (unallocated_key # entries) w - (tot - total_of entries floors) * w k\<bar>
               \<le> total_of (unallocated_key # entries) w))"
  by (rule rebase_split [OF assms])

theorem rebase_sound_witness:
  "\<exists>alloc u. rebase demo_vector demo_envelope = Some (alloc, u) \<and> alloc ''_other'' + alloc ''a'' + u = 10"
proof -
  have "\<exists>x. rebase demo_vector demo_envelope = Some x"
    using demo_numbers
    by (simp add: rebase_def Let_def unallocated_of_def micros_def is_safe_def max_safe_def all_micros_def field_def)
  then obtain alloc u where r: "rebase demo_vector demo_envelope = Some (alloc, u)" by fastforce
  from rebase_sound [OF r demo_numbers] r show ?thesis by (simp add: unallocated_key_def)
qed

end
