(* ===== verification/Json.thy ===== *)
theory Json
  imports Prelude "HOL-Library.Char_ord" "HOL-Library.List_Lexorder"
begin

text \<open>
  JSON values as \<open>JSON.parse\<close> gives them, and the canonical text of a value (canonicalJson of
  worker/src/priorities.mjs) with the proof that it identifies the value. A string is its UTF-8
  text, a lone surrogate as the three bytes of its code point, so the byte length of a text is its
  length here. An object is an association list without repeated keys. A number with an integer
  value is \<open>JInt\<close> (within the safe integers, where a number prints as its digits); any other number
  is \<open>JFloat\<close> with the text \<open>JSON.stringify\<close> gives it. The engine's parser is a parameter of the
  operations that read a text.
\<close>

datatype json = JNull | JBool bool | JInt int | JFloat string | JStr string
  | JArr "json list" | JObj "(string \<times> json) list"

section \<open>Results of a check\<close>

text \<open>A sequence of checks that stops at the first refusal.\<close>

fun sum_bind :: "'e + 'a \<Rightarrow> ('a \<Rightarrow> 'e + 'b) \<Rightarrow> 'e + 'b" where
  "sum_bind (Inl e) f = Inl e"
| "sum_bind (Inr x) f = f x"

lemma sum_bind_Inr: "sum_bind m f = Inr y \<longleftrightarrow> (\<exists>x. m = Inr x \<and> f x = Inr y)"
  by (cases m) auto

fun sum_map_list :: "('a \<Rightarrow> 'e + 'b) \<Rightarrow> 'a list \<Rightarrow> 'e + 'b list" where
  "sum_map_list f [] = Inr []"
| "sum_map_list f (x # xs) = sum_bind (f x) (\<lambda>y. sum_bind (sum_map_list f xs) (\<lambda>ys. Inr (y # ys)))"

lemma sum_map_list_Inr: "sum_map_list f xs = Inr ys \<longleftrightarrow> list_all2 (\<lambda>x y. f x = Inr y) xs ys"
  by (induction xs arbitrary: ys) (auto simp: sum_bind_Inr list_all2_Cons1)

section \<open>Code points\<close>

text \<open>The code points of a UTF-8 text.\<close>

definition lead_length :: "char \<Rightarrow> nat" where
  "lead_length c = (let n = of_char c :: nat in if n < 192 then 1 else if n < 224 then 2 else if n < 240 then 3 else 4)"

definition code_point :: "string \<Rightarrow> nat" where
  "code_point u =
     (case u of [] \<Rightarrow> 0
      | c # cs \<Rightarrow> foldl (\<lambda>a d. a * 64 + (of_char d :: nat) mod 64)
          (let n = of_char c in if n < 192 then n else if n < 224 then n mod 32 else if n < 240 then n mod 16 else n mod 8) cs)"

function code_points :: "string \<Rightarrow> nat list" where
  "code_points [] = []"
| "code_points (c # cs) = code_point (take (lead_length c) (c # cs)) # code_points (drop (lead_length c - 1) cs)"
  by pat_completeness auto
termination by (relation "measure length") (auto simp: lead_length_def)

text \<open>What \<open>String.prototype.trim\<close> removes: white space and line terminators.\<close>

definition is_space :: "nat \<Rightarrow> bool" where
  "is_space p \<longleftrightarrow> p \<in> set [9, 10, 11, 12, 13, 32, 160, 5760, 8232, 8233, 8239, 8287, 12288, 65279] \<or> 8192 \<le> p \<and> p \<le> 8202"

definition blank :: "string \<Rightarrow> bool" where
  "blank s \<longleftrightarrow> list_all is_space (code_points s)"

section \<open>Canonical text\<close>

definition hex_char :: "nat \<Rightarrow> char" where
  "hex_char n = ''0123456789abcdef'' ! n"

definition quote_char :: "char \<Rightarrow> string" where
  "quote_char c =
     (if c = CHR 0x22 \<or> c = CHR 0x5C then [CHR 0x5C, c]
      else if c = CHR 0x08 then [CHR 0x5C, CHR ''b''] else if c = CHR 0x0C then [CHR 0x5C, CHR ''f'']
      else if c = CHR 0x0A then [CHR 0x5C, CHR ''n''] else if c = CHR 0x0D then [CHR 0x5C, CHR ''r'']
      else if c = CHR 0x09 then [CHR 0x5C, CHR ''t'']
      else let n = of_char c :: nat
           in if n < 32 then [CHR 0x5C, CHR ''u'', CHR ''0'', CHR ''0'', hex_char (n div 16), hex_char (n mod 16)]
              else [c])"

definition json_quote :: "string \<Rightarrow> string" where
  "json_quote s = CHR 0x22 # concat (map quote_char s) @ [CHR 0x22]"

definition int_text :: "int \<Rightarrow> string" where
  "int_text n = (if n < 0 then CHR ''-'' # nat_text (nat (- n)) else nat_text (nat n))"

fun join_comma :: "string list \<Rightarrow> string" where
  "join_comma [] = []"
| "join_comma [x] = x"
| "join_comma (x # y # ys) = x @ CHR '','' # join_comma (y # ys)"

definition members_text :: "(string \<times> string) list \<Rightarrow> string" where
  "members_text kvs = join_comma (map (\<lambda>(k, t). json_quote k @ CHR '':'' # t) (sort_key fst kvs))"

primrec canonical_json :: "json \<Rightarrow> string" where
  "canonical_json JNull = ''null''"
| "canonical_json (JBool b) = (if b then ''true'' else ''false'')"
| "canonical_json (JInt n) = int_text n"
| "canonical_json (JFloat t) = t"
| "canonical_json (JStr s) = json_quote s"
| "canonical_json (JArr xs) = CHR ''['' # join_comma (map canonical_json xs) @ '']''"
| "canonical_json (JObj kvs) = CHR ''{'' # members_text (map (map_prod (\<lambda>k. k) canonical_json) kvs) @ ''}''"

section \<open>The canonical text identifies the value\<close>

definition hex_val :: "char \<Rightarrow> nat" where
  "hex_val c = (let n = of_char c in if n < 58 then n - 48 else n - 87)"

lemma hex_val_char: "n < 16 \<Longrightarrow> hex_val (hex_char n) = n"
proof -
  assume "n < 16"
  then have "n \<in> set [0..<16]" by simp
  then show ?thesis by (auto simp: hex_val_def hex_char_def upt_rec)
qed

text \<open>Reads back one quoted character.\<close>

fun unquote_char :: "string \<Rightarrow> char \<times> string" where
  "unquote_char (a # b # s) =
     (if a \<noteq> CHR 0x5C then (a, b # s)
      else if b = CHR ''b'' then (CHR 0x08, s) else if b = CHR ''f'' then (CHR 0x0C, s)
      else if b = CHR ''n'' then (CHR 0x0A, s) else if b = CHR ''r'' then (CHR 0x0D, s)
      else if b = CHR ''t'' then (CHR 0x09, s)
      else if b = CHR ''u'' then (char_of (16 * hex_val (s ! 2) + hex_val (s ! 3)), drop 4 s)
      else (b, s))"
| "unquote_char s = (hd s, tl s)"

lemma quote_char_cases:
  obtains (short) "c \<in> {CHR 0x22, CHR 0x5C, CHR 0x08, CHR 0x0C, CHR 0x0A, CHR 0x0D, CHR 0x09}"
  | (hex) "quote_char c = [CHR 0x5C, CHR ''u'', CHR ''0'', CHR ''0'', hex_char (of_char c div 16), hex_char (of_char c mod 16)]"
      "of_char c < (32::nat)"
  | (plain) "quote_char c = [c]" "c \<noteq> CHR 0x5C" "c \<noteq> CHR 0x22"
proof (cases "c \<in> {CHR 0x22, CHR 0x5C, CHR 0x08, CHR 0x0C, CHR 0x0A, CHR 0x0D, CHR 0x09}")
  case False
  then have n: "c \<noteq> CHR 0x5C" "c \<noteq> CHR 0x22" by simp_all
  have q: "quote_char c = (if of_char c < (32::nat)
      then [CHR 0x5C, CHR ''u'', CHR ''0'', CHR ''0'', hex_char (of_char c div 16), hex_char (of_char c mod 16)] else [c])"
    using False by (simp add: quote_char_def Let_def)
  show ?thesis
  proof (cases "of_char c < (32::nat)")
    case True
    show ?thesis by (rule hex [OF _ True]) (simp only: q True if_True)
  next
    case False
    show ?thesis by (rule plain [OF _ n]) (simp only: q False if_False)
  qed
qed (rule short)

lemma unquote_quote_char: "unquote_char (quote_char c @ x) = (c, x)"
proof (rule quote_char_cases [of c])
  assume "c \<in> {CHR 0x22, CHR 0x5C, CHR 0x08, CHR 0x0C, CHR 0x0A, CHR 0x0D, CHR 0x09}"
  then show ?thesis by (elim insertE emptyE) (simp_all add: quote_char_def)
next
  assume hex: "quote_char c = [CHR 0x5C, CHR ''u'', CHR ''0'', CHR ''0'', hex_char (of_char c div 16), hex_char (of_char c mod 16)]"
    "of_char c < (32::nat)"
  have "hex_val (hex_char (of_char c div 16)) = of_char c div 16" "hex_val (hex_char (of_char c mod 16)) = of_char c mod 16"
    using hex(2) by (auto intro!: hex_val_char)
  then show ?thesis by (simp add: hex(1))
next
  assume "quote_char c = [c]" "c \<noteq> CHR 0x5C" "c \<noteq> CHR 0x22"
  then show ?thesis by (cases x) simp_all
qed

lemma quote_char_prefix: "quote_char c @ x = quote_char d @ y \<Longrightarrow> c = d \<and> x = y"
  by (metis unquote_quote_char prod.inject)

lemma quote_char_head: "\<exists>a s. quote_char c = a # s \<and> a \<noteq> CHR 0x22"
proof (rule quote_char_cases [of c])
  assume "c \<in> {CHR 0x22, CHR 0x5C, CHR 0x08, CHR 0x0C, CHR 0x0A, CHR 0x0D, CHR 0x09}"
  then show ?thesis by (elim insertE emptyE) (simp_all add: quote_char_def)
qed simp_all

lemma json_quote_prefix:
  assumes "json_quote s @ x = json_quote t @ y"
  shows "s = t \<and> x = y"
proof -
  have "concat (map quote_char s) @ CHR 0x22 # x = concat (map quote_char t) @ CHR 0x22 # y \<Longrightarrow> s = t \<and> x = y"
  proof (induction s arbitrary: t)
    case Nil
    show ?case
    proof (cases t)
      case (Cons d ds)
      with Nil quote_char_head [of d] show ?thesis by auto
    qed (use Nil in simp)
  next
    case (Cons c cs)
    show ?case
    proof (cases t)
      case Nil
      with Cons.prems quote_char_head [of c] show ?thesis by auto
    next
      case t: (Cons d ds)
      from Cons.prems have "quote_char c @ concat (map quote_char cs) @ CHR 0x22 # x
          = quote_char d @ concat (map quote_char ds) @ CHR 0x22 # y" by (simp add: t)
      from quote_char_prefix [OF this] Cons.IH [of ds] show ?thesis by (simp add: t)
    qed
  qed
  with assms show ?thesis by (simp add: json_quote_def)
qed

text \<open>What may follow a value inside a text: no digit.\<close>

definition ends :: "string \<Rightarrow> bool" where
  "ends s \<longleftrightarrow> s = [] \<or> \<not> is_digit (hd s)"

lemma digits_prefix:
  "list_all is_digit a \<Longrightarrow> list_all is_digit b \<Longrightarrow> ends s \<Longrightarrow> ends t \<Longrightarrow> a @ s = b @ t \<Longrightarrow> a = b \<and> s = t"
proof (induction a arbitrary: b)
  case Nil
  then show ?case by (cases b) (auto simp: ends_def)
next
  case (Cons c cs)
  then show ?case by (cases b) (auto simp: ends_def)
qed

lemma nat_text_all_digits: "list_all is_digit (nat_text n)"
  using nat_text_digits by (auto simp: list_all_iff)

lemma nat_text_prefix: "ends s \<Longrightarrow> ends t \<Longrightarrow> nat_text a @ s = nat_text b @ t \<Longrightarrow> a = b \<and> s = t"
  by (drule (2) digits_prefix [OF nat_text_all_digits [of a] nat_text_all_digits [of b]]) (simp only: nat_text_inj)

lemma hd_nat_text: "nat_text n = c # r \<Longrightarrow> is_digit c"
  by (rule nat_text_digits [of c n]) simp

lemma minus_not_digit: "\<not> is_digit (CHR ''-'')"
  by (simp add: is_digit_def)

lemma minus_not_nat_text: "CHR ''-'' # u \<noteq> nat_text n @ v"
proof
  assume e: "CHR ''-'' # u = nat_text n @ v"
  obtain c r where c: "nat_text n = c # r" by (metis nat_text_not_Nil neq_Nil_conv)
  have "c = CHR ''-''" using e unfolding c append_Cons list.inject by (rule conjunct1 [THEN sym])
  with hd_nat_text [OF c] minus_not_digit show False by metis
qed

lemma int_text_prefix:
  assumes "ends s" "ends t" "int_text a @ s = int_text b @ t"
  shows "a = b \<and> s = t"
proof -
  note p = nat_text_prefix [OF assms(1,2)]
  consider "a < 0" "b < 0" | "a < 0" "\<not> b < 0" | "\<not> a < 0" "b < 0" | "\<not> a < 0" "\<not> b < 0" by blast
  then show ?thesis
  proof cases
    case 1
    with assms(3) have "nat_text (nat (- a)) @ s = nat_text (nat (- b)) @ t" by (simp only: int_text_def if_True append_Cons list.inject)
    from p [OF this] 1 show ?thesis by linarith
  next
    case 2
    with assms(3) have "CHR ''-'' # (nat_text (nat (- a)) @ s) = nat_text (nat b) @ t"
      by (simp only: int_text_def if_True if_False append_Cons)
    then show ?thesis by (simp only: minus_not_nat_text)
  next
    case 3
    with assms(3) have "CHR ''-'' # (nat_text (nat (- b)) @ t) = nat_text (nat a) @ s"
      by (simp only: int_text_def if_True if_False append_Cons)
    then show ?thesis by (simp only: minus_not_nat_text)
  next
    case 4
    with assms(3) have "nat_text (nat a) @ s = nat_text (nat b) @ t" by (simp only: int_text_def if_False)
    from p [OF this] 4 show ?thesis by linarith
  qed
qed

text \<open>A value in canonical form: no float, every object's keys in strictly ascending order.\<close>

fun in_form :: "json \<Rightarrow> bool" where
  "in_form (JFloat t) = False"
| "in_form (JArr xs) = list_all in_form xs"
| "in_form (JObj kvs) = (sorted_wrt (<) (map fst kvs) \<and> list_all (\<lambda>(k, v). in_form v) kvs)"
| "in_form v = True"

lemma sort_key_fst_same: "sorted_wrt (<) (map fst kvs) \<Longrightarrow> sort_key fst kvs = kvs"
  by (rule sort_key_id_if_sorted) (simp add: strict_sorted_iff)

lemma canonical_obj:
  "in_form (JObj kvs) \<Longrightarrow>
   canonical_json (JObj kvs) = CHR ''{'' # join_comma (map (\<lambda>(k, v). json_quote k @ CHR '':'' # canonical_json v) kvs) @ ''}''"
proof -
  assume f: "in_form (JObj kvs)"
  have "sort_key fst (map (map_prod (\<lambda>k. k) canonical_json) kvs) = map (map_prod (\<lambda>k. k) canonical_json) kvs"
    using f by (intro sort_key_fst_same) (simp add: comp_def)
  moreover have "map ((\<lambda>(k, t). json_quote k @ CHR '':'' # t) \<circ> map_prod (\<lambda>k. k) canonical_json) kvs
      = map (\<lambda>(k, v). json_quote k @ CHR '':'' # canonical_json v) kvs" by auto
  ultimately show ?thesis by (simp only: members_text_def canonical_json.simps map_map)
qed

lemma join_comma_prefix:
  assumes "\<And>x y s t. x \<in> set xs \<Longrightarrow> y \<in> set ys \<Longrightarrow> ends s \<Longrightarrow> ends t \<Longrightarrow> f x @ s = f y @ t \<Longrightarrow> x = y \<and> s = t"
    and "\<not> is_digit c" "c \<noteq> CHR '',''" "join_comma (map f xs) @ c # s = join_comma (map f ys) @ c # t"
    and "\<And>x. x \<in> set xs \<union> set ys \<Longrightarrow> f x \<noteq> [] \<and> hd (f x) \<noteq> c"
  shows "xs = ys \<and> s = t"
  using assms
proof (induction xs arbitrary: ys)
  case Nil
  show ?case
  proof (cases ys)
    case (Cons y ys')
    with Nil(5) [of y] Nil(4) show ?thesis by (cases ys'; cases "f y") auto
  qed (use Nil in simp)
next
  case (Cons x xs)
  show ?case
  proof (cases ys)
    case Nil
    with Cons.prems(5) [of x] Cons.prems(4) show ?thesis by (cases xs; cases "f x") auto
  next
    case ys: (Cons y ys')
    define rx where "rx = (if xs = [] then c # s else CHR '','' # join_comma (map f xs) @ c # s)"
    define ry where "ry = (if ys' = [] then c # t else CHR '','' # join_comma (map f ys') @ c # t)"
    have comma: "\<not> is_digit (CHR '','')" by (simp add: is_digit_def)
    have "f x @ rx = f y @ ry"
      using Cons.prems(4) by (cases xs; cases ys') (simp_all add: ys rx_def ry_def)
    moreover have "ends rx" "ends ry" using Cons.prems(2) comma by (simp_all add: rx_def ry_def ends_def)
    ultimately have xy: "x = y" "rx = ry" using Cons.prems(1) [of x y rx ry] ys by auto
    show ?thesis
    proof (cases "xs = [] \<or> ys' = []")
      case True
      then show ?thesis using xy Cons.prems(3) by (auto simp: ys rx_def ry_def split: if_splits)
    next
      case False
      then have "join_comma (map f xs) @ c # s = join_comma (map f ys') @ c # t"
        using xy by (simp add: rx_def ry_def)
      moreover have "f xa \<noteq> [] \<and> hd (f xa) \<noteq> c" if "xa \<in> set xs \<union> set ys'" for xa
        using Cons.prems(5) [of xa] that ys by auto
      moreover have "xa = ya \<and> s' = t'"
        if "xa \<in> set xs" "ya \<in> set ys'" "ends s'" "ends t'" "f xa @ s' = f ya @ t'" for xa ya s' t'
        by (rule Cons.prems(1)) (use that ys in auto)
      ultimately have "xs = ys' \<and> s = t" using Cons.prems(2,3) by (intro Cons.IH)
      then show ?thesis by (simp add: ys xy)
    qed
  qed
qed

text \<open>The first character of a value's text tells its kind.\<close>

definition head_tag :: "char \<Rightarrow> nat" where
  "head_tag c = (if c = CHR ''n'' then 0 else if c = CHR ''t'' \<or> c = CHR ''f'' then 1 else if c = CHR 0x22 then 2
     else if c = CHR ''['' then 3 else if c = CHR ''{'' then 4 else 5)"

primrec value_tag :: "json \<Rightarrow> nat" where
  "value_tag JNull = 0"
| "value_tag (JBool b) = 1"
| "value_tag (JInt n) = 5"
| "value_tag (JFloat t) = 6"
| "value_tag (JStr s) = 2"
| "value_tag (JArr xs) = 3"
| "value_tag (JObj kvs) = 4"

lemma digit_tag: "is_digit c \<Longrightarrow> head_tag c = 5"
  by (auto simp: is_digit_def head_tag_def)

lemma hd_int_text: "\<exists>c r. int_text n = c # r \<and> head_tag c = 5"
proof (cases "n < 0")
  case True
  then show ?thesis by (simp add: int_text_def head_tag_def)
next
  case False
  obtain c r where c: "nat_text (nat n) = c # r" by (metis nat_text_not_Nil neq_Nil_conv)
  with digit_tag [OF hd_nat_text [OF c]] False show ?thesis by (simp add: int_text_def)
qed

lemma canonical_head: "in_form v \<Longrightarrow> \<exists>c r. canonical_json v = c # r \<and> head_tag c = value_tag v"
  by (cases v) (use hd_int_text in \<open>auto simp: json_quote_def head_tag_def\<close>)

lemma same_tag:
  assumes "in_form v" "in_form w" "canonical_json v @ s = canonical_json w @ t"
  shows "value_tag v = value_tag w"
proof -
  obtain c r where c: "canonical_json v = c # r" "head_tag c = value_tag v" using canonical_head [OF assms(1)] by blast
  obtain d q where d: "canonical_json w = d # q" "head_tag d = value_tag w" using canonical_head [OF assms(2)] by blast
  from assms(3) have "c = d" unfolding c(1) d(1) append_Cons list.inject by (rule conjunct1)
  with c(2) d(2) show ?thesis by simp
qed

lemma in_form_head: "in_form v \<Longrightarrow> canonical_json v \<noteq> [] \<and> hd (canonical_json v) \<noteq> CHR '']''"
proof -
  assume f: "in_form v"
  obtain c r where c: "canonical_json v = c # r" "head_tag c = value_tag v" using canonical_head [OF f] by blast
  show ?thesis
  proof (cases "c = CHR '']''")
    case True
    then have "value_tag v = 5" using c(2) by (simp add: head_tag_def)
    then obtain n where v: "v = JInt n" by (cases v) auto
    have "is_digit c \<or> c = CHR ''-''"
    proof (cases "n < 0")
      case True
      then show ?thesis using c(1) by (simp add: v int_text_def)
    next
      case False
      then have "nat_text (nat n) = c # r" using c(1) by (simp add: v int_text_def)
      then show ?thesis using hd_nat_text by blast
    qed
    with True show ?thesis by (simp add: is_digit_def)
  qed (simp add: c(1))
qed

lemma json_quote_head: "json_quote k @ x \<noteq> [] \<and> hd (json_quote k @ x) = CHR 0x22"
  by (simp add: json_quote_def)

lemma brackets_not_digit: "\<not> is_digit (CHR '']'')" "\<not> is_digit (CHR ''}'')"
  by (simp_all add: is_digit_def)

theorem canonical_json_prefix:
  "in_form v \<Longrightarrow> in_form w \<Longrightarrow> ends s \<Longrightarrow> ends t \<Longrightarrow> canonical_json v @ s = canonical_json w @ t \<Longrightarrow> v = w \<and> s = t"
proof (induction v arbitrary: w s t)
  case JNull
  with same_tag [OF JNull.prems(1,2,5)] show ?case by (cases w) auto
next
  case (JBool b)
  with same_tag [OF JBool.prems(1,2,5)] show ?case by (cases w) (auto split: if_splits)
next
  case (JInt n)
  obtain m where w: "w = JInt m" using same_tag [OF JInt.prems(1,2,5)] JInt.prems(2) by (cases w) auto
  from int_text_prefix [OF JInt.prems(3,4), of n m] JInt.prems(5) show ?case by (simp only: w canonical_json.simps)
next
  case (JFloat x)
  then show ?case by simp
next
  case (JStr x)
  obtain y where w: "w = JStr y" using same_tag [OF JStr.prems(1,2,5)] JStr.prems(2) by (cases w) auto
  from json_quote_prefix [of x s y t] JStr.prems(5) show ?case by (simp only: w canonical_json.simps)
next
  case (JArr xs)
  obtain ys where w: "w = JArr ys" using same_tag [OF JArr.prems(1,2,5)] JArr.prems(2) by (cases w) auto
  have f: "\<forall>x \<in> set xs. in_form x" "\<forall>y \<in> set ys. in_form y" using JArr.prems(1,2) w by (auto simp: list_all_iff)
  have "xs = ys \<and> s = t"
  proof (rule join_comma_prefix [of xs ys canonical_json "CHR '']''"])
    show "x = y \<and> s' = t'" if "x \<in> set xs" "y \<in> set ys" "ends s'" "ends t'" "canonical_json x @ s' = canonical_json y @ t'" for x y s' t'
      using that f by (intro JArr.IH) auto
    show "join_comma (map canonical_json xs) @ CHR '']'' # s = join_comma (map canonical_json ys) @ CHR '']'' # t"
      using JArr.prems(5) by (simp add: w)
    show "canonical_json x \<noteq> [] \<and> hd (canonical_json x) \<noteq> CHR '']''" if "x \<in> set xs \<union> set ys" for x
      using that f in_form_head by blast
  qed (simp_all add: brackets_not_digit)
  then show ?case by (simp add: w)
next
  case (JObj kvs)
  obtain kws where w: "w = JObj kws" using same_tag [OF JObj.prems(1,2,5)] JObj.prems(2) by (cases w) auto
  let ?f = "\<lambda>(k, v). json_quote k @ CHR '':'' # canonical_json v"
  have f: "\<forall>(k, v) \<in> set kvs. in_form v" "\<forall>(k, v) \<in> set kws. in_form v" using JObj.prems(1,2) w by (auto simp: list_all_iff)
  have "kvs = kws \<and> s = t"
  proof (rule join_comma_prefix [of kvs kws ?f "CHR ''}''"])
    show "x = y \<and> s' = t'" if x: "x \<in> set kvs" "y \<in> set kws" "ends s'" "ends t'" "?f x @ s' = ?f y @ t'" for x y s' t'
    proof -
      obtain k v l u where xy: "x = (k, v)" "y = (l, u)" by fastforce
      from x(5) have "json_quote k @ (CHR '':'' # canonical_json v @ s') = json_quote l @ (CHR '':'' # canonical_json u @ t')"
        by (simp add: xy)
      from json_quote_prefix [OF this] have "k = l" "canonical_json v @ s' = canonical_json u @ t'" by auto
      with JObj.IH [of x v u s' t'] x f show ?thesis by (auto simp: xy snds.intros)
    qed
    show "join_comma (map ?f kvs) @ CHR ''}'' # s = join_comma (map ?f kws) @ CHR ''}'' # t"
      using JObj.prems(5) unfolding w canonical_obj [OF JObj.prems(1)] canonical_obj [OF JObj.prems(2) [unfolded w]] by simp
    show "?f x \<noteq> [] \<and> hd (?f x) \<noteq> CHR ''}''" if "x \<in> set kvs \<union> set kws" for x
      using json_quote_head by (cases x) simp
  qed (simp_all add: brackets_not_digit)
  then show ?case by (simp add: w)
qed

lemma canonical_json_inj: "in_form v \<Longrightarrow> in_form w \<Longrightarrow> canonical_json v = canonical_json w \<Longrightarrow> v = w"
  using canonical_json_prefix [of v w "[]" "[]"] by (simp add: ends_def)

end
