(* ===== verification/PlanText.thy ===== *)
theory PlanText
  imports Json PlanArith Calendar "HOL-Library.Multiset"
begin

text \<open>
  Reading a priorities plan (worker/src/priorities.mjs, parsePlan and planRefusal): the checks in
  their order with the field and the rule each refusal names, the canonical plan, its id, and the
  apply ladder. The engine's \<open>JSON.parse\<close>, SHA-256 and the table of code points a reason may not
  hold (Unicode general categories) are parameters. A clock that is no finite number is \<open>None\<close>, a
  TypeError is \<open>Throws\<close>.
\<close>

section \<open>Fixed lists\<close>

definition plan_version :: int where "plan_version = 1"
definition reason_max :: nat where "reason_max = 200"
definition plan_max_bytes :: nat where "plan_max_bytes = 16 * 1024"
definition default_max_plan_days :: int where "default_max_plan_days = 14"
definition plan_writers :: "string list" where "plan_writers = [''operator-session'', ''portfolio-job'']"
definition list_max :: nat where "list_max = 256"
definition max_plan_days :: int where "max_plan_days = 366"
definition max_date_ms :: int where "max_date_ms = 8640000000000000"

datatype plan_field = Body | Plan | Version | Basis | ValidUntil | Projects | ProjectId | Weight | Reason
  | Repos | RepoRef | RepoWeight

datatype plan_rule = BadJson | TooLarge | Shape | UnknownKey | Missing | BadType | Range | Newer | Format
  | Duplicate | UnknownId | ControlChar | TooLong | Past | TooFar | MissingProject | MissingRepo | UnknownRef

datatype plan_stop = Refused plan_field plan_rule | Throws

definition plan_keys :: "string list" where "plan_keys = [''version'', ''basis'', ''validUntil'', ''projects'']"
definition project_keys :: "string list" where "project_keys = [''id'', ''weight'', ''reason'', ''repos'']"
definition repo_keys :: "string list" where "repo_keys = [''ref'', ''weight'']"

section \<open>Ids, references and instants\<close>

definition is_id_char :: "char \<Rightarrow> bool" where
  "is_id_char c \<longleftrightarrow> is_digit c \<or> c \<in> set ''abcdefghijklmnopqrstuvwxyz''"

definition is_project_id :: "string \<Rightarrow> bool" where
  "is_project_id s \<longleftrightarrow> s \<noteq> [] \<and> length s \<le> 32 \<and> is_id_char (hd s) \<and> list_all (\<lambda>c. is_id_char c \<or> c = CHR ''-'') (tl s)"

definition hex_text :: "nat \<Rightarrow> string \<Rightarrow> bool" where
  "hex_text n s \<longleftrightarrow> length s = n \<and> list_all (\<lambda>c. is_digit c \<or> c \<in> set ''abcdef'') s"

definition scope_ref :: "(string \<Rightarrow> string) \<Rightarrow> string \<Rightarrow> string" where
  "scope_ref sha scope = take 8 (sha scope)"

text \<open>A UTC instant as \<open>toISOString\<close> writes it, the milliseconds optional.\<close>

definition instant_body :: string where "instant_body = ''0000-00-00T00:00:00''"

definition is_instant :: "string \<Rightarrow> bool" where
  "is_instant s \<longleftrightarrow>
     list_all2 (\<lambda>p c. if p = CHR ''0'' then is_digit c else c = p) instant_body (take 19 s)
     \<and> (drop 19 s = ''Z'' \<or>
        (let f = butlast (tl (drop 19 s))
         in drop 19 s = CHR ''.'' # f @ ''Z'' \<and> f \<noteq> [] \<and> length f \<le> 3 \<and> list_all is_digit f))"

definition part :: "nat \<Rightarrow> nat \<Rightarrow> string \<Rightarrow> int" where
  "part i n s = int (text_nat (take n (drop i s)))"

definition fraction_ms :: "string \<Rightarrow> int" where
  "fraction_ms s = (let f = butlast (tl (drop 19 s)) in int (text_nat (pad_end 3 (CHR ''0'') f)))"

text \<open>\<open>Date.parse\<close> on such a text: a day up to 31 rolls over into the next month, an hour 24 into
  the next day, anything further out is no instant.\<close>

definition date_parse :: "string \<Rightarrow> int option" where
  "date_parse s =
     (let mo = part 5 2 s; d = part 8 2 s; h = part 11 2 s; mi = part 14 2 s; sec = part 17 2 s; ms = fraction_ms s
      in if 1 \<le> mo \<and> mo \<le> 12 \<and> 1 \<le> d \<and> d \<le> 31 \<and> mi < 60 \<and> sec < 60 \<and> (h < 24 \<or> (h = 24 \<and> mi = 0 \<and> sec = 0 \<and> ms = 0))
         then Some (make_day (part 0 4 s) (mo - 1) d * day_ms + h * 3600000 + mi * 60000 + sec * 1000 + ms)
         else None)"

text \<open>The round trip refuses what \<open>Date.parse\<close> rolled over.\<close>

definition read_instant :: "string \<Rightarrow> int option" where
  "read_instant s =
     (if \<not> is_instant s then None
      else case date_parse s of None \<Rightarrow> None
        | Some ms \<Rightarrow> if take 19 (iso_text ms) = take 19 s then Some ms else None)"

section \<open>The canonical plan\<close>

record plan_project =
  pp_id :: string
  pp_weight :: int
  pp_reason :: "string option"
  pp_repos :: "(string \<times> int) list option"

record plan =
  pl_version :: int
  pl_basis :: "string option"
  pl_until :: "string option"
  pl_projects :: "plan_project list"

definition opt_member :: "string \<Rightarrow> json option \<Rightarrow> (string \<times> json) list" where
  "opt_member k v = (case v of None \<Rightarrow> [] | Some j \<Rightarrow> [(k, j)])"

definition repos_json :: "(string \<times> int) list \<Rightarrow> json" where
  "repos_json rs = JArr (map (\<lambda>(r, w). JObj [(''ref'', JStr r), (''weight'', JInt w)]) rs)"

definition project_json :: "plan_project \<Rightarrow> json" where
  "project_json p =
     JObj ([(''id'', JStr (pp_id p))] @ opt_member ''reason'' (map_option JStr (pp_reason p))
           @ opt_member ''repos'' (map_option repos_json (pp_repos p)) @ [(''weight'', JInt (pp_weight p))])"

definition plan_json :: "plan \<Rightarrow> json" where
  "plan_json p =
     JObj ([(''basis'', case pl_basis p of None \<Rightarrow> JNull | Some b \<Rightarrow> JStr b), (''projects'', JArr (map project_json (pl_projects p)))]
           @ opt_member ''validUntil'' (map_option JStr (pl_until p)) @ [(''version'', JInt (pl_version p))])"

definition plan_id :: "(string \<Rightarrow> string) \<Rightarrow> plan \<Rightarrow> string" where
  "plan_id sha p = take 16 (sha (canonical_json (plan_json p)))"

section \<open>Reading a plan\<close>

definition unknown_key :: "(string \<times> json) list \<Rightarrow> string list \<Rightarrow> bool" where
  "unknown_key kvs allowed \<longleftrightarrow> (\<exists>k \<in> set (map fst kvs). k \<notin> set allowed)"

definition read_weight :: "plan_field \<Rightarrow> json option \<Rightarrow> plan_stop + int" where
  "read_weight f v =
     (case v of None \<Rightarrow> Inl (Refused f Missing)
      | Some (JInt n) \<Rightarrow> if is_weight (Some n) then Inr n else Inl (Refused f Range)
      | Some _ \<Rightarrow> Inl (Refused f BadType))"

definition read_ref :: "json option \<Rightarrow> plan_stop + string" where
  "read_ref v =
     (case v of None \<Rightarrow> Inl (Refused RepoRef Missing)
      | Some (JStr r) \<Rightarrow> if hex_text 8 r then Inr r else Inl (Refused RepoRef Format)
      | Some _ \<Rightarrow> Inl (Refused RepoRef Format))"

definition read_repo :: "string list option \<Rightarrow> string list \<Rightarrow> json \<Rightarrow> plan_stop + (string \<times> int)" where
  "read_repo known seen repo =
     (case repo of
        JObj kvs \<Rightarrow>
          if unknown_key kvs repo_keys then Inl (Refused Repos UnknownKey)
          else sum_bind (read_ref (map_of kvs ''ref'')) (\<lambda>r.
            if r \<in> set seen then Inl (Refused RepoRef Duplicate)
            else if (case known of None \<Rightarrow> False | Some ks \<Rightarrow> r \<notin> set ks) then Inl (Refused RepoRef UnknownRef)
            else sum_bind (read_weight RepoWeight (map_of kvs ''weight'')) (\<lambda>w. Inr (r, w)))
      | _ \<Rightarrow> Inl (Refused Repos Shape))"

fun read_repos :: "string list option \<Rightarrow> string list \<Rightarrow> json list \<Rightarrow> plan_stop + (string \<times> int) list" where
  "read_repos known seen [] = Inr []"
| "read_repos known seen (j # js) =
     sum_bind (read_repo known seen j) (\<lambda>row.
       sum_bind (read_repos known (fst row # seen) js) (\<lambda>rows. Inr (row # rows)))"

text \<open>Each project's member references; a project listed twice has its last ones.\<close>

type_synonym members = "(string \<times> string list) list"

definition members_by_id :: "(string \<Rightarrow> string) \<Rightarrow> (string \<times> string list) list option \<Rightarrow> members option" where
  "members_by_id sha projects = map_option (map (map_prod (\<lambda>i. i) (map (scope_ref sha)))) projects"

definition member_refs :: "members \<Rightarrow> string \<Rightarrow> string list" where
  "member_refs ms i = (case map_of (rev ms) i of None \<Rightarrow> [] | Some rs \<Rightarrow> rs)"

definition parse_repos :: "members option \<Rightarrow> string \<Rightarrow> json \<Rightarrow> plan_stop + (string \<times> int) list" where
  "parse_repos ms i repos =
     (case repos of
        JArr js \<Rightarrow>
          if js = [] then Inl (Refused Repos BadType)
          else if i = other_id then Inl (Refused Repos UnknownRef)
          else if length js > list_max then Inl (Refused Repos TooLong)
          else sum_bind (read_repos (map_option (\<lambda>m. member_refs m i) ms) [] js) (\<lambda>rows. Inr (sort_key fst rows))
      | _ \<Rightarrow> Inl (Refused Repos BadType))"

definition read_id :: "string list option \<Rightarrow> string list \<Rightarrow> json option \<Rightarrow> plan_stop + string" where
  "read_id entries seen v =
     (case v of None \<Rightarrow> Inl (Refused ProjectId Missing)
      | Some (JStr i) \<Rightarrow>
          if i \<noteq> other_id \<and> \<not> is_project_id i then Inl (Refused ProjectId Format)
          else if i \<in> set seen then Inl (Refused ProjectId Duplicate)
          else if (case entries of None \<Rightarrow> False | Some es \<Rightarrow> i \<notin> set es) then Inl (Refused ProjectId UnknownId)
          else Inr i
      | Some _ \<Rightarrow> Inl (Refused ProjectId Format))"

definition read_reason :: "(nat \<Rightarrow> bool) \<Rightarrow> json option \<Rightarrow> plan_stop + string option" where
  "read_reason refused v =
     (case v of None \<Rightarrow> Inr None
      | Some (JStr s) \<Rightarrow>
          if blank s then Inl (Refused Reason BadType)
          else if list_ex refused (code_points s) then Inl (Refused Reason ControlChar)
          else if length (code_points s) > reason_max then Inl (Refused Reason TooLong)
          else Inr (Some s)
      | Some _ \<Rightarrow> Inl (Refused Reason BadType))"

definition read_project ::
  "(nat \<Rightarrow> bool) \<Rightarrow> string list option \<Rightarrow> members option \<Rightarrow> string list \<Rightarrow> json \<Rightarrow> plan_stop + plan_project" where
  "read_project refused entries ms seen entry =
     (case entry of
        JObj kvs \<Rightarrow>
          if unknown_key kvs project_keys then Inl (Refused Projects UnknownKey)
          else sum_bind (read_id entries seen (map_of kvs ''id'')) (\<lambda>i.
            sum_bind (read_weight Weight (map_of kvs ''weight'')) (\<lambda>w.
            sum_bind (read_reason refused (map_of kvs ''reason'')) (\<lambda>reason.
            sum_bind (case map_of kvs ''repos'' of None \<Rightarrow> Inr None
                      | Some j \<Rightarrow> sum_bind (parse_repos ms i j) (\<lambda>rows. Inr (Some rows))) (\<lambda>repos.
            Inr \<lparr>pp_id = i, pp_weight = w, pp_reason = reason, pp_repos = repos\<rparr>))))
      | _ \<Rightarrow> Inl (Refused Projects Shape))"

fun read_projects ::
  "(nat \<Rightarrow> bool) \<Rightarrow> string list option \<Rightarrow> members option \<Rightarrow> string list \<Rightarrow> json list \<Rightarrow> plan_stop + plan_project list" where
  "read_projects refused entries ms seen [] = Inr []"
| "read_projects refused entries ms seen (j # js) =
     sum_bind (read_project refused entries ms seen j) (\<lambda>p.
       sum_bind (read_projects refused entries ms (pp_id p # seen) js) (\<lambda>ps. Inr (p # ps)))"

definition read_version :: "json option \<Rightarrow> plan_stop + int" where
  "read_version v =
     (case v of None \<Rightarrow> Inl (Refused Version Missing)
      | Some (JInt n) \<Rightarrow> if n < 1 then Inl (Refused Version BadType)
          else if n > plan_version then Inl (Refused Version Newer) else Inr n
      | Some _ \<Rightarrow> Inl (Refused Version BadType))"

definition read_basis :: "json option \<Rightarrow> plan_stop + string option" where
  "read_basis v =
     (case v of None \<Rightarrow> Inl (Refused Basis Missing)
      | Some JNull \<Rightarrow> Inr None
      | Some (JStr b) \<Rightarrow> if hex_text 16 b then Inr (Some b) else Inl (Refused Basis Format)
      | Some _ \<Rightarrow> Inl (Refused Basis Format))"

record plan_options =
  po_envelope :: "envelope option"
  po_projects :: "(string \<times> string list) list option"
  po_now :: "int option"
  po_days :: "int option"

definition plan_days :: "plan_options \<Rightarrow> int" where
  "plan_days opts =
     (case po_days opts of Some d \<Rightarrow> d
      | None \<Rightarrow> (case Option.bind (Option.bind (po_envelope opts) en_delegation) dg_max_plan_days of
                   Some d \<Rightarrow> d | None \<Rightarrow> default_max_plan_days))"

text \<open>The clock and the last instant a plan may name.\<close>

definition plan_clock :: "plan_options \<Rightarrow> plan_stop + (int \<times> int)" where
  "plan_clock opts =
     (case po_now opts of None \<Rightarrow> Inl Throws
      | Some t \<Rightarrow>
          if plan_days opts < 1 \<or> plan_days opts > max_plan_days then Inl Throws
          else if \<bar>t\<bar> > max_date_ms \<or> \<bar>t + plan_days opts * day_ms\<bar> > max_date_ms then Inl Throws
          else Inr (t, t + plan_days opts * day_ms))"

text \<open>The written instant, or none.\<close>

definition read_until :: "int \<Rightarrow> int \<Rightarrow> json option \<Rightarrow> plan_stop + int option" where
  "read_until t limit v =
     (case v of None \<Rightarrow> Inr None
      | Some (JStr s) \<Rightarrow>
          (case read_instant s of None \<Rightarrow> Inl (Refused ValidUntil Format)
           | Some ms \<Rightarrow> if ms \<le> t then Inl (Refused ValidUntil Past)
               else if ms > limit then Inl (Refused ValidUntil TooFar) else Inr (Some ms))
      | Some _ \<Rightarrow> Inl (Refused ValidUntil Format))"

definition project_list :: "json option \<Rightarrow> plan_stop + json list" where
  "project_list v =
     (case v of None \<Rightarrow> Inl (Refused Projects Missing)
      | Some (JArr js) \<Rightarrow> if length js > list_max then Inl (Refused Projects TooLong) else Inr js
      | Some _ \<Rightarrow> Inl (Refused Projects BadType))"

definition read_plan ::
  "(string \<Rightarrow> string) \<Rightarrow> (nat \<Rightarrow> bool) \<Rightarrow> plan_options \<Rightarrow> json \<Rightarrow> plan_stop + (plan \<times> int)" where
  "read_plan sha refused opts raw =
     (case raw of
        JObj kvs \<Rightarrow>
          if unknown_key kvs plan_keys then Inl (Refused Plan UnknownKey)
          else sum_bind (read_version (map_of kvs ''version'')) (\<lambda>version.
            sum_bind (read_basis (map_of kvs ''basis'')) (\<lambda>basis.
            sum_bind (plan_clock opts) (\<lambda>(t, limit).
            sum_bind (read_until t limit (map_of kvs ''validUntil'')) (\<lambda>until.
            sum_bind (project_list (map_of kvs ''projects'')) (\<lambda>js.
            sum_bind (read_projects refused (map_option envelope_entries (po_envelope opts)) (members_by_id sha (po_projects opts)) [] js) (\<lambda>ps.
            Inr (\<lparr>pl_version = version, pl_basis = basis, pl_until = map_option iso_text until, pl_projects = sort_key pp_id ps\<rparr>,
                 case until of None \<Rightarrow> limit | Some ms \<Rightarrow> ms)))))))
      | _ \<Rightarrow> Inl (Refused Plan Shape))"

text \<open>A verdict carries the plan, its id and the instant it ends, whose ISO text is \<open>validUntil\<close>.\<close>

datatype plan_verdict = Plan_ok plan string int | Plan_invalid plan_field plan_rule
  | Plan_incomplete plan_field plan_rule plan string int | Plan_throws

definition missing_project :: "envelope option \<Rightarrow> plan \<Rightarrow> bool" where
  "missing_project e p =
     (case e of None \<Rightarrow> False | Some env \<Rightarrow> \<exists>i \<in> set (envelope_entries env). i \<notin> pp_id ` set (pl_projects p))"

definition missing_repo :: "members option \<Rightarrow> plan \<Rightarrow> bool" where
  "missing_repo ms p =
     (case ms of None \<Rightarrow> False
      | Some m \<Rightarrow> \<exists>q \<in> set (pl_projects p). case pp_repos q of None \<Rightarrow> False
          | Some rows \<Rightarrow> \<exists>r \<in> set (member_refs m (pp_id q)). r \<notin> fst ` set rows)"

definition judge_plan ::
  "(string \<Rightarrow> string) \<Rightarrow> (nat \<Rightarrow> bool) \<Rightarrow> plan_options \<Rightarrow> json \<Rightarrow> plan_verdict" where
  "judge_plan sha refused opts raw =
     (case read_plan sha refused opts raw of
        Inl Throws \<Rightarrow> Plan_throws
      | Inl (Refused f r) \<Rightarrow> Plan_invalid f r
      | Inr (p, until) \<Rightarrow>
          if missing_project (po_envelope opts) p then Plan_incomplete Projects MissingProject p (plan_id sha p) until
          else if missing_repo (members_by_id sha (po_projects opts)) p then Plan_incomplete Repos MissingRepo p (plan_id sha p) until
          else Plan_ok p (plan_id sha p) until)"

definition parse_plan ::
  "(string \<Rightarrow> json option) \<Rightarrow> (string \<Rightarrow> string) \<Rightarrow> (nat \<Rightarrow> bool) \<Rightarrow> plan_options \<Rightarrow> string \<Rightarrow> plan_verdict" where
  "parse_plan json_parse sha refused opts text =
     (if length text > plan_max_bytes then Plan_invalid Body TooLarge
      else case json_parse text of None \<Rightarrow> Plan_invalid Body BadJson | Some raw \<Rightarrow> judge_plan sha refused opts raw)"

section \<open>The apply ladder\<close>

datatype ladder = DelegationOff | WriterNotAllowed | PlanDuplicate | PlanStale | PlanTooSoon | PlanIncomplete

record applied =
  ap_plan_id :: "string option"
  ap_last_plan_at :: "int option"

definition plan_refusal ::
  "envelope option \<Rightarrow> string \<Rightarrow> plan \<Rightarrow> string \<Rightarrow> bool \<Rightarrow> applied option \<Rightarrow> int \<Rightarrow> ladder option" where
  "plan_refusal e writer p i complete current t =
     (case Option.bind e en_delegation of None \<Rightarrow> Some DelegationOff
      | Some d \<Rightarrow>
          (let currently = Option.bind current ap_plan_id
           in if \<not> dg_enabled d then Some DelegationOff
              else if writer \<notin> set plan_writers \<or> writer \<notin> set (dg_writers d) then Some WriterNotAllowed
              else if currently = Some i then Some PlanDuplicate
              else if pl_basis p \<noteq> currently then Some PlanStale
              else if (case Option.bind current ap_last_plan_at of None \<Rightarrow> False
                       | Some at_ms \<Rightarrow> t - at_ms < (case dg_min_interval_hours d of None \<Rightarrow> 0 | Some h \<Rightarrow> h) * 60 * 60 * 1000) then Some PlanTooSoon
              else if \<not> complete then Some PlanIncomplete
              else None))"

section \<open>The canonical text identifies the plan\<close>

lemma in_form_project: "in_form (project_json p)"
  by (auto simp: project_json_def opt_member_def repos_json_def list_all_iff split: option.splits)

lemma in_form_plan: "in_form (plan_json p)"
  by (auto simp: plan_json_def opt_member_def list_all_iff in_form_project split: option.splits)

lemma repos_json_inj: "repos_json a = repos_json b \<Longrightarrow> a = b"
proof -
  have "inj (\<lambda>(r, w). JObj [(''ref'', JStr r), (''weight'', JInt w)])" by (rule injI) auto
  then show "repos_json a = repos_json b \<Longrightarrow> a = b" by (simp add: repos_json_def inj_map_eq_map)
qed

lemma project_json_inj: "project_json p = project_json q \<Longrightarrow> p = q"
  by (cases p; cases q)
     (auto simp: project_json_def opt_member_def dest: repos_json_inj split: option.splits)

lemma plan_json_inj: "plan_json p = plan_json q \<Longrightarrow> p = q"
proof -
  have "inj project_json" by (rule injI) (rule project_json_inj)
  then show "plan_json p = plan_json q \<Longrightarrow> p = q"
    by (cases p; cases q) (auto simp: plan_json_def opt_member_def inj_map_eq_map split: option.splits)
qed

text \<open>
  Two plans have the same canonical text, the text their id is hashed from, exactly when they are
  the same plan: no project, weight, reason, repository, basis or instant can be read two ways.
\<close>

theorem plan_text_identifies:
  "canonical_json (plan_json p) = canonical_json (plan_json q) \<longleftrightarrow> p = q"
  using canonical_json_inj [OF in_form_plan in_form_plan] plan_json_inj by blast

section \<open>What reading checks\<close>

definition known_ref :: "string list option \<Rightarrow> string \<Rightarrow> bool" where
  "known_ref known r = (case known of None \<Rightarrow> True | Some ks \<Rightarrow> r \<in> set ks)"

lemma read_weight_Inr: "read_weight f v = Inr w \<longleftrightarrow> v = Some (JInt w) \<and> 0 \<le> w \<and> w \<le> weight_max"
  by (auto simp: read_weight_def is_weight_def split: option.splits json.splits)

lemma read_ref_Inr: "read_ref v = Inr r \<longleftrightarrow> v = Some (JStr r) \<and> hex_text 8 r"
  by (auto simp: read_ref_def split: option.splits json.splits)

lemma read_repo_Inr:
  "read_repo known seen j = Inr row \<longleftrightarrow>
     (\<exists>kvs. j = JObj kvs \<and> \<not> unknown_key kvs repo_keys \<and> map_of kvs ''ref'' = Some (JStr (fst row)) \<and> hex_text 8 (fst row)
        \<and> fst row \<notin> set seen \<and> known_ref known (fst row)
        \<and> map_of kvs ''weight'' = Some (JInt (snd row)) \<and> 0 \<le> snd row \<and> snd row \<le> weight_max)"
  by (cases row) (auto simp: read_repo_def sum_bind_Inr read_ref_Inr read_weight_Inr known_ref_def split: json.splits option.splits)

lemma read_repo_seen: "read_repo known seen j = Inr row \<longleftrightarrow> read_repo known [] j = Inr row \<and> fst row \<notin> set seen"
  unfolding read_repo_Inr by auto

lemma read_repos_Inr:
  "read_repos known seen js = Inr rows \<longleftrightarrow>
     list_all2 (\<lambda>j row. read_repo known [] j = Inr row) js rows \<and> distinct (map fst rows) \<and> set (map fst rows) \<inter> set seen = {}"
proof (induction js arbitrary: seen rows)
  case (Cons j js)
  show ?case
    by (cases rows) (auto simp: sum_bind_Inr Cons.IH read_repo_seen [of known seen] list_all2_Cons1, force)
qed auto

lemma parse_repos_Inr:
  "parse_repos ms i j = Inr rows \<longleftrightarrow>
     (\<exists>js unsorted. j = JArr js \<and> js \<noteq> [] \<and> i \<noteq> other_id \<and> length js \<le> list_max \<and> rows = sort_key fst unsorted
        \<and> read_repos (map_option (\<lambda>m. member_refs m i) ms) [] js = Inr unsorted)"
  by (auto simp: parse_repos_def sum_bind_Inr split: json.splits)

lemma read_id_Inr:
  "read_id entries seen v = Inr i \<longleftrightarrow>
     v = Some (JStr i) \<and> (i = other_id \<or> is_project_id i) \<and> i \<notin> set seen \<and> known_ref entries i"
  by (auto simp: read_id_def known_ref_def split: option.splits json.splits)

definition read_repos_field :: "members option \<Rightarrow> string \<Rightarrow> json option \<Rightarrow> plan_stop + (string \<times> int) list option" where
  "read_repos_field ms i v = (case v of None \<Rightarrow> Inr None | Some j \<Rightarrow> sum_bind (parse_repos ms i j) (\<lambda>rows. Inr (Some rows)))"

lemma read_project_Inr:
  "read_project refused entries ms seen j = Inr p \<longleftrightarrow>
     (\<exists>kvs. j = JObj kvs \<and> \<not> unknown_key kvs project_keys \<and> read_id entries seen (map_of kvs ''id'') = Inr (pp_id p)
        \<and> read_weight Weight (map_of kvs ''weight'') = Inr (pp_weight p)
        \<and> read_reason refused (map_of kvs ''reason'') = Inr (pp_reason p)
        \<and> read_repos_field ms (pp_id p) (map_of kvs ''repos'') = Inr (pp_repos p))"
  by (cases j; cases p) (auto simp: read_project_def sum_bind_Inr read_repos_field_def)

lemma read_project_seen:
  "read_project refused entries ms seen j = Inr p \<longleftrightarrow> read_project refused entries ms [] j = Inr p \<and> pp_id p \<notin> set seen"
  unfolding read_project_Inr read_id_Inr by auto

lemma read_projects_Inr:
  "read_projects refused entries ms seen js = Inr ps \<longleftrightarrow>
     list_all2 (\<lambda>j p. read_project refused entries ms [] j = Inr p) js ps \<and> distinct (map pp_id ps) \<and> set (map pp_id ps) \<inter> set seen = {}"
proof (induction js arbitrary: seen ps)
  case (Cons j js)
  show ?case
    by (cases ps) (auto simp: sum_bind_Inr Cons.IH read_project_seen [of refused entries ms seen] list_all2_Cons1)
qed auto

text \<open>The checks of a plan, once all of them pass.\<close>

lemma read_plan_Inr:
  "read_plan sha refused opts raw = Inr (p, u) \<longleftrightarrow>
     (\<exists>kvs basis t limit until js ps. raw = JObj kvs \<and> \<not> unknown_key kvs plan_keys
        \<and> read_version (map_of kvs ''version'') = Inr (pl_version p) \<and> read_basis (map_of kvs ''basis'') = Inr basis
        \<and> plan_clock opts = Inr (t, limit) \<and> read_until t limit (map_of kvs ''validUntil'') = Inr until
        \<and> project_list (map_of kvs ''projects'') = Inr js
        \<and> read_projects refused (map_option envelope_entries (po_envelope opts)) (members_by_id sha (po_projects opts)) [] js = Inr ps
        \<and> p = \<lparr>pl_version = pl_version p, pl_basis = basis, pl_until = map_option iso_text until, pl_projects = sort_key pp_id ps\<rparr>
        \<and> u = (case until of None \<Rightarrow> limit | Some ms \<Rightarrow> ms))"
proof (cases raw)
  case (JObj kvs)
  show ?thesis
    by (cases p) (simp add: JObj read_plan_def sum_bind_Inr split_paired_Ex; blast)
qed (simp_all add: read_plan_def)

section \<open>The order of a plan's entries\<close>

lemma sort_key_perm:
  assumes "mset xs = mset ys" "distinct (map f xs)"
  shows "sort_key f xs = sort_key f ys"
proof (rule sort_key_inj_key_eq)
  show "inj_on f (set xs)" using assms(2) by (simp add: distinct_map)
  show "mset xs = mset (sort_key f ys)" using assms(1) by simp
  show "sorted (map f (sort_key f ys))" by simp
qed

lemma distinct_perm: "mset xs = mset ys \<Longrightarrow> distinct (map f xs) = distinct (map f ys)"
  by (metis mset_eq_imp_distinct_iff mset_map)

lemma set_perm: "mset xs = mset ys \<Longrightarrow> set (map f xs) = set (map f ys)"
  by (metis set_map set_mset_mset)

lemma read_repos_perm:
  assumes "read_repos known [] js = Inr rows" "mset js' = mset js"
  shows "\<exists>rows'. read_repos known [] js' = Inr rows' \<and> sort_key fst rows' = sort_key fst rows"
proof -
  have a: "list_all2 (\<lambda>j row. read_repo known [] j = Inr row) js rows" "distinct (map fst rows)"
    using assms(1) by (auto simp: read_repos_Inr)
  from list_all2_reorder_left_invariance [OF a(1) assms(2)] obtain rows' where
    r: "list_all2 (\<lambda>j row. read_repo known [] j = Inr row) js' rows'" "mset rows' = mset rows" by metis
  then have "distinct (map fst rows')" using a(2) distinct_perm by metis
  with r show ?thesis using sort_key_perm [of rows' rows fst] by (intro exI [of _ rows']) (simp add: read_repos_Inr)
qed

text \<open>The same rows of repositories in another order.\<close>

definition same_repos :: "json option \<Rightarrow> json option \<Rightarrow> bool" where
  "same_repos v w \<longleftrightarrow> v = w \<or> (\<exists>xs ys. v = Some (JArr xs) \<and> w = Some (JArr ys) \<and> mset xs = mset ys)"

lemma read_repos_field_perm:
  assumes "read_repos_field ms i v = Inr x" "same_repos v w"
  shows "read_repos_field ms i w = Inr x"
proof (cases "v = w")
  case False
  then obtain xs ys where v: "v = Some (JArr xs)" "w = Some (JArr ys)" "mset ys = mset xs"
    using assms(2) by (metis same_repos_def)
  then obtain rows where p: "parse_repos ms i (JArr xs) = Inr rows" "x = Some rows"
    using assms(1) by (auto simp: read_repos_field_def sum_bind_Inr)
  then obtain unsorted where u: "xs \<noteq> []" "i \<noteq> other_id" "length xs \<le> list_max" "rows = sort_key fst unsorted"
    "read_repos (map_option (\<lambda>m. member_refs m i) ms) [] xs = Inr unsorted" by (auto simp: parse_repos_Inr)
  from read_repos_perm [OF u(5) v(3)] obtain rows' where
    "read_repos (map_option (\<lambda>m. member_refs m i) ms) [] ys = Inr rows'" "sort_key fst rows' = sort_key fst unsorted" by blast
  moreover have "ys \<noteq> []" "length ys \<le> list_max" using u(1,3) v(3) mset_eq_length [OF v(3)] by auto
  ultimately have "parse_repos ms i (JArr ys) = Inr rows" using u(2,4) by (auto simp: parse_repos_Inr)
  then show ?thesis by (simp add: read_repos_field_def v p)
qed (use assms in simp)

text \<open>The same project, its keys and its repositories in another order.\<close>

fun same_entry :: "json \<Rightarrow> json \<Rightarrow> bool" where
  "same_entry (JObj kv) (JObj kw) =
     (set (map fst kv) = set (map fst kw) \<and> (\<forall>k \<in> set (map fst kv) - {''repos''}. map_of kv k = map_of kw k)
      \<and> same_repos (map_of kv ''repos'') (map_of kw ''repos''))"
| "same_entry v w = (v = w)"

lemma same_keys: "set (map fst kv) = set (map fst kw) \<Longrightarrow> unknown_key kv ks = unknown_key kw ks"
  by (simp add: unknown_key_def)

lemma same_lookup:
  assumes "set (map fst kv) = set (map fst kw)" "\<forall>k \<in> set (map fst kv) - {x}. map_of kv k = map_of kw k" "y \<noteq> x"
  shows "map_of kv y = map_of kw y"
proof (cases "y \<in> set (map fst kv)")
  case False
  then have "map_of kv y = None" "map_of kw y = None" using assms(1) by (simp_all add: map_of_eq_None_iff)
  then show ?thesis by simp
qed (use assms in simp)

lemma read_project_perm:
  assumes "read_project refused entries ms [] j = Inr p" "same_entry j j'"
  shows "read_project refused entries ms [] j' = Inr p"
proof -
  obtain kv where kv: "j = JObj kv" using assms(1) by (auto simp: read_project_Inr)
  then obtain kw where kw: "j' = JObj kw" using assms(2) by (cases j') auto
  have s: "set (map fst kv) = set (map fst kw)" "\<forall>k \<in> set (map fst kv) - {''repos''}. map_of kv k = map_of kw k"
    "same_repos (map_of kv ''repos'') (map_of kw ''repos'')" using assms(2) by (simp_all add: kv kw)
  have "map_of kv ''id'' = map_of kw ''id''" "map_of kv ''weight'' = map_of kw ''weight''" "map_of kv ''reason'' = map_of kw ''reason''"
    by (rule same_lookup [OF s(1,2)]; simp)+
  with assms(1) read_repos_field_perm [OF _ s(3)] same_keys [OF s(1)] show ?thesis
    by (simp add: read_project_Inr kv kw)
qed

text \<open>The same plan, its keys, its projects and their repositories in another order.\<close>

fun same_plan :: "json \<Rightarrow> json \<Rightarrow> bool" where
  "same_plan (JObj kv) (JObj kw) =
     (set (map fst kv) = set (map fst kw) \<and> (\<forall>k \<in> set (map fst kv) - {''projects''}. map_of kv k = map_of kw k)
      \<and> (\<exists>xs ys zs. map_of kv ''projects'' = Some (JArr xs) \<and> map_of kw ''projects'' = Some (JArr zs)
           \<and> mset ys = mset xs \<and> list_all2 same_entry ys zs))"
| "same_plan v w = False"

lemma read_projects_perm:
  assumes "read_projects refused entries ms [] xs = Inr ps" "mset ys = mset xs" "list_all2 same_entry ys zs"
  shows "\<exists>ps'. read_projects refused entries ms [] zs = Inr ps' \<and> sort_key pp_id ps' = sort_key pp_id ps"
proof -
  have a: "list_all2 (\<lambda>j p. read_project refused entries ms [] j = Inr p) xs ps" "distinct (map pp_id ps)"
    using assms(1) by (auto simp: read_projects_Inr)
  from list_all2_reorder_left_invariance [OF a(1) assms(2)] obtain ps' where
    r: "list_all2 (\<lambda>j p. read_project refused entries ms [] j = Inr p) ys ps'" "mset ps' = mset ps" by metis
  have "list_all2 (\<lambda>z p. read_project refused entries ms [] z = Inr p) zs ps'"
  proof (rule list_all2_trans [OF _ _ r(1)])
    show "list_all2 (\<lambda>z y. same_entry y z) zs ys" using assms(3) by (simp add: list_all2_conv_all_nth)
  qed (use read_project_perm in blast)
  moreover have "distinct (map pp_id ps')" using a(2) r(2) distinct_perm by metis
  ultimately show ?thesis using r(2) sort_key_perm [of ps' ps pp_id] by (intro exI [of _ ps']) (simp add: read_projects_Inr)
qed

text \<open>
  The order in which a writer lists keys, projects and repositories never matters: a plan accepted
  in one order is accepted in every other as the same plan, with the same id and the same end.
\<close>

theorem plan_order_irrelevant:
  assumes "judge_plan sha refused opts raw = Plan_ok p i u" "same_plan raw raw'"
  shows "judge_plan sha refused opts raw' = Plan_ok p i u"
proof -
  obtain ms where ms: "read_plan sha refused opts raw = Inr (p, ms)"
    using assms(1) by (auto simp: judge_plan_def split: sum.splits plan_stop.splits if_splits)
  then obtain kv basis t limit until js ps where R: "raw = JObj kv" "\<not> unknown_key kv plan_keys"
    "read_version (map_of kv ''version'') = Inr (pl_version p)" "read_basis (map_of kv ''basis'') = Inr basis"
    "plan_clock opts = Inr (t, limit)" "read_until t limit (map_of kv ''validUntil'') = Inr until"
    "project_list (map_of kv ''projects'') = Inr js"
    "read_projects refused (map_option envelope_entries (po_envelope opts)) (members_by_id sha (po_projects opts)) [] js = Inr ps"
    "p = \<lparr>pl_version = pl_version p, pl_basis = basis, pl_until = map_option iso_text until, pl_projects = sort_key pp_id ps\<rparr>"
    "ms = (case until of None \<Rightarrow> limit | Some ms \<Rightarrow> ms)" unfolding read_plan_Inr by blast
  obtain kw xs ys zs where W: "raw' = JObj kw" "set (map fst kv) = set (map fst kw)"
    "\<forall>k \<in> set (map fst kv) - {''projects''}. map_of kv k = map_of kw k"
    "map_of kv ''projects'' = Some (JArr xs)" "map_of kw ''projects'' = Some (JArr zs)" "mset ys = mset xs" "list_all2 same_entry ys zs"
    using assms(2) R(1) by (cases raw') auto
  have l: "map_of kv ''version'' = map_of kw ''version''" "map_of kv ''basis'' = map_of kw ''basis''"
    "map_of kv ''validUntil'' = map_of kw ''validUntil''" by (rule same_lookup [OF W(2,3)]; simp)+
  have js: "js = xs" "length xs \<le> list_max" using R(7) W(4) by (auto simp: project_list_def split: if_splits)
  have "length zs = length xs" using W(6,7) mset_eq_length [OF W(6)] list_all2_lengthD [OF W(7)] by simp
  then have "project_list (map_of kw ''projects'') = Inr zs" using W(5) js(2) by (simp add: project_list_def)
  moreover obtain ps' where "read_projects refused (map_option envelope_entries (po_envelope opts)) (members_by_id sha (po_projects opts)) [] zs = Inr ps'"
    "sort_key pp_id ps' = sort_key pp_id ps" using read_projects_perm [OF R(8) [unfolded js(1)] W(6,7)] by blast
  ultimately have "read_plan sha refused opts raw' = Inr (p, ms)"
    unfolding read_plan_Inr using R W(1) l same_keys [OF W(2)] by auto
  with assms(1) ms show ?thesis by (simp add: judge_plan_def)
qed

section \<open>What an accepted plan says\<close>

definition good_reason :: "(nat \<Rightarrow> bool) \<Rightarrow> string option \<Rightarrow> bool" where
  "good_reason refused v =
     (case v of None \<Rightarrow> True
      | Some s \<Rightarrow> \<not> blank s \<and> (\<forall>c \<in> set (code_points s). \<not> refused c) \<and> length (code_points s) \<le> reason_max)"

definition good_rows :: "(string \<times> int) list \<Rightarrow> bool" where
  "good_rows rows \<longleftrightarrow> rows \<noteq> [] \<and> length rows \<le> list_max \<and> sorted_wrt (<) (map fst rows)
     \<and> (\<forall>(r, w) \<in> set rows. hex_text 8 r \<and> 0 \<le> w \<and> w \<le> weight_max)"

definition good_project :: "(nat \<Rightarrow> bool) \<Rightarrow> plan_project \<Rightarrow> bool" where
  "good_project refused p \<longleftrightarrow> (pp_id p = other_id \<or> is_project_id (pp_id p)) \<and> 0 \<le> pp_weight p \<and> pp_weight p \<le> weight_max
     \<and> good_reason refused (pp_reason p)
     \<and> (case pp_repos p of None \<Rightarrow> True | Some rows \<Rightarrow> pp_id p \<noteq> other_id \<and> good_rows rows)"

lemma sorted_distinct_strict: "distinct (map f xs) \<Longrightarrow> sorted_wrt (<) (map f (sort_key f xs))"
  using distinct_perm [of "sort_key f xs" xs f] by (simp add: strict_sorted_iff)

lemma list_all2_member: "list_all2 P xs ys \<Longrightarrow> y \<in> set ys \<Longrightarrow> \<exists>x \<in> set xs. P x y"
  by (induction rule: list_all2_induct) auto

lemma read_reason_Inr: "read_reason refused v = Inr x \<Longrightarrow> good_reason refused x"
  by (auto simp: read_reason_def good_reason_def list_ex_iff split: option.splits json.splits if_splits)

lemma read_repos_good:
  assumes "read_repos known [] js = Inr rows" "js \<noteq> []" "length js \<le> list_max"
  shows "good_rows (sort_key fst rows) \<and> (\<forall>r \<in> fst ` set rows. known_ref known r)"
proof -
  have a: "list_all2 (\<lambda>j row. read_repo known [] j = Inr row) js rows" "distinct (map fst rows)"
    using assms(1) by (auto simp: read_repos_Inr)
  have "length rows = length js" using a(1) list_all2_lengthD by metis
  moreover have "hex_text 8 (fst row) \<and> 0 \<le> snd row \<and> snd row \<le> weight_max \<and> known_ref known (fst row)" if m: "row \<in> set rows" for row
  proof -
    obtain j where "read_repo known [] j = Inr row" using list_all2_member [OF a(1) m] by blast
    then show ?thesis by (auto simp: read_repo_Inr)
  qed
  moreover have "sort_key fst rows \<noteq> []" using \<open>length rows = length js\<close> assms(2) by (metis length_0_conv length_sort)
  ultimately show ?thesis using sorted_distinct_strict [OF a(2)] assms(3) by (auto simp: good_rows_def)
qed

lemma parse_repos_good:
  assumes "parse_repos ms i j = Inr rows"
  shows "i \<noteq> other_id \<and> good_rows rows \<and> (\<forall>m. ms = Some m \<longrightarrow> fst ` set rows \<subseteq> set (member_refs m i))"
proof -
  obtain js unsorted where u: "js \<noteq> []" "i \<noteq> other_id" "length js \<le> list_max" "rows = sort_key fst unsorted"
    "read_repos (map_option (\<lambda>m. member_refs m i) ms) [] js = Inr unsorted" using assms unfolding parse_repos_Inr by blast
  from read_repos_good [OF u(5,1,3)] u(2,4) show ?thesis by (auto simp: known_ref_def)
qed

lemma read_project_good:
  assumes "read_project refused entries ms [] j = Inr p"
  shows "good_project refused p \<and> known_ref entries (pp_id p)
    \<and> (\<forall>m rows. ms = Some m \<longrightarrow> pp_repos p = Some rows \<longrightarrow> fst ` set rows \<subseteq> set (member_refs m (pp_id p)))"
proof -
  obtain v r k where h: "read_id entries [] v = Inr (pp_id p)" "0 \<le> pp_weight p" "pp_weight p \<le> weight_max"
    "read_reason refused r = Inr (pp_reason p)" "read_repos_field ms (pp_id p) k = Inr (pp_repos p)"
    using assms unfolding read_project_Inr read_weight_Inr by blast
  have "pp_repos p = None \<or> (\<exists>j rows. parse_repos ms (pp_id p) j = Inr rows \<and> pp_repos p = Some rows)"
    using h(5) by (auto simp: read_repos_field_def sum_bind_Inr split: option.splits)
  with h(1-3) read_reason_Inr [OF h(4)] parse_repos_good show ?thesis
    by (fastforce simp: good_project_def read_id_Inr)
qed

lemma plan_clock_Inr:
  "plan_clock opts = Inr (t, limit) \<Longrightarrow> po_now opts = Some t \<and> limit = t + plan_days opts * day_ms \<and> 1 \<le> plan_days opts"
  by (auto simp: plan_clock_def split: option.splits if_splits)

lemma read_until_Inr: "read_until t limit v = Inr (Some ms) \<Longrightarrow> t < ms \<and> ms \<le> limit"
  by (auto simp: read_until_def split: option.splits json.splits if_splits)

lemma read_plan_cases:
  assumes "read_plan sha refused opts raw = Inr (p, ms)"
  obtains v b t limit y until js k ps where "read_version v = Inr (pl_version p)" "read_basis b = Inr (pl_basis p)"
    "plan_clock opts = Inr (t, limit)" "read_until t limit y = Inr until" "project_list k = Inr js"
    "read_projects refused (map_option envelope_entries (po_envelope opts)) (members_by_id sha (po_projects opts)) [] js = Inr ps"
    "pl_until p = map_option iso_text until" "pl_projects p = sort_key pp_id ps"
    "ms = (case until of None \<Rightarrow> limit | Some ms \<Rightarrow> ms)"
proof -
  obtain kvs basis t limit until js ps where R: "read_version (map_of kvs ''version'') = Inr (pl_version p)"
    "read_basis (map_of kvs ''basis'') = Inr basis" "plan_clock opts = Inr (t, limit)"
    "read_until t limit (map_of kvs ''validUntil'') = Inr until" "project_list (map_of kvs ''projects'') = Inr js"
    "read_projects refused (map_option envelope_entries (po_envelope opts)) (members_by_id sha (po_projects opts)) [] js = Inr ps"
    "p = \<lparr>pl_version = pl_version p, pl_basis = basis, pl_until = map_option iso_text until, pl_projects = sort_key pp_id ps\<rparr>"
    "ms = (case until of None \<Rightarrow> limit | Some ms \<Rightarrow> ms)" using assms unfolding read_plan_Inr by blast
  have "pl_basis p = basis" "pl_until p = map_option iso_text until" "pl_projects p = sort_key pp_id ps"
    by (subst R(7), simp)+
  with R(1-6,8) show ?thesis using that by blast
qed

lemma accepted_plan_facts:
  assumes "judge_plan sha refused opts raw = Plan_ok p i u"
  shows "pl_version p = plan_version \<and> (case pl_basis p of None \<Rightarrow> True | Some b \<Rightarrow> hex_text 16 b)
    \<and> sorted_wrt (<) (map pp_id (pl_projects p)) \<and> length (pl_projects p) \<le> list_max
    \<and> (\<forall>q \<in> set (pl_projects p). good_project refused q)
    \<and> (case po_envelope opts of None \<Rightarrow> True | Some e \<Rightarrow> set (map pp_id (pl_projects p)) = set (envelope_entries e))
    \<and> (case members_by_id sha (po_projects opts) of None \<Rightarrow> True
       | Some m \<Rightarrow> \<forall>q \<in> set (pl_projects p). case pp_repos q of None \<Rightarrow> True
           | Some rows \<Rightarrow> set (map fst rows) = set (member_refs m (pp_id q)))
    \<and> i = plan_id sha p
    \<and> (\<exists>t. po_now opts = Some t \<and> t < u \<and> u \<le> t + plan_days opts * day_ms)
    \<and> (pl_until p = None \<or> pl_until p = Some (iso_text u))"
proof -
  obtain ms where ms: "read_plan sha refused opts raw = Inr (p, ms)" "i = plan_id sha p" "u = ms"
    "\<not> missing_project (po_envelope opts) p" "\<not> missing_repo (members_by_id sha (po_projects opts)) p"
    using assms by (auto simp: judge_plan_def split: sum.splits plan_stop.splits if_splits)
  let ?es = "map_option envelope_entries (po_envelope opts)" and ?ms = "members_by_id sha (po_projects opts)"
  obtain v b t limit y until js k ps where R: "read_version v = Inr (pl_version p)" "read_basis b = Inr (pl_basis p)"
    "plan_clock opts = Inr (t, limit)" "read_until t limit y = Inr until" "project_list k = Inr js"
    "read_projects refused ?es ?ms [] js = Inr ps"
    "pl_until p = map_option iso_text until" "pl_projects p = sort_key pp_id ps"
    "ms = (case until of None \<Rightarrow> limit | Some ms \<Rightarrow> ms)" by (rule read_plan_cases [OF ms(1)])
  have a: "list_all2 (\<lambda>j p. read_project refused ?es ?ms [] j = Inr p) js ps" "distinct (map pp_id ps)"
    using R(6) by (auto simp: read_projects_Inr)
  have each: "good_project refused q \<and> known_ref ?es (pp_id q)
      \<and> (\<forall>m rows. ?ms = Some m \<longrightarrow> pp_repos q = Some rows \<longrightarrow> fst ` set rows \<subseteq> set (member_refs m (pp_id q)))"
    if "q \<in> set (pl_projects p)" for q
  proof -
    have "q \<in> set ps" using that R(8) by simp
    then obtain j where "read_project refused ?es ?ms [] j = Inr q" using list_all2_member [OF a(1)] by blast
    then show ?thesis by (rule read_project_good)
  qed
  have version: "pl_version p = plan_version" using R(1) by (auto simp: read_version_def plan_version_def split: option.splits json.splits if_splits)
  have basis: "case pl_basis p of None \<Rightarrow> True | Some b \<Rightarrow> hex_text 16 b"
    using R(2) by (auto simp: read_basis_def split: option.splits json.splits if_splits)
  have strict: "sorted_wrt (<) (map pp_id (pl_projects p))" using sorted_distinct_strict [OF a(2)] by (simp add: R(8))
  have len: "length (pl_projects p) \<le> list_max"
    using R(5,8) list_all2_lengthD [OF a(1)] by (auto simp: project_list_def split: option.splits json.splits if_splits)
  have ids: "case po_envelope opts of None \<Rightarrow> True | Some e \<Rightarrow> set (map pp_id (pl_projects p)) = set (envelope_entries e)"
    using ms(4) each by (fastforce simp: missing_project_def known_ref_def split: option.splits)
  have rows: "case ?ms of None \<Rightarrow> True
       | Some m \<Rightarrow> \<forall>q \<in> set (pl_projects p). case pp_repos q of None \<Rightarrow> True
           | Some rows \<Rightarrow> set (map fst rows) = set (member_refs m (pp_id q))"
    using ms(5) each by (fastforce simp: missing_repo_def split: option.splits)
  have clock: "po_now opts = Some t" "limit = t + plan_days opts * day_ms" "1 \<le> plan_days opts"
    using plan_clock_Inr [OF R(3)] by auto
  have "t < ms \<and> ms \<le> limit"
    using R(4,9) read_until_Inr [of t limit y] clock by (cases until) (auto simp: day_ms_def)
  then have life: "\<exists>t. po_now opts = Some t \<and> t < u \<and> u \<le> t + plan_days opts * day_ms" using clock ms(3) by blast
  have "pl_until p = None \<or> pl_until p = Some (iso_text u)" using R(7,9) ms(3) by (cases until) auto
  show ?thesis using version basis strict len each ids rows ms(2) life \<open>pl_until p = None \<or> pl_until p = Some (iso_text u)\<close> by blast
qed

text \<open>
  An accepted plan is canonical and complete: version 1, a basis that is null or a plan id, the
  projects in strictly ascending order and each well formed (weights 0 to 1000, a printable reason,
  its repositories distinct members in order), every envelope entry named exactly once and no other,
  every member of a project that lists repositories named, and an end after now and within the
  longest life allowed.
\<close>

theorem accepted_plan_well_formed:
  assumes "judge_plan sha refused opts raw = Plan_ok p i u"
  shows "pl_version p = plan_version \<and> (case pl_basis p of None \<Rightarrow> True | Some b \<Rightarrow> hex_text 16 b)
    \<and> sorted_wrt (<) (map pp_id (pl_projects p)) \<and> length (pl_projects p) \<le> list_max
    \<and> (\<forall>q \<in> set (pl_projects p). good_project refused q)
    \<and> (case po_envelope opts of None \<Rightarrow> True | Some e \<Rightarrow> set (map pp_id (pl_projects p)) = set (envelope_entries e))
    \<and> (case members_by_id sha (po_projects opts) of None \<Rightarrow> True
       | Some m \<Rightarrow> \<forall>q \<in> set (pl_projects p). case pp_repos q of None \<Rightarrow> True
           | Some rows \<Rightarrow> set (map fst rows) = set (member_refs m (pp_id q)))
    \<and> i = plan_id sha p
    \<and> (\<exists>t. po_now opts = Some t \<and> t < u \<and> u \<le> t + plan_days opts * day_ms)
    \<and> (pl_until p = None \<or> pl_until p = Some (iso_text u))"
  by (rule accepted_plan_facts [OF assms])

section \<open>Examples\<close>

abbreviation demo_options :: plan_options where
  "demo_options \<equiv> \<lparr>po_envelope = Some demo_envelope, po_projects = Some [(''a'', [''0123abcd''])], po_now = Some 0, po_days = Some 1\<rparr>"

abbreviation demo_entry :: json where
  "demo_entry \<equiv> JObj [(''id'', JStr ''a''), (''weight'', JInt 3), (''repos'', JArr [JObj [(''ref'', JStr ''0123abcd''), (''weight'', JInt 1)]])]"

abbreviation demo_rest :: json where
  "demo_rest \<equiv> JObj [(''weight'', JInt 1), (''id'', JStr ''_other'')]"

abbreviation demo_raw :: json where
  "demo_raw \<equiv> JObj [(''version'', JInt 1), (''basis'', JNull), (''projects'', JArr [demo_entry, demo_rest])]"

abbreviation demo_raw' :: json where
  "demo_raw' \<equiv> JObj [(''basis'', JNull), (''version'', JInt 1), (''projects'', JArr [demo_rest, demo_entry])]"

lemma demo_project_a:
  "read_project (\<lambda>_. False) (Some [''_other'', ''a'']) (Some [(''a'', [''0123abcd''])]) [] demo_entry =
     Inr \<lparr>pp_id = ''a'', pp_weight = 3, pp_reason = None, pp_repos = Some [(''0123abcd'', 1)]\<rparr>"
  by (simp add: read_project_Inr unknown_key_def project_keys_def read_id_Inr is_project_id_def is_id_char_def known_ref_def
      read_weight_Inr weight_max_def read_reason_def read_repos_field_def parse_repos_def other_id_def list_max_def sum_bind_Inr
      read_repo_Inr repo_keys_def hex_text_def is_digit_def member_refs_def)

lemma demo_project_other:
  "read_project (\<lambda>_. False) (Some [''_other'', ''a'']) (Some [(''a'', [''0123abcd''])]) [''a''] demo_rest =
     Inr \<lparr>pp_id = ''_other'', pp_weight = 1, pp_reason = None, pp_repos = None\<rparr>"
  by (simp add: read_project_Inr unknown_key_def project_keys_def read_id_Inr known_ref_def
      read_weight_Inr weight_max_def read_reason_def read_repos_field_def other_id_def)

lemma demo_accepted: "\<exists>p i u. judge_plan id (\<lambda>_. False) demo_options demo_raw = Plan_ok p i u"
proof -
  have e: "envelope_entries demo_envelope = [''_other'', ''a'']" by (rule demo_entries)
  have r: "\<exists>p ms. read_plan id (\<lambda>_. False) demo_options demo_raw = Inr (p, ms)
      \<and> pl_projects p = sort_key pp_id [\<lparr>pp_id = ''a'', pp_weight = 3, pp_reason = None, pp_repos = Some [(''0123abcd'', 1)]\<rparr>,
           \<lparr>pp_id = ''_other'', pp_weight = 1, pp_reason = None, pp_repos = None\<rparr>]"
    by (simp add: read_plan_def unknown_key_def plan_keys_def read_version_def plan_version_def read_basis_def plan_clock_def
        plan_days_def max_plan_days_def max_date_ms_def day_ms_def read_until_def project_list_def list_max_def e
        members_by_id_def scope_ref_def demo_project_a demo_project_other)
  then obtain p ms where p: "read_plan id (\<lambda>_. False) demo_options demo_raw = Inr (p, ms)"
    and q: "pl_projects p = sort_key pp_id [\<lparr>pp_id = ''a'', pp_weight = 3, pp_reason = None, pp_repos = Some [(''0123abcd'', 1)]\<rparr>,
           \<lparr>pp_id = ''_other'', pp_weight = 1, pp_reason = None, pp_repos = None\<rparr>]" by (elim exE conjE)
  have s: "set (pl_projects p) = {\<lparr>pp_id = ''a'', pp_weight = 3, pp_reason = None, pp_repos = Some [(''0123abcd'', 1)]\<rparr>,
           \<lparr>pp_id = ''_other'', pp_weight = 1, pp_reason = None, pp_repos = None\<rparr>}" unfolding q set_sort by simp
  show ?thesis
    by (simp add: judge_plan_def p s missing_project_def missing_repo_def e members_by_id_def scope_ref_def member_refs_def)
qed

lemma demo_same: "same_plan demo_raw demo_raw'"
proof -
  have "mset [demo_rest, demo_entry] = mset [demo_entry, demo_rest]" by simp
  moreover have "list_all2 same_entry [demo_rest, demo_entry] [demo_rest, demo_entry]" by (simp add: same_repos_def)
  ultimately show ?thesis by (auto intro!: exI [of _ "[demo_rest, demo_entry]"])
qed

theorem plan_order_irrelevant_witness:
  "\<exists>p i u. judge_plan id (\<lambda>_. False) demo_options demo_raw = Plan_ok p i u
     \<and> judge_plan id (\<lambda>_. False) demo_options demo_raw' = Plan_ok p i u"
proof -
  obtain p i u where a: "judge_plan id (\<lambda>_. False) demo_options demo_raw = Plan_ok p i u" using demo_accepted by blast
  from plan_order_irrelevant [OF a demo_same] a show ?thesis by blast
qed

theorem accepted_plan_well_formed_witness:
  "\<exists>p i u. judge_plan id (\<lambda>_. False) demo_options demo_raw = Plan_ok p i u \<and> set (map pp_id (pl_projects p)) = {''_other'', ''a''}"
proof -
  obtain p i u where a: "judge_plan id (\<lambda>_. False) demo_options demo_raw = Plan_ok p i u" using demo_accepted by blast
  have "set (map pp_id (pl_projects p)) = set (envelope_entries demo_envelope)"
    using accepted_plan_well_formed [OF a] by simp
  then show ?thesis using a by (auto simp: demo_entries)
qed

end
