(* ===== verification/Envelope.thy ===== *)
theory Envelope
  imports PlanText Money
begin

text \<open>
  The operator's envelope file (worker/src/envelope.mjs): reading it with every refusal in its
  order, its digest, and where the file may lie. The engine's \<open>JSON.parse\<close>, the ids of the projects
  file, the dollar rows of the limits file and SHA-256 are parameters. The file system is one too:
  \<open>stat\<close> gives a path's identity, \<open>realpath\<close> its canonical path. The sum of the floors is exact in
  the model; the code adds doubles, which agree below 2 to the 53, far above any total it accepts.
\<close>

definition envelope_version :: int where "envelope_version = 1"
definition max_interval_hours :: int where "max_interval_hours = 24 * 366"
definition top_keys :: "string list" where
  "top_keys = [''version'', ''window'', ''totalUsd'', ''floorsUsd'', ''defaultWeights'', ''delegation'']"
definition delegation_keys :: "string list" where
  "delegation_keys = [''enabled'', ''writers'', ''maxStepPct'', ''minIntervalHours'', ''maxPlanDays'']"

datatype env_refusal = Env_json | Env_not_object | Env_version | Env_newer | Env_unknown string | Env_no_cap
  | Env_window | Env_amount string | Env_floors | Env_entry string | Env_project string string | Env_sum int int
  | Env_weights | Env_no_floor string | Env_weight string | Env_row string string | Env_delegation string

record limit_row =
  lr_scope :: string
  lr_day :: usd_value
  lr_week :: usd_value
  lr_month :: usd_value

section \<open>Amounts and entries\<close>

definition usd_of :: "json option \<Rightarrow> usd_value" where
  "usd_of v =
     (case v of None \<Rightarrow> Usd_absent | Some JNull \<Rightarrow> Usd_absent
      | Some (JStr t) \<Rightarrow> Usd_text t | Some (JInt n) \<Rightarrow> Usd_number (int_text n) | Some (JFloat t) \<Rightarrow> Usd_number t
      | Some _ \<Rightarrow> Usd_other)"

definition zero_text :: "string \<Rightarrow> bool" where
  "zero_text t \<longleftrightarrow> t = ''0'' \<or> (take 2 t = ''0.'' \<and> drop 2 t \<noteq> [] \<and> length t \<le> 8 \<and> list_all (\<lambda>c. c = CHR ''0'') (drop 2 t))"

definition read_amount :: "usd_value \<Rightarrow> string \<Rightarrow> env_refusal + int" where
  "read_amount v key = (case parse_usd_micros v key of Inl _ \<Rightarrow> Inl (Env_amount key) | Inr m \<Rightarrow> Inr m)"

definition floor_micros :: "json option \<Rightarrow> string \<Rightarrow> env_refusal + int" where
  "floor_micros v key =
     (if v = Some (JInt 0) \<or> (\<exists>t \<in> (case v of Some (JStr t) \<Rightarrow> {t} | _ \<Rightarrow> {}). zero_text t) then Inr 0
      else read_amount (usd_of v) key)"

definition check_entry_id :: "string list \<Rightarrow> string \<Rightarrow> string \<Rightarrow> env_refusal + unit" where
  "check_entry_id known key i =
     (if i = other_id then Inr ()
      else if \<not> is_project_id i then Inl (Env_entry key)
      else if i \<notin> set known then Inl (Env_project key i)
      else Inr ())"

definition read_floor :: "string list \<Rightarrow> (string \<times> json) list \<Rightarrow> string \<Rightarrow> env_refusal + (string \<times> int option)" where
  "read_floor known kvs i =
     sum_bind (check_entry_id known ''floorsUsd'' i) (\<lambda>_.
       sum_bind (floor_micros (map_of kvs i) (''floorsUsd.'' @ i)) (\<lambda>m. Inr (i, Some m)))"

definition with_other :: "fields \<Rightarrow> fields" where
  "with_other fs = (if other_id \<in> set (map fst fs) then fs else fs @ [(other_id, Some 0)])"

definition read_floors :: "string list \<Rightarrow> json option \<Rightarrow> env_refusal + fields" where
  "read_floors known v =
     (case v of Some (JObj kvs) \<Rightarrow>
          sum_bind (sum_map_list (read_floor known kvs) (sort (map fst kvs))) (\<lambda>fs. Inr (with_other fs))
      | _ \<Rightarrow> Inl Env_floors)"

definition floors_sum :: "fields \<Rightarrow> int" where
  "floors_sum fs = sum_list (map (\<lambda>(i, v). case v of None \<Rightarrow> 0 | Some m \<Rightarrow> m) fs)"

definition check_weight :: "string list \<Rightarrow> fields \<Rightarrow> string \<times> json \<Rightarrow> env_refusal + (string \<times> int option)" where
  "check_weight known floors kv =
     sum_bind (check_entry_id known ''defaultWeights'' (fst kv)) (\<lambda>_.
       if fst kv \<notin> set (map fst floors) then Inl (Env_no_floor (fst kv))
       else case snd kv of
         JInt w \<Rightarrow> if w < 0 \<or> w > weight_max then Inl (Env_weight (fst kv)) else Inr (fst kv, Some w)
       | _ \<Rightarrow> Inl (Env_weight (fst kv)))"

definition given_weights :: "string list \<Rightarrow> fields \<Rightarrow> json option \<Rightarrow> env_refusal + fields" where
  "given_weights known floors v =
     (case v of None \<Rightarrow> Inr []
      | Some (JObj kvs) \<Rightarrow> sum_map_list (check_weight known floors) kvs
      | Some _ \<Rightarrow> Inl Env_weights)"

definition default_weights :: "fields \<Rightarrow> fields \<Rightarrow> fields" where
  "default_weights floors given =
     map (\<lambda>i. (i, case map_of given i of Some (Some w) \<Rightarrow> Some w | _ \<Rightarrow> Some 1)) (sort (map fst floors))"

section \<open>The operator's rows\<close>

definition bounding_fields :: "window_name \<Rightarrow> limit_row \<Rightarrow> (string \<times> usd_value) list" where
  "bounding_fields w r =
     (case w of Day \<Rightarrow> [(''dayUsd'', lr_day r), (''weekUsd'', lr_week r), (''monthUsd'', lr_month r)]
      | Week \<Rightarrow> [(''weekUsd'', lr_week r), (''monthUsd'', lr_month r)]
      | Month \<Rightarrow> [(''monthUsd'', lr_month r)])"

fun check_row :: "string \<Rightarrow> int \<Rightarrow> (string \<times> usd_value) list \<Rightarrow> env_refusal + unit" where
  "check_row i floor [] = Inr ()"
| "check_row i floor ((f, v) # fvs) =
     (if v = Usd_absent then check_row i floor fvs
      else sum_bind (read_amount v f) (\<lambda>cap. if cap < floor then Inl (Env_row i f) else check_row i floor fvs))"

fun check_rows :: "window_name \<Rightarrow> limit_row list \<Rightarrow> fields \<Rightarrow> env_refusal + unit" where
  "check_rows w limits [] = Inr ()"
| "check_rows w limits ((i, v) # fs) =
     (if i = other_id \<or> v = Some 0 then check_rows w limits fs
      else sum_bind (case find (\<lambda>l. lr_scope l = ''project:'' @ i) limits of None \<Rightarrow> Inr ()
                     | Some r \<Rightarrow> check_row i (case v of None \<Rightarrow> 0 | Some m \<Rightarrow> m) (bounding_fields w r)) (\<lambda>_.
           check_rows w limits fs))"

section \<open>The delegation block\<close>

definition bounded_field :: "(string \<times> json) list \<Rightarrow> bool \<Rightarrow> string \<Rightarrow> int \<Rightarrow> int \<Rightarrow> env_refusal + int option" where
  "bounded_field kvs need key lo hi =
     (case map_of kvs key of
        None \<Rightarrow> if need then Inl (Env_delegation key) else Inr None
      | Some (JInt n) \<Rightarrow> if n < lo \<or> n > hi then Inl (Env_delegation key) else Inr (Some n)
      | Some _ \<Rightarrow> Inl (Env_delegation key))"

definition writer_of :: "json \<Rightarrow> env_refusal + string" where
  "writer_of j = (case j of JStr w \<Rightarrow> if w \<in> set plan_writers then Inr w else Inl (Env_delegation ''writers'') | _ \<Rightarrow> Inl (Env_delegation ''writers''))"

definition read_writers :: "(string \<times> json) list \<Rightarrow> bool \<Rightarrow> env_refusal + string list" where
  "read_writers kvs need =
     (case map_of kvs ''writers'' of
        None \<Rightarrow> if need then Inl (Env_delegation ''writers'') else Inr []
      | Some (JArr js) \<Rightarrow>
          sum_bind (sum_map_list writer_of js) (\<lambda>ws.
            if ws = [] \<or> \<not> distinct ws then Inl (Env_delegation ''writers'') else Inr (sort ws))
      | Some _ \<Rightarrow> Inl (Env_delegation ''writers''))"

definition parse_delegation :: "json option \<Rightarrow> env_refusal + delegation" where
  "parse_delegation v =
     (case v of
        None \<Rightarrow> Inr \<lparr>dg_enabled = False, dg_writers = [], dg_min_interval_hours = None, dg_max_step_pct = None, dg_max_plan_days = None\<rparr>
      | Some (JObj kvs) \<Rightarrow>
          if unknown_key kvs delegation_keys then Inl (Env_unknown ''delegation'')
          else (case map_of kvs ''enabled'' of
              Some (JBool need) \<Rightarrow>
                sum_bind (read_writers kvs need) (\<lambda>ws.
                sum_bind (bounded_field kvs need ''maxStepPct'' 1 100) (\<lambda>pct.
                sum_bind (bounded_field kvs need ''minIntervalHours'' 0 max_interval_hours) (\<lambda>hours.
                sum_bind (bounded_field kvs need ''maxPlanDays'' 1 max_plan_days) (\<lambda>days.
                  Inr \<lparr>dg_enabled = need, dg_writers = ws, dg_min_interval_hours = hours, dg_max_step_pct = pct, dg_max_plan_days = days\<rparr>))))
            | _ \<Rightarrow> Inl (Env_delegation ''enabled''))
      | Some _ \<Rightarrow> Inl (Env_delegation ''delegation''))"

section \<open>The file\<close>

record env_context =
  ec_projects :: "string list"
  ec_limits :: "limit_row list"
  ec_max_cost :: "int option"   \<comment> \<open>the per-job cap in micro-dollars; \<open>None\<close> where it is no integer\<close>

definition check_version :: "json option \<Rightarrow> env_refusal + int" where
  "check_version v =
     (case v of Some (JInt n) \<Rightarrow> if n < 1 then Inl Env_version else if n > envelope_version then Inl Env_newer else Inr n
      | _ \<Rightarrow> Inl Env_version)"

definition check_cost_cap :: "int option \<Rightarrow> env_refusal + unit" where
  "check_cost_cap c = (case c of Some n \<Rightarrow> if is_safe n \<and> 0 < n then Inr () else Inl Env_no_cap | None \<Rightarrow> Inl Env_no_cap)"

definition read_window :: "json option \<Rightarrow> env_refusal + window_name" where
  "read_window v =
     (if v = Some (JStr ''day'') then Inr Day else if v = Some (JStr ''week'') then Inr Week
      else if v = Some (JStr ''month'') then Inr Month else Inl Env_window)"

definition read_envelope :: "env_context \<Rightarrow> json \<Rightarrow> env_refusal + envelope" where
  "read_envelope ctx raw =
     (case raw of JObj kvs \<Rightarrow>
        sum_bind (check_version (map_of kvs ''version'')) (\<lambda>version.
        if unknown_key kvs top_keys then Inl (Env_unknown ''the file'') else
        sum_bind (check_cost_cap (ec_max_cost ctx)) (\<lambda>_.
        sum_bind (read_window (map_of kvs ''window'')) (\<lambda>window.
        sum_bind (read_amount (usd_of (map_of kvs ''totalUsd'')) ''totalUsd'') (\<lambda>tot.
        sum_bind (read_floors (ec_projects ctx) (map_of kvs ''floorsUsd'')) (\<lambda>floors.
        if floors_sum floors > tot then Inl (Env_sum (floors_sum floors) tot) else
        sum_bind (given_weights (ec_projects ctx) floors (map_of kvs ''defaultWeights'')) (\<lambda>given.
        sum_bind (check_rows window (ec_limits ctx) floors) (\<lambda>_.
        sum_bind (parse_delegation (map_of kvs ''delegation'')) (\<lambda>delegation.
        Inr \<lparr>en_version = version, en_window = window, en_total = Some tot, en_floors = floors,
             en_weights = default_weights floors given, en_delegation = Some delegation\<rparr>))))))))
      | _ \<Rightarrow> Inl Env_not_object)"

definition parse_envelope :: "(string \<Rightarrow> json option) \<Rightarrow> env_context \<Rightarrow> string \<Rightarrow> env_refusal + envelope" where
  "parse_envelope json_parse ctx text =
     (case json_parse text of None \<Rightarrow> Inl Env_json | Some raw \<Rightarrow> read_envelope ctx raw)"

section \<open>The digest\<close>

definition number_json :: "int option \<Rightarrow> json" where
  "number_json v = (case v of None \<Rightarrow> JNull | Some n \<Rightarrow> JInt n)"

definition fields_json :: "fields \<Rightarrow> json" where
  "fields_json fs = JObj (map (\<lambda>k. (k, number_json (field fs k))) (sorted_keys fs))"

definition delegation_json :: "delegation \<Rightarrow> json" where
  "delegation_json d =
     JObj [(''enabled'', JBool (dg_enabled d)), (''maxPlanDays'', number_json (dg_max_plan_days d)),
           (''maxStepPct'', number_json (dg_max_step_pct d)), (''minIntervalHours'', number_json (dg_min_interval_hours d)),
           (''writers'', JArr (map JStr (dg_writers d)))]"

definition window_text :: "window_name \<Rightarrow> string" where
  "window_text w = (case w of Day \<Rightarrow> ''day'' | Week \<Rightarrow> ''week'' | Month \<Rightarrow> ''month'')"

definition envelope_json :: "envelope \<Rightarrow> json" where
  "envelope_json e =
     JObj [(''defaultWeights'', fields_json (en_weights e)),
           (''delegation'', case en_delegation e of None \<Rightarrow> JNull | Some d \<Rightarrow> delegation_json d),
           (''floors'', fields_json (en_floors e)), (''totalMicros'', number_json (en_total e)),
           (''version'', JInt (en_version e)), (''window'', JStr (window_text (en_window e)))]"

definition envelope_digest :: "(string \<Rightarrow> string) \<Rightarrow> envelope \<Rightarrow> string" where
  "envelope_digest sha e = take 16 (sha (canonical_json (envelope_json e)))"

section \<open>What a parsed envelope gives\<close>

lemma sum_list_total: "sum_list (map (\<lambda>(i, v). case v of None \<Rightarrow> 0 | Some m \<Rightarrow> m) fs) = total_of (map fst fs) f"
  if "\<And>i v. (i, v) \<in> set fs \<Longrightarrow> (case v of None \<Rightarrow> 0 | Some m \<Rightarrow> m) = f i" for f :: "string \<Rightarrow> int"
  using that by (induction fs) auto

lemma read_floor_Inr:
  "read_floor known kvs i = Inr p \<Longrightarrow> fst p = i \<and> i \<noteq> unallocated_key \<and> (\<exists>m. snd p = Some m \<and> 0 \<le> m \<and> m \<le> max_usd_micros)"
  by (auto simp: read_floor_def check_entry_id_def other_id_def is_project_id_def unallocated_key_def floor_micros_def read_amount_def sum_bind_Inr max_usd_micros_def micros_per_usd_def
      dest: parse_usd_bounds split: if_splits sum.splits)

lemma floors_read:
  assumes "sum_map_list (read_floor known kvs) ks = Inr fs"
  shows "map fst fs = ks" "\<forall>(i, v) \<in> set fs. i \<noteq> unallocated_key \<and> (\<exists>m. v = Some m \<and> 0 \<le> m \<and> m \<le> max_usd_micros)"
proof -
  have l: "list_all2 (\<lambda>i p. read_floor known kvs i = Inr p) ks fs" using assms by (simp add: sum_map_list_Inr)
  then show "map fst fs = ks" by (induction rule: list_all2_induct) (auto dest: read_floor_Inr)
  from l show "\<forall>(i, v) \<in> set fs. i \<noteq> unallocated_key \<and> (\<exists>m. v = Some m \<and> 0 \<le> m \<and> m \<le> max_usd_micros)"
    by (induction rule: list_all2_induct) (auto dest: read_floor_Inr)
qed

lemma read_floors_Inr:
  assumes "read_floors known v = Inr floors"
    and "\<And>kvs. v = Some (JObj kvs) \<Longrightarrow> distinct (map fst kvs)"
  shows "distinct (map fst floors)" "other_id \<in> set (map fst floors)"
    "\<forall>(i, v) \<in> set floors. i \<noteq> unallocated_key \<and> (\<exists>m. v = Some m \<and> 0 \<le> m \<and> m \<le> max_usd_micros)"
proof -
  obtain kvs fs where f: "v = Some (JObj kvs)" "sum_map_list (read_floor known kvs) (sort (map fst kvs)) = Inr fs" "floors = with_other fs"
    using assms(1) by (auto simp: read_floors_def sum_bind_Inr split: option.splits json.splits)
  note fr = floors_read [OF f(2)]
  have "distinct (map fst fs)" using fr(1) assms(2) [OF f(1)] by simp
  then show "distinct (map fst floors)" by (auto simp: f(3) with_other_def)
  show "other_id \<in> set (map fst floors)" by (auto simp: f(3) with_other_def)
  show "\<forall>(i, v) \<in> set floors. i \<noteq> unallocated_key \<and> (\<exists>m. v = Some m \<and> 0 \<le> m \<and> m \<le> max_usd_micros)"
    using fr(2) by (auto simp: f(3) with_other_def max_usd_micros_def micros_per_usd_def other_id_def unallocated_key_def)
qed

lemma usd_is_safe: "0 \<le> m \<Longrightarrow> m \<le> max_usd_micros \<Longrightarrow> is_safe m"
  by (simp add: is_safe_def max_safe_def max_usd_micros_def micros_per_usd_def)

lemma field_member: "distinct (map fst fs) \<Longrightarrow> (i, v) \<in> set fs \<Longrightarrow> field fs i = v"
  by (simp add: field_def)

lemma check_weight_Inr: "check_weight known floors kv = Inr p \<Longrightarrow> fst p = fst kv \<and> is_weight (snd p)"
  by (auto simp: check_weight_def sum_bind_Inr is_weight_def split: if_splits json.splits)

lemma given_weights_Inr:
  assumes "given_weights known floors v = Inr given"
  shows "\<forall>(i, w) \<in> set given. is_weight w"
proof (cases "given = []")
  case False
  then obtain kvs where "sum_map_list (check_weight known floors) kvs = Inr given"
    using assms by (auto simp: given_weights_def split: option.splits json.splits)
  then have "list_all2 (\<lambda>kv p. check_weight known floors kv = Inr p) kvs given" by (simp add: sum_map_list_Inr)
  then show ?thesis by (induction rule: list_all2_induct) (auto dest: check_weight_Inr)
qed simp

lemma default_weights_good:
  assumes "\<forall>(i, w) \<in> set given. is_weight w" "i \<in> set (map fst floors)"
  shows "is_weight (field (default_weights floors given) i)"
proof -
  have m: "map_of (default_weights floors given) i = Some (case map_of given i of Some (Some w) \<Rightarrow> Some w | _ \<Rightarrow> Some 1)"
    using assms(2) map_of_map_restrict [of "\<lambda>i. case map_of given i of Some (Some w) \<Rightarrow> Some w | _ \<Rightarrow> Some 1" "sort (map fst floors)"]
    by (simp add: default_weights_def restrict_map_def)
  show ?thesis
  proof (cases "map_of given i")
    case (Some w)
    then have "is_weight w" using assms(1) map_of_SomeD [OF Some] by auto
    then show ?thesis using m Some by (cases w) (auto simp: field_def is_weight_def weight_max_def)
  qed (use m in \<open>simp add: field_def is_weight_def weight_max_def\<close>)
qed

lemma default_weights_keys: "set (map fst (default_weights floors given)) = set (map fst floors)"
  by (force simp: default_weights_def)

lemma read_envelope_Inr:
  assumes "read_envelope ctx (JObj kvs) = Inr e"
  obtains tot floors given where "read_floors (ec_projects ctx) (map_of kvs ''floorsUsd'') = Inr floors"
    "read_amount (usd_of (map_of kvs ''totalUsd'')) ''totalUsd'' = Inr tot" "floors_sum floors \<le> tot"
    "given_weights (ec_projects ctx) floors (map_of kvs ''defaultWeights'') = Inr given"
    "en_total e = Some tot" "en_floors e = floors" "en_weights e = default_weights floors given" "en_delegation e \<noteq> None"
  using assms by (auto simp: read_envelope_def sum_bind_Inr split: if_splits)

lemma neutral_exists:
  assumes "envelope_numbers e = Some (tot, floors, entries)"
    and "\<forall>k \<in> set entries. is_weight (field (en_weights e) k)" "set (map fst (en_weights e)) \<subseteq> set entries"
  shows "\<exists>a. neutral_allocation e = Some a"
  using assms by (auto simp: neutral_allocation_def allocate_def Let_def)

text \<open>
  Every envelope file that is accepted can be enforced: its amounts are exact micro-dollars, its
  entries distinct with \<open>_other\<close> among them, its floors within the total, a valid weight for every
  entry, and its neutral split exists, gives every entry at least its floor and hands out the total
  exactly.
\<close>

theorem accepted_envelope_has_neutral:
  assumes "read_envelope ctx (JObj kvs) = Inr e"
    and "\<And>fs. map_of kvs ''floorsUsd'' = Some (JObj fs) \<Longrightarrow> distinct (map fst fs)"
  shows "\<exists>tot floors entries a. envelope_numbers e = Some (tot, floors, entries) \<and> 0 < tot \<and> tot \<le> max_usd_micros
    \<and> distinct entries \<and> other_id \<in> set entries \<and> unallocated_key \<notin> set entries
    \<and> (\<forall>k \<in> set entries. is_weight (field (en_weights e) k))
    \<and> neutral_allocation e = Some a \<and> (\<forall>k \<in> set entries. floors k \<le> al_allocations a k)
    \<and> total_of entries (al_allocations a) + al_unallocated a = tot"
proof -
  obtain tot floors given where E: "read_floors (ec_projects ctx) (map_of kvs ''floorsUsd'') = Inr floors"
    "read_amount (usd_of (map_of kvs ''totalUsd'')) ''totalUsd'' = Inr tot" "floors_sum floors \<le> tot"
    "given_weights (ec_projects ctx) floors (map_of kvs ''defaultWeights'') = Inr given"
    "en_total e = Some tot" "en_floors e = floors" "en_weights e = default_weights floors given"
    by (rule read_envelope_Inr [OF assms(1)])
  note F = read_floors_Inr [OF E(1) assms(2)]
  have tot: "0 < tot" "tot \<le> max_usd_micros"
    using E(2) by (auto simp: read_amount_def dest: parse_usd_bounds split: sum.splits)
  have am: "micros (field floors k) = Some (amounts floors k)" if "k \<in> set (map fst floors)" for k
  proof -
    from that obtain v where v: "(k, v) \<in> set floors" by auto
    with F(3) obtain m where m: "v = Some m" "0 \<le> m" "m \<le> max_usd_micros" by auto
    then have "micros (field floors k) = Some m"
      using field_member [OF F(1) v] usd_is_safe [OF m(2,3)] by (simp add: micros_def)
    then show ?thesis by (simp add: amounts_def)
  qed
  have entries: "set (envelope_entries e) = set (map fst floors)" by (simp add: envelope_entries_def sorted_keys_def E(6))
  have sum: "total_of (envelope_entries e) (amounts floors) = floors_sum floors"
  proof -
    have "(case v of None \<Rightarrow> 0 | Some m \<Rightarrow> m) = amounts floors i" if v: "(i, v) \<in> set floors" for i v
    proof -
      obtain m where m: "v = Some m" "0 \<le> m" "m \<le> max_usd_micros" using F(3) v by auto
      then show ?thesis using field_member [OF F(1) v] usd_is_safe [OF m(2,3)] by (simp add: amounts_def micros_def)
    qed
    then have "floors_sum floors = total_of (map fst floors) (amounts floors)"
      unfolding floors_sum_def by (rule sum_list_total)
    then show ?thesis by (simp add: envelope_entries_def sorted_keys_def E(6) total_of_sort)
  qed
  have mt: "micros (en_total e) = Some tot" using tot usd_is_safe [of tot] by (simp add: E(5) micros_def)
  have n: "envelope_numbers e = Some (tot, amounts floors, envelope_entries e)"
    using F(2) entries am mt sum E(3) by (auto simp: envelope_numbers_def Let_def all_micros_def E(6))
  have w: "is_weight (field (en_weights e) k)" if "k \<in> set (envelope_entries e)" for k
    using default_weights_good [OF given_weights_Inr [OF E(4)]] that entries by (simp add: E(7))
  obtain a where a: "neutral_allocation e = Some a"
    using neutral_exists [OF n] w entries default_weights_keys [of floors given] by (auto simp: E(7))
  have u: "unallocated_key \<notin> set (envelope_entries e)" using F(3) entries by auto
  have d: "distinct (map fst (en_floors e))" using F(1) by (simp add: E(6))
  from allocate_total [OF a [unfolded neutral_allocation_def] n d u] n tot entries_distinct [OF d] u w a F(2) entries
  show ?thesis by auto
qed

abbreviation demo_file :: "(string \<times> json) list" where
  "demo_file \<equiv> [(''version'', JInt 1), (''window'', JStr ''day''), (''totalUsd'', JInt 5), (''floorsUsd'', JObj [(''a'', JInt 0)])]"

theorem accepted_envelope_has_neutral_witness:
  "\<exists>e a. read_envelope \<lparr>ec_projects = [''a''], ec_limits = [], ec_max_cost = Some 1\<rparr> (JObj demo_file) = Inr e
     \<and> neutral_allocation e = Some a"
proof -
  let ?ctx = "\<lparr>ec_projects = [''a''], ec_limits = [], ec_max_cost = Some 1\<rparr>"
  have five: "read_amount (Usd_number (int_text 5)) ''totalUsd'' = Inr 5000000" by code_simp
  have a: "is_project_id ''a''" by code_simp
  have "\<exists>e. read_envelope ?ctx (JObj demo_file) = Inr e"
    using five a
    by (simp add: read_envelope_def check_version_def envelope_version_def unknown_key_def top_keys_def check_cost_cap_def is_safe_def
        max_safe_def read_window_def usd_of_def read_floors_def read_floor_def check_entry_id_def other_id_def floor_micros_def
        with_other_def floors_sum_def given_weights_def parse_delegation_def)
  then obtain e where e: "read_envelope ?ctx (JObj demo_file) = Inr e" by blast
  from accepted_envelope_has_neutral [OF e] e show ?thesis by auto
qed

text \<open>Two envelopes with the same digest text hold the same amounts.\<close>

lemma number_json_inj: "number_json x = number_json y \<longleftrightarrow> x = y"
  by (auto simp: number_json_def split: option.splits)

lemma window_text_inj: "window_text v = window_text w \<longleftrightarrow> v = w"
  by (cases v; cases w) (simp_all add: window_text_def)

lemma fields_json_eq:
  assumes "fields_json a = fields_json b"
  shows "sorted_keys a = sorted_keys b \<and> (\<forall>k \<in> set (sorted_keys a). field a k = field b k)"
proof -
  have m: "map (\<lambda>k. (k, number_json (field a k))) (sorted_keys a) = map (\<lambda>k. (k, number_json (field b k))) (sorted_keys b)"
    using assms by (simp add: fields_json_def)
  then have "map fst (map (\<lambda>k. (k, number_json (field a k))) (sorted_keys a)) = map fst (map (\<lambda>k. (k, number_json (field b k))) (sorted_keys b))"
    by simp
  then have k: "sorted_keys a = sorted_keys b" by (simp add: comp_def)
  have "number_json (field a k) = number_json (field b k)" if "k \<in> set (sorted_keys a)" for k
    using m that by (simp add: k)
  then show ?thesis using k by (simp add: number_json_inj)
qed

lemma digest_text_identifies:
  assumes "in_form (envelope_json e)" "in_form (envelope_json f)"
    and "canonical_json (envelope_json e) = canonical_json (envelope_json f)"
  shows "en_total e = en_total f \<and> en_window e = en_window f \<and> sorted_keys (en_floors e) = sorted_keys (en_floors f)
    \<and> (\<forall>k \<in> set (sorted_keys (en_floors e)). field (en_floors e) k = field (en_floors f) k)"
proof -
  have j: "envelope_json e = envelope_json f" using canonical_json_inj [OF assms] .
  then have j: "fields_json (en_floors e) = fields_json (en_floors f)" "en_total e = en_total f" "en_window e = en_window f"
    by (simp_all add: envelope_json_def number_json_inj window_text_inj)
  from fields_json_eq [OF j(1)] j(2,3) show ?thesis by blast
qed

end
