(* ===== verification/EnvelopePlace.thy ===== *)
theory EnvelopePlace
  imports Json
begin

text \<open>
  Where the envelope file may lie (worker/src/envelope.mjs, from \<open>identityOf\<close> on): a job must not be
  able to write its own bounds, so no location a job path can name may be the folder of the envelope
  or a directory above it. The decision is by file identity (device and inode), never by spelling.
  \<open>stat\<close> and \<open>realpath\<close> are parameters; a path is its text.
\<close>

text \<open>A file's device and inode.\<close>

datatype identity = Identity int int

datatype stat_answer = Stat identity bool int | Stat_absent | Stat_error

datatype place_refusal = Not_absolute | Unresolvable | Not_canonical string | Not_regular | Many_links
  | Unreadable string | Relative_root string

record file_system =
  fs_stat :: "string \<Rightarrow> stat_answer"
  fs_realpath :: "string \<Rightarrow> string option"   \<comment> \<open>\<open>None\<close> when it throws\<close>

section \<open>Paths\<close>

definition absolute :: "string \<Rightarrow> bool" where
  "absolute p \<longleftrightarrow> p \<noteq> [] \<and> hd p = CHR ''/''"

fun split_slash :: "string \<Rightarrow> string list" where
  "split_slash [] = [[]]"
| "split_slash (c # cs) =
     (if c = CHR ''/'' then [] # split_slash cs
      else case split_slash cs of [] \<Rightarrow> [[c]] | s # ss \<Rightarrow> (c # s) # ss)"

definition segments :: "string \<Rightarrow> string list" where
  "segments p = filter (\<lambda>s. s \<noteq> []) (split_slash p)"

fun join_slash :: "string list \<Rightarrow> string" where
  "join_slash [] = []"
| "join_slash (s # ss) = CHR ''/'' # s @ join_slash ss"

definition path_text :: "string list \<Rightarrow> string" where
  "path_text ss = (if ss = [] then ''/'' else join_slash ss)"

text \<open>\<open>resolve\<close> of an absolute path: the segments in order, \<open>.\<close> skipped, \<open>..\<close> taking one back.\<close>

definition resolve_segments :: "string list \<Rightarrow> string list" where
  "resolve_segments ss =
     foldl (\<lambda>acc s. if s = ''.'' then acc else if s = ''..'' then butlast acc else acc @ [s]) [] ss"

definition resolve :: "string \<Rightarrow> string" where
  "resolve p = path_text (resolve_segments (segments p))"

section \<open>The envelope's own path\<close>

definition stat_or_null :: "file_system \<Rightarrow> string \<Rightarrow> place_refusal + identity option" where
  "stat_or_null fs p =
     (case fs_stat fs p of Stat i _ _ \<Rightarrow> Inr (Some i) | Stat_absent \<Rightarrow> Inr None | Stat_error \<Rightarrow> Inl (Unreadable p))"

definition canonical_envelope_path :: "file_system \<Rightarrow> string \<Rightarrow> place_refusal + string" where
  "canonical_envelope_path fs p =
     (if \<not> absolute p then Inl Not_absolute
      else case fs_realpath fs p of None \<Rightarrow> Inl Unresolvable
        | Some real \<Rightarrow>
            if real \<noteq> p then Inl (Not_canonical real)
            else (case fs_stat fs p of
                Stat _ is_file links \<Rightarrow> if \<not> is_file then Inl Not_regular else if links > 1 then Inl Many_links else Inr real
              | _ \<Rightarrow> Inl (Unreadable p)))"

text \<open>The path and every directory above it, the file first.\<close>

fun upward :: "string list \<Rightarrow> string list list" where
  "upward [] = [[]]"
| "upward (s # ss) = map (\<lambda>t. s # t) (upward ss) @ [[]]"

definition ancestors :: "string \<Rightarrow> string list" where
  "ancestors p = map path_text (upward (segments p))"

definition envelope_identities :: "file_system \<Rightarrow> string \<Rightarrow> place_refusal + identity list" where
  "envelope_identities fs real =
     sum_bind (sum_map_list (stat_or_null fs) (ancestors real)) (\<lambda>is. Inr (List.map_filter (\<lambda>i. i) is))"

definition envelope_protected_identities :: "file_system \<Rightarrow> string \<Rightarrow> place_refusal + identity list" where
  "envelope_protected_identities fs p = sum_bind (canonical_envelope_path fs p) (envelope_identities fs)"

section \<open>The locations of a job path\<close>

definition same_directory :: "file_system \<Rightarrow> string \<Rightarrow> string \<Rightarrow> bool" where
  "same_directory fs p q =
     (case (fs_stat fs p, fs_stat fs q) of (Stat i _ _, Stat j _ _) \<Rightarrow> i = j | _ \<Rightarrow> False)"

definition job_path_candidates :: "file_system \<Rightarrow> string \<Rightarrow> string option \<Rightarrow> string \<Rightarrow> string list" where
  "job_path_candidates fs cwd pwd p =
     (let bases = (if absolute p then [''''] else
            (case pwd of Some w \<Rightarrow> if absolute w \<and> w \<noteq> cwd \<and> same_directory fs w cwd then [cwd @ ''/'', w @ ''/''] else [cwd @ ''/'']
             | None \<Rightarrow> [cwd @ ''/'']))
      in concat (map (\<lambda>b. [b @ p, resolve (b @ p)]) bases))"

datatype path_kind = Cron_folder | Run_root | Skills_dir | Global_pi_dir

record job_paths =
  jp_cron :: "string list"
  jp_roots :: "string list"
  jp_skills :: "string list"
  jp_global :: "string option"

definition job_path_list :: "job_paths \<Rightarrow> (path_kind \<times> string) list" where
  "job_path_list j =
     filter (\<lambda>(_, p). \<not> blank p)
       (map (Pair Cron_folder) (jp_cron j) @ map (Pair Run_root) (jp_roots j) @ map (Pair Skills_dir) (jp_skills j)
        @ (case jp_global j of None \<Rightarrow> [] | Some g \<Rightarrow> [(Global_pi_dir, g)]))"

fun hits :: "file_system \<Rightarrow> identity list \<Rightarrow> string list \<Rightarrow> place_refusal + bool" where
  "hits fs ids [] = Inr False"
| "hits fs ids (c # cs) =
     sum_bind (stat_or_null fs c) (\<lambda>st.
       case st of Some i \<Rightarrow> if i \<in> set ids then Inr True else hits fs ids cs | None \<Rightarrow> hits fs ids cs)"

fun first_inside ::
  "file_system \<Rightarrow> (string \<Rightarrow> string list) \<Rightarrow> identity list \<Rightarrow> (path_kind \<times> string) list \<Rightarrow> place_refusal + (path_kind \<times> string) option" where
  "first_inside fs candidates ids [] = Inr None"
| "first_inside fs candidates ids ((k, p) # ps) =
     sum_bind (hits fs ids (candidates p)) (\<lambda>hit. if hit then Inr (Some (k, p)) else first_inside fs candidates ids ps)"

definition envelope_inside_job_paths ::
  "file_system \<Rightarrow> string \<Rightarrow> string option \<Rightarrow> job_paths \<Rightarrow> string \<Rightarrow> place_refusal + (path_kind \<times> string) option" where
  "envelope_inside_job_paths fs cwd pwd j p =
     sum_bind (canonical_envelope_path fs p) (\<lambda>real.
       case find (\<lambda>r. \<not> blank r \<and> \<not> absolute r) (jp_roots j) of Some r \<Rightarrow> Inl (Relative_root r)
       | None \<Rightarrow> sum_bind (envelope_identities fs real) (\<lambda>ids.
           first_inside fs (job_path_candidates fs cwd pwd) ids (job_path_list j)))"

section \<open>The decision is exact\<close>

definition location_of :: "file_system \<Rightarrow> string \<Rightarrow> string option \<Rightarrow> string \<Rightarrow> identity \<Rightarrow> bool" where
  "location_of fs cwd pwd p i \<longleftrightarrow> (\<exists>c \<in> set (job_path_candidates fs cwd pwd p). \<exists>f n. fs_stat fs c = Stat i f n)"

definition at_or_above :: "file_system \<Rightarrow> string \<Rightarrow> identity \<Rightarrow> bool" where
  "at_or_above fs p i \<longleftrightarrow> (\<exists>a \<in> set (ancestors p). \<exists>f n. fs_stat fs a = Stat i f n)"

lemma stat_or_null_Inr:
  "stat_or_null fs p = Inr (Some i) \<longleftrightarrow> (\<exists>f n. fs_stat fs p = Stat i f n)"
  "stat_or_null fs p = Inr None \<longleftrightarrow> fs_stat fs p = Stat_absent"
  by (auto simp: stat_or_null_def split: stat_answer.splits)

lemma identities_exact:
  assumes "envelope_identities fs real = Inr ids"
  shows "i \<in> set ids \<longleftrightarrow> at_or_above fs real i"
proof -
  obtain os where o: "list_all2 (\<lambda>a v. stat_or_null fs a = Inr v) (ancestors real) os" "ids = List.map_filter (\<lambda>i. i) os"
    using assms by (auto simp: envelope_identities_def sum_bind_Inr sum_map_list_Inr)
  from o(1) have "Some i \<in> set os \<longleftrightarrow> (\<exists>a \<in> set (ancestors real). stat_or_null fs a = Inr (Some i))"
    by (induction rule: list_all2_induct) auto
  then show ?thesis by (auto simp: o(2) at_or_above_def stat_or_null_Inr map_filter_def image_iff)
qed

definition lies_in :: "file_system \<Rightarrow> identity list \<Rightarrow> string \<Rightarrow> bool" where
  "lies_in fs ids c \<longleftrightarrow> (\<exists>i f n. fs_stat fs c = Stat i f n \<and> i \<in> set ids)"

lemma hits_exact: "hits fs ids cs = Inr b \<Longrightarrow> b \<longleftrightarrow> (\<exists>c \<in> set cs. lies_in fs ids c)"
proof (induction cs)
  case (Cons c cs)
  obtain st where s: "stat_or_null fs c = Inr st" using Cons.prems by (auto simp: sum_bind_Inr)
  show ?case
  proof (cases st)
    case None
    then show ?thesis using Cons s by (auto simp: stat_or_null_Inr lies_in_def)
  next
    case (Some i)
    then obtain f n where "fs_stat fs c = Stat i f n" using s stat_or_null_Inr(1) by blast
    then have "lies_in fs ids c \<longleftrightarrow> i \<in> set ids" by (simp add: lies_in_def)
    then show ?thesis using Cons s Some by (auto split: if_splits)
  qed
qed simp

lemma first_inside_exact:
  "first_inside fs cand ids ps = Inr r \<Longrightarrow>
    (case r of None \<Rightarrow> \<forall>kp \<in> set ps. \<not> (\<exists>c \<in> set (cand (snd kp)). lies_in fs ids c)
     | Some kp \<Rightarrow> kp \<in> set ps \<and> (\<exists>c \<in> set (cand (snd kp)). lies_in fs ids c))"
proof (induction ps)
  case (Cons kp ps)
  obtain k p where kp: "kp = (k, p)" by fastforce
  obtain b where b: "hits fs ids (cand p) = Inr b" using Cons.prems by (auto simp: kp sum_bind_Inr)
  note h = hits_exact [OF b]
  show ?case
  proof (cases b)
    case True
    then have "r = Some kp" using Cons.prems b by (simp add: kp)
    then show ?thesis using True h by (simp add: kp)
  next
    case False
    then have "first_inside fs cand ids ps = Inr r" using Cons.prems b by (simp add: kp)
    from Cons.IH [OF this] False h show ?thesis by (auto simp: kp split: option.splits)
  qed
qed simp

text \<open>
  The envelope's place is judged exactly: a load that finds no job path holding the envelope means
  that no location any configured job path can name, neither the kernel's nor a container runtime's,
  has the identity of the envelope file or of a directory above it, and a path it names does.
\<close>

theorem containment_exact:
  assumes "envelope_inside_job_paths fs cwd pwd j p = Inr r"
  shows "absolute p \<and> fs_realpath fs p = Some p \<and> (\<exists>i n. n \<le> 1 \<and> fs_stat fs p = Stat i True n)
    \<and> (case r of
         None \<Rightarrow> \<forall>kq \<in> set (job_path_list j). \<not> (\<exists>i. location_of fs cwd pwd (snd kq) i \<and> at_or_above fs p i)
       | Some kq \<Rightarrow> kq \<in> set (job_path_list j) \<and> (\<exists>i. location_of fs cwd pwd (snd kq) i \<and> at_or_above fs p i))"
proof -
  obtain ids where c: "canonical_envelope_path fs p = Inr p" "envelope_identities fs p = Inr ids"
    "first_inside fs (job_path_candidates fs cwd pwd) ids (job_path_list j) = Inr r"
  proof -
    obtain real where "canonical_envelope_path fs p = Inr real" using assms by (auto simp: envelope_inside_job_paths_def sum_bind_Inr)
    moreover from this have "real = p" by (auto simp: canonical_envelope_path_def split: if_splits option.splits stat_answer.splits)
    ultimately show thesis using that assms by (auto simp: envelope_inside_job_paths_def sum_bind_Inr split: option.splits)
  qed
  have p: "absolute p" "fs_realpath fs p = Some p" "\<exists>i n. n \<le> 1 \<and> fs_stat fs p = Stat i True n"
    using c(1) by (auto simp: canonical_envelope_path_def split: if_splits option.splits stat_answer.splits)
  have loc: "(\<exists>i. location_of fs cwd pwd q i \<and> at_or_above fs p i) \<longleftrightarrow> (\<exists>c \<in> set (job_path_candidates fs cwd pwd q). lies_in fs ids c)" for q
    using identities_exact [OF c(2)] by (auto simp: location_of_def lies_in_def)
  have "case r of
         None \<Rightarrow> \<forall>kq \<in> set (job_path_list j). \<not> (\<exists>i. location_of fs cwd pwd (snd kq) i \<and> at_or_above fs p i)
       | Some kq \<Rightarrow> kq \<in> set (job_path_list j) \<and> (\<exists>i. location_of fs cwd pwd (snd kq) i \<and> at_or_above fs p i)"
    using first_inside_exact [OF c(3)] by (cases r) (auto simp: loc)
  with p show ?thesis by blast
qed

definition demo_fs :: file_system where
  "demo_fs = \<lparr>fs_stat = (\<lambda>p. if p = ''/e/f'' then Stat (Identity 1 4) True 1 else if p = ''/e'' then Stat (Identity 1 3) False 2
      else if p = ''/'' then Stat (Identity 1 2) False 3 else if p = ''/r'' then Stat (Identity 1 5) False 2 else Stat_absent),
    fs_realpath = Some\<rparr>"

theorem containment_exact_witness:
  "envelope_inside_job_paths demo_fs ''/w'' None \<lparr>jp_cron = [], jp_roots = [''/r''], jp_skills = [], jp_global = None\<rparr> ''/e/f'' = Inr None
   \<and> \<not> (\<exists>i. location_of demo_fs ''/w'' None ''/r'' i \<and> at_or_above demo_fs ''/e/f'' i)"
proof -
  let ?j = "\<lparr>jp_cron = [], jp_roots = [''/r''], jp_skills = [], jp_global = None\<rparr>"
  have b: "\<not> blank ''/r''" by (simp add: blank_def lead_length_def code_point_def is_space_def)
  have l: "job_path_list ?j = [(Run_root, ''/r'')]" by (simp add: job_path_list_def b)
  have i: "envelope_identities demo_fs ''/e/f'' = Inr [Identity 1 4, Identity 1 3, Identity 1 2]"
    by (simp add: envelope_identities_def ancestors_def segments_def path_text_def stat_or_null_def demo_fs_def map_filter_def)
  have c: "job_path_candidates demo_fs ''/w'' None ''/r'' = [''/r'', ''/r'']"
    by (simp add: job_path_candidates_def absolute_def resolve_def segments_def path_text_def resolve_segments_def)
  have p: "canonical_envelope_path demo_fs ''/e/f'' = Inr ''/e/f''"
    by (simp add: canonical_envelope_path_def demo_fs_def absolute_def)
  have r: "envelope_inside_job_paths demo_fs ''/w'' None ?j ''/e/f'' = Inr None"
    using b l i c p by (simp add: envelope_inside_job_paths_def absolute_def stat_or_null_def demo_fs_def)
  have j: "(Run_root, ''/r'') \<in> set (job_path_list ?j)" by (simp add: l)
  from containment_exact [OF r] have "\<forall>kq \<in> set (job_path_list ?j). \<not> (\<exists>i. location_of demo_fs ''/w'' None (snd kq) i \<and> at_or_above demo_fs ''/e/f'' i)"
    by simp
  from bspec [OF this j] r show ?thesis by simp
qed

end
