(* ===== verification/Allocation.thy ===== *)
theory Allocation
  imports Envelope
begin

text \<open>
  The applied split (worker/src/allocation.mjs): the state every host reads from \<open>alloc:plan\<close>, the
  compare-and-set that is the only way it changes, the reconcile each pickup runs, applying a plan
  and the operator's revert. Valkey is shared with other hosts: a command runs at one instant, and
  before each one the environment may do to the store whatever other hosts (and expiring keys) do.
  A command may also fail without running, or run and lose its answer; appending to the audit file
  may fail. Instants are milliseconds, their ISO text being written and read back.
\<close>

section \<open>The state\<close>

definition alloc_state_version :: int where "alloc_state_version = 1"
definition alloc_log_max :: nat where "alloc_log_max = 500"

record astate =
  st_version :: int
  st_plan_id :: "string option"
  st_basis :: "string option"
  st_writer :: string
  st_job_id :: "string option"
  st_trigger_id :: "string option"
  st_applied_at :: int
  st_last_plan_at :: "int option"
  st_valid_until :: "int option"
  st_digest :: "string option"   \<comment> \<open>\<open>None\<close> where it is no string\<close>
  st_weights :: fields
  st_repo_weights :: "(string \<times> fields) list"
  st_reasons :: "(string \<times> string) list"
  st_allocations :: fields
  st_unallocated :: "int option option"   \<comment> \<open>\<open>None\<close> where it is absent\<close>
  st_repos :: "(string \<times> fields) list"
  st_clamped :: bool

text \<open>A stored value: one that decodes to an object with the fields of a state, or any other text.
  Equal values stand for equal texts.\<close>

datatype cell = Decoded astate | Undecodable string

datatype stored = No_state | State astate | Newer_state | Corrupt cell

definition all_amounts :: "fields \<Rightarrow> bool" where
  "all_amounts fs \<longleftrightarrow> list_all (\<lambda>(k, v). micros v \<noteq> None) fs"

definition vector_of :: "astate \<Rightarrow> vector" where
  "vector_of s = \<lparr>ve_allocations = st_allocations s, ve_unallocated = st_unallocated s\<rparr>"

definition amounts_are_micros :: "astate \<Rightarrow> bool" where
  "amounts_are_micros s \<longleftrightarrow> all_amounts (st_allocations s) \<and> other_id \<in> set (map fst (st_allocations s))
     \<and> unallocated_of (vector_of s) \<noteq> None \<and> list_all (\<lambda>(p, fs). all_amounts fs) (st_repos s)"

definition parse_state :: "cell option \<Rightarrow> stored" where
  "parse_state c =
     (case c of None \<Rightarrow> No_state
      | Some (Undecodable t) \<Rightarrow> Corrupt (Undecodable t)
      | Some (Decoded s) \<Rightarrow>
          if st_version s > alloc_state_version then Newer_state
          else if st_version s = alloc_state_version \<and> st_digest s \<noteq> None \<and> amounts_are_micros s then State s
          else Corrupt (Decoded s))"

definition to_fields :: "string list \<Rightarrow> (string \<Rightarrow> int) \<Rightarrow> fields" where
  "to_fields ks f = map (\<lambda>k. (k, Some (f k))) ks"

definition split_fields :: "(string \<times> (string \<times> int) list) list \<Rightarrow> (string \<times> fields) list" where
  "split_fields rs = map (map_prod (\<lambda>p. p) (map (map_prod (\<lambda>r. r) Some))) rs"

definition neutral_state :: "envelope \<Rightarrow> string \<Rightarrow> int \<Rightarrow> string \<Rightarrow> int option \<Rightarrow> astate option" where
  "neutral_state e digest t writer last_at =
     map_option (\<lambda>n.
       \<lparr>st_version = alloc_state_version, st_plan_id = None, st_basis = None, st_writer = writer, st_job_id = None,
        st_trigger_id = None, st_applied_at = t, st_last_plan_at = last_at, st_valid_until = None, st_digest = Some digest,
        st_weights = en_weights e, st_repo_weights = [], st_reasons = [],
        st_allocations = to_fields (envelope_entries e) (al_allocations n), st_unallocated = Some (Some (al_unallocated n)),
        st_repos = [], st_clamped = False\<rparr>) (neutral_allocation e)"

definition delegation_on :: "envelope \<Rightarrow> bool" where
  "delegation_on e = (case en_delegation e of None \<Rightarrow> False | Some d \<Rightarrow> dg_enabled d)"

definition keep_entries :: "string list \<Rightarrow> (string \<times> 'a) list \<Rightarrow> (string \<times> 'a) list" where
  "keep_entries entries kvs = filter (\<lambda>(k, v). k \<in> set entries) kvs"

text \<open>The state projected onto a changed envelope.\<close>

definition rebased :: "astate \<Rightarrow> envelope \<Rightarrow> string \<Rightarrow> int \<Rightarrow> astate option" where
  "rebased s e digest t =
     (if st_plan_id s = None \<or> \<not> delegation_on e then neutral_state e digest t ''envelope-change'' (st_last_plan_at s)
      else (case rebase (vector_of s) e of None \<Rightarrow> None
        | Some (alloc, u) \<Rightarrow>
            (let entries = envelope_entries e; rw = keep_entries entries (st_repo_weights s); fs = to_fields entries alloc
             in map_option (\<lambda>shares. s\<lparr>st_writer := ''envelope-change'', st_job_id := None, st_trigger_id := None,
                     st_applied_at := t, st_digest := Some digest,
                     st_weights := map (\<lambda>k. (k, case map_of (st_weights s) k of None \<Rightarrow> Some 0 | Some w \<Rightarrow> w)) entries,
                     st_repo_weights := rw, st_reasons := keep_entries entries (st_reasons s),
                     st_allocations := fs, st_unallocated := Some (Some u), st_repos := split_fields shares, st_clamped := False\<rparr>)
                  (repo_shares fs rw))))"

section \<open>Audit rows\<close>

datatype outcome = Applied | Duplicate | Refused | Apply_failed | Neutral | Expired | Rebased | Reverted | Changed_externally

record writer =
  wr_kind :: string
  wr_job :: "string option"
  wr_trigger :: "string option"

type_synonym amounts_row = "fields \<times> int option \<times> (string \<times> fields) list"

definition amounts_of :: "astate \<Rightarrow> amounts_row" where
  "amounts_of s = (st_allocations s, (case st_unallocated s of None \<Rightarrow> Some 0 | Some x \<Rightarrow> x), st_repos s)"

record audit_row =
  ar_at :: int
  ar_host :: string
  ar_writer :: writer
  ar_outcome :: outcome
  ar_reason :: "string option"
  ar_field :: "(plan_field \<times> plan_rule) option"
  ar_plan_id :: "string option"
  ar_basis :: "string option"
  ar_weights :: "fields option"
  ar_repo_weights :: "(string \<times> fields) list option"
  ar_before :: "amounts_row option"
  ar_after :: "amounts_row option"
  ar_clamped :: "bool option"
  ar_digest :: "string option"

definition system_writer :: "string \<Rightarrow> writer" where
  "system_writer kind = \<lparr>wr_kind = kind, wr_job = None, wr_trigger = None\<rparr>"

definition blank_row :: "int \<Rightarrow> string \<Rightarrow> writer \<Rightarrow> outcome \<Rightarrow> string option \<Rightarrow> audit_row" where
  "blank_row t host w out digest =
     \<lparr>ar_at = t, ar_host = host, ar_writer = w, ar_outcome = out, ar_reason = None, ar_field = None, ar_plan_id = None,
      ar_basis = None, ar_weights = None, ar_repo_weights = None, ar_before = None, ar_after = None, ar_clamped = None,
      ar_digest = digest\<rparr>"

section \<open>The shared store and the commands\<close>

record store =
  sv_plan :: "cell option"
  sv_expected :: "string option"
  sv_lock :: "string option"
  sv_log :: "audit_row list"

definition cas_script :: "string \<Rightarrow> string option \<Rightarrow> astate \<Rightarrow> store \<Rightarrow> bool \<times> store" where
  "cas_script i digest next s =
     (case sv_plan s of
        Some (Decoded c) \<Rightarrow>
          if (case st_plan_id c of None \<Rightarrow> '''' | Some j \<Rightarrow> j) = i \<and> st_digest c \<noteq> None \<and> st_digest c = digest
          then (True, s\<lparr>sv_plan := Some (Decoded next)\<rparr>) else (False, s)
      | _ \<Rightarrow> (False, s))"

definition seed_script :: "astate \<Rightarrow> string \<Rightarrow> cell option \<Rightarrow> store \<Rightarrow> bool \<times> store" where
  "seed_script seed digest corrupt s =
     (case corrupt of
        None \<Rightarrow> if sv_plan s = None then (True, s\<lparr>sv_plan := Some (Decoded seed), sv_expected := Some digest\<rparr>) else (False, s)
      | Some c \<Rightarrow>
          if sv_plan s = Some c
          then (True, s\<lparr>sv_plan := Some (Decoded seed),
                       sv_expected := (case sv_expected s of None \<Rightarrow> Some digest | Some d \<Rightarrow> Some d)\<rparr>)
          else (False, s))"

definition release_if_mine :: "string \<Rightarrow> store \<Rightarrow> unit \<times> store" where
  "release_if_mine mine s = ((), if sv_lock s = Some mine then s\<lparr>sv_lock := None\<rparr> else s)"

definition set_lock_nx :: "string \<Rightarrow> store \<Rightarrow> bool \<times> store" where
  "set_lock_nx mine s = (case sv_lock s of None \<Rightarrow> (True, s\<lparr>sv_lock := Some mine\<rparr>) | Some _ \<Rightarrow> (False, s))"

definition set_expected_nx :: "string option \<Rightarrow> store \<Rightarrow> unit \<times> store" where
  "set_expected_nx d s = ((), case sv_expected s of None \<Rightarrow> s\<lparr>sv_expected := d\<rparr> | Some _ \<Rightarrow> s)"

text \<open>What happened in order, newest first: a row in the audit file, or a state this host wrote.\<close>

datatype event = Row audit_row "(string \<times> string) list" | Wrote astate

datatype answer = Answers | Answer_lost | Not_sent

record environment =
  ev_between :: "nat \<Rightarrow> store \<Rightarrow> store"
  ev_answer :: "nat \<Rightarrow> answer"
  ev_append :: "nat \<Rightarrow> bool"

record world =
  wo_store :: store
  wo_trace :: "event list"
  wo_reported :: "string list"
  wo_tick :: nat

datatype alloc_error = Infrastructure | Type_fault

type_synonym 'a run = "environment \<Rightarrow> world \<Rightarrow> (alloc_error + 'a) \<times> world"

definition ret :: "'a \<Rightarrow> 'a run" where "ret x ev w = (Inr x, w)"

definition type_fault :: "'a run" where "type_fault ev w = (Inl Type_fault, w)"

definition bind_run :: "'a run \<Rightarrow> ('a \<Rightarrow> 'b run) \<Rightarrow> 'b run" where
  "bind_run m f ev w = (case m ev w of (Inl e, w') \<Rightarrow> (Inl e, w') | (Inr x, w') \<Rightarrow> f x ev w')"

text \<open>\<open>try { await m } catch {}\<close>\<close>

definition attempt :: "unit run \<Rightarrow> unit run" where
  "attempt m ev w = (Inr (), snd (m ev w))"

definition finally_run :: "'a run \<Rightarrow> unit run \<Rightarrow> 'a run" where
  "finally_run m r ev w = (case m ev w of (x, w') \<Rightarrow> (x, snd (r ev w')))"

text \<open>A command: what the others did first, then the command at one instant. \<open>note\<close> is what it adds
  to the trace once it has run.\<close>

definition command :: "(store \<Rightarrow> 'a \<times> store) \<Rightarrow> ('a \<Rightarrow> event list) \<Rightarrow> 'a run" where
  "command f note ev w =
     (let s = ev_between ev (wo_tick w) (wo_store w);
          w1 = w\<lparr>wo_tick := Suc (wo_tick w), wo_store := s\<rparr>;
          w2 = w1\<lparr>wo_store := snd (f s), wo_trace := note (fst (f s)) @ wo_trace w\<rparr>
      in case ev_answer ev (wo_tick w) of
           Not_sent \<Rightarrow> (Inl Infrastructure, w1)
         | Answer_lost \<Rightarrow> (Inl Infrastructure, w2)
         | Answers \<Rightarrow> (Inr (fst (f s)), w2))"

definition append_row :: "audit_row \<Rightarrow> (string \<times> string) list \<Rightarrow> unit run" where
  "append_row row reasons ev w =
     (let w1 = w\<lparr>wo_tick := Suc (wo_tick w)\<rparr>
      in if ev_append ev (wo_tick w) then (Inr (), w1\<lparr>wo_trace := Row row reasons # wo_trace w\<rparr>) else (Inl Infrastructure, w1))"

definition push_log :: "audit_row \<Rightarrow> unit run" where
  "push_log row =
     attempt (bind_run (command (\<lambda>s. ((), s\<lparr>sv_log := row # sv_log s\<rparr>)) (\<lambda>_. [])) (\<lambda>_.
       command (\<lambda>s. ((), s\<lparr>sv_log := take alloc_log_max (sv_log s)\<rparr>)) (\<lambda>_. [])))"

definition record_row :: "audit_row \<Rightarrow> unit run" where
  "record_row row = bind_run (append_row row []) (\<lambda>_. push_log row)"

definition record_system :: "audit_row \<Rightarrow> unit run" where
  "record_system row = bind_run (attempt (append_row row [])) (\<lambda>_. push_log row)"

definition get_plan :: "cell option run" where "get_plan = command (\<lambda>s. (sv_plan s, s)) (\<lambda>_. [])"
definition get_expected :: "string option run" where "get_expected = command (\<lambda>s. (sv_expected s, s)) (\<lambda>_. [])"

definition cas :: "astate \<Rightarrow> astate \<Rightarrow> bool run" where
  "cas current next =
     command (cas_script (case st_plan_id current of None \<Rightarrow> '''' | Some i \<Rightarrow> i) (st_digest current) next)
       (\<lambda>won. if won then [Wrote next] else [])"

section \<open>Reconcile\<close>

text \<open>The stored state, seeding the neutral one when there is none; \<open>None\<close> for a newer build's.\<close>

definition ensure :: "string \<Rightarrow> envelope \<Rightarrow> string \<Rightarrow> int \<Rightarrow> astate option run" where
  "ensure host e digest t =
     bind_run get_plan (\<lambda>c.
       case parse_state c of
         Newer_state \<Rightarrow> ret None
       | State s \<Rightarrow> ret (Some s)
       | p \<Rightarrow>
           (case neutral_state e digest t ''default'' None of None \<Rightarrow> type_fault
            | Some seed \<Rightarrow>
                bind_run (command (seed_script seed digest (case p of Corrupt x \<Rightarrow> Some x | _ \<Rightarrow> None)) (\<lambda>won. if won then [Wrote seed] else [])) (\<lambda>won.
                  if won then
                    bind_run (record_system ((blank_row t host (system_writer ''default'') Neutral (Some digest))
                        \<lparr>ar_weights := Some (st_weights seed), ar_after := Some (amounts_of seed), ar_clamped := Some False\<rparr>)) (\<lambda>_.
                      ret (Some seed))
                  else bind_run get_plan (\<lambda>c'.
                    case parse_state c' of Newer_state \<Rightarrow> ret None | State s \<Rightarrow> ret (Some s) | _ \<Rightarrow> ret (Some seed)))))"

definition expected_digest :: "string option \<Rightarrow> string option run" where
  "expected_digest seed =
     bind_run get_expected (\<lambda>x. case x of Some d \<Rightarrow> ret (Some d)
       | None \<Rightarrow> bind_run (command (set_expected_nx seed) (\<lambda>_. [])) (\<lambda>_. get_expected))"

text \<open>A system change: the compare-and-set, then its row; \<open>None\<close> when the compare-and-set lost.\<close>

definition swap :: "astate \<Rightarrow> astate option \<Rightarrow> (astate \<Rightarrow> audit_row) \<Rightarrow> (astate option \<times> bool) option run" where
  "swap s next row =
     (case next of None \<Rightarrow> type_fault
      | Some n \<Rightarrow> bind_run (cas s n) (\<lambda>won.
          if won then bind_run (record_system (row n)) (\<lambda>_. ret (Some (Some n, False))) else ret None))"

definition change_row :: "int \<Rightarrow> string \<Rightarrow> string \<Rightarrow> outcome \<Rightarrow> string \<Rightarrow> string option \<Rightarrow> astate \<Rightarrow> astate \<Rightarrow> audit_row" where
  "change_row t host kind out digest pid s n =
     (blank_row t host (system_writer kind) out (Some digest))
       \<lparr>ar_plan_id := pid, ar_weights := Some (st_weights n), ar_before := Some (amounts_of s), ar_after := Some (amounts_of n),
        ar_clamped := Some False\<rparr>"

definition report_external :: "string \<Rightarrow> string \<Rightarrow> int \<Rightarrow> astate \<Rightarrow> unit run" where
  "report_external host digest t s ev w =
     (if digest \<in> set (wo_reported w) then (Inr (), w)
      else bind_run (record_row ((blank_row t host (system_writer ''envelope-change'') Changed_externally (Some digest))
               \<lparr>ar_reason := Some ''envelope-mismatch'', ar_plan_id := st_plan_id s, ar_before := Some (amounts_of s)\<rparr>))
             (\<lambda>_ ev' w'. (Inr (), w'\<lparr>wo_reported := digest # wo_reported w'\<rparr>)) ev w)"

definition other_digest :: "string \<Rightarrow> envelope \<Rightarrow> string \<Rightarrow> int \<Rightarrow> astate \<Rightarrow> (astate option \<times> bool) option run" where
  "other_digest host e digest t s =
     bind_run (expected_digest (st_digest s)) (\<lambda>x.
       if x \<noteq> Some digest then bind_run (report_external host digest t s) (\<lambda>_. ret (Some (Some s, True)))
       else swap s (rebased s e digest t)
              (\<lambda>n. (change_row t host ''envelope-change'' Rebased digest (st_plan_id n) s n)\<lparr>ar_repo_weights := Some (st_repo_weights n)\<rparr>))"

definition same_digest :: "string \<Rightarrow> envelope \<Rightarrow> string \<Rightarrow> int \<Rightarrow> astate \<Rightarrow> (astate option \<times> bool) option run" where
  "same_digest host e digest t s =
     bind_run (expected_digest (Some digest)) (\<lambda>_.
       if st_plan_id s \<noteq> None \<and> \<not> delegation_on e then
         swap s (neutral_state e digest t ''envelope-change'' (st_last_plan_at s))
           (\<lambda>n. (change_row t host ''envelope-change'' Neutral digest None s n)\<lparr>ar_reason := Some ''delegation-off''\<rparr>)
       else if (case st_valid_until s of None \<Rightarrow> False | Some u \<Rightarrow> u \<le> t) then
         swap s (neutral_state e digest t ''expiry'' (st_last_plan_at s)) (change_row t host ''expiry'' Expired digest (st_plan_id s) s)
       else ret (Some (Some s, False)))"

definition reconcile_round :: "string \<Rightarrow> envelope \<Rightarrow> string \<Rightarrow> int \<Rightarrow> (astate option \<times> bool) option run" where
  "reconcile_round host e digest t =
     bind_run (ensure host e digest t) (\<lambda>st.
       case st of None \<Rightarrow> ret (Some (None, True))
       | Some s \<Rightarrow> if st_digest s \<noteq> Some digest then other_digest host e digest t s else same_digest host e digest t s)"

fun reconcile_rounds :: "nat \<Rightarrow> string \<Rightarrow> envelope \<Rightarrow> string \<Rightarrow> int \<Rightarrow> (astate option \<times> bool) run" where
  "reconcile_rounds 0 host e digest t =
     bind_run (ensure host e digest t) (\<lambda>st.
       ret (case st of None \<Rightarrow> (None, True) | Some s \<Rightarrow> (Some s, st_digest s \<noteq> Some digest)))"
| "reconcile_rounds (Suc n) host e digest t =
     bind_run (reconcile_round host e digest t) (\<lambda>r. case r of Some x \<Rightarrow> ret x | None \<Rightarrow> reconcile_rounds n host e digest t)"

definition reconcile :: "string \<Rightarrow> envelope \<Rightarrow> string \<Rightarrow> int \<Rightarrow> (astate option \<times> bool) run" where
  "reconcile = reconcile_rounds 4"

definition fleet_governed :: "bool run" where
  "fleet_governed = command (\<lambda>s. (sv_plan s \<noteq> None, s)) (\<lambda>_. [])"

definition last_attempt :: "string \<Rightarrow> string \<Rightarrow> audit_row option run" where
  "last_attempt kind trigger =
     command (\<lambda>s. (find (\<lambda>r. wr_kind (ar_writer r) = kind \<and> wr_trigger (ar_writer r) = Some trigger) (take alloc_log_max (sv_log s)), s))
       (\<lambda>_. [])"

section \<open>Applying a plan\<close>

datatype applied_result = Was_applied string bool | Was_refused string "string option" "(plan_field \<times> plan_rule) option"
  | Was_duplicate string | Was_failed string | Was_reverted "string option"

definition plan_weights :: "plan \<Rightarrow> fields" where
  "plan_weights p = map (\<lambda>q. (pp_id q, Some (pp_weight q))) (pl_projects p)"

definition plan_repo_weights :: "plan \<Rightarrow> (string \<times> fields) list" where
  "plan_repo_weights p =
     List.map_filter (\<lambda>q. map_option (\<lambda>rows. (pp_id q, map (map_prod (\<lambda>r. r) Some) rows)) (pp_repos q)) (pl_projects p)"

definition plan_reasons :: "plan \<Rightarrow> (string \<times> string) list" where
  "plan_reasons p = List.map_filter (\<lambda>q. map_option (\<lambda>r. (pp_id q, r)) (pp_reason q)) (pl_projects p)"

definition next_state :: "plan \<Rightarrow> string \<Rightarrow> int \<Rightarrow> writer \<Rightarrow> int \<Rightarrow> string \<Rightarrow> string list \<Rightarrow> allocation \<Rightarrow> astate" where
  "next_state p pid until w t digest entries a =
     \<lparr>st_version = alloc_state_version, st_plan_id = Some pid, st_basis = pl_basis p, st_writer = wr_kind w, st_job_id = wr_job w,
      st_trigger_id = wr_trigger w, st_applied_at = t, st_last_plan_at = Some t, st_valid_until = Some until,
      st_digest = Some digest, st_weights = plan_weights p, st_repo_weights = plan_repo_weights p, st_reasons = plan_reasons p,
      st_allocations = to_fields entries (al_allocations a), st_unallocated = Some (Some (al_unallocated a)),
      st_repos = split_fields (al_repos a), st_clamped = al_clamped a\<rparr>"

definition ladder_text :: "ladder \<Rightarrow> string" where
  "ladder_text l =
     (case l of DelegationOff \<Rightarrow> ''delegation-off'' | WriterNotAllowed \<Rightarrow> ''writer-not-allowed'' | PlanDuplicate \<Rightarrow> ''plan-duplicate''
      | PlanStale \<Rightarrow> ''plan-stale'' | PlanTooSoon \<Rightarrow> ''plan-too-soon'' | PlanIncomplete \<Rightarrow> ''plan-incomplete'')"

text \<open>A refusal: its row, and what the caller gets.\<close>

definition refuse_plan ::
  "int \<Rightarrow> string \<Rightarrow> writer \<Rightarrow> string option \<Rightarrow> string \<Rightarrow> (string \<times> string option) option \<Rightarrow> (plan_field \<times> plan_rule) option
     \<Rightarrow> astate option \<Rightarrow> applied_result run" where
  "refuse_plan t host w digest reason ids fr state =
     bind_run (record_row ((blank_row t host w (if reason = ''plan-duplicate'' then Duplicate else Refused) digest)
         \<lparr>ar_reason := Some reason, ar_field := fr, ar_plan_id := map_option fst ids, ar_basis := Option.bind ids snd,
          ar_before := map_option amounts_of state\<rparr>)) (\<lambda>_.
       ret (if reason = ''plan-duplicate'' then Was_duplicate (case ids of Some (i, _) \<Rightarrow> i | None \<Rightarrow> '''')
            else Was_refused reason (map_option fst ids) fr))"

definition take_lock :: "string \<Rightarrow> bool run" where "take_lock mine = command (set_lock_nx mine) (\<lambda>_. [])"

definition release_lock :: "string \<Rightarrow> unit run" where
  "release_lock mine = attempt (command (release_if_mine mine) (\<lambda>_. []))"

text \<open>Under the lock: the step against the state that was read, the row, then the compare-and-set.\<close>

definition write_plan ::
  "string \<Rightarrow> envelope \<Rightarrow> string \<Rightarrow> int \<Rightarrow> writer \<Rightarrow> plan \<Rightarrow> string \<Rightarrow> int \<Rightarrow> astate \<Rightarrow> applied_result run" where
  "write_plan host e digest t w p pid until s =
     (case allocate e (plan_weights p) (Some (vector_of s)) (plan_repo_weights p) of
        None \<Rightarrow> type_fault
      | Some a \<Rightarrow>
          (let n = next_state p pid until w t digest (envelope_entries e) a;
               row = (blank_row t host w Applied (Some digest))
                       \<lparr>ar_plan_id := Some pid, ar_basis := pl_basis p, ar_weights := Some (plan_weights p),
                        ar_repo_weights := Some (plan_repo_weights p), ar_before := Some (amounts_of s), ar_after := Some (amounts_of n),
                        ar_clamped := Some (al_clamped a)\<rparr>
           in bind_run (append_row row (plan_reasons p)) (\<lambda>_.
              bind_run (cas s n) (\<lambda>won.
                if won then bind_run (push_log row) (\<lambda>_. ret (Was_applied pid (al_clamped a)))
                else bind_run (record_row ((blank_row t host w Apply_failed (Some digest))
                         \<lparr>ar_reason := Some ''plan-stale'', ar_plan_id := Some pid, ar_basis := pl_basis p, ar_before := Some (amounts_of s)\<rparr>)) (\<lambda>_.
                       ret (Was_failed pid))))))"

text \<open>What the ladder reads of a state.\<close>

definition applied_of :: "astate \<Rightarrow> applied" where
  "applied_of s = \<lparr>ap_plan_id = st_plan_id s, ap_last_plan_at = st_last_plan_at s\<rparr>"

definition apply_parsed ::
  "string \<Rightarrow> envelope \<Rightarrow> string \<Rightarrow> int \<Rightarrow> writer \<Rightarrow> string \<Rightarrow> plan \<Rightarrow> string \<Rightarrow> int \<Rightarrow> bool \<Rightarrow> applied_result run" where
  "apply_parsed host e digest t w mine p pid until complete =
     (case plan_refusal (Some e) (wr_kind w) p pid complete None t of
        Some DelegationOff \<Rightarrow> refuse_plan t host w (Some digest) ''delegation-off'' (Some (pid, pl_basis p)) None None
      | Some WriterNotAllowed \<Rightarrow> refuse_plan t host w (Some digest) ''writer-not-allowed'' (Some (pid, pl_basis p)) None None
      | _ \<Rightarrow>
          bind_run (reconcile host e digest t) (\<lambda>(st, mismatch).
            if mismatch then refuse_plan t host w (Some digest) ''envelope-mismatch'' (Some (pid, pl_basis p)) None st
            else case st of None \<Rightarrow> type_fault
              | Some s \<Rightarrow>
                  (case plan_refusal (Some e) (wr_kind w) p pid complete (Some (applied_of s)) t of
                     Some l \<Rightarrow> refuse_plan t host w (Some digest) (ladder_text l) (Some (pid, pl_basis p)) None (Some s)
                   | None \<Rightarrow>
                       bind_run (take_lock mine) (\<lambda>got.
                         if \<not> got then refuse_plan t host w (Some digest) ''plan-busy'' (Some (pid, pl_basis p)) None (Some s)
                         else finally_run (write_plan host e digest t w p pid until s) (release_lock mine)))))"

definition apply_plan ::
  "(string \<Rightarrow> json option) \<Rightarrow> (string \<Rightarrow> string) \<Rightarrow> (nat \<Rightarrow> bool) \<Rightarrow> string \<Rightarrow> envelope option \<Rightarrow>
   (string \<times> string list) list option \<Rightarrow> string \<Rightarrow> writer \<Rightarrow> string \<Rightarrow> int \<Rightarrow> applied_result run" where
  "apply_plan json_parse sha refused host env projects text w mine t =
     (let digest = map_option (envelope_digest sha) env;
          judged = parse_plan json_parse sha refused \<lparr>po_envelope = env, po_projects = projects, po_now = Some t, po_days = None\<rparr> text
      in case judged of
           Plan_throws \<Rightarrow> type_fault
         | Plan_invalid f r \<Rightarrow> refuse_plan t host w digest ''plan-invalid'' None (Some (f, r)) None
         | Plan_incomplete f r p pid until \<Rightarrow>
             (case env of None \<Rightarrow> refuse_plan t host w digest ''delegation-off'' (Some (pid, pl_basis p)) None None
              | Some e \<Rightarrow> apply_parsed host e (envelope_digest sha e) t w mine p pid until False)
         | Plan_ok p pid until \<Rightarrow>
             (case env of None \<Rightarrow> refuse_plan t host w digest ''delegation-off'' (Some (pid, pl_basis p)) None None
              | Some e \<Rightarrow> apply_parsed host e (envelope_digest sha e) t w mine p pid until True))"

section \<open>The operator's revert\<close>

text \<open>A row of the log, as the revert reads it.\<close>

definition reverts_to_neutral :: "audit_row \<Rightarrow> bool" where
  "reverts_to_neutral r \<longleftrightarrow> ar_weights r \<noteq> None \<and> (ar_outcome r = Expired \<or> ar_plan_id r = None)"

definition revert_repos :: "envelope \<Rightarrow> audit_row \<Rightarrow> (string \<times> fields) list" where
  "revert_repos e r =
     filter (\<lambda>(k, v). k \<in> set (envelope_entries e) \<and> k \<noteq> other_id) (case ar_repo_weights r of None \<Rightarrow> [] | Some rw \<Rightarrow> rw)"

definition revert_days :: "envelope \<Rightarrow> int" where
  "revert_days e = (case Option.bind (en_delegation e) dg_max_plan_days of None \<Rightarrow> 0 | Some d \<Rightarrow> d)"

definition revert_state :: "envelope \<Rightarrow> string \<Rightarrow> int \<Rightarrow> audit_row \<Rightarrow> astate \<Rightarrow> astate option" where
  "revert_state e digest t r s =
     (if reverts_to_neutral r
      then map_option (\<lambda>n. n\<lparr>st_basis := st_plan_id s\<rparr>) (neutral_state e digest t ''operator-revert'' (Some t))
      else (let ws = (case ar_weights r of None \<Rightarrow> [] | Some ws \<Rightarrow> ws); rw = revert_repos e r
            in map_option (\<lambda>a.
                 \<lparr>st_version = alloc_state_version, st_plan_id = ar_plan_id r, st_basis = st_plan_id s, st_writer = ''operator-revert'',
                  st_job_id = None, st_trigger_id = None, st_applied_at = t, st_last_plan_at = Some t,
                  st_valid_until = Some (t + revert_days e * day_ms), st_digest = Some digest,
                  st_weights = ws, st_repo_weights = rw, st_reasons = [],
                  st_allocations = to_fields (envelope_entries e) (al_allocations a), st_unallocated = Some (Some (al_unallocated a)),
                  st_repos = split_fields (al_repos a), st_clamped = False\<rparr>)
               (allocate e ws None rw)))"

definition refuse_revert :: "int \<Rightarrow> string \<Rightarrow> string option \<Rightarrow> audit_row \<Rightarrow> string \<Rightarrow> astate option \<Rightarrow> applied_result run" where
  "refuse_revert t host digest r reason state =
     bind_run (record_row ((blank_row t host (system_writer ''operator-revert'') Refused digest)
         \<lparr>ar_reason := Some reason, ar_plan_id := ar_plan_id r, ar_before := map_option amounts_of state\<rparr>)) (\<lambda>_.
       ret (Was_refused reason None None))"

definition write_revert :: "string \<Rightarrow> envelope \<Rightarrow> string \<Rightarrow> int \<Rightarrow> audit_row \<Rightarrow> astate \<Rightarrow> applied_result run" where
  "write_revert host e digest t r s =
     (if \<bar>t + revert_days e * day_ms\<bar> > max_date_ms then type_fault else case revert_state e digest t r s of
        None \<Rightarrow> type_fault
      | Some n \<Rightarrow>
          (let row = (blank_row t host (system_writer ''operator-revert'') Reverted (Some digest))
                       \<lparr>ar_plan_id := st_plan_id n, ar_basis := st_basis n, ar_weights := Some (st_weights n),
                        ar_repo_weights := Some (st_repo_weights n), ar_before := Some (amounts_of s), ar_after := Some (amounts_of n),
                        ar_clamped := Some False\<rparr>
           in bind_run (append_row row []) (\<lambda>_.
              bind_run (cas s n) (\<lambda>won.
                if won then bind_run (push_log row) (\<lambda>_. ret (Was_reverted (st_plan_id n)))
                else bind_run (record_row ((blank_row t host (system_writer ''operator-revert'') Apply_failed (Some digest))
                         \<lparr>ar_reason := Some ''plan-stale'', ar_plan_id := st_plan_id n, ar_before := Some (amounts_of s)\<rparr>)) (\<lambda>_.
                       ret (Was_failed ''''))))))"

definition revert :: "(string \<Rightarrow> string) \<Rightarrow> string \<Rightarrow> envelope option \<Rightarrow> audit_row \<Rightarrow> string \<Rightarrow> int \<Rightarrow> applied_result run" where
  "revert sha host env r mine t =
     (case env of
        None \<Rightarrow> refuse_revert t host None r ''delegation-off'' None
      | Some e \<Rightarrow>
          (let digest = envelope_digest sha e
           in if \<not> delegation_on e then refuse_revert t host (Some digest) r ''delegation-off'' None
              else if \<not> reverts_to_neutral r \<and> sort (map fst (case ar_weights r of None \<Rightarrow> [] | Some ws \<Rightarrow> ws)) \<noteq> envelope_entries e
              then refuse_revert t host (Some digest) r ''plan-incomplete'' None
              else bind_run (reconcile host e digest t) (\<lambda>(st, mismatch).
                if mismatch then refuse_revert t host (Some digest) r ''envelope-mismatch'' st
                else case st of None \<Rightarrow> type_fault
                  | Some s \<Rightarrow>
                      bind_run (take_lock mine) (\<lambda>got.
                        if \<not> got then refuse_revert t host (Some digest) r ''plan-busy'' (Some s)
                        else finally_run (write_revert host e digest t r s) (release_lock mine)))))"

definition record_refusal :: "string \<Rightarrow> string option \<Rightarrow> writer \<Rightarrow> string \<Rightarrow> (plan_field \<times> plan_rule) option \<Rightarrow> int \<Rightarrow> unit run" where
  "record_refusal host digest w reason fr t =
     record_row ((blank_row t host w Refused digest)\<lparr>ar_reason := Some reason, ar_field := fr\<rparr>)"

end
