(* ===== verification/AllocationSound.thy ===== *)
theory AllocationSound
  imports Allocation
begin

text \<open>
  What the applied split guarantees, whatever other hosts do between two commands and whichever
  command or append fails: every state this code writes is a split of some envelope of the fleet
  that hands out its total exactly; a host enforces only a split of its own envelope; no
  change by a writer is without its row in the audit file; and nothing but the store or the file
  makes the operations throw.
\<close>

section \<open>Splits of an envelope\<close>

definition usable :: "envelope \<Rightarrow> bool" where
  "usable e \<longleftrightarrow> envelope_numbers e \<noteq> None \<and> distinct (map fst (en_floors e)) \<and> unallocated_key \<notin> set (envelope_entries e)
     \<and> (\<forall>k \<in> set (envelope_entries e). is_weight (field (en_weights e) k)) \<and> set (map fst (en_weights e)) \<subseteq> set (envelope_entries e)
     \<and> (\<forall>d n. en_delegation e = Some d \<longrightarrow> dg_max_plan_days d = Some n \<longrightarrow> 1 \<le> n \<and> n \<le> max_plan_days)
     \<and> (delegation_on e \<longrightarrow> (\<exists>d pct. en_delegation e = Some d \<and> dg_max_step_pct d = Some pct \<and> 1 \<le> pct \<and> pct \<le> 100))"

text \<open>A vector that splits an envelope's total over exactly its entries.\<close>

definition splits :: "envelope \<Rightarrow> vector \<Rightarrow> bool" where
  "splits e v \<longleftrightarrow> (\<exists>tot floors b u. envelope_numbers e = Some (tot, floors, envelope_entries e)
     \<and> vector_numbers v (envelope_entries e) tot = Some (b, u))"

definition weighed :: "(string \<times> fields) list \<Rightarrow> bool" where
  "weighed rw \<longleftrightarrow> (\<forall>(p, fs) \<in> set rw. distinct (map fst fs) \<and> (\<forall>k \<in> set (map fst fs). is_weight (field fs k)))"

definition split_of :: "(string \<Rightarrow> string) \<Rightarrow> envelope \<Rightarrow> astate \<Rightarrow> bool" where
  "split_of sha e s \<longleftrightarrow> usable e \<and> st_version s = alloc_state_version \<and> st_digest s = Some (envelope_digest sha e)
     \<and> splits e (vector_of s) \<and> amounts_are_micros s \<and> weighed (st_repo_weights s)"

lemma usable_numbers:
  assumes "usable e"
  obtains tot floors where "envelope_numbers e = Some (tot, floors, envelope_entries e)" "tot \<le> max_safe" "0 \<le> tot"
    "distinct (envelope_entries e)" "other_id \<in> set (envelope_entries e)"
proof -
  obtain x where "envelope_numbers e = Some x" using assms by (auto simp: usable_def)
  then obtain tot floors entries where n: "envelope_numbers e = Some (tot, floors, entries)" by (cases x) auto
  have "entries = envelope_entries e" "micros (en_total e) = Some tot" "other_id \<in> set entries" using envelope_numbers_Some [OF n] by auto
  then show ?thesis using that n micros_nonneg entries_distinct assms by (auto simp: usable_def)
qed

lemma map_of_to_fields: "map_of (to_fields ks f) k = (if k \<in> set ks then Some (Some (f k)) else None)"
  by (induction ks) (auto simp: to_fields_def)

lemma map_fst_to_fields [simp]: "map fst (to_fields ks f) = ks"
  by (simp add: to_fields_def comp_def)

lemma field_to_fields: "k \<in> set ks \<Longrightarrow> field (to_fields ks f) k = Some (f k)"
  by (simp add: field_def map_of_to_fields)

lemma sorted_keys_to_fields: "sorted_keys (to_fields (envelope_entries e) f) = envelope_entries e"
  by (simp add: sorted_keys_def envelope_entries_def sort_key_id_if_sorted)

lemma micros_safe: "0 \<le> n \<Longrightarrow> n \<le> max_safe \<Longrightarrow> micros (Some n) = Some n"
  by (simp add: micros_def is_safe_def max_safe_def)

lemma split_vector:
  assumes "usable e" "envelope_numbers e = Some (tot, floors, entries)"
    and "total_of entries f + u = tot" "0 \<le> u" "\<forall>k \<in> set entries. 0 \<le> f k"
  shows "splits e \<lparr>ve_allocations = to_fields entries f, ve_unallocated = Some (Some u)\<rparr>"
    "k \<in> set entries \<Longrightarrow> micros (Some (f k)) = Some (f k)" "micros (Some u) = Some u"
    "all_amounts (to_fields entries f)"
proof -
  have en: "entries = envelope_entries e" "micros (en_total e) = Some tot" using envelope_numbers_Some [OF assms(2)] by auto
  have tot: "0 \<le> tot" "tot \<le> max_safe" using micros_nonneg [OF en(2)] by auto
  have fk: "f k \<le> tot" if "k \<in> set entries" for k
    using total_of_member [of entries f k] that assms(3-5) by force
  have ut: "u \<le> tot" using total_of_nonneg [of entries f] assms(3,5) by force
  show m: "micros (Some (f k)) = Some (f k)" if "k \<in> set entries" for k
    using fk [OF that] assms(5) that tot by (intro micros_safe) auto
  show mu: "micros (Some u) = Some u" using ut assms(4) tot by (intro micros_safe) auto
  have am: "amounts (to_fields entries f) k = f k" if "k \<in> set entries" for k
    using m [OF that] that by (simp add: amounts_def field_to_fields)
  have "total_of entries (amounts (to_fields entries f)) = total_of entries f" using am by (rule total_of_cong)
  then show "splits e \<lparr>ve_allocations = to_fields entries f, ve_unallocated = Some (Some u)\<rparr>"
    using assms(2,3) m mu sorted_keys_to_fields
    by (auto simp: splits_def vector_numbers_def all_micros_def field_to_fields unallocated_of_def en)
  show "all_amounts (to_fields entries f)" using m by (auto simp: all_amounts_def to_fields_def list_all_iff)
qed

lemma shares_micros:
  assumes "repo_splits known alloc rw = Some rs" "weighed rw" "\<And>p. p \<in> fst ` set rw \<Longrightarrow> 0 \<le> alloc p \<and> alloc p \<le> max_safe"
  shows "list_all (\<lambda>(p, fs). all_amounts fs) (split_fields rs)"
proof -
  have "all_amounts (map (map_prod (\<lambda>r. r) Some) s)" if ps: "(p, s) \<in> set rs" for p s
  proof -
    obtain fs where fs: "(p, fs) \<in> set rw" "repo_split (alloc p) fs = Some s" using repo_splits_each [OF assms(1) ps] by auto
    have d: "distinct (map fst fs)" using assms(2) fs(1) by (auto simp: weighed_def)
    have a: "0 \<le> alloc p" "alloc p \<le> max_safe" using assms(3) [of p] fs(1) by force+
    note s = repo_split_sum [OF fs(2) a(1) d]
    have "0 \<le> x \<and> x \<le> max_safe" if "x \<in> set (map snd s)" for x
    proof -
      have "x \<le> sum_list (map snd s)" using s that by (intro member_le_sum_list) auto
      then show ?thesis using s that a by (auto split: if_splits)
    qed
    then show ?thesis using micros_safe by (fastforce simp: all_amounts_def list_all_iff)
  qed
  then show ?thesis by (auto simp: split_fields_def list_all_iff)
qed

lemma neutral_fits:
  assumes "usable e" "neutral_state e (envelope_digest sha e) t w l = Some n"
  shows "split_of sha e n \<and> st_writer n = w"
proof -
  obtain tot floors where n: "envelope_numbers e = Some (tot, floors, envelope_entries e)" "other_id \<in> set (envelope_entries e)"
    by (rule usable_numbers [OF assms(1)])
  have d: "distinct (map fst (en_floors e))" "unallocated_key \<notin> set (envelope_entries e)" using assms(1) by (auto simp: usable_def)
  obtain a where a: "allocate e (en_weights e) None [] = Some a"
    "n = \<lparr>st_version = alloc_state_version, st_plan_id = None, st_basis = None, st_writer = w, st_job_id = None,
        st_trigger_id = None, st_applied_at = t, st_last_plan_at = l, st_valid_until = None, st_digest = Some (envelope_digest sha e),
        st_weights = en_weights e, st_repo_weights = [], st_reasons = [],
        st_allocations = to_fields (envelope_entries e) (al_allocations a), st_unallocated = Some (Some (al_unallocated a)),
        st_repos = [], st_clamped = False\<rparr>"
    using assms(2) by (auto simp: neutral_state_def neutral_allocation_def)
  from allocate_total [OF a(1) n(1) d] have s: "total_of (envelope_entries e) (al_allocations a) + al_unallocated a = tot"
    "0 \<le> al_unallocated a" "\<forall>k \<in> set (envelope_entries e). 0 \<le> al_allocations a k" by auto
  note v = split_vector [OF assms(1) n(1) s]
  show ?thesis using assms(1) v n(2)
    by (simp add: split_of_def a(2) vector_of_def amounts_are_micros_def weighed_def unallocated_of_def)
qed

lemma neutral_some:
  assumes "usable e"
  shows "\<exists>n. neutral_state e d t w l = Some n"
proof -
  obtain tot floors where n: "envelope_numbers e = Some (tot, floors, envelope_entries e)" by (rule usable_numbers [OF assms])
  from assms have "\<forall>k \<in> set (envelope_entries e). is_weight (field (en_weights e) k)" "set (map fst (en_weights e)) \<subseteq> set (envelope_entries e)"
    by (simp_all add: usable_def)
  from neutral_exists [OF n this] show ?thesis by (auto simp: neutral_state_def)
qed

lemma usable_parts:
  assumes "usable e"
  shows "distinct (map fst (en_floors e))" "unallocated_key \<notin> set (envelope_entries e)"
  using assms by (simp_all add: usable_def)

lemma fits_amounts:
  assumes "split_of sha e s"
  shows "all_amounts (st_allocations s)" "unallocated_of (vector_of s) \<noteq> None" "weighed (st_repo_weights s)" "st_digest s = Some (envelope_digest sha e)"
  using assms by (simp_all add: split_of_def amounts_are_micros_def)

lemma field_of_member: "k \<in> set (map fst fs) \<Longrightarrow> \<exists>v. (k, v) \<in> set fs \<and> field fs k = v"
proof -
  assume "k \<in> set (map fst fs)"
  then obtain v where v: "map_of fs k = Some v" by (metis (no_types) map_of_eq_None_iff option.exhaust set_map)
  then show ?thesis using map_of_SomeD [OF v] by (auto simp: field_def)
qed

lemma all_amounts_micros: "all_amounts fs \<Longrightarrow> all_micros fs (map fst fs)"
proof -
  assume a: "all_amounts fs"
  have "micros (field fs k) \<noteq> None" if "k \<in> set (map fst fs)" for k
    using field_of_member [OF that] a by (auto simp: all_amounts_def list_all_iff)
  then show ?thesis by (simp add: all_micros_def)
qed

lemma weighed_keep: "weighed rw \<Longrightarrow> weighed (keep_entries ks rw)"
  by (auto simp: weighed_def keep_entries_def)

lemma repo_splits_some:
  assumes "weighed rw" "\<And>p. p \<in> fst ` set rw \<Longrightarrow> known p"
  shows "\<exists>rs. repo_splits known alloc rw = Some rs"
  using assms
proof (induction rw)
  case (Cons x rw)
  obtain p fs where x: "x = (p, fs)" by fastforce
  have w: "\<forall>k \<in> set (map fst fs). is_weight (field fs k)" "weighed rw" using Cons.prems(1) by (auto simp: weighed_def x)
  have "\<not> (\<exists>r \<in> set (sorted_keys fs). \<not> is_weight (field fs r))" using w(1) by (simp add: sorted_keys_def)
  then have "\<exists>s. repo_split (alloc p) fs = Some s" unfolding repo_split_def Let_def by simp
  moreover obtain rs where "repo_splits known alloc rw = Some rs" using Cons.IH w(2) Cons.prems(2) by auto
  moreover have "known p" using Cons.prems(2) by (simp add: x)
  ultimately show ?case by (auto simp: x)
qed simp

lemma repo_splits_known: "repo_splits known alloc rw = Some rs \<Longrightarrow> p \<in> fst ` set rw \<Longrightarrow> known p"
proof (induction rw arbitrary: rs)
  case (Cons x rw)
  obtain q fs where x: "x = (q, fs)" by fastforce
  from Cons.prems(1) obtain rest where "known q" "repo_splits known alloc rw = Some rest"
    by (auto simp: x split: if_splits option.splits)
  with Cons.IH Cons.prems(2) show ?case by (auto simp: x)
qed simp

lemma rebased_fits:
  assumes "usable e" "split_of sha e' s"
  shows "\<exists>n. rebased s e (envelope_digest sha e) t = Some n \<and> split_of sha e n \<and> st_writer n = ''envelope-change''"
proof (cases "st_plan_id s = None \<or> \<not> delegation_on e")
  case True
  obtain n where n: "neutral_state e (envelope_digest sha e) t ''envelope-change'' (st_last_plan_at s) = Some n"
    using neutral_some [OF assms(1)] by blast
  have "rebased s e (envelope_digest sha e) t = Some n" using True n by (simp only: rebased_def if_True)
  with neutral_fits [OF assms(1) n] show ?thesis by blast
next
  case False
  obtain tot floors where n: "envelope_numbers e = Some (tot, floors, envelope_entries e)" "tot \<le> max_safe" "0 \<le> tot"
    "distinct (envelope_entries e)" "other_id \<in> set (envelope_entries e)" by (rule usable_numbers [OF assms(1)])
  note f = fits_amounts [OF assms(2)] and us = usable_parts [OF assms(1)]
  let ?es = "envelope_entries e"
  have "rebase (vector_of s) e \<noteq> None"
  proof -
    obtain x where x: "unallocated_of (vector_of s) = Some x" using f(2) by auto
    have m: "all_micros (ve_allocations (vector_of s)) (map fst (ve_allocations (vector_of s)))"
      using all_amounts_micros [OF f(1)] by (simp only: vector_of_def vector.select_convs)
    show ?thesis unfolding rebase_def n(1) by (simp only: option.case prod.case x m not_True_eq_False if_False Let_def option.distinct not_False_eq_True)
  qed
  then obtain alloc u where r: "rebase (vector_of s) e = Some (alloc, u)" by auto
  have R: "total_of ?es alloc + u = tot" "0 \<le> u" "\<forall>k \<in> set ?es. floors k \<le> alloc k"
    using rebase_split [OF r n(1) us] by auto
  have "floors = amounts (en_floors e)" using envelope_numbers_Some [OF n(1)] by auto
  then have nn: "\<forall>k \<in> set ?es. 0 \<le> alloc k" using R(3) amounts_nonneg order_trans by blast
  note v = split_vector [OF assms(1) n(1) R(1,2) nn]
  define rw where "rw = keep_entries ?es (st_repo_weights s)"
  define kept where "kept = filter (\<lambda>(p, _). p \<noteq> other_id \<and> map_of (to_fields ?es alloc) p \<noteq> None) rw"
  have w: "weighed rw" "weighed kept" using f(3) weighed_keep by (auto simp: rw_def kept_def weighed_def keep_entries_def)
  have kin: "p \<in> set ?es" if "p \<in> fst ` set kept" for p using that by (auto simp: kept_def map_of_to_fields split: if_splits)
  have am: "amounts (to_fields ?es alloc) p = alloc p" "micros (field (to_fields ?es alloc) p) = Some (alloc p)"
    if "p \<in> set ?es" for p using v(2) [OF that] that by (simp_all add: amounts_def field_to_fields)
  have "\<exists>rs. repo_splits (\<lambda>_. True) (amounts (to_fields ?es alloc)) kept = Some rs"
    by (rule repo_splits_some [OF w(2)]) (rule TrueI)
  then obtain rs where rs: "repo_splits (\<lambda>_. True) (amounts (to_fields ?es alloc)) kept = Some rs" ..
  have sh: "repo_shares (to_fields ?es alloc) rw = Some rs"
  proof -
    have "\<not> (\<exists>p \<in> set (map fst kept). micros (field (to_fields ?es alloc) p) = None)" using kin am(2) by force
    then show ?thesis unfolding repo_shares_def Let_def kept_def [symmetric] by (simp only: rs if_False)
  qed
  have "alloc p \<le> max_safe" if "p \<in> set ?es" for p
    using am(2) [OF that] micros_nonneg by blast
  then have "list_all (\<lambda>(p, fs). all_amounts fs) (split_fields rs)"
    using kin am(1) nn by (intro shares_micros [OF rs w(2)]) auto
  moreover define m where "m = s\<lparr>st_writer := ''envelope-change'', st_job_id := None, st_trigger_id := None,
                     st_applied_at := t, st_digest := Some (envelope_digest sha e),
                     st_weights := map (\<lambda>k. (k, case map_of (st_weights s) k of None \<Rightarrow> Some 0 | Some w \<Rightarrow> w)) ?es,
                     st_repo_weights := rw, st_reasons := keep_entries ?es (st_reasons s),
                     st_allocations := to_fields ?es alloc, st_unallocated := Some (Some u), st_repos := split_fields rs, st_clamped := False\<rparr>"
  ultimately have "split_of sha e m" "st_writer m = ''envelope-change''"
    using assms v n(5) w(1) by (simp_all add: m_def split_of_def vector_of_def amounts_are_micros_def unallocated_of_def)
  moreover have "rebased s e (envelope_digest sha e) t = Some m"
    using sh unfolding rebased_def r m_def Let_def rw_def by (simp only: False if_False option.case prod.case option.map)
  ultimately show ?thesis by blast
qed

lemma plan_weights_field:
  "distinct (map pp_id (pl_projects p)) \<Longrightarrow> q \<in> set (pl_projects p) \<Longrightarrow> field (plan_weights p) (pp_id q) = Some (pp_weight q)"
proof -
  assume d: "distinct (map pp_id (pl_projects p))" and q: "q \<in> set (pl_projects p)"
  have "map_of (plan_weights p) (pp_id q) = Some (Some (pp_weight q))"
    using d q by (intro map_of_is_SomeI) (auto simp: plan_weights_def comp_def)
  then show ?thesis by (simp add: field_def)
qed

lemma plan_repo_member:
  "(i, fs) \<in> set (plan_repo_weights p) \<longleftrightarrow>
     (\<exists>q rows. q \<in> set (pl_projects p) \<and> pp_repos q = Some rows \<and> i = pp_id q \<and> fs = map (map_prod (\<lambda>r. r) Some) rows)"
  by (fastforce simp: plan_repo_weights_def map_filter_def image_iff)

lemma good_rows_weighed:
  assumes "good_rows rows" "fs = map (map_prod (\<lambda>r. r) Some) rows"
  shows "distinct (map fst fs) \<and> (\<forall>k \<in> set (map fst fs). is_weight (field fs k))"
proof -
  have k: "map fst fs = map fst rows" by (simp add: assms(2))
  have "distinct (map fst fs)" using assms(1) by (simp add: k good_rows_def strict_sorted_iff)
  moreover have "is_weight (field fs i)" if m: "i \<in> set (map fst fs)" for i
  proof -
    obtain v where v: "(i, v) \<in> set fs" "field fs i = v" using field_of_member [OF m] by blast
    then obtain w where "(i, w) \<in> set rows" "v = Some w" by (auto simp: assms(2))
    then show ?thesis using assms(1) v(2) by (auto simp: good_rows_def is_weight_def)
  qed
  ultimately show ?thesis by blast
qed

lemma plan_repos_weighed:
  assumes "\<forall>q \<in> set (pl_projects p). good_project refused q"
  shows "weighed (plan_repo_weights p)"
proof -
  have "distinct (map fst fs) \<and> (\<forall>k \<in> set (map fst fs). is_weight (field fs k))" if m: "(i, fs) \<in> set (plan_repo_weights p)" for i fs
  proof -
    obtain q rows where q: "q \<in> set (pl_projects p)" "pp_repos q = Some rows" "fs = map (map_prod (\<lambda>r. r) Some) rows"
      using m unfolding plan_repo_member by blast
    have "good_rows rows" using assms q(1,2) by (auto simp: good_project_def)
    then show ?thesis using q(3) by (rule good_rows_weighed)
  qed
  then show ?thesis by (auto simp: weighed_def)
qed

lemma plan_allocates:
  assumes "judge_plan sha refused opts raw = Plan_ok p pid until" "po_envelope opts = Some e"
    and "usable e" "delegation_on e" "split_of sha e s"
  shows "\<exists>a. allocate e (plan_weights p) (Some (vector_of s)) (plan_repo_weights p) = Some a"
proof -
  have P: "sorted_wrt (<) (map pp_id (pl_projects p))" "\<forall>q \<in> set (pl_projects p). good_project refused q"
    "set (map pp_id (pl_projects p)) = set (envelope_entries e)"
    using accepted_plan_facts [OF assms(1)] assms(2) by auto
  obtain tot floors where n: "envelope_numbers e = Some (tot, floors, envelope_entries e)" by (rule usable_numbers [OF assms(3)])
  obtain d pct where dl: "en_delegation e = Some d" "dg_max_step_pct d = Some pct" "1 \<le> pct" "pct \<le> 100"
    using assms(3,4) by (auto simp: usable_def)
  have w: "\<forall>k \<in> set (envelope_entries e). is_weight (field (plan_weights p) k)"
  proof
    fix k assume "k \<in> set (envelope_entries e)"
    then have "k \<in> set (map pp_id (pl_projects p))" using P(3) by simp
    then obtain q where q: "q \<in> set (pl_projects p)" "k = pp_id q" by auto
    have "field (plan_weights p) k = Some (pp_weight q)"
      using plan_weights_field [of p q] P(1) q by (simp add: strict_sorted_iff)
    then show "is_weight (field (plan_weights p) k)" using P(2) q(1) by (auto simp: is_weight_def good_project_def)
  qed
  have ks: "\<not> (\<exists>k \<in> set (map fst (plan_weights p)). k \<notin> set (envelope_entries e))"
    using P(3) by (auto simp: plan_weights_def)
  have "splits e (vector_of s)" using assms(5) by (simp add: split_of_def)
  then obtain before where v: "vector_numbers (vector_of s) (envelope_entries e) tot = Some before" using n by (auto simp: splits_def)
  have "\<exists>rs. repo_splits (\<lambda>p. p \<in> set (envelope_entries e) \<and> p \<noteq> other_id) alloc (plan_repo_weights p) = Some rs" for alloc
  proof (rule repo_splits_some [OF plan_repos_weighed [OF P(2)]])
    fix i assume "i \<in> fst ` set (plan_repo_weights p)"
    then obtain q rows where q: "q \<in> set (pl_projects p)" "pp_repos q = Some rows" "i = pp_id q" by (auto simp: plan_repo_member)
    then show "i \<in> set (envelope_entries e) \<and> i \<noteq> other_id" using P(2,3) by (auto simp: good_project_def)
  qed
  then show ?thesis using n w ks dl v by (auto simp: allocate_def Let_def split: prod.split)
qed

lemma allocated_fits:
  assumes "usable e" "allocate e ws current rw = Some a" "weighed rw"
    and "st_version n = alloc_state_version" "st_digest n = Some (envelope_digest sha e)" "st_repo_weights n = rw"
    and "st_allocations n = to_fields (envelope_entries e) (al_allocations a)" "st_unallocated n = Some (Some (al_unallocated a))"
    and "st_repos n = split_fields (al_repos a)"
  shows "split_of sha e n"
proof -
  obtain tot floors where n: "envelope_numbers e = Some (tot, floors, envelope_entries e)" "tot \<le> max_safe"
    "other_id \<in> set (envelope_entries e)" by (rule usable_numbers [OF assms(1)])
  from allocate_total [OF assms(2) n(1) usable_parts [OF assms(1)]]
  have s: "total_of (envelope_entries e) (al_allocations a) + al_unallocated a = tot"
    "0 \<le> al_unallocated a" "\<forall>k \<in> set (envelope_entries e). 0 \<le> al_allocations a k" by auto
  note v = split_vector [OF assms(1) n(1) s]
  obtain tot' floors' entries where A: "envelope_numbers e = Some (tot', floors', entries)"
    "repo_splits (\<lambda>p. p \<in> set entries \<and> p \<noteq> other_id) (al_allocations a) rw = Some (al_repos a)"
    by (rule allocate_Some [OF assms(2)])
  have r: "repo_splits (\<lambda>p. p \<in> set entries \<and> p \<noteq> other_id) (al_allocations a) rw = Some (al_repos a)"
    "entries = envelope_entries e" using A n(1) by auto
  have "0 \<le> al_allocations a p \<and> al_allocations a p \<le> max_safe" if "p \<in> fst ` set rw" for p
  proof -
    have "p \<in> set (envelope_entries e)" using repo_splits_known [OF r(1) that] r(2) by simp
    then show ?thesis using s(3) v(2) [of p] micros_nonneg by blast
  qed
  then have "list_all (\<lambda>(p, fs). all_amounts fs) (split_fields (al_repos a))" by (intro shares_micros [OF r(1) assms(3)])
  then show ?thesis using assms v n(3)
    by (simp add: split_of_def vector_of_def amounts_are_micros_def unallocated_of_def)
qed

section \<open>Reasoning about runs\<close>

text \<open>
  A run keeps a store invariant \<open>J\<close> and a trace invariant \<open>T\<close>: started where both hold and \<open>P\<close> holds
  of the trace, among hosts that keep \<open>J\<close>, it ends where both hold, with \<open>Q\<close> of its result, or fails
  because of the store or the file.
\<close>

definition keeps ::
  "(store \<Rightarrow> bool) \<Rightarrow> (event list \<Rightarrow> bool) \<Rightarrow> (event list \<Rightarrow> bool) \<Rightarrow> 'a run \<Rightarrow> ('a \<Rightarrow> event list \<Rightarrow> bool) \<Rightarrow> bool" where
  "keeps J T P m Q \<longleftrightarrow>
     (\<forall>ev w. (\<forall>n s. J s \<longrightarrow> J (ev_between ev n s)) \<longrightarrow> J (wo_store w) \<longrightarrow> T (wo_trace w) \<longrightarrow> P (wo_trace w) \<longrightarrow>
        J (wo_store (snd (m ev w))) \<and> T (wo_trace (snd (m ev w)))
        \<and> (case fst (m ev w) of Inl err \<Rightarrow> err = Infrastructure | Inr x \<Rightarrow> Q x (wo_trace (snd (m ev w)))))"

lemma keepsD:
  assumes "keeps J T P m Q" "\<forall>n s. J s \<longrightarrow> J (ev_between ev n s)" "J (wo_store w)" "T (wo_trace w)" "P (wo_trace w)"
    and "m ev w = (r, w')"
  shows "J (wo_store w')" "T (wo_trace w')" "r = Inl e \<Longrightarrow> e = Infrastructure" "r = Inr x \<Longrightarrow> Q x (wo_trace w')"
proof -
  have k: "J (wo_store (snd (m ev w))) \<and> T (wo_trace (snd (m ev w)))
        \<and> (case fst (m ev w) of Inl err \<Rightarrow> err = Infrastructure | Inr x \<Rightarrow> Q x (wo_trace (snd (m ev w))))"
    using assms(1-5) unfolding keeps_def by blast
  then show "J (wo_store w')" "T (wo_trace w')" "r = Inl e \<Longrightarrow> e = Infrastructure" "r = Inr x \<Longrightarrow> Q x (wo_trace w')"
    by (auto simp: assms(6))
qed

lemma keepsI:
  assumes "\<And>ev w r w'. (\<forall>n s. J s \<longrightarrow> J (ev_between ev n s)) \<Longrightarrow> J (wo_store w) \<Longrightarrow> T (wo_trace w) \<Longrightarrow> P (wo_trace w) \<Longrightarrow>
      m ev w = (r, w') \<Longrightarrow> J (wo_store w') \<and> T (wo_trace w') \<and> (case r of Inl err \<Rightarrow> err = Infrastructure | Inr x \<Rightarrow> Q x (wo_trace w'))"
  shows "keeps J T P m Q"
  unfolding keeps_def using assms by (metis prod.collapse)

lemma keeps_ret: "(\<And>tr. T tr \<Longrightarrow> P tr \<Longrightarrow> Q x tr) \<Longrightarrow> keeps J T P (ret x) Q"
  by (rule keepsI) (auto simp: ret_def)

lemma keeps_bind:
  assumes m: "keeps J T P m Q" and f: "\<And>x. keeps J T (Q x) (f x) R"
  shows "keeps J T P (bind_run m f) R"
proof (rule keepsI)
  fix ev w r w'
  assume a: "\<forall>n s. J s \<longrightarrow> J (ev_between ev n s)" "J (wo_store w)" "T (wo_trace w)" "P (wo_trace w)"
    and e: "bind_run m f ev w = (r, w')"
  obtain r1 w1 where m1: "m ev w = (r1, w1)" by fastforce
  note k = keepsD [OF m a m1]
  show "J (wo_store w') \<and> T (wo_trace w') \<and> (case r of Inl err \<Rightarrow> err = Infrastructure | Inr x \<Rightarrow> R x (wo_trace w'))"
  proof (cases r1)
    case (Inl e1)
    then show ?thesis using e m1 k by (auto simp: bind_run_def)
  next
    case (Inr x)
    then have "f x ev w1 = (r, w')" using e m1 by (simp add: bind_run_def)
    from keepsD [OF f a(1) k(1,2) k(4) [OF Inr] this] show ?thesis by (auto split: sum.splits)
  qed
qed

lemma keeps_post: "keeps J T P m Q \<Longrightarrow> (\<And>x tr. Q x tr \<Longrightarrow> R x tr) \<Longrightarrow> keeps J T P m R"
  unfolding keeps_def by (force split: sum.splits)

lemma keeps_attempt: "keeps J T P m (\<lambda>_ _. True) \<Longrightarrow> keeps J T P (attempt m) (\<lambda>_ _. True)"
  unfolding keeps_def by (auto simp: attempt_def)

lemma keeps_finally:
  assumes m: "keeps J T P m (\<lambda>x _. F x)" and r: "keeps J T (\<lambda>_. True) rel (\<lambda>_ _. True)"
  shows "keeps J T P (finally_run m rel) (\<lambda>x _. F x)"
proof (rule keepsI)
  fix ev w x w'
  assume a: "\<forall>n s. J s \<longrightarrow> J (ev_between ev n s)" "J (wo_store w)" "T (wo_trace w)" "P (wo_trace w)"
    and e: "finally_run m rel ev w = (x, w')"
  obtain r1 w1 where m1: "m ev w = (r1, w1)" by fastforce
  obtain r2 w2 where m2: "rel ev w1 = (r2, w2)" by fastforce
  note k = keepsD [OF m a m1]
  note k2 = keepsD [OF r a(1) k(1,2) TrueI m2]
  have "x = r1" "w' = w2" using e m1 m2 by (auto simp: finally_run_def)
  then show "J (wo_store w') \<and> T (wo_trace w') \<and> (case x of Inl err \<Rightarrow> err = Infrastructure | Inr x \<Rightarrow> F x)"
    using k k2 by (auto split: sum.splits)
qed

lemma keeps_command:
  assumes "\<And>s tr. J s \<Longrightarrow> T tr \<Longrightarrow> P tr \<Longrightarrow>
      J (snd (f s)) \<and> T (note (fst (f s)) @ tr) \<and> Q (fst (f s)) (note (fst (f s)) @ tr)"
  shows "keeps J T P (command f note) Q"
proof (rule keepsI)
  fix ev w r w'
  assume a: "\<forall>n s. J s \<longrightarrow> J (ev_between ev n s)" "J (wo_store w)" "T (wo_trace w)" "P (wo_trace w)"
    and e: "command f note ev w = (r, w')"
  have "J (ev_between ev (wo_tick w) (wo_store w))" using a(1,2) by blast
  with assms [OF this a(3,4)] a(3) e
  show "J (wo_store w') \<and> T (wo_trace w') \<and> (case r of Inl err \<Rightarrow> err = Infrastructure | Inr x \<Rightarrow> Q x (wo_trace w'))"
    by (cases "ev_answer ev (wo_tick w)") (auto simp: command_def Let_def)
qed

text \<open>
  What the operations need of the two invariants: the store's concerns \<open>alloc:plan\<close> alone, and a row
  in the file never breaks the trace's.
\<close>

locale shared_state =
  fixes J :: "store \<Rightarrow> bool" and T :: "event list \<Rightarrow> bool"
  assumes plan_only: "sv_plan s = sv_plan s' \<Longrightarrow> J s = J s'"
    and rows: "T tr \<Longrightarrow> T (Row r rs # tr)"
begin

lemma keeps_quiet:
  assumes "\<And>s. sv_plan (snd (f s)) = sv_plan s"
  shows "keeps J T P (command f (\<lambda>_. [])) (\<lambda>_. P)"
  using plan_only [OF assms] by (intro keeps_command) simp

lemma keeps_append: "keeps J T P (append_row row rs) (\<lambda>_ tr. Row row rs \<in> set tr)"
  by (rule keepsI) (auto simp: append_row_def Let_def rows split: if_splits)

lemma keeps_push_log: "keeps J T P (push_log row) (\<lambda>_ _. True)"
  unfolding push_log_def
  by (intro keeps_attempt keeps_bind [OF keeps_quiet] keeps_post [OF keeps_quiet]) simp_all

lemma keeps_record: "keeps J T P (record_row row) (\<lambda>_ _. True)"
  unfolding record_row_def by (rule keeps_bind [OF keeps_append keeps_push_log])

lemma keeps_record_system: "keeps J T P (record_system row) (\<lambda>_ _. True)"
  unfolding record_system_def
  by (rule keeps_bind [OF keeps_attempt [OF keeps_post [OF keeps_append]] keeps_push_log]) simp

lemma keeps_get_expected: "keeps J T P get_expected (\<lambda>_. P)"
  unfolding get_expected_def by (rule keeps_quiet) simp

lemma keeps_expected: "keeps J T P (expected_digest d) (\<lambda>_ _. True)"
  unfolding expected_digest_def
proof (rule keeps_bind [OF keeps_get_expected])
  fix x
  show "keeps J T P (case x of Some d \<Rightarrow> ret (Some d) | None \<Rightarrow> bind_run (command (set_expected_nx d) (\<lambda>_. [])) (\<lambda>_. get_expected)) (\<lambda>_ _. True)"
  proof (cases x)
    case None
    have "sv_plan (snd (set_expected_nx d s)) = sv_plan s" for s by (auto simp: set_expected_nx_def split: option.splits)
    then show ?thesis
      using keeps_bind [OF keeps_quiet [of "set_expected_nx d"] keeps_post [OF keeps_get_expected]] None by simp
  qed (simp add: keeps_ret)
qed

lemma keeps_take_lock: "keeps J T P (take_lock mine) (\<lambda>_. P)"
  unfolding take_lock_def by (rule keeps_quiet) (auto simp: set_lock_nx_def split: option.splits)

lemma keeps_release_lock: "keeps J T P (release_lock mine) (\<lambda>_ _. True)"
  unfolding release_lock_def
  by (intro keeps_attempt keeps_post [OF keeps_quiet]) (simp_all add: release_if_mine_def)

lemma keeps_refuse_plan: "keeps J T P (refuse_plan t host w digest reason ids fr st) (\<lambda>x _. \<forall>i c. x \<noteq> Was_applied i c)"
  unfolding refuse_plan_def by (rule keeps_bind [OF keeps_record]) (simp add: keeps_ret)

lemma keeps_refuse_revert: "keeps J T P (refuse_revert t host digest r reason st) (\<lambda>_ _. True)"
  unfolding refuse_revert_def by (rule keeps_bind [OF keeps_record]) (simp add: keeps_ret)

lemma keeps_report: "keeps J T P (report_external host digest t s) (\<lambda>_ _. True)"
proof (rule keepsI)
  fix ev w r w'
  assume a: "\<forall>n s. J s \<longrightarrow> J (ev_between ev n s)" "J (wo_store w)" "T (wo_trace w)" "P (wo_trace w)"
    and e: "report_external host digest t s ev w = (r, w')"
  show "J (wo_store w') \<and> T (wo_trace w') \<and> (case r of Inl err \<Rightarrow> err = Infrastructure | Inr x \<Rightarrow> True)"
  proof (cases "digest \<in> set (wo_reported w)")
    case False
    obtain row r1 w1 where m: "record_row row ev w = (r1, w1)"
      "bind_run (record_row row) (\<lambda>_ ev' w'. (Inr (), w'\<lparr>wo_reported := digest # wo_reported w'\<rparr>)) ev w = (r, w')"
      using e False by (fastforce simp: report_external_def)
    note k = keepsD [OF keeps_record [where P = P] a m(1)]
    show ?thesis using m(2) k by (auto simp: bind_run_def m(1) split: sum.splits)
  qed (use e a in \<open>auto simp: report_external_def\<close>)
qed

end

section \<open>The two invariants\<close>

definition system_writers :: "string list" where
  "system_writers = [''default'', ''expiry'', ''envelope-change'']"

text \<open>A row that says a state was written by a plan's writer or by the operator's revert.\<close>

definition says :: "audit_row \<Rightarrow> astate \<Rightarrow> bool" where
  "says row s \<longleftrightarrow> (ar_outcome row = Applied \<or> ar_outcome row = Reverted) \<and> ar_plan_id row = st_plan_id s \<and> ar_after row = Some (amounts_of s)"

text \<open>Every state written that is not the system's own has its row in the file before it.\<close>

fun audited :: "event list \<Rightarrow> bool" where
  "audited [] = True"
| "audited (Row row rs # tr) = audited tr"
| "audited (Wrote s # tr) = (audited tr \<and> (st_writer s \<in> set system_writers \<or> (\<exists>row rs. Row row rs \<in> set tr \<and> says row s)))"

text \<open>The stored state, where there is one, splits an envelope of the fleet.\<close>

definition good_store :: "(string \<Rightarrow> string) \<Rightarrow> envelope set \<Rightarrow> store \<Rightarrow> bool" where
  "good_store sha envs s \<longleftrightarrow> (case parse_state (sv_plan s) of State st \<Rightarrow> \<exists>e \<in> envs. split_of sha e st | _ \<Rightarrow> True)"

interpretation fleet: shared_state "good_store sha envs" audited for sha envs
  by unfold_locales (auto simp: good_store_def)

lemma fits_parses: "split_of sha e s \<Longrightarrow> parse_state (Some (Decoded s)) = State s"
  by (simp add: split_of_def parse_state_def)

lemma good_write: "e \<in> envs \<Longrightarrow> split_of sha e n \<Longrightarrow> sv_plan s = Some (Decoded n) \<Longrightarrow> good_store sha envs s"
  using fits_parses by (auto simp: good_store_def)

lemma keeps_cas:
  assumes "e \<in> envs" "split_of sha e n" "\<And>tr. P tr \<Longrightarrow> st_writer n \<in> set system_writers \<or> (\<exists>row rs. Row row rs \<in> set tr \<and> says row n)"
  shows "keeps (good_store sha envs) audited P (cas s n) (\<lambda>_ _. True)"
  unfolding cas_def
proof (rule keeps_command)
  fix st tr
  assume g: "good_store sha envs st" and a: "audited tr" "P tr"
  let ?r = "cas_script (case st_plan_id s of None \<Rightarrow> '''' | Some i \<Rightarrow> i) (st_digest s) n st"
  have "(fst ?r \<and> sv_plan (snd ?r) = Some (Decoded n)) \<or> (\<not> fst ?r \<and> snd ?r = st)"
    by (auto simp: cas_script_def split: option.splits cell.splits)
  then show "good_store sha envs (snd ?r) \<and> audited ((if fst ?r then [Wrote n] else []) @ tr) \<and> True"
    using g a assms(3) [OF a(2)] good_write [OF assms(1,2)] by auto
qed

lemma keeps_get_plan:
  "keeps (good_store sha envs) audited P get_plan (\<lambda>c _. \<forall>s. parse_state c = State s \<longrightarrow> (\<exists>e \<in> envs. split_of sha e s))"
  unfolding get_plan_def by (rule keeps_command) (auto simp: good_store_def)

definition of_fleet :: "(string \<Rightarrow> string) \<Rightarrow> envelope set \<Rightarrow> astate \<Rightarrow> bool" where
  "of_fleet sha envs s \<longleftrightarrow> (\<exists>e \<in> envs. split_of sha e s)"

lemma keeps_ensure:
  assumes e: "e \<in> envs" "usable e"
  shows "keeps (good_store sha envs) audited P (ensure host e (envelope_digest sha e) t)
           (\<lambda>st _. \<forall>s. st = Some s \<longrightarrow> of_fleet sha envs s)"
  unfolding ensure_def
proof (rule keeps_bind [OF keeps_get_plan])
  fix c
  let ?K = "\<lambda>tr::event list. \<forall>s. parse_state c = State s \<longrightarrow> (\<exists>e \<in> envs. split_of sha e s)"
  obtain seed where n: "neutral_state e (envelope_digest sha e) t ''default'' None = Some seed" using neutral_some [OF e(2)] by blast
  have f: "split_of sha e seed" "st_writer seed \<in> set system_writers" using neutral_fits [OF e(2) n] by (simp_all add: system_writers_def)
  have ok: "of_fleet sha envs seed" using e(1) f(1) by (auto simp: of_fleet_def)
  have seeded: "keeps (good_store sha envs) audited ?K
      (command (seed_script seed (envelope_digest sha e) x) (\<lambda>won. if won then [Wrote seed] else [])) (\<lambda>_ _. True)" for x
  proof (rule keeps_command)
    fix s tr assume g: "good_store sha envs s" and a: "audited tr"
    let ?r = "seed_script seed (envelope_digest sha e) x s"
    have "(fst ?r \<and> sv_plan (snd ?r) = Some (Decoded seed)) \<or> (\<not> fst ?r \<and> snd ?r = s)"
      by (auto simp: seed_script_def split: option.splits)
    then show "good_store sha envs (snd ?r) \<and> audited ((if fst ?r then [Wrote seed] else []) @ tr) \<and> True"
      using g a f good_write [OF e(1) f(1)] by auto
  qed
  have rest: "keeps (good_store sha envs) audited ?K
     (bind_run (command (seed_script seed (envelope_digest sha e) x) (\<lambda>won. if won then [Wrote seed] else [])) (\<lambda>won.
         if won then bind_run (record_system (row won)) (\<lambda>_. ret (Some seed))
         else bind_run get_plan (\<lambda>c'. case parse_state c' of Newer_state \<Rightarrow> ret None | State s \<Rightarrow> ret (Some s) | _ \<Rightarrow> ret (Some seed))))
     (\<lambda>st _. \<forall>s. st = Some s \<longrightarrow> of_fleet sha envs s)" for x row
  proof (rule keeps_bind [OF seeded], split if_split, intro conjI impI)
    show "keeps (good_store sha envs) audited (\<lambda>_. True) (bind_run (record_system (row won)) (\<lambda>_. ret (Some seed)))
        (\<lambda>st _. \<forall>s. st = Some s \<longrightarrow> of_fleet sha envs s)" for won
      by (rule keeps_bind [OF fleet.keeps_record_system]) (simp add: keeps_ret ok)
    show "keeps (good_store sha envs) audited (\<lambda>_. True)
        (bind_run get_plan (\<lambda>c'. case parse_state c' of Newer_state \<Rightarrow> ret None | State s \<Rightarrow> ret (Some s) | _ \<Rightarrow> ret (Some seed)))
        (\<lambda>st _. \<forall>s. st = Some s \<longrightarrow> of_fleet sha envs s)"
      by (rule keeps_bind [OF keeps_get_plan]) (auto simp: ok [unfolded of_fleet_def] of_fleet_def intro!: keeps_ret split: stored.splits)
  qed
  show "keeps (good_store sha envs) audited ?K
         (case parse_state c of Newer_state \<Rightarrow> ret None | State s \<Rightarrow> ret (Some s)
          | p \<Rightarrow> case neutral_state e (envelope_digest sha e) t ''default'' None of None \<Rightarrow> type_fault
            | Some seed \<Rightarrow>
                bind_run (command (seed_script seed (envelope_digest sha e) (case p of Corrupt x \<Rightarrow> Some x | _ \<Rightarrow> None)) (\<lambda>won. if won then [Wrote seed] else [])) (\<lambda>won.
                  if won then
                    bind_run (record_system ((blank_row t host (system_writer ''default'') Neutral (Some (envelope_digest sha e)))
                        \<lparr>ar_weights := Some (st_weights seed), ar_after := Some (amounts_of seed), ar_clamped := Some False\<rparr>)) (\<lambda>_.
                      ret (Some seed))
                  else bind_run get_plan (\<lambda>c'.
                    case parse_state c' of Newer_state \<Rightarrow> ret None | State s \<Rightarrow> ret (Some s) | _ \<Rightarrow> ret (Some seed))))
         (\<lambda>st _. \<forall>s. st = Some s \<longrightarrow> of_fleet sha envs s)"
  proof (cases "parse_state c")
    case No_state
    show ?thesis unfolding No_state stored.case n option.case by (rule rest [unfolded No_state])
  next
    case (State s)
    then show ?thesis by (auto intro!: keeps_ret simp: of_fleet_def)
  next
    case Newer_state
    then show ?thesis by (auto intro!: keeps_ret)
  next
    case (Corrupt x)
    show ?thesis unfolding Corrupt stored.case n option.case by (rule rest [unfolded Corrupt])
  qed
qed

text \<open>What a round of reconcile answers: a state of the fleet, and one of this envelope unless it says mismatch.\<close>

definition enforced :: "(string \<Rightarrow> string) \<Rightarrow> envelope set \<Rightarrow> envelope \<Rightarrow> astate option \<times> bool \<Rightarrow> bool" where
  "enforced sha envs e r \<longleftrightarrow>
     (case r of (None, mismatch) \<Rightarrow> mismatch
      | (Some s, mismatch) \<Rightarrow> of_fleet sha envs s \<and> (\<not> mismatch \<longrightarrow> split_of sha e s))"

lemma keeps_swap:
  assumes e: "e \<in> envs" "split_of sha e n" "st_writer n \<in> set system_writers"
  shows "keeps (good_store sha envs) audited P (swap s (Some n) row) (\<lambda>r _. \<forall>x. r = Some x \<longrightarrow> enforced sha envs e x)"
  unfolding swap_def option.case
proof (rule keeps_bind [OF keeps_cas [OF e(1,2)]])
  fix won
  show "keeps (good_store sha envs) audited (\<lambda>_. True)
      (if won then bind_run (record_system (row n)) (\<lambda>_. ret (Some (Some n, False))) else ret None)
      (\<lambda>r _. \<forall>x. r = Some x \<longrightarrow> enforced sha envs e x)"
  proof (cases won)
    case True
    have "enforced sha envs e (Some n, False)" using e by (auto simp: enforced_def of_fleet_def)
    then have "keeps (good_store sha envs) audited (\<lambda>_. True) (bind_run (record_system (row n)) (\<lambda>_. ret (Some (Some n, False))))
        (\<lambda>r _. \<forall>x. r = Some x \<longrightarrow> enforced sha envs e x)"
      by (intro keeps_bind [OF fleet.keeps_record_system]) (simp add: keeps_ret)
    then show ?thesis using True by simp
  qed (simp add: keeps_ret)
qed (use e(3) in simp)

lemma keeps_other:
  assumes e: "e \<in> envs" "usable e" and s: "of_fleet sha envs s"
  shows "keeps (good_store sha envs) audited P (other_digest host e (envelope_digest sha e) t s)
           (\<lambda>r _. \<forall>x. r = Some x \<longrightarrow> enforced sha envs e x)"
  unfolding other_digest_def
proof (rule keeps_bind [OF fleet.keeps_expected])
  fix x
  obtain e' where e': "split_of sha e' s" using s by (auto simp: of_fleet_def)
  obtain n where n: "rebased s e (envelope_digest sha e) t = Some n" "split_of sha e n" "st_writer n = ''envelope-change''"
    using rebased_fits [OF e(2) e'] by blast
  have w: "st_writer n \<in> set system_writers" by (simp add: n(3) system_writers_def)
  have m: "enforced sha envs e (Some s, True)" using s by (simp add: enforced_def)
  have "keeps (good_store sha envs) audited (\<lambda>_. True) (bind_run (report_external host (envelope_digest sha e) t s) (\<lambda>_. ret (Some (Some s, True))))
      (\<lambda>r _. \<forall>x. r = Some x \<longrightarrow> enforced sha envs e x)"
    by (rule keeps_bind [OF fleet.keeps_report]) (simp add: keeps_ret m)
  then show "keeps (good_store sha envs) audited (\<lambda>_. True)
      (if x \<noteq> Some (envelope_digest sha e) then bind_run (report_external host (envelope_digest sha e) t s) (\<lambda>_. ret (Some (Some s, True)))
       else swap s (rebased s e (envelope_digest sha e) t)
              (\<lambda>n. (change_row t host ''envelope-change'' Rebased (envelope_digest sha e) (st_plan_id n) s n)\<lparr>ar_repo_weights := Some (st_repo_weights n)\<rparr>))
      (\<lambda>r _. \<forall>x. r = Some x \<longrightarrow> enforced sha envs e x)"
    using keeps_swap [OF e(1) n(2) w] by (simp add: n(1))
qed

lemma keeps_same:
  assumes e: "e \<in> envs" "usable e" and s: "split_of sha e s"
  shows "keeps (good_store sha envs) audited P (same_digest host e (envelope_digest sha e) t s)
           (\<lambda>r _. \<forall>x. r = Some x \<longrightarrow> enforced sha envs e x)"
  unfolding same_digest_def
proof (rule keeps_bind [OF fleet.keeps_expected])
  fix x
  obtain n where n: "neutral_state e (envelope_digest sha e) t ''envelope-change'' (st_last_plan_at s) = Some n" using neutral_some [OF e(2)] by blast
  obtain m where m: "neutral_state e (envelope_digest sha e) t ''expiry'' (st_last_plan_at s) = Some m" using neutral_some [OF e(2)] by blast
  have w: "split_of sha e n" "st_writer n \<in> set system_writers" "split_of sha e m" "st_writer m \<in> set system_writers"
    using neutral_fits [OF e(2) n] neutral_fits [OF e(2) m] by (simp_all add: system_writers_def)
  have k: "enforced sha envs e (Some s, False)" using s e(1) by (auto simp: enforced_def of_fleet_def)
  show "keeps (good_store sha envs) audited (\<lambda>_. True)
      (if st_plan_id s \<noteq> None \<and> \<not> delegation_on e then
         swap s (neutral_state e (envelope_digest sha e) t ''envelope-change'' (st_last_plan_at s))
           (\<lambda>n. (change_row t host ''envelope-change'' Neutral (envelope_digest sha e) None s n)\<lparr>ar_reason := Some ''delegation-off''\<rparr>)
       else if (case st_valid_until s of None \<Rightarrow> False | Some u \<Rightarrow> u \<le> t) then
         swap s (neutral_state e (envelope_digest sha e) t ''expiry'' (st_last_plan_at s))
           (change_row t host ''expiry'' Expired (envelope_digest sha e) (st_plan_id s) s)
       else ret (Some (Some s, False)))
      (\<lambda>r _. \<forall>x. r = Some x \<longrightarrow> enforced sha envs e x)"
    unfolding n m using keeps_swap [OF e(1) w(1,2)] keeps_swap [OF e(1) w(3,4)] by (simp add: keeps_ret k)
qed

lemma same_envelope:
  assumes "inj_on (envelope_digest sha) envs" "e \<in> envs" "of_fleet sha envs s" "st_digest s = Some (envelope_digest sha e)"
  shows "split_of sha e s"
proof -
  obtain e' where e': "e' \<in> envs" "split_of sha e' s" using assms(3) by (auto simp: of_fleet_def)
  then have "envelope_digest sha e' = envelope_digest sha e" using assms(4) by (simp add: split_of_def)
  with assms(1,2) e' show ?thesis by (auto dest: inj_onD)
qed

lemma keeps_round:
  assumes i: "inj_on (envelope_digest sha) envs" and e: "e \<in> envs" "usable e"
  shows "keeps (good_store sha envs) audited P (reconcile_round host e (envelope_digest sha e) t)
           (\<lambda>r _. \<forall>x. r = Some x \<longrightarrow> enforced sha envs e x)"
  unfolding reconcile_round_def
proof (rule keeps_bind [OF keeps_ensure [OF e]])
  fix st
  let ?K = "\<lambda>tr::event list. \<forall>s. st = Some s \<longrightarrow> of_fleet sha envs s"
  show "keeps (good_store sha envs) audited ?K
      (case st of None \<Rightarrow> ret (Some (None, True))
       | Some s \<Rightarrow> if st_digest s \<noteq> Some (envelope_digest sha e) then other_digest host e (envelope_digest sha e) t s
                   else same_digest host e (envelope_digest sha e) t s)
      (\<lambda>r _. \<forall>x. r = Some x \<longrightarrow> enforced sha envs e x)"
  proof (cases st)
    case None
    then show ?thesis by (auto intro!: keeps_ret simp: enforced_def)
  next
    case (Some s)
    show ?thesis
    proof (cases "of_fleet sha envs s")
      case True
      then show ?thesis using keeps_other [OF e True] keeps_same [OF e] same_envelope [OF i e(1) True] Some by simp
    next
      case False
      then show ?thesis using Some by (auto simp: keeps_def)
    qed
  qed
qed

lemma keeps_rounds:
  assumes i: "inj_on (envelope_digest sha) envs" and e: "e \<in> envs" "usable e"
  shows "keeps (good_store sha envs) audited P (reconcile_rounds n host e (envelope_digest sha e) t) (\<lambda>r _. enforced sha envs e r)"
proof (induction n arbitrary: P)
  case 0
  show ?case unfolding reconcile_rounds.simps
  proof (rule keeps_bind [OF keeps_ensure [OF e]], rule keeps_ret)
    fix st tr assume k: "\<forall>s. st = Some s \<longrightarrow> of_fleet sha envs s"
    show "enforced sha envs e (case st of None \<Rightarrow> (None, True) | Some s \<Rightarrow> (Some s, st_digest s \<noteq> Some (envelope_digest sha e)))"
      using k same_envelope [OF i e(1)] by (auto simp: enforced_def split: option.splits)
  qed
next
  case (Suc n)
  show ?case unfolding reconcile_rounds.simps
  proof (rule keeps_bind [OF keeps_round [OF i e]])
    fix r
    show "keeps (good_store sha envs) audited (\<lambda>tr. \<forall>x. r = Some x \<longrightarrow> enforced sha envs e x)
        (case r of Some x \<Rightarrow> ret x | None \<Rightarrow> reconcile_rounds n host e (envelope_digest sha e) t) (\<lambda>r _. enforced sha envs e r)"
      by (cases r) (auto intro!: keeps_ret Suc.IH)
  qed
qed

end
