(* ===== verification/AllocationWrites.thy ===== *)
theory AllocationWrites
  imports AllocationSound
begin

text \<open>
  The three operations of the applied split whole: reconcile, applying a plan and the operator's
  revert, each from its first read to the release of its lock, among other hosts that may change
  the store before every command and with any command or append failing.
\<close>

section \<open>Reading a plan throws only for the clock\<close>

named_theorems no_throw

lemma sum_bind_throws: "sum_bind m f = Inl e \<longleftrightarrow> m = Inl e \<or> (\<exists>x. m = Inr x \<and> f x = Inl e)"
  by (cases m) auto

lemma read_weight_no_throw [no_throw]: "read_weight f v \<noteq> Inl Throws"
  by (auto simp: read_weight_def split: option.splits json.splits)

lemma read_ref_no_throw [no_throw]: "read_ref v \<noteq> Inl Throws"
  by (auto simp: read_ref_def split: option.splits json.splits)

lemma read_repo_no_throw [no_throw]: "read_repo known seen j \<noteq> Inl Throws"
  by (auto simp: read_repo_def sum_bind_throws no_throw split: json.splits if_splits)

lemma read_repos_no_throw [no_throw]: "read_repos known seen js \<noteq> Inl Throws"
  by (induction js arbitrary: seen) (auto simp: sum_bind_throws no_throw)

lemma parse_repos_no_throw [no_throw]: "parse_repos ms i j \<noteq> Inl Throws"
  by (auto simp: parse_repos_def sum_bind_throws no_throw split: json.splits if_splits)

lemma read_id_no_throw [no_throw]: "read_id es seen v \<noteq> Inl Throws"
  by (auto simp: read_id_def split: option.splits json.splits)

lemma read_reason_no_throw [no_throw]: "read_reason refused v \<noteq> Inl Throws"
  by (auto simp: read_reason_def split: option.splits json.splits)

lemma read_project_no_throw [no_throw]: "read_project refused es ms seen j \<noteq> Inl Throws"
  by (auto simp: read_project_def sum_bind_throws no_throw split: json.splits if_splits option.splits)

lemma read_projects_no_throw [no_throw]: "read_projects refused es ms seen js \<noteq> Inl Throws"
  by (induction js arbitrary: seen) (auto simp: sum_bind_throws no_throw)

lemma read_head_no_throw [no_throw]:
  "read_version v \<noteq> Inl Throws" "read_basis v \<noteq> Inl Throws" "read_until t limit v \<noteq> Inl Throws" "project_list v \<noteq> Inl Throws"
  by (auto simp: read_version_def read_basis_def read_until_def project_list_def split: option.splits json.splits if_splits)

lemma judge_plan_throws:
  assumes "judge_plan sha refused opts raw = Plan_throws"
  shows "plan_clock opts = Inl Throws"
proof -
  have "read_plan sha refused opts raw = Inl Throws"
    using assms by (auto simp: judge_plan_def split: sum.splits plan_stop.splits if_splits)
  then show ?thesis
    by (auto simp: read_plan_def sum_bind_throws no_throw split: json.splits if_splits)
qed

definition clock_ok :: "int \<Rightarrow> bool" where
  "clock_ok t \<longleftrightarrow> \<bar>t\<bar> + max_plan_days * day_ms \<le> max_date_ms"

lemma plan_clock_ok:
  assumes "clock_ok t" "1 \<le> plan_days opts" "plan_days opts \<le> max_plan_days" "po_now opts = Some t"
  shows "plan_clock opts \<noteq> Inl Throws"
proof -
  have "0 \<le> plan_days opts * day_ms" "plan_days opts * day_ms \<le> max_plan_days * day_ms"
    using assms(2,3) by (simp_all add: day_ms_def)
  then show ?thesis using assms by (auto simp: plan_clock_def clock_ok_def)
qed

lemma usable_days:
  assumes "\<forall>e. po_envelope opts = Some e \<longrightarrow> usable e" "po_days opts = None"
  shows "1 \<le> plan_days opts \<and> plan_days opts \<le> max_plan_days"
proof (cases "po_envelope opts")
  case (Some e)
  then have "usable e" using assms(1) by simp
  then have "\<forall>d n. en_delegation e = Some d \<longrightarrow> dg_max_plan_days d = Some n \<longrightarrow> 1 \<le> n \<and> n \<le> max_plan_days"
    by (simp add: usable_def)
  then show ?thesis using Some assms(2)
    by (auto simp: plan_days_def default_max_plan_days_def max_plan_days_def bind_eq_Some_conv split: option.splits)
qed (simp add: plan_days_def assms(2) default_max_plan_days_def max_plan_days_def)

lemma parse_plan_no_throw:
  assumes "clock_ok t" "\<forall>e. env = Some e \<longrightarrow> usable e"
  shows "parse_plan json_parse sha refused \<lparr>po_envelope = env, po_projects = projects, po_now = Some t, po_days = None\<rparr> text \<noteq> Plan_throws"
proof
  let ?opts = "\<lparr>po_envelope = env, po_projects = projects, po_now = Some t, po_days = None\<rparr>"
  assume "parse_plan json_parse sha refused ?opts text = Plan_throws"
  then obtain raw where "judge_plan sha refused ?opts raw = Plan_throws"
    by (auto simp: parse_plan_def split: if_splits option.splits)
  then have "plan_clock ?opts = Inl Throws" by (rule judge_plan_throws)
  moreover have "1 \<le> plan_days ?opts \<and> plan_days ?opts \<le> max_plan_days" using assms(2) by (intro usable_days) simp_all
  ultimately show False using plan_clock_ok [OF assms(1), of ?opts] by simp
qed

section \<open>The ladder\<close>

lemma ladder_passed:
  assumes "plan_refusal (Some e) k p i complete c t = None"
  shows "complete \<and> delegation_on e \<and> pl_basis p = Option.bind c ap_plan_id \<and> Option.bind c ap_plan_id \<noteq> Some i"
  using assms by (auto simp: plan_refusal_def delegation_on_def Let_def split: option.splits if_splits)

section \<open>Writing a plan\<close>

lemma keeps_write_plan:
  assumes e: "e \<in> envs" "usable e" "delegation_on e" and s: "split_of sha e s"
    and p: "judge_plan sha refused opts raw = Plan_ok p pid until" "po_envelope opts = Some e"
  shows "keeps (good_store sha envs) audited P (write_plan host e (envelope_digest sha e) t w p pid until s)
           (\<lambda>r _. \<forall>i c. r = Was_applied i c \<longrightarrow> i = pid)"
proof -
  obtain a where a: "allocate e (plan_weights p) (Some (vector_of s)) (plan_repo_weights p) = Some a"
    using plan_allocates [OF p e(2,3) s] by blast
  let ?d = "envelope_digest sha e"
  define n where "n = next_state p pid until w t ?d (envelope_entries e) a"
  define row where "row = (blank_row t host w Applied (Some ?d))
       \<lparr>ar_plan_id := Some pid, ar_basis := pl_basis p, ar_weights := Some (plan_weights p),
        ar_repo_weights := Some (plan_repo_weights p), ar_before := Some (amounts_of s), ar_after := Some (amounts_of n),
        ar_clamped := Some (al_clamped a)\<rparr>"
  have "\<forall>q \<in> set (pl_projects p). good_project refused q" using accepted_plan_facts [OF p(1)] by simp
  then have w: "weighed (plan_repo_weights p)" by (rule plan_repos_weighed)
  have f: "split_of sha e n" by (rule allocated_fits [OF e(2) a w]) (simp_all add: n_def next_state_def)
  have says: "says row n" by (simp add: says_def row_def n_def next_state_def blank_row_def)
  have "keeps (good_store sha envs) audited P
      (bind_run (append_row row (plan_reasons p)) (\<lambda>_. bind_run (cas s n) (\<lambda>won.
         if won then bind_run (push_log row) (\<lambda>_. ret (Was_applied pid (al_clamped a)))
         else bind_run (record_row ((blank_row t host w Apply_failed (Some ?d))
                  \<lparr>ar_reason := Some ''plan-stale'', ar_plan_id := Some pid, ar_basis := pl_basis p, ar_before := Some (amounts_of s)\<rparr>))
                (\<lambda>_. ret (Was_failed pid)))))
      (\<lambda>r _. \<forall>i c. r = Was_applied i c \<longrightarrow> i = pid)"
  proof (rule keeps_bind [OF fleet.keeps_append], rule keeps_bind [OF keeps_cas [OF e(1) f]])
    fix tr assume "Row row (plan_reasons p) \<in> set tr"
    then show "st_writer n \<in> set system_writers \<or> (\<exists>row rs. Row row rs \<in> set tr \<and> says row n)" using says by blast
  next
    fix won
    show "keeps (good_store sha envs) audited (\<lambda>_. True)
      (if won then bind_run (push_log row) (\<lambda>_. ret (Was_applied pid (al_clamped a)))
       else bind_run (record_row ((blank_row t host w Apply_failed (Some ?d))
                \<lparr>ar_reason := Some ''plan-stale'', ar_plan_id := Some pid, ar_basis := pl_basis p, ar_before := Some (amounts_of s)\<rparr>))
              (\<lambda>_. ret (Was_failed pid)))
      (\<lambda>r _. \<forall>i c. r = Was_applied i c \<longrightarrow> i = pid)"
      by (cases won) (auto intro!: keeps_bind [OF fleet.keeps_push_log] keeps_bind [OF fleet.keeps_record] keeps_ret)
  qed
  then show ?thesis unfolding write_plan_def a option.case Let_def n_def [symmetric] row_def [symmetric] .
qed

section \<open>Applying a plan\<close>

lemma keeps_reconcile:
  assumes "inj_on (envelope_digest sha) envs" "e \<in> envs" "usable e"
  shows "keeps (good_store sha envs) audited P (reconcile host e (envelope_digest sha e) t) (\<lambda>r _. enforced sha envs e r)"
  unfolding reconcile_def by (rule keeps_rounds [OF assms])

text \<open>What a handler does once reconcile has said that this host may enforce the state \<open>s\<close>.\<close>

lemma keeps_governed:
  assumes i: "inj_on (envelope_digest sha) envs" and e: "e \<in> envs" "usable e"
    and no: "\<And>st. keeps (good_store sha envs) audited (\<lambda>_. True) (refuse st) (\<lambda>r _. R r)"
    and yes: "\<And>s. split_of sha e s \<Longrightarrow> keeps (good_store sha envs) audited (\<lambda>_. True) (go s) (\<lambda>r _. R r)"
  shows "keeps (good_store sha envs) audited P
     (bind_run (reconcile host e (envelope_digest sha e) t) (\<lambda>(st, mismatch).
        if mismatch then refuse st else case st of None \<Rightarrow> type_fault | Some s \<Rightarrow> go s)) (\<lambda>r _. R r)"
proof (rule keeps_bind [OF keeps_reconcile [OF i e]])
  fix x :: "astate option \<times> bool"
  obtain st mismatch where x: "x = (st, mismatch)" by fastforce
  let ?m = "if mismatch then refuse st else case st of None \<Rightarrow> type_fault | Some s \<Rightarrow> go s"
  have "keeps (good_store sha envs) audited (\<lambda>_. enforced sha envs e x) ?m (\<lambda>r _. R r)"
  proof (cases "enforced sha envs e x")
    case False
    then show ?thesis by (simp add: keeps_def)
  next
    case True
    then show ?thesis
      using no [of st] yes by (cases mismatch; cases st) (auto simp: enforced_def x)
  qed
  then show "keeps (good_store sha envs) audited (\<lambda>_. enforced sha envs e x)
      (case x of (st, mismatch) \<Rightarrow> if mismatch then refuse st else case st of None \<Rightarrow> type_fault | Some s \<Rightarrow> go s) (\<lambda>r _. R r)"
    by (simp add: x)
qed

lemma keeps_locked:
  assumes busy: "keeps (good_store sha envs) audited (\<lambda>_. True) refuse (\<lambda>r _. R r)"
    and go: "keeps (good_store sha envs) audited (\<lambda>_. True) m (\<lambda>r _. R r)"
  shows "keeps (good_store sha envs) audited P
     (bind_run (take_lock mine) (\<lambda>got. if \<not> got then refuse else finally_run m (release_lock mine))) (\<lambda>r _. R r)"
proof -
  have "keeps (good_store sha envs) audited (\<lambda>_. True) (if \<not> got then refuse else finally_run m (release_lock mine)) (\<lambda>r _. R r)" for got
    using busy keeps_finally [OF go fleet.keeps_release_lock] by (cases got) simp_all
  moreover have "keeps (good_store sha envs) audited P (take_lock mine) (\<lambda>_ _. True)"
    by (rule keeps_post [OF fleet.keeps_take_lock]) (rule TrueI)
  ultimately show ?thesis by (intro keeps_bind)
qed

lemma keeps_apply_parsed:
  assumes i: "inj_on (envelope_digest sha) envs" and e: "e \<in> envs" "usable e"
    and p: "complete \<Longrightarrow> judge_plan sha refused opts raw = Plan_ok p pid until" "po_envelope opts = Some e"
  shows "keeps (good_store sha envs) audited P (apply_parsed host e (envelope_digest sha e) t w mine p pid until complete)
           (\<lambda>r _. \<forall>i c. r = Was_applied i c \<longrightarrow> complete \<and> delegation_on e \<and> i = pid)"
proof -
  let ?R = "\<lambda>r. \<forall>i c. r = Was_applied i c \<longrightarrow> complete \<and> delegation_on e \<and> i = pid"
  let ?d = "envelope_digest sha e"
  have no: "keeps (good_store sha envs) audited Q (refuse_plan t host w d reason ids fr st) (\<lambda>r _. ?R r)" for Q d reason ids fr st
    by (rule keeps_post [OF fleet.keeps_refuse_plan]) blast
  let ?go = "\<lambda>s. case plan_refusal (Some e) (wr_kind w) p pid complete (Some (applied_of s)) t of
      Some l \<Rightarrow> refuse_plan t host w (Some ?d) (ladder_text l) (Some (pid, pl_basis p)) None (Some s)
    | None \<Rightarrow> bind_run (take_lock mine) (\<lambda>got.
        if \<not> got then refuse_plan t host w (Some ?d) ''plan-busy'' (Some (pid, pl_basis p)) None (Some s)
        else finally_run (write_plan host e ?d t w p pid until s) (release_lock mine))"
  have go: "keeps (good_store sha envs) audited (\<lambda>_. True) (?go s) (\<lambda>r _. ?R r)" if s: "split_of sha e s" for s
  proof (cases "plan_refusal (Some e) (wr_kind w) p pid complete (Some (applied_of s)) t")
    case None
    note l = ladder_passed [OF None]
    have c: complete and d: "delegation_on e" using l by simp_all
    have wp: "keeps (good_store sha envs) audited (\<lambda>_. True) (write_plan host e ?d t w p pid until s) (\<lambda>r _. ?R r)"
      by (rule keeps_post [OF keeps_write_plan [OF e(1,2) d s p(1) [OF c] p(2)]]) (simp add: c d)
    show ?thesis unfolding None option.case by (rule keeps_locked [OF no wp])
  next
    case (Some l)
    show ?thesis unfolding Some option.case by (rule no)
  qed
  have run: "keeps (good_store sha envs) audited P
     (bind_run (reconcile host e ?d t) (\<lambda>(st, mismatch).
        if mismatch then refuse_plan t host w (Some ?d) ''envelope-mismatch'' (Some (pid, pl_basis p)) None st
        else case st of None \<Rightarrow> type_fault | Some s \<Rightarrow> ?go s)) (\<lambda>r _. ?R r)"
    by (rule keeps_governed [OF i e no go])
  show ?thesis
  proof (cases "plan_refusal (Some e) (wr_kind w) p pid complete None t")
    case None
    show ?thesis unfolding apply_parsed_def None option.case by (rule run)
  next
    case (Some l)
    show ?thesis unfolding apply_parsed_def Some option.case
      by (cases l; simp only: ladder.case) (rule no run)+
  qed
qed

lemma keeps_apply_plan:
  assumes i: "inj_on (envelope_digest sha) envs" and e: "\<forall>e. env = Some e \<longrightarrow> e \<in> envs \<and> usable e" and t: "clock_ok t"
  shows "keeps (good_store sha envs) audited P (apply_plan json_parse sha refused host env projects text w mine t)
           (\<lambda>r _. \<forall>i c. r = Was_applied i c \<longrightarrow> (\<exists>e p until. env = Some e \<and> delegation_on e \<and>
              parse_plan json_parse sha refused \<lparr>po_envelope = env, po_projects = projects, po_now = Some t, po_days = None\<rparr> text = Plan_ok p i until))"
proof -
  let ?opts = "\<lparr>po_envelope = env, po_projects = projects, po_now = Some t, po_days = None\<rparr>"
  let ?v = "parse_plan json_parse sha refused ?opts text"
  let ?R = "\<lambda>r. \<forall>i c. r = Was_applied i c \<longrightarrow> (\<exists>e p until. env = Some e \<and> delegation_on e \<and> ?v = Plan_ok p i until)"
  have no: "keeps (good_store sha envs) audited P (refuse_plan t host w d reason ids fr st) (\<lambda>r _. ?R r)" for d reason ids fr st
    by (rule keeps_post [OF fleet.keeps_refuse_plan]) blast
  have nt: "?v \<noteq> Plan_throws" using t e by (intro parse_plan_no_throw) simp_all
  have step: "keeps (good_store sha envs) audited P (apply_parsed host e (envelope_digest sha e) t w mine p pid until complete) (\<lambda>r _. ?R r)"
    if en: "env = Some e" and ok: "complete \<Longrightarrow> ?v = Plan_ok p pid until" for e p pid until complete
  proof -
    obtain raw where raw: "complete \<Longrightarrow> judge_plan sha refused ?opts raw = Plan_ok p pid until"
      using ok by (cases complete) (auto simp: parse_plan_def split: if_splits option.splits)
    have u: "e \<in> envs" "usable e" "po_envelope ?opts = Some e" using assms(2) en by simp_all
    show ?thesis
      by (rule keeps_post [OF keeps_apply_parsed [OF i u(1,2) raw u(3)]]) (use ok en in auto)
  qed
  show ?thesis
  proof (cases env)
    case None
    show ?thesis
      by (cases ?v) (use nt no in \<open>simp_all add: apply_plan_def None\<close>)
  next
    case (Some e0)
    have "keeps (good_store sha envs) audited P
      (case ?v of Plan_throws \<Rightarrow> type_fault
         | Plan_invalid f r \<Rightarrow> refuse_plan t host w (map_option (envelope_digest sha) env) ''plan-invalid'' None (Some (f, r)) None
         | Plan_incomplete f r p pid until \<Rightarrow> apply_parsed host e0 (envelope_digest sha e0) t w mine p pid until False
         | Plan_ok p pid until \<Rightarrow> apply_parsed host e0 (envelope_digest sha e0) t w mine p pid until True) (\<lambda>r _. ?R r)"
    proof (cases ?v)
      case (Plan_ok p pid until)
      show ?thesis unfolding Plan_ok plan_verdict.case by (rule step [OF Some, unfolded Plan_ok]) (rule refl)
    next
      case (Plan_invalid f r)
      show ?thesis unfolding Plan_invalid plan_verdict.case by (rule no [unfolded Plan_invalid])
    next
      case (Plan_incomplete f r p pid until)
      show ?thesis unfolding Plan_incomplete plan_verdict.case by (rule step [OF Some, unfolded Plan_incomplete]) simp
    qed (use nt in simp)
    then show ?thesis by (simp only: apply_plan_def Let_def Some option.case)
  qed
qed

text \<open>
  C4: Whatever other hosts do between two commands, as long as they too store only splits of the
  fleet's envelopes, and whichever command or append fails or loses its answer: applying any text
  leaves the stored state a split of one of those envelopes that hands out its total exactly, has a
  row in the audit file before every state a writer's plan put there, throws only because the store
  or the file failed, and answers that it applied only for a text that parses to a complete plan of
  that id under an envelope that delegates.
\<close>

theorem apply_plan_safe:
  assumes "inj_on (envelope_digest sha) envs" "\<forall>e. env = Some e \<longrightarrow> e \<in> envs \<and> usable e" "clock_ok t"
    and "\<forall>n s. good_store sha envs s \<longrightarrow> good_store sha envs (ev_between ev n s)"
    and "good_store sha envs (wo_store w0)" "audited (wo_trace w0)"
    and "apply_plan json_parse sha refused host env projects text w mine t ev w0 = (r, w1)"
  shows "good_store sha envs (wo_store w1) \<and> audited (wo_trace w1) \<and> (\<forall>err. r = Inl err \<longrightarrow> err = Infrastructure)
    \<and> (\<forall>i c. r = Inr (Was_applied i c) \<longrightarrow> (\<exists>e p until. env = Some e \<and> delegation_on e \<and>
          parse_plan json_parse sha refused \<lparr>po_envelope = env, po_projects = projects, po_now = Some t, po_days = None\<rparr> text = Plan_ok p i until))"
  using keepsD [OF keeps_apply_plan [OF assms(1-3), where P = "\<lambda>_. True"] assms(4-6) TrueI assms(7)] by blast

section \<open>Reconcile\<close>

text \<open>
  C12: Among such hosts and faults, reconcile leaves the stored state a split of a fleet envelope with
  every writer's change audited, and a host that is told it may enforce gets a split of its own
  envelope, never another host's and never none.
\<close>

theorem reconcile_enforces_own_envelope:
  assumes "inj_on (envelope_digest sha) envs" "e \<in> envs" "usable e"
    and "\<forall>n s. good_store sha envs s \<longrightarrow> good_store sha envs (ev_between ev n s)"
    and "good_store sha envs (wo_store w0)" "audited (wo_trace w0)"
    and "reconcile host e (envelope_digest sha e) t ev w0 = (r, w1)"
  shows "good_store sha envs (wo_store w1) \<and> audited (wo_trace w1) \<and> (\<forall>err. r = Inl err \<longrightarrow> err = Infrastructure)
    \<and> (\<forall>st. r = Inr (st, False) \<longrightarrow> (\<exists>s. st = Some s \<and> st_digest s = Some (envelope_digest sha e) \<and> splits e (vector_of s)))"
proof -
  note k = keepsD [OF keeps_reconcile [OF assms(1-3), where P = "\<lambda>_. True"] assms(4-6) TrueI assms(7)]
  have "\<exists>s. st = Some s \<and> st_digest s = Some (envelope_digest sha e) \<and> splits e (vector_of s)" if r: "r = Inr (st, False)" for st
    using k(4) [OF r] by (auto simp: enforced_def split_of_def split: option.splits)
  with k show ?thesis by blast
qed

section \<open>The revert\<close>

text \<open>A row of the log as this code writes it: weights in range.\<close>

definition good_row :: "audit_row \<Rightarrow> bool" where
  "good_row r \<longleftrightarrow> (\<forall>ws. ar_weights r = Some ws \<longrightarrow> (\<forall>k \<in> set (map fst ws). is_weight (field ws k)))
     \<and> (\<forall>rw. ar_repo_weights r = Some rw \<longrightarrow> weighed rw)"

lemma allocates_in_full:
  assumes "usable e" "set (map fst ws) = set (envelope_entries e)" "\<forall>k \<in> set (map fst ws). is_weight (field ws k)"
    and "weighed rw" "\<And>p. p \<in> fst ` set rw \<Longrightarrow> p \<in> set (envelope_entries e) \<and> p \<noteq> other_id"
  shows "\<exists>a. allocate e ws None rw = Some a"
proof -
  obtain tot floors where n: "envelope_numbers e = Some (tot, floors, envelope_entries e)" by (rule usable_numbers [OF assms(1)])
  have "\<exists>rs. repo_splits (\<lambda>p. p \<in> set (envelope_entries e) \<and> p \<noteq> other_id) alloc rw = Some rs" for alloc
    by (rule repo_splits_some [OF assms(4,5)])
  moreover have "\<forall>k \<in> set (envelope_entries e). is_weight (field ws k)" "\<not> (\<exists>k \<in> set (map fst ws). k \<notin> set (envelope_entries e))"
    using assms(2,3) by simp_all
  ultimately show ?thesis using n by (auto simp: allocate_def Let_def)
qed

lemma revert_state_fits:
  assumes e: "usable e" and r: "good_row r"
    and keys: "reverts_to_neutral r \<or> sort (map fst (case ar_weights r of None \<Rightarrow> [] | Some ws \<Rightarrow> ws)) = envelope_entries e"
  shows "\<exists>n. revert_state e (envelope_digest sha e) t r s = Some n \<and> split_of sha e n"
proof (cases "reverts_to_neutral r")
  case True
  obtain n where n: "neutral_state e (envelope_digest sha e) t ''operator-revert'' (Some t) = Some n" using neutral_some [OF e] by blast
  have "split_of sha e (n\<lparr>st_basis := st_plan_id s\<rparr>)"
    using neutral_fits [OF e n] by (simp add: split_of_def vector_of_def amounts_are_micros_def)
  then show ?thesis using True n by (simp add: revert_state_def)
next
  case False
  define ws where "ws = (case ar_weights r of None \<Rightarrow> [] | Some ws \<Rightarrow> ws)"
  have ks: "set (map fst ws) = set (envelope_entries e)"
    using keys False by (metis ws_def set_sort)
  have w: "\<forall>k \<in> set (map fst ws). is_weight (field ws k)" by (cases "ar_weights r") (use r in \<open>simp_all add: good_row_def ws_def\<close>)
  have rw: "weighed (revert_repos e r)"
  proof (cases "ar_repo_weights r")
    case (Some rws)
    then have "weighed rws" using r by (simp add: good_row_def)
    then show ?thesis by (auto simp: revert_repos_def weighed_def Some)
  qed (simp add: revert_repos_def weighed_def)
  have "p \<in> set (envelope_entries e) \<and> p \<noteq> other_id" if "p \<in> fst ` set (revert_repos e r)" for p
    using that by (auto simp: revert_repos_def)
  then obtain a where a: "allocate e ws None (revert_repos e r) = Some a" using allocates_in_full [OF e ks w rw] by blast
  have "\<exists>n. revert_state e (envelope_digest sha e) t r s = Some n \<and> st_version n = alloc_state_version
      \<and> st_digest n = Some (envelope_digest sha e) \<and> st_repo_weights n = revert_repos e r
      \<and> st_allocations n = to_fields (envelope_entries e) (al_allocations a)
      \<and> st_unallocated n = Some (Some (al_unallocated a)) \<and> st_repos n = split_fields (al_repos a)"
    using False a by (simp add: revert_state_def Let_def ws_def)
  then show ?thesis using allocated_fits [OF e a rw] by blast
qed

lemma revert_lives:
  assumes "usable e" "clock_ok t"
  shows "\<bar>t + revert_days e * day_ms\<bar> \<le> max_date_ms"
proof -
  have "\<forall>d n. en_delegation e = Some d \<longrightarrow> dg_max_plan_days d = Some n \<longrightarrow> 1 \<le> n \<and> n \<le> max_plan_days"
    using assms(1) by (simp add: usable_def)
  then have "0 \<le> revert_days e" "revert_days e \<le> max_plan_days"
    by (force simp: revert_days_def max_plan_days_def bind_eq_Some_conv split: option.splits)+
  then have "0 \<le> revert_days e * day_ms" "revert_days e * day_ms \<le> max_plan_days * day_ms" by (simp_all add: day_ms_def)
  then show ?thesis using assms(2) by (simp add: clock_ok_def)
qed

lemma keeps_write_revert:
  assumes e: "e \<in> envs" "usable e" and r: "good_row r" and t: "clock_ok t"
    and keys: "reverts_to_neutral r \<or> sort (map fst (case ar_weights r of None \<Rightarrow> [] | Some ws \<Rightarrow> ws)) = envelope_entries e"
  shows "keeps (good_store sha envs) audited P (write_revert host e (envelope_digest sha e) t r s) (\<lambda>_ _. True)"
proof -
  let ?d = "envelope_digest sha e"
  obtain n where n: "revert_state e ?d t r s = Some n" "split_of sha e n" using revert_state_fits [OF e(2) r keys] by blast
  define row where "row = (blank_row t host (system_writer ''operator-revert'') Reverted (Some ?d))
       \<lparr>ar_plan_id := st_plan_id n, ar_basis := st_basis n, ar_weights := Some (st_weights n),
        ar_repo_weights := Some (st_repo_weights n), ar_before := Some (amounts_of s), ar_after := Some (amounts_of n),
        ar_clamped := Some False\<rparr>"
  have says: "says row n" by (simp add: says_def row_def blank_row_def)
  have "keeps (good_store sha envs) audited P
      (bind_run (append_row row []) (\<lambda>_. bind_run (cas s n) (\<lambda>won.
         if won then bind_run (push_log row) (\<lambda>_. ret (Was_reverted (st_plan_id n)))
         else bind_run (record_row ((blank_row t host (system_writer ''operator-revert'') Apply_failed (Some ?d))
                  \<lparr>ar_reason := Some ''plan-stale'', ar_plan_id := st_plan_id n, ar_before := Some (amounts_of s)\<rparr>)) (\<lambda>_. ret (Was_failed '''')))))
      (\<lambda>_ _. True)"
  proof (rule keeps_bind [OF fleet.keeps_append], rule keeps_bind [OF keeps_cas [OF e(1) n(2)]])
    fix tr assume "Row row [] \<in> set tr"
    then show "st_writer n \<in> set system_writers \<or> (\<exists>row rs. Row row rs \<in> set tr \<and> says row n)" using says by blast
  next
    fix won
    show "keeps (good_store sha envs) audited (\<lambda>_. True)
      (if won then bind_run (push_log row) (\<lambda>_. ret (Was_reverted (st_plan_id n)))
       else bind_run (record_row ((blank_row t host (system_writer ''operator-revert'') Apply_failed (Some ?d))
                \<lparr>ar_reason := Some ''plan-stale'', ar_plan_id := st_plan_id n, ar_before := Some (amounts_of s)\<rparr>)) (\<lambda>_. ret (Was_failed '''')))
      (\<lambda>_ _. True)"
      by (cases won) (auto intro!: keeps_bind [OF fleet.keeps_push_log] keeps_bind [OF fleet.keeps_record] keeps_ret)
  qed
  moreover have "\<not> max_date_ms < \<bar>t + revert_days e * day_ms\<bar>" using revert_lives [OF e(2) t] by simp
  ultimately show ?thesis unfolding write_revert_def n(1) option.case Let_def row_def [symmetric] by simp
qed

lemma keeps_revert:
  assumes i: "inj_on (envelope_digest sha) envs" and e: "\<forall>e. env = Some e \<longrightarrow> e \<in> envs \<and> usable e"
    and r: "good_row r" and t: "clock_ok t"
  shows "keeps (good_store sha envs) audited P (revert sha host env r mine t) (\<lambda>_ _. True)"
proof (cases env)
  case None
  show ?thesis unfolding revert_def None option.case by (rule fleet.keeps_refuse_revert)
next
  case (Some e0)
  have e0: "e0 \<in> envs" "usable e0" using e Some by simp_all
  let ?d = "envelope_digest sha e0"
  let ?ks = "sort (map fst (case ar_weights r of None \<Rightarrow> [] | Some ws \<Rightarrow> ws))"
  have no: "keeps (good_store sha envs) audited Q (refuse_revert t host d r reason st) (\<lambda>_ _. True)" for Q d reason st
    by (rule fleet.keeps_refuse_revert)
  define go where "go = bind_run (reconcile host e0 ?d t) (\<lambda>(st, mismatch).
        if mismatch then refuse_revert t host (Some ?d) r ''envelope-mismatch'' st
        else case st of None \<Rightarrow> type_fault | Some s \<Rightarrow>
          bind_run (take_lock mine) (\<lambda>got. if \<not> got then refuse_revert t host (Some ?d) r ''plan-busy'' (Some s)
            else finally_run (write_revert host e0 ?d t r s) (release_lock mine)))"
  have "keeps (good_store sha envs) audited P go (\<lambda>_ _. True)" if "reverts_to_neutral r \<or> ?ks = envelope_entries e0"
    unfolding go_def by (rule keeps_governed [OF i e0 no keeps_locked [OF no keeps_write_revert [OF e0 r t that]]])
  then have "keeps (good_store sha envs) audited P
     (if \<not> delegation_on e0 then refuse_revert t host (Some ?d) r ''delegation-off'' None
      else if \<not> reverts_to_neutral r \<and> ?ks \<noteq> envelope_entries e0 then refuse_revert t host (Some ?d) r ''plan-incomplete'' None
      else go) (\<lambda>_ _. True)"
    using no by simp
  then show ?thesis unfolding revert_def Some option.case Let_def go_def .
qed

text \<open>
  The operator's revert to a row of the log, in full or to neutral, keeps the same two promises
  among such hosts and faults: the stored state stays a split of a fleet envelope with its total
  handed out exactly, its row is in the audit file before the write, and it throws only because the
  store or the file failed.
\<close>

theorem revert_safe:
  assumes "inj_on (envelope_digest sha) envs" "\<forall>e. env = Some e \<longrightarrow> e \<in> envs \<and> usable e" "good_row r" "clock_ok t"
    and "\<forall>n s. good_store sha envs s \<longrightarrow> good_store sha envs (ev_between ev n s)"
    and "good_store sha envs (wo_store w0)" "audited (wo_trace w0)"
    and "revert sha host env r mine t ev w0 = (res, w1)"
  shows "good_store sha envs (wo_store w1) \<and> audited (wo_trace w1) \<and> (\<forall>err. res = Inl err \<longrightarrow> err = Infrastructure)"
  using keepsD [OF keeps_revert [OF assms(1-4), where P = "\<lambda>_. True"] assms(5-7) TrueI assms(8)] by blast

section \<open>Examples\<close>

abbreviation fleet_envelope :: envelope where
  "fleet_envelope \<equiv> \<lparr>en_version = 1, en_window = Day, en_total = Some 10, en_floors = [(''_other'', Some 1), (''a'', Some 2)],
     en_weights = [(''_other'', Some 0), (''a'', Some 1)],
     en_delegation = Some \<lparr>dg_enabled = True, dg_writers = [''portfolio-job''], dg_min_interval_hours = Some 1,
       dg_max_step_pct = Some 50, dg_max_plan_days = Some 7\<rparr>\<rparr>"

abbreviation calm :: environment where
  "calm \<equiv> \<lparr>ev_between = (\<lambda>_ s. s), ev_answer = (\<lambda>_. Answers), ev_append = (\<lambda>_. True)\<rparr>"

abbreviation empty_world :: world where
  "empty_world \<equiv> \<lparr>wo_store = \<lparr>sv_plan = None, sv_expected = None, sv_lock = None, sv_log = []\<rparr>, wo_trace = [], wo_reported = [], wo_tick = 0\<rparr>"

abbreviation job_writer :: writer where
  "job_writer \<equiv> \<lparr>wr_kind = ''portfolio-job'', wr_job = None, wr_trigger = None\<rparr>"

abbreviation toy_sha :: "string \<Rightarrow> string" where
  "toy_sha t \<equiv> replicate 15 CHR ''0'' @ [''0123456789abcdef'' ! (length t mod 16)]"

abbreviation plan_of :: "json \<Rightarrow> int \<Rightarrow> int \<Rightarrow> json" where
  "plan_of b x y \<equiv> JObj [(''version'', JInt 1), (''basis'', b),
     (''projects'', JArr [JObj [(''id'', JStr ''a''), (''weight'', JInt x)], JObj [(''id'', JStr ''_other''), (''weight'', JInt y)]])]"

abbreviation first_plan :: "applied_result run" where
  "first_plan \<equiv> apply_plan (\<lambda>_. Some (plan_of JNull 0 1)) toy_sha (\<lambda>_. False) ''h'' (Some fleet_envelope) None ''x'' job_writer ''h#1'' 0"

lemma demo_usable: "usable fleet_envelope"
proof -
  have s: "sorted_keys (en_floors fleet_envelope) = [''_other'', ''a'']" by (simp add: sorted_keys_def)
  then have e: "envelope_entries fleet_envelope = [''_other'', ''a'']" by (simp add: envelope_entries_def)
  show ?thesis
    by (simp add: usable_def e envelope_numbers_def Let_def other_id_def all_micros_def micros_def field_def is_safe_def max_safe_def
        is_weight_def weight_max_def unallocated_key_def max_plan_days_def amounts_def)
qed

lemma demo_clock: "clock_ok 0"
  by (simp add: clock_ok_def max_plan_days_def day_ms_def max_date_ms_def)

lemma demo_good: "good_store sha envs (wo_store empty_world)" "audited (wo_trace empty_world)"
  by (simp_all add: good_store_def parse_state_def)

theorem apply_plan_safe_witness:
  "\<exists>i c w. first_plan calm empty_world = (Inr (Was_applied i c), w) \<and> audited (wo_trace w) \<and> good_store toy_sha {fleet_envelope} (wo_store w)"
proof -
  have v: "case fst (first_plan calm empty_world) of Inr (Was_applied i c) \<Rightarrow> True | _ \<Rightarrow> False" by code_simp
  obtain r w where m: "first_plan calm empty_world = (r, w)" by fastforce
  from v obtain i c where r: "r = Inr (Was_applied i c)" by (auto simp: m split: sum.splits applied_result.splits)
  have "good_store toy_sha {fleet_envelope} (wo_store w) \<and> audited (wo_trace w)"
    using apply_plan_safe [where sha = toy_sha and envs = "{fleet_envelope}" and env = "Some fleet_envelope" and t = 0,
        OF _ _ demo_clock _ demo_good m] demo_usable by simp
  then show ?thesis using m r by blast
qed

theorem reconcile_enforces_own_envelope_witness:
  "\<exists>s w. reconcile ''h'' fleet_envelope (envelope_digest toy_sha fleet_envelope) 0 calm empty_world = (Inr (Some s, False), w)
     \<and> splits fleet_envelope (vector_of s)"
proof -
  let ?run = "reconcile ''h'' fleet_envelope (envelope_digest toy_sha fleet_envelope) 0 calm empty_world"
  have v: "case fst ?run of Inr (Some s, m) \<Rightarrow> \<not> m | _ \<Rightarrow> False" by code_simp
  obtain r w where m: "?run = (r, w)" by fastforce
  from v obtain s where r: "r = Inr (Some s, False)" by (auto simp: m split: sum.splits option.splits)
  have "splits fleet_envelope (vector_of s)"
    using reconcile_enforces_own_envelope [where sha = toy_sha and envs = "{fleet_envelope}", OF _ _ demo_usable _ demo_good m] r by simp
  then show ?thesis using m r by blast
qed

definition plan_row :: audit_row where
  "plan_row = (blank_row 0 ''h'' job_writer Applied None)
     \<lparr>ar_plan_id := Some ''0000000000000000'', ar_weights := Some [(''_other'', Some 1), (''a'', Some 0)]\<rparr>"

theorem revert_safe_witness:
  "\<exists>i w. revert toy_sha ''h'' (Some fleet_envelope) plan_row ''h#1'' 0 calm empty_world = (Inr (Was_reverted i), w)
     \<and> audited (wo_trace w) \<and> good_store toy_sha {fleet_envelope} (wo_store w)"
proof -
  let ?run = "revert toy_sha ''h'' (Some fleet_envelope) plan_row ''h#1'' 0 calm empty_world"
  have g: "good_row plan_row" by (simp add: good_row_def plan_row_def blank_row_def is_weight_def field_def weight_max_def)
  have v: "case fst ?run of Inr (Was_reverted i) \<Rightarrow> True | _ \<Rightarrow> False" by code_simp
  obtain r w where m: "?run = (r, w)" by fastforce
  from v obtain i where r: "r = Inr (Was_reverted i)" by (auto simp: m split: sum.splits applied_result.splits)
  have "good_store toy_sha {fleet_envelope} (wo_store w) \<and> audited (wo_trace w)"
    using revert_safe [where sha = toy_sha and envs = "{fleet_envelope}" and env = "Some fleet_envelope" and t = 0,
        OF _ _ g demo_clock _ demo_good m] demo_usable by simp
  then show ?thesis using m r by blast
qed

section \<open>The step of a plan can be stale\<close>

text \<open>A split of ten with \<open>x\<close> for \<open>a\<close>, under a plan's id.\<close>

definition split_at :: "int \<Rightarrow> string \<Rightarrow> string option \<Rightarrow> int \<Rightarrow> bool \<Rightarrow> astate" where
  "split_at x wr basis t clamped =
     \<lparr>st_version = 1, st_plan_id = Some ''0000000000000000'', st_basis = basis, st_writer = wr, st_job_id = None, st_trigger_id = None,
      st_applied_at = t, st_last_plan_at = Some t, st_valid_until = Some (t + 7 * day_ms),
      st_digest = Some (envelope_digest toy_sha fleet_envelope), st_weights = [(''_other'', Some 1), (''a'', Some 0)],
      st_repo_weights = [], st_reasons = [], st_allocations = [(''_other'', Some (10 - x)), (''a'', Some x)],
      st_unallocated = Some (Some 0), st_repos = [], st_clamped = clamped\<rparr>"

definition store_at :: "astate \<Rightarrow> store" where
  "store_at s = \<lparr>sv_plan = Some (Decoded s), sv_expected = st_digest s, sv_lock = None, sv_log = []\<rparr>"

definition hour :: int where "hour = 3600000"

definition stepped_split :: astate where "stepped_split = split_at 4 ''portfolio-job'' None 0 True"
definition reverted_split :: astate where "reverted_split = split_at 2 ''operator-revert'' (Some ''0000000000000000'') hour False"

text \<open>The operator's revert to the plan in effect, in full, on another host.\<close>

definition reverted_world :: "(alloc_error + applied_result) \<times> world" where
  "reverted_world = revert toy_sha ''k'' (Some fleet_envelope) plan_row ''k#1'' hour calm (empty_world\<lparr>wo_store := store_at stepped_split\<rparr>)"

text \<open>A plan applied here, whose third command (the lock) meets that store.\<close>

definition next_plan :: "(alloc_error + applied_result) \<times> world" where
  "next_plan =
     apply_plan (\<lambda>_. Some (plan_of (JStr ''0000000000000000'') 1 0)) toy_sha (\<lambda>_. False) ''h'' (Some fleet_envelope) None ''x'' job_writer ''h#2'' hour
       (calm\<lparr>ev_between := (\<lambda>n s. if n = 2 then store_at reverted_split else s)\<rparr>) (empty_world\<lparr>wo_store := store_at stepped_split\<rparr>)"

text \<open>
  The compare-and-set compares the plan id and the digest, not the vector. When the operator
  reverts to the plan in effect, in full, on another host after this host's reconcile and before
  its lock, a plan computed here against the earlier stepped vector still applies: it moves the
  entry from 2 to 9 where one plan's step is 5, and says it was not clamped.
\<close>

theorem plan_step_can_be_stale:
  "fst reverted_world = Inr (Was_reverted (Some ''0000000000000000'')) \<and> sv_plan (wo_store (snd reverted_world)) = Some (Decoded reverted_split)
   \<and> (case fst next_plan of Inr (Was_applied i c) \<Rightarrow> \<not> c | _ \<Rightarrow> False)
   \<and> (case sv_plan (wo_store (snd next_plan)) of Some (Decoded s) \<Rightarrow>
        \<bar>amounts (st_allocations s) ''a'' - amounts (st_allocations reverted_split) ''a''\<bar> = 7 | _ \<Rightarrow> False)
   \<and> (case (envelope_numbers fleet_envelope, Option.bind (en_delegation fleet_envelope) dg_max_step_pct) of
        (Some (tot, _), Some pct) \<Rightarrow> tot * pct div 100 = 5 | _ \<Rightarrow> False)"
proof (intro conjI)
  show "fst reverted_world = Inr (Was_reverted (Some ''0000000000000000''))" by code_simp
  show "sv_plan (wo_store (snd reverted_world)) = Some (Decoded reverted_split)" by code_simp
  show "case fst next_plan of Inr (Was_applied i c) \<Rightarrow> \<not> c | _ \<Rightarrow> False" by code_simp
  show "case sv_plan (wo_store (snd next_plan)) of Some (Decoded s) \<Rightarrow>
        \<bar>amounts (st_allocations s) ''a'' - amounts (st_allocations reverted_split) ''a''\<bar> = 7 | _ \<Rightarrow> False" by code_simp
  show "case (envelope_numbers fleet_envelope, Option.bind (en_delegation fleet_envelope) dg_max_step_pct) of
        (Some (tot, _), Some pct) \<Rightarrow> tot * pct div 100 = 5 | _ \<Rightarrow> False"
    by code_simp
qed

end
