(* ===== verification/Scope.thy ===== *)
theory Scope
  imports EnvelopePlace "HOL-Library.Sublist"
begin

text \<open>
  Scopes: the folder or repository a job belongs to, as a job carries it and as an operator file
  writes it (the scope grammar of worker/src/pause-windows.mjs), and model references
  (\<open>splitModelEntry\<close> of worker/src/model-ref.mjs). Text is UTF-8; Unicode normalization
  (\<open>normalize("NFC")\<close>, \<open>nfc\<close> here) and the worker's directory are parameters.
\<close>

section \<open>Trimming\<close>

text \<open>The white space and line terminators of ECMAScript, as their UTF-8 texts.\<close>

definition space_texts :: "string list" where
  "space_texts = [
  [CHR 0x09], [CHR 0x0A], [CHR 0x0B], [CHR 0x0C], [CHR 0x0D], [CHR 0x20], [CHR 0xC2, CHR 0xA0],
   [CHR 0xE1, CHR 0x9A, CHR 0x80], [CHR 0xE2, CHR 0x80, CHR 0x80], [CHR 0xE2, CHR 0x80, CHR 0x81],
   [CHR 0xE2, CHR 0x80, CHR 0x82], [CHR 0xE2, CHR 0x80, CHR 0x83], [CHR 0xE2, CHR 0x80, CHR 0x84],
   [CHR 0xE2, CHR 0x80, CHR 0x85], [CHR 0xE2, CHR 0x80, CHR 0x86], [CHR 0xE2, CHR 0x80, CHR 0x87],
   [CHR 0xE2, CHR 0x80, CHR 0x88], [CHR 0xE2, CHR 0x80, CHR 0x89], [CHR 0xE2, CHR 0x80, CHR 0x8A],
   [CHR 0xE2, CHR 0x80, CHR 0xA8], [CHR 0xE2, CHR 0x80, CHR 0xA9], [CHR 0xE2, CHR 0x80, CHR 0xAF],
   [CHR 0xE2, CHR 0x81, CHR 0x9F], [CHR 0xE3, CHR 0x80, CHR 0x80], [CHR 0xEF, CHR 0xBB, CHR 0xBF]]"

lemma space_not_Nil: "w \<in> set space_texts \<Longrightarrow> w \<noteq> []"
  by (auto simp: space_texts_def)

function trim_front :: "string \<Rightarrow> string" where
  "trim_front s = (case find (\<lambda>w. prefix w s) space_texts of None \<Rightarrow> s | Some w \<Rightarrow> trim_front (drop (length w) s))"
  by pat_completeness auto
termination
proof (relation "measure length")
  fix s w assume "find (\<lambda>w. prefix w s) space_texts = Some w"
  then have "w \<in> set space_texts" "prefix w s" by (auto simp: find_Some_iff)
  then show "(drop (length w) s, s) \<in> measure length" using space_not_Nil [of w] by (auto simp: prefix_def)
qed simp

function trim_back :: "string \<Rightarrow> string" where
  "trim_back s = (case find (\<lambda>w. suffix w s) space_texts of None \<Rightarrow> s | Some w \<Rightarrow> trim_back (take (length s - length w) s))"
  by pat_completeness auto
termination
proof (relation "measure length")
  fix s w assume "find (\<lambda>w. suffix w s) space_texts = Some w"
  then have "w \<in> set space_texts" "suffix w s" by (auto simp: find_Some_iff)
  then show "(take (length s - length w) s, s) \<in> measure length" using space_not_Nil [of w] by (auto simp: suffix_def)
qed simp

declare trim_front.simps [simp del] trim_back.simps [simp del]

definition trim :: "string \<Rightarrow> string" where "trim s = trim_back (trim_front s)"

definition non_empty :: "string \<Rightarrow> bool" where "non_empty s \<longleftrightarrow> trim s \<noteq> []"

lemma trim_front_spec: "w \<in> set space_texts \<Longrightarrow> \<not> prefix w (trim_front s)"
proof (induction s rule: trim_front.induct)
  case (1 s)
  show ?case
  proof (cases "find (\<lambda>w. prefix w s) space_texts")
    case None
    then have "trim_front s = s" by (subst trim_front.simps) simp
    then show ?thesis using 1(2) None by (auto simp: find_None_iff)
  qed (use 1 in \<open>simp add: trim_front.simps [of s]\<close>)
qed

lemma trim_back_spec: "w \<in> set space_texts \<Longrightarrow> \<not> suffix w (trim_back s)"
proof (induction s rule: trim_back.induct)
  case (1 s)
  show ?case
  proof (cases "find (\<lambda>w. suffix w s) space_texts")
    case None
    then have "trim_back s = s" by (subst trim_back.simps) simp
    then show ?thesis using 1(2) None by (auto simp: find_None_iff)
  qed (use 1 in \<open>simp add: trim_back.simps [of s]\<close>)
qed

lemma trim_front_id: "(\<And>w. w \<in> set space_texts \<Longrightarrow> \<not> prefix w s) \<Longrightarrow> trim_front s = s"
  by (subst trim_front.simps) (auto simp: find_None_iff split: option.split dest!: find_Some_iff [THEN iffD1])

lemma trim_back_id: "(\<And>w. w \<in> set space_texts \<Longrightarrow> \<not> suffix w s) \<Longrightarrow> trim_back s = s"
  by (subst trim_back.simps) (auto simp: find_None_iff split: option.split dest!: find_Some_iff [THEN iffD1])

lemma trim_back_prefix: "prefix (trim_back s) s"
proof (induction s rule: trim_back.induct)
  case (1 s)
  show ?case
  proof (cases "find (\<lambda>w. suffix w s) space_texts")
    case (Some w)
    have "prefix (trim_back (take (length s - length w) s)) s"
      using 1 [OF Some] take_is_prefix by (rule prefix_order.trans)
    then show ?thesis using Some by (simp add: trim_back.simps [of s])
  qed (simp add: trim_back.simps [of s])
qed

text \<open>A text no white space begins or ends.\<close>

definition trimmed :: "string \<Rightarrow> bool" where
  "trimmed s \<longleftrightarrow> list_all (\<lambda>w. \<not> prefix w s \<and> \<not> suffix w s) space_texts"

lemma trim_trimmed: "trimmed (trim s)"
proof -
  have "\<not> prefix w (trim s)" if "w \<in> set space_texts" for w
    using trim_front_spec [OF that] trim_back_prefix prefix_order.trans by (fastforce simp: trim_def)
  then show ?thesis using trim_back_spec by (auto simp: trimmed_def list_all_iff trim_def)
qed

lemma trim_id: "trimmed s \<Longrightarrow> trim s = s"
  by (simp add: trim_def trim_front_id trim_back_id trimmed_def list_all_iff)

lemma trim_trim [simp]: "trim (trim s) = trim s"
  by (rule trim_id [OF trim_trimmed])

section \<open>Forges and jobs\<close>

definition forge_kinds :: "string list" where
  "forge_kinds = [''github'', ''gitlab'', ''forgejo'', ''azure'']"

text \<open>The parts of a job a scope is read from; a field that is no string is \<open>None\<close>.\<close>

record job =
  jb_kind :: "string option"
  jb_folder :: "string option"
  jb_repo :: "string option"

definition scope_of :: "job \<Rightarrow> string option" where
  "scope_of j = (if jb_kind j = Some ''local'' then jb_folder j else jb_repo j)"

definition qualified_scope_of :: "(string \<Rightarrow> string) \<Rightarrow> job \<Rightarrow> string option" where
  "qualified_scope_of nfc j =
     (if jb_kind j = Some ''local'' then jb_folder j
      else case (jb_kind j, jb_repo j) of
        (Some k, Some r) \<Rightarrow> if non_empty k \<and> non_empty r then Some (nfc (k @ '':'' @ r)) else None
      | _ \<Rightarrow> None)"

text \<open>\<open>resolve\<close> of a path that may be relative, from the worker's directory.\<close>

definition resolve_from :: "string \<Rightarrow> string \<Rightarrow> string" where
  "resolve_from cwd p = (if absolute p then resolve p else resolve (cwd @ ''/'' @ p))"

definition canonical_scope :: "(string \<Rightarrow> string) \<Rightarrow> string \<Rightarrow> job \<Rightarrow> string option" where
  "canonical_scope nfc cwd j =
     (case scope_of j of None \<Rightarrow> None
      | Some s \<Rightarrow> if \<not> non_empty s then None
          else Some (if jb_kind j = Some ''local'' then resolve_from cwd (nfc (trim s)) else nfc s))"

section \<open>A scope as an operator file writes it\<close>

datatype scope_form = Local_form | Qualified string string | Bare_form

datatype scope_refusal = Unknown_prefix string | No_repo string | Not_a_repo string

definition is_letter :: "char \<Rightarrow> bool" where
  "is_letter c \<longleftrightarrow> (let n = of_char c :: nat in 65 \<le> n \<and> n \<le> 90 \<or> 97 \<le> n \<and> n \<le> 122)"

text \<open>\<open>/^[A-Za-z]:/\<close>\<close>

definition drive_letter :: "string \<Rightarrow> bool" where
  "drive_letter s = (case s of c # d # _ \<Rightarrow> is_letter c \<and> d = CHR '':'' | _ \<Rightarrow> False)"

definition is_control :: "char \<Rightarrow> bool" where
  "is_control c \<longleftrightarrow> (let n = of_char c :: nat in n < 32 \<or> n = 127)"

text \<open>\<open>REPO_SEGMENT\<close> and \<open>QUALIFIED_REPO\<close>\<close>

definition repo_segment :: "string \<Rightarrow> bool" where
  "repo_segment s \<longleftrightarrow> s \<noteq> [] \<and> trimmed s \<and> list_all (\<lambda>c. c \<noteq> CHR ''#'' \<and> c \<noteq> CHR '':'' \<and> \<not> is_control c) s"

definition qualified_repo :: "string \<Rightarrow> bool" where
  "qualified_repo r \<longleftrightarrow> 2 \<le> length (split_slash r) \<and> list_all repo_segment (split_slash r)"

text \<open>\<open>/^([^/\\:]+):(.*)$/s\<close>\<close>

definition prefix_and_rest :: "string \<Rightarrow> (string \<times> string) option" where
  "prefix_and_rest s =
     (let k = takeWhile (\<lambda>c. c \<notin> set [CHR ''/'', CHR 0x5C, CHR '':'']) s; r = drop (length k) s
      in if k \<noteq> [] \<and> r \<noteq> [] \<and> hd r = CHR '':'' then Some (k, tl r) else None)"

definition parse_scope_string :: "(string \<Rightarrow> string) \<Rightarrow> string \<Rightarrow> scope_refusal + scope_form" where
  "parse_scope_string nfc text =
     (let scope = nfc (trim text)
      in if absolute scope \<or> drive_letter scope then Inr Local_form
         else case prefix_and_rest scope of None \<Rightarrow> Inr Bare_form
           | Some (k, rest) \<Rightarrow>
               if k \<notin> set forge_kinds then Inl (Unknown_prefix k)
               else if trim rest = [] then Inl (No_repo k)
               else if \<not> qualified_repo (trim rest) then Inl (Not_a_repo k)
               else Inr (Qualified k (trim rest)))"

definition unqualified_scope :: "string \<Rightarrow> string" where
  "unqualified_scope s =
     (let k = takeWhile (\<lambda>c. c \<noteq> CHR '':'') s
      in if k \<noteq> s \<and> k \<in> set forge_kinds then drop (length k + 1) s else s)"

section \<open>Model references\<close>

definition low_char :: "char \<Rightarrow> char" where
  "low_char c = (let n = of_char c :: nat in if 65 \<le> n \<and> n \<le> 90 then char_of (n + 32) else c)"

definition lower_text :: "string \<Rightarrow> string" where "lower_text = map low_char"

definition is_lower_alnum :: "char \<Rightarrow> bool" where
  "is_lower_alnum c \<longleftrightarrow> (let n = of_char c :: nat in 97 \<le> n \<and> n \<le> 122 \<or> 48 \<le> n \<and> n \<le> 57)"

definition visible_ascii :: "string \<Rightarrow> bool" where
  "visible_ascii s \<longleftrightarrow> s \<noteq> [] \<and> list_all (\<lambda>c. let n = of_char c :: nat in 33 \<le> n \<and> n \<le> 126) s"

text \<open>\<open>PROVIDER_REF_PATTERN\<close> and \<open>MODEL_REF_PATTERN\<close>\<close>

definition provider_ref :: "string \<Rightarrow> bool" where
  "provider_ref s \<longleftrightarrow> length s \<le> 64 \<and>
     (case s of [] \<Rightarrow> False | c # cs \<Rightarrow> is_lower_alnum c \<and> list_all (\<lambda>c. is_lower_alnum c \<or> c \<in> set ''._-'') cs)"

definition model_ref :: "string \<Rightarrow> bool" where
  "model_ref s \<longleftrightarrow> length s \<le> 64 \<and>
     (case (case s of c # cs \<Rightarrow> if c = CHR ''~'' \<or> c = CHR ''@'' then cs else s | [] \<Rightarrow> s) of
        [] \<Rightarrow> False | c # cs \<Rightarrow> is_lower_alnum c \<and> list_all (\<lambda>c. is_lower_alnum c \<or> c \<in> set ''._:/@-'') cs)"

definition split_model_entry :: "string \<Rightarrow> (string \<times> string) option" where
  "split_model_entry s =
     (let p = takeWhile (\<lambda>c. c \<noteq> CHR ''/'') s; m = drop (length p + 1) s
      in if visible_ascii s \<and> p \<noteq> [] \<and> p \<noteq> s \<and> provider_ref (lower_text p) \<and> model_ref (lower_text m) then Some (p, m) else None)"

end
