(* ===== verification/ScopedLimits.thy ===== *)
theory ScopedLimits
  imports Scope Envelope JobSize JobBudget DollarBudget
begin

text \<open>
  Scoped limits (worker/src/scoped-limits.mjs): the operator's file of caps per folder, repository,
  project and model, read with every refusal; the row that governs a job; and what the rows become,
  job-count ledgers, dollar ledgers, a concurrency bound and a job size. Parameters: \<open>JSON.parse\<close>,
  Unicode normalization (\<open>nfc\<close>), the worker's directory, the sixteen hex digits of a SHA-256 (\<open>hash\<close>).
\<close>

section \<open>Rows\<close>

definition scoped_limits_version :: int where "scoped_limits_version = 3"
definition size_limit_fields :: "string list" where "size_limit_fields = [''memory'', ''cpus'', ''hostShare'', ''minJobs'']"
definition limit_fields :: "string list" where "limit_fields = [''day'', ''week'', ''month'', ''concurrent'']"
definition usd_limit_fields :: "string list" where "usd_limit_fields = [''dayUsd'', ''weekUsd'', ''monthUsd'']"
definition v3_row_keys :: "string list" where
  "v3_row_keys = ''scope'' # limit_fields @ usd_limit_fields @ size_limit_fields"

text \<open>A parsed row; a field the file does not set is \<open>None\<close>. The stored \<open>cpus\<close> is a number, by the
  text it prints as.\<close>

record limit =
  lm_scope :: string
  lm_day :: "int option"
  lm_week :: "int option"
  lm_month :: "int option"
  lm_concurrent :: "int option"
  lm_day_usd :: "string option"
  lm_week_usd :: "string option"
  lm_month_usd :: "string option"
  lm_memory :: "string option"
  lm_cpus :: "string option"
  lm_share :: "int option"
  lm_min_jobs :: "int option"

definition is_model_scope :: "string \<Rightarrow> bool" where "is_model_scope s \<longleftrightarrow> prefix ''model:'' s"
definition is_project_scope :: "string \<Rightarrow> bool" where "is_project_scope s \<longleftrightarrow> prefix ''project:'' s"
definition project_scope :: "string \<Rightarrow> string" where "project_scope i = ''project:'' @ i"
definition is_group_scope :: "string \<Rightarrow> bool" where "is_group_scope s \<longleftrightarrow> is_model_scope s \<or> is_project_scope s"

text \<open>\<open>/^models?\s*:/i\<close> and \<open>/^projects?\s*:/i\<close>\<close>

definition near_miss :: "string \<Rightarrow> string \<Rightarrow> bool" where
  "near_miss w s =
     (let colon = (\<lambda>r. case trim_front r of c # _ \<Rightarrow> c = CHR '':'' | [] \<Rightarrow> False); r = drop (length w) s
      in lower_text (take (length w) s) = w \<and> (colon r \<or> (case r of c # cs \<Rightarrow> low_char c = CHR ''s'' \<and> colon cs | [] \<Rightarrow> False)))"

datatype row_refusal = Row_shape | Row_scope | Row_key | Near_model | Near_project | Row_project_id | Row_star | Row_glob
  | Row_form scope_refusal | Project_version | Qualified_version | Model_version | Model_ref | Model_fold | Model_field string
  | Usd_version string | Usd_value string | Usd_print string | Count_value string
  | Size_misplaced | Size_version | Size_refused string size_error | Share_value | Min_value | Min_unsized | Min_unreachable | Row_empty

text \<open>A field that is neither absent nor null.\<close>

definition present :: "(string \<times> json) list \<Rightarrow> string \<Rightarrow> json option" where
  "present kvs f = (case map_of kvs f of None \<Rightarrow> None | Some JNull \<Rightarrow> None | Some v \<Rightarrow> Some v)"

definition read_usd :: "(string \<times> json) list \<Rightarrow> int \<Rightarrow> string \<Rightarrow> row_refusal + string option" where
  "read_usd kvs version f =
     (case present kvs f of None \<Rightarrow> Inr None
      | Some v \<Rightarrow>
          if version < 2 then Inl (Usd_version f)
          else (case parse_usd_micros (usd_of (Some v)) f of Inl _ \<Rightarrow> Inl (Usd_value f)
            | Inr m \<Rightarrow> (case format_micros m of Inl _ \<Rightarrow> Inl (Usd_print f) | Inr t \<Rightarrow> Inr (Some t))))"

definition read_count :: "(string \<times> json) list \<Rightarrow> string \<Rightarrow> row_refusal + int option" where
  "read_count kvs f =
     (case present kvs f of None \<Rightarrow> Inr None
      | Some (JInt n) \<Rightarrow> if is_safe n \<and> 1 \<le> n then Inr (Some n) else Inl (Count_value f)
      | Some _ \<Rightarrow> Inl (Count_value f))"

fun size_value_of :: "json \<Rightarrow> size_value" where
  "size_value_of (JStr t) = Size_text t"
| "size_value_of (JInt n) = Size_number (int_text n)"
| "size_value_of (JFloat t) = Size_number t"
| "size_value_of _ = Size_other"

definition read_size ::
  "(string \<times> json) list \<Rightarrow> string \<Rightarrow> (size_value \<Rightarrow> size_error + int) \<Rightarrow> (int \<Rightarrow> string) \<Rightarrow> row_refusal + string option" where
  "read_size kvs f parse store =
     (case present kvs f of None \<Rightarrow> Inr None
      | Some v \<Rightarrow> (case parse (size_value_of v) of Inl e \<Rightarrow> Inl (Size_refused f e) | Inr n \<Rightarrow> Inr (Some (store n))))"

definition read_share :: "(string \<times> json) list \<Rightarrow> row_refusal + int option" where
  "read_share kvs =
     (case present kvs ''hostShare'' of None \<Rightarrow> Inr None
      | Some (JInt n) \<Rightarrow> if 1 \<le> n \<and> n \<le> 100 then Inr (Some n) else Inl Share_value
      | Some _ \<Rightarrow> Inl Share_value)"

definition read_min_jobs :: "(string \<times> json) list \<Rightarrow> limit \<Rightarrow> row_refusal + int option" where
  "read_min_jobs kvs l =
     (case present kvs ''minJobs'' of None \<Rightarrow> Inr None
      | Some v \<Rightarrow>
          (case v of JInt n \<Rightarrow>
             if \<not> is_safe n \<or> n < 1 then Inl Min_value
             else if lm_memory l = None \<and> lm_cpus l = None then Inl Min_unsized
             else if (case lm_concurrent l of None \<Rightarrow> False | Some c \<Rightarrow> n > c) then Inl Min_unreachable
             else Inr (Some n)
           | _ \<Rightarrow> Inl Min_value))"

text \<open>The size fields read into the row.\<close>

definition read_size_fields :: "(string \<times> json) list \<Rightarrow> int \<Rightarrow> bool \<Rightarrow> limit \<Rightarrow> row_refusal + limit" where
  "read_size_fields kvs version project l =
     (if list_all (\<lambda>f. present kvs f = None) size_limit_fields then Inr l
      else if \<not> project then Inl Size_misplaced
      else if version < 3 then Inl Size_version
      else sum_bind (read_size kvs ''memory'' parse_memory format_memory) (\<lambda>m.
           sum_bind (read_size kvs ''cpus'' parse_cpus format_cpus) (\<lambda>c.
           sum_bind (read_share kvs) (\<lambda>h.
           sum_bind (read_min_jobs kvs (l\<lparr>lm_memory := m, lm_cpus := c\<rparr>)) (\<lambda>n.
             Inr (l\<lparr>lm_memory := m, lm_cpus := c, lm_share := h, lm_min_jobs := n\<rparr>))))))"

definition bare_limit :: "string \<Rightarrow> limit" where
  "bare_limit scope =
     \<lparr>lm_scope = scope, lm_day = None, lm_week = None, lm_month = None, lm_concurrent = None, lm_day_usd = None,
      lm_week_usd = None, lm_month_usd = None, lm_memory = None, lm_cpus = None, lm_share = None, lm_min_jobs = None\<rparr>"

definition read_usd_fields :: "(string \<times> json) list \<Rightarrow> int \<Rightarrow> limit \<Rightarrow> row_refusal + limit" where
  "read_usd_fields kvs version l =
     sum_bind (read_usd kvs version ''dayUsd'') (\<lambda>d. sum_bind (read_usd kvs version ''weekUsd'') (\<lambda>w.
     sum_bind (read_usd kvs version ''monthUsd'') (\<lambda>m.
       Inr (l\<lparr>lm_day_usd := d, lm_week_usd := w, lm_month_usd := m\<rparr>))))"

definition read_count_fields :: "(string \<times> json) list \<Rightarrow> limit \<Rightarrow> row_refusal + limit" where
  "read_count_fields kvs l =
     sum_bind (read_count kvs ''day'') (\<lambda>d. sum_bind (read_count kvs ''week'') (\<lambda>w.
     sum_bind (read_count kvs ''month'') (\<lambda>m. sum_bind (read_count kvs ''concurrent'') (\<lambda>c.
       Inr (l\<lparr>lm_day := d, lm_week := w, lm_month := m, lm_concurrent := c\<rparr>)))))"

definition limits_something :: "limit \<Rightarrow> bool" where
  "limits_something l \<longleftrightarrow> l \<noteq> bare_limit (lm_scope l)"

definition normalize_model_limit :: "(string \<times> json) list \<Rightarrow> string \<Rightarrow> int \<Rightarrow> row_refusal + limit" where
  "normalize_model_limit kvs t version =
     (if version < 2 then Inl Model_version
      else case split_model_entry (drop 6 t) of None \<Rightarrow> Inl Model_ref
        | Some (p, m) \<Rightarrow>
            if lower_text (p @ ''/'' @ m) = ''other/other'' then Inl Model_fold
            else (case find (\<lambda>f. present kvs f \<noteq> None) (limit_fields @ size_limit_fields) of Some f \<Rightarrow> Inl (Model_field f)
              | None \<Rightarrow> sum_bind (read_usd_fields kvs version (bare_limit (''model:'' @ p @ ''/'' @ m))) (\<lambda>l.
                  if limits_something l then Inr l else Inl Row_empty)))"

text \<open>The stored scope of a row that is not a model's, by its form (a project row has none).\<close>

definition stored_scope :: "string \<Rightarrow> scope_form option \<Rightarrow> string" where
  "stored_scope t form =
     (case form of None \<Rightarrow> t | Some (Qualified k r) \<Rightarrow> k @ '':'' @ r | Some _ \<Rightarrow> if absolute t then resolve t else t)"

definition form_version :: "int \<Rightarrow> scope_form option \<Rightarrow> row_refusal + unit" where
  "form_version version form =
     (case form of None \<Rightarrow> if version < 2 then Inl Project_version else Inr ()
      | Some (Qualified k r) \<Rightarrow> if version < 2 then Inl Qualified_version else Inr ()
      | Some _ \<Rightarrow> Inr ())"

definition scope_form_of :: "(string \<Rightarrow> string) \<Rightarrow> string \<Rightarrow> row_refusal + scope_form option" where
  "scope_form_of nfc t =
     (if is_project_scope t then Inr None
      else case parse_scope_string nfc t of Inl e \<Rightarrow> Inl (Row_form e) | Inr f \<Rightarrow> Inr (Some f))"

text \<open>A row once its scope is trimmed and normalized.\<close>

definition normalize_scoped :: "(string \<Rightarrow> string) \<Rightarrow> int \<Rightarrow> (string \<times> json) list \<Rightarrow> string \<Rightarrow> row_refusal + limit" where
  "normalize_scoped nfc version kvs t =
     (if is_model_scope t then normalize_model_limit kvs t version
      else if near_miss ''model'' t then Inl Near_model
      else if near_miss ''project'' t \<and> \<not> is_project_scope t then Inl Near_project
      else if near_miss ''project'' t \<and> \<not> is_project_id (drop 8 t) then Inl Row_project_id
      else if t = ''*'' then Inl Row_star
      else if CHR ''*'' \<in> set t then Inl Row_glob
      else sum_bind (scope_form_of nfc t) (\<lambda>form.
           sum_bind (form_version version form) (\<lambda>_.
           sum_bind (read_usd_fields kvs version (bare_limit (stored_scope t form))) (\<lambda>l.
           sum_bind (read_count_fields kvs l) (\<lambda>l.
           sum_bind (read_size_fields kvs version (is_project_scope t) l) (\<lambda>l.
             if limits_something l then Inr l else Inl Row_empty))))))"

definition normalize_limit :: "(string \<Rightarrow> string) \<Rightarrow> int \<Rightarrow> json \<Rightarrow> row_refusal + limit" where
  "normalize_limit nfc version row =
     (case row of
        JObj kvs \<Rightarrow>
          (case map_of kvs ''scope'' of
             Some (JStr s) \<Rightarrow>
               if \<not> non_empty s then Inl Row_scope
               else if version \<ge> 3 \<and> unknown_key kvs v3_row_keys then Inl Row_key
               else normalize_scoped nfc version kvs (nfc (trim s))
           | _ \<Rightarrow> Inl Row_scope)
      | _ \<Rightarrow> Inl Row_shape)"

section \<open>The file\<close>

datatype limits_refusal = Limits_json | Limits_shape | Limits_version | Limits_newer | Limits_list
  | Limits_row nat row_refusal | Limits_form scope_refusal | Limits_mixed nat nat | Limits_duplicate nat nat

fun read_rows :: "(string \<Rightarrow> string) \<Rightarrow> int \<Rightarrow> nat \<Rightarrow> json list \<Rightarrow> limits_refusal + limit list" where
  "read_rows nfc version i [] = Inr []"
| "read_rows nfc version i (j # js) =
     (case normalize_limit nfc version j of Inl e \<Rightarrow> Inl (Limits_row i e)
      | Inr l \<Rightarrow> sum_bind (read_rows nfc version (Suc i) js) (\<lambda>ls. Inr (l # ls)))"

text \<open>Each row's form, \<open>None\<close> for a model or project row.\<close>

definition row_form :: "(string \<Rightarrow> string) \<Rightarrow> limit \<Rightarrow> limits_refusal + scope_form option" where
  "row_form nfc l =
     (if is_group_scope (lm_scope l) then Inr None
      else case parse_scope_string nfc (lm_scope l) of Inl e \<Rightarrow> Inl (Limits_form e) | Inr f \<Rightarrow> Inr (Some f))"

definition bare_scopes :: "limit list \<Rightarrow> scope_form option list \<Rightarrow> (string \<times> nat) list" where
  "bare_scopes rows forms =
     rev (map (\<lambda>(i, l, f). (lm_scope l, i)) (filter (\<lambda>(i, l, f). f = Some Bare_form) (zip [0..<length rows] (zip rows forms))))"

fun first_mixed :: "(string \<times> nat) list \<Rightarrow> nat \<Rightarrow> scope_form option list \<Rightarrow> (nat \<times> nat) option" where
  "first_mixed bare i [] = None"
| "first_mixed bare i (f # fs) =
     (case f of Some (Qualified k r) \<Rightarrow> (case map_of bare r of Some j \<Rightarrow> Some (i, j) | None \<Rightarrow> first_mixed bare (Suc i) fs)
      | _ \<Rightarrow> first_mixed bare (Suc i) fs)"

definition refuse_mixed_forms :: "(string \<Rightarrow> string) \<Rightarrow> limit list \<Rightarrow> limits_refusal + unit" where
  "refuse_mixed_forms nfc rows =
     sum_bind (sum_map_list (row_form nfc) rows) (\<lambda>forms.
       case first_mixed (bare_scopes rows forms) 0 forms of Some (i, j) \<Rightarrow> Inl (Limits_mixed i j) | None \<Rightarrow> Inr ())"

definition row_identity :: "limit \<Rightarrow> string" where
  "row_identity l = (if is_model_scope (lm_scope l) then lower_text (lm_scope l) else lm_scope l)"

fun first_duplicate :: "(string \<times> nat) list \<Rightarrow> nat \<Rightarrow> limit list \<Rightarrow> (nat \<times> nat) option" where
  "first_duplicate seen i [] = None"
| "first_duplicate seen i (l # ls) =
     (case map_of seen (row_identity l) of Some j \<Rightarrow> Some (i, j)
      | None \<Rightarrow> first_duplicate ((row_identity l, i) # seen) (Suc i) ls)"

definition check_rows_together :: "(string \<Rightarrow> string) \<Rightarrow> limit list \<Rightarrow> limits_refusal + limit list" where
  "check_rows_together nfc rows =
     sum_bind (refuse_mixed_forms nfc rows) (\<lambda>_.
       case first_duplicate [] 0 rows of Some (i, j) \<Rightarrow> Inl (Limits_duplicate i j) | None \<Rightarrow> Inr rows)"

definition judge_limits :: "(string \<Rightarrow> string) \<Rightarrow> json \<Rightarrow> limits_refusal + limit list" where
  "judge_limits nfc parsed =
     (case parsed of
        JObj kvs \<Rightarrow>
          (case map_of kvs ''version'' of
             Some (JInt v) \<Rightarrow>
               if v < 1 then Inl Limits_version
               else if v > scoped_limits_version then Inl Limits_newer
               else (case map_of kvs ''limits'' of
                       Some (JArr js) \<Rightarrow> sum_bind (read_rows nfc v 0 js) (check_rows_together nfc)
                     | _ \<Rightarrow> Inl Limits_list)
           | _ \<Rightarrow> Inl Limits_version)
      | _ \<Rightarrow> Inl Limits_shape)"

definition parse_scoped_limits :: "(string \<Rightarrow> json option) \<Rightarrow> (string \<Rightarrow> string) \<Rightarrow> string \<Rightarrow> limits_refusal + limit list" where
  "parse_scoped_limits json_parse nfc text =
     (case json_parse text of None \<Rightarrow> Inl Limits_json | Some parsed \<Rightarrow> judge_limits nfc parsed)"

definition is_qualified_scope :: "(string \<Rightarrow> string) \<Rightarrow> string \<Rightarrow> bool" where
  "is_qualified_scope nfc s \<longleftrightarrow> s \<noteq> [] \<and> \<not> is_model_scope s \<and>
     (case parse_scope_string nfc s of Inr (Qualified k r) \<Rightarrow> True | _ \<Rightarrow> False)"

definition has_size_field :: "limit \<Rightarrow> bool" where
  "has_size_field l \<longleftrightarrow> lm_memory l \<noteq> None \<or> lm_cpus l \<noteq> None \<or> lm_share l \<noteq> None \<or> lm_min_jobs l \<noteq> None"

definition has_usd_field :: "limit \<Rightarrow> bool" where
  "has_usd_field l \<longleftrightarrow> lm_day_usd l \<noteq> None \<or> lm_week_usd l \<noteq> None \<or> lm_month_usd l \<noteq> None"

definition scoped_limits_version_for :: "(string \<Rightarrow> string) \<Rightarrow> limit list \<Rightarrow> int" where
  "scoped_limits_version_for nfc rows =
     (if list_ex has_size_field rows then 3
      else if list_ex (\<lambda>l. let s = trim (lm_scope l) in is_model_scope s \<or> is_project_scope s \<or> is_qualified_scope nfc s \<or> has_usd_field l) rows
      then 2 else 1)"

section \<open>The row of a job\<close>

definition find_row :: "limit list \<Rightarrow> string option \<Rightarrow> limit option" where
  "find_row limits s =
     (case s of None \<Rightarrow> None
      | Some x \<Rightarrow> if non_empty x then find (\<lambda>l. lm_scope l = x \<and> \<not> is_group_scope (lm_scope l)) limits else None)"

definition limit_for :: "(string \<Rightarrow> string) \<Rightarrow> string \<Rightarrow> limit list \<Rightarrow> job \<Rightarrow> limit option" where
  "limit_for nfc cwd limits j =
     (case (if jb_kind j = Some ''local'' then None else find_row limits (qualified_scope_of nfc j)) of
        Some l \<Rightarrow> Some l
      | None \<Rightarrow> find_row limits (canonical_scope nfc cwd j))"

definition row_scope_for :: "(string \<Rightarrow> string) \<Rightarrow> string \<Rightarrow> job \<Rightarrow> limit list \<Rightarrow> string option" where
  "row_scope_for nfc cwd j limits =
     (case limit_for nfc cwd limits j of Some l \<Rightarrow> Some (lm_scope l) | None \<Rightarrow> canonical_scope nfc cwd j)"

definition project_row_for :: "limit list \<Rightarrow> string option \<Rightarrow> limit option" where
  "project_row_for limits i =
     (case i of None \<Rightarrow> None
      | Some p \<Rightarrow> if is_project_id p then find (\<lambda>l. lm_scope l = project_scope p) limits else None)"

definition dangling_project_rows :: "limit list \<Rightarrow> string list \<Rightarrow> (nat \<times> string) list" where
  "dangling_project_rows limits ids =
     List.map_filter (\<lambda>(i, l). if is_project_scope (lm_scope l) \<and> drop 8 (lm_scope l) \<notin> set ids then Some (i, drop 8 (lm_scope l)) else None)
       (zip [0..<length limits] limits)"

definition check_project_rows :: "limit list \<Rightarrow> string list \<Rightarrow> (nat \<times> string) list + unit" where
  "check_project_rows limits ids =
     (case dangling_project_rows limits ids of [] \<Rightarrow> Inr () | ds \<Rightarrow> Inl ds)"

section \<open>Ledgers\<close>

definition scope_key_prefix :: "(string \<Rightarrow> string) \<Rightarrow> string \<Rightarrow> string" where
  "scope_key_prefix hash s = ''budget:s:'' @ hash s"

definition scope_dollar_key_prefix :: "(string \<Rightarrow> string) \<Rightarrow> string \<Rightarrow> string" where
  "scope_dollar_key_prefix hash s = dollar_key_prefix @ '':s:'' @ hash s"

definition model_dollar_key_prefix :: "(string \<Rightarrow> string) \<Rightarrow> string \<Rightarrow> string" where
  "model_dollar_key_prefix hash ref = dollar_key_prefix @ '':mdl:'' @ hash (lower_text ref)"

definition dollar_key_prefix_for :: "(string \<Rightarrow> string) \<Rightarrow> limit \<Rightarrow> string" where
  "dollar_key_prefix_for hash l =
     (if is_model_scope (lm_scope l) then model_dollar_key_prefix hash (drop 6 (lm_scope l)) else scope_dollar_key_prefix hash (lm_scope l))"

definition count_caps :: "limit \<Rightarrow> caps option" where
  "count_caps l =
     (if lm_day l = None \<and> lm_week l = None \<and> lm_month l = None then None
      else Some \<lparr>cap_day = lm_day l, cap_week = lm_week l, cap_month = lm_month l\<rparr>)"

definition budget_caps_for :: "(string \<Rightarrow> string) \<Rightarrow> string \<Rightarrow> job \<Rightarrow> limit list \<Rightarrow> (string \<times> caps) option" where
  "budget_caps_for nfc cwd j limits =
     Option.bind (limit_for nfc cwd limits j) (\<lambda>l. map_option (\<lambda>c. (lm_scope l, c)) (count_caps l))"

definition row_ledger :: "(string \<Rightarrow> string) \<Rightarrow> string \<Rightarrow> string \<Rightarrow> caps \<Rightarrow> ledger" where
  "row_ledger hash reason s c =
     \<lparr>l_scope = Some s, l_prefix = Some (scope_key_prefix hash s), l_caps = c, l_pct = None, l_reason = reason\<rparr>"

definition scoped_ledgers ::
  "(string \<Rightarrow> string) \<Rightarrow> string \<Rightarrow> (string \<Rightarrow> string) \<Rightarrow> job \<Rightarrow> limit list \<Rightarrow> string option \<Rightarrow> ledger list" where
  "scoped_ledgers nfc cwd hash j limits project =
     (case budget_caps_for nfc cwd j limits of None \<Rightarrow> [] | Some (s, c) \<Rightarrow> [row_ledger hash ''scope-cap'' s c])
     @ (case project_row_for limits project of None \<Rightarrow> []
        | Some l \<Rightarrow> (case count_caps l of None \<Rightarrow> [] | Some c \<Rightarrow> [row_ledger hash ''project-cap'' (lm_scope l) c]))"

definition usd_cap :: "string option \<Rightarrow> string \<Rightarrow> config_error + int option" where
  "usd_cap v f = (case v of None \<Rightarrow> Inr None | Some t \<Rightarrow> map_sum id Some (parse_usd_micros (Usd_text t) f))"

definition usd_caps :: "limit \<Rightarrow> config_error + caps option" where
  "usd_caps l =
     sum_bind (usd_cap (lm_day_usd l) ''dayUsd'') (\<lambda>d. sum_bind (usd_cap (lm_week_usd l) ''weekUsd'') (\<lambda>w.
     sum_bind (usd_cap (lm_month_usd l) ''monthUsd'') (\<lambda>m.
       Inr (if d = None \<and> w = None \<and> m = None then None else Some \<lparr>cap_day = d, cap_week = w, cap_month = m\<rparr>))))"

text \<open>A dollar ledger with the scope it belongs to.\<close>

type_synonym scoped_dollars = "string \<times> dledger"

definition row_dollars :: "string \<Rightarrow> string \<Rightarrow> limit \<Rightarrow> config_error + scoped_dollars option" where
  "row_dollars name p l = sum_bind (usd_caps l) (\<lambda>c. Inr (map_option (\<lambda>c. (name, \<lparr>d_prefix = p, d_caps = c\<rparr>)) c))"

definition dollar_caps_for ::
  "(string \<Rightarrow> string) \<Rightarrow> string \<Rightarrow> (string \<Rightarrow> string) \<Rightarrow> job \<Rightarrow> limit list \<Rightarrow> config_error + scoped_dollars option" where
  "dollar_caps_for nfc cwd hash j limits =
     (case limit_for nfc cwd limits j of None \<Rightarrow> Inr None
      | Some l \<Rightarrow> row_dollars (lm_scope l) (scope_dollar_key_prefix hash (lm_scope l)) l)"

definition project_dollar_caps_for ::
  "(string \<Rightarrow> string) \<Rightarrow> limit list \<Rightarrow> string option \<Rightarrow> config_error + scoped_dollars option" where
  "project_dollar_caps_for hash limits project =
     (case project_row_for limits project of None \<Rightarrow> Inr None
      | Some l \<Rightarrow> row_dollars (lm_scope l) (scope_dollar_key_prefix hash (lm_scope l)) l)"

text \<open>\<open>models\<close> is the job's list, \<open>None\<close> for a job without one.\<close>

definition model_dollar_rows ::
  "(string \<Rightarrow> string) \<Rightarrow> limit list \<Rightarrow> string list option \<Rightarrow> config_error + scoped_dollars list" where
  "model_dollar_rows hash limits models =
     (let wanted = (\<lambda>r. case models of None \<Rightarrow> True | Some ms \<Rightarrow> r \<in> set (map lower_text ms));
          rows = filter (\<lambda>l. is_model_scope (lm_scope l) \<and> wanted (lower_text (drop 6 (lm_scope l)))) limits
      in sum_bind (sum_map_list (\<lambda>l. let r = lower_text (drop 6 (lm_scope l)) in row_dollars r (model_dollar_key_prefix hash r) l) rows)
           (\<lambda>ds. Inr (List.map_filter (\<lambda>d. d) ds)))"

datatype row_kind = Kind_model | Kind_project | Kind_scope

definition row_kind :: "string \<Rightarrow> row_kind" where
  "row_kind s = (if is_model_scope s then Kind_model else if is_project_scope s then Kind_project else Kind_scope)"

definition dollar_rows_without_cap :: "limit list \<Rightarrow> usd_value \<Rightarrow> (nat \<times> row_kind) list" where
  "dollar_rows_without_cap limits cap =
     (if cap \<noteq> Usd_absent then []
      else List.map_filter (\<lambda>(i, l). if has_usd_field l then Some (i, row_kind (lm_scope l)) else None) (zip [0..<length limits] limits))"

definition caps_below :: "int \<Rightarrow> nat \<Rightarrow> limit \<Rightarrow> config_error + (nat \<times> row_kind \<times> window_name) list" where
  "caps_below job i l =
     sum_bind (usd_cap (lm_day_usd l) ''dayUsd'') (\<lambda>d. sum_bind (usd_cap (lm_week_usd l) ''weekUsd'') (\<lambda>w.
     sum_bind (usd_cap (lm_month_usd l) ''monthUsd'') (\<lambda>m.
       Inr (List.map_filter (\<lambda>(c, n). case c of Some x \<Rightarrow> if x < job then Some (i, row_kind (lm_scope l), n) else None | None \<Rightarrow> None)
              [(d, Day), (w, Week), (m, Month)]))))"

definition dollar_rows_below_job_cap :: "limit list \<Rightarrow> usd_value \<Rightarrow> config_error + (nat \<times> row_kind \<times> window_name) list" where
  "dollar_rows_below_job_cap limits cap =
     (if cap = Usd_absent then Inr []
      else sum_bind (parse_usd_micros cap ''maxCostUsd'') (\<lambda>job.
        sum_bind (sum_map_list (\<lambda>(i, l). caps_below job i l) (zip [0..<length limits] limits)) (\<lambda>rs. Inr (concat rs))))"

section \<open>Concurrency\<close>

text \<open>The bound of a job's scope; \<open>None\<close> is no bound.\<close>

definition concurrency_for :: "(string \<Rightarrow> string) \<Rightarrow> string \<Rightarrow> job \<Rightarrow> limit list \<Rightarrow> int option" where
  "concurrency_for nfc cwd j limits =
     (case canonical_scope nfc cwd j of None \<Rightarrow> None
      | Some _ \<Rightarrow>
          (let configured = Option.bind (limit_for nfc cwd limits j) lm_concurrent
           in if jb_kind j = Some ''local'' then Some (case configured of None \<Rightarrow> 1 | Some c \<Rightarrow> min 1 c) else configured))"

definition scope_claim_rows :: "(string \<Rightarrow> string) \<Rightarrow> limit list \<Rightarrow> (int option \<times> string) list" where
  "scope_claim_rows hash limits = map (\<lambda>l. (lm_concurrent l, hash (lm_scope l))) limits"

text \<open>The jobs of each scope running in this process.\<close>

type_synonym in_flight = "string \<Rightarrow> nat option"

definition in_flight_count :: "in_flight \<Rightarrow> string \<Rightarrow> nat" where
  "in_flight_count f s = (case f s of None \<Rightarrow> 0 | Some n \<Rightarrow> n)"

definition try_acquire :: "string \<Rightarrow> int option \<Rightarrow> in_flight \<Rightarrow> bool \<times> in_flight" where
  "try_acquire s limit f =
     (let n = in_flight_count f s
      in if (case limit of None \<Rightarrow> False | Some l \<Rightarrow> int n \<ge> l) then (False, f) else (True, f(s \<mapsto> Suc n)))"

definition release_slot :: "string \<Rightarrow> in_flight \<Rightarrow> in_flight" where
  "release_slot s f = (let n = in_flight_count f s in if n \<le> 1 then f(s := None) else f(s \<mapsto> n - 1))"

end
