(* ===== verification/ScopedLimitsFacts.thy ===== *)
theory ScopedLimitsFacts
  imports ScopedLimits
begin

text \<open>
  What an accepted scoped-limits file guarantees: every row is within its bounds and limits
  something, no scope is governed twice, the rows are read back as they are when the file is written
  at its lowest version, and nothing a row becomes (a ledger, a size, a bound) is refused later.
\<close>

section \<open>A well-formed row\<close>

definition count_ok :: "int option \<Rightarrow> bool" where
  "count_ok c \<longleftrightarrow> (case c of None \<Rightarrow> True | Some n \<Rightarrow> 1 \<le> n \<and> is_safe n)"

definition usd_ok :: "string option \<Rightarrow> bool" where
  "usd_ok v \<longleftrightarrow> (case v of None \<Rightarrow> True | Some t \<Rightarrow> (case parse_usd_micros (Usd_text t) [] of Inl _ \<Rightarrow> False | Inr m \<Rightarrow> format_micros m = Inr t))"

definition memory_ok :: "string option \<Rightarrow> bool" where
  "memory_ok v \<longleftrightarrow> (case v of None \<Rightarrow> True | Some t \<Rightarrow> (case parse_memory (Size_text t) of Inl _ \<Rightarrow> False | Inr m \<Rightarrow> t = format_memory m))"

definition cpus_ok :: "string option \<Rightarrow> bool" where
  "cpus_ok v \<longleftrightarrow> (case v of None \<Rightarrow> True | Some t \<Rightarrow> (case parse_cpus (Size_number t) of Inl _ \<Rightarrow> False | Inr c \<Rightarrow> t = format_cpus c))"

definition sizes_ok :: "limit \<Rightarrow> bool" where
  "sizes_ok l \<longleftrightarrow> memory_ok (lm_memory l) \<and> cpus_ok (lm_cpus l)
     \<and> (case lm_share l of None \<Rightarrow> True | Some h \<Rightarrow> 1 \<le> h \<and> h \<le> 100)
     \<and> (case lm_min_jobs l of None \<Rightarrow> True
        | Some n \<Rightarrow> 1 \<le> n \<and> is_safe n \<and> (lm_memory l \<noteq> None \<or> lm_cpus l \<noteq> None)
            \<and> (case lm_concurrent l of None \<Rightarrow> True | Some c \<Rightarrow> n \<le> c))"

definition counts_ok :: "limit \<Rightarrow> bool" where
  "counts_ok l \<longleftrightarrow> count_ok (lm_day l) \<and> count_ok (lm_week l) \<and> count_ok (lm_month l) \<and> count_ok (lm_concurrent l)"

definition dollars_ok :: "limit \<Rightarrow> bool" where
  "dollars_ok l \<longleftrightarrow> usd_ok (lm_day_usd l) \<and> usd_ok (lm_week_usd l) \<and> usd_ok (lm_month_usd l)"

definition has_count :: "limit \<Rightarrow> bool" where
  "has_count l \<longleftrightarrow> lm_day l \<noteq> None \<or> lm_week l \<noteq> None \<or> lm_month l \<noteq> None \<or> lm_concurrent l \<noteq> None"

definition good_limit :: "limit \<Rightarrow> bool" where
  "good_limit l \<longleftrightarrow> counts_ok l \<and> dollars_ok l \<and> sizes_ok l \<and> limits_something l
     \<and> (has_size_field l \<longrightarrow> is_project_scope (lm_scope l) \<and> is_project_id (drop 8 (lm_scope l)))
     \<and> (is_model_scope (lm_scope l) \<longrightarrow> \<not> has_count l \<and> split_model_entry (drop 6 (lm_scope l)) \<noteq> None)
     \<and> (is_project_scope (lm_scope l) \<longrightarrow> is_project_id (drop 8 (lm_scope l)))"

text \<open>The parts of a row the size fields do not touch.\<close>

lemma read_count_Inr: "read_count kvs f = Inr c \<Longrightarrow> count_ok c"
  by (auto simp: read_count_def count_ok_def split: option.splits json.splits if_splits)

lemma usd_ok_format:
  assumes "0 < m" "m \<le> max_usd_micros" "format_micros m = Inr t"
  shows "usd_ok (Some t)" "parse_usd_micros (Usd_text t) f = Inr m"
  using format_reads_back [OF assms(1,2)] assms(3) by (auto simp: usd_ok_def)

lemma read_usd_Inr: "read_usd kvs version f = Inr r \<Longrightarrow> usd_ok r \<and> (r \<noteq> None \<longrightarrow> 2 \<le> version)"
  by (auto simp: read_usd_def usd_ok_format dest: parse_usd_bounds split: option.splits sum.splits if_splits)
     (auto simp: usd_ok_def)

lemma read_usd_fields_Inr:
  assumes "read_usd_fields kvs version l = Inr l'"
  obtains d w m where "l' = l\<lparr>lm_day_usd := d, lm_week_usd := w, lm_month_usd := m\<rparr>" "usd_ok d" "usd_ok w" "usd_ok m"
    "d \<noteq> None \<or> w \<noteq> None \<or> m \<noteq> None \<Longrightarrow> 2 \<le> version"
    "read_usd kvs version ''dayUsd'' = Inr d" "read_usd kvs version ''weekUsd'' = Inr w" "read_usd kvs version ''monthUsd'' = Inr m"
proof -
  obtain d w m where r: "read_usd kvs version ''dayUsd'' = Inr d" "read_usd kvs version ''weekUsd'' = Inr w"
    "read_usd kvs version ''monthUsd'' = Inr m" "l' = l\<lparr>lm_day_usd := d, lm_week_usd := w, lm_month_usd := m\<rparr>"
    using assms by (auto simp: read_usd_fields_def sum_bind_Inr)
  note u = read_usd_Inr [OF r(1)] read_usd_Inr [OF r(2)] read_usd_Inr [OF r(3)]
  have "d \<noteq> None \<or> w \<noteq> None \<or> m \<noteq> None \<Longrightarrow> 2 \<le> version" using u by blast
  with u r show ?thesis by (intro that) simp_all
qed

lemma read_count_fields_Inr:
  assumes "read_count_fields kvs l = Inr l'"
  obtains d w m c where "l' = l\<lparr>lm_day := d, lm_week := w, lm_month := m, lm_concurrent := c\<rparr>"
    "count_ok d" "count_ok w" "count_ok m" "count_ok c"
  using assms by (auto simp: read_count_fields_def sum_bind_Inr dest!: read_count_Inr)

lemma read_memory_Inr:
  assumes "read_size kvs f parse_memory format_memory = Inr r"
  shows "memory_ok r"
proof (cases r)
  case (Some t)
  obtain v n where n: "parse_memory v = Inr n" "t = format_memory n"
    using assms Some by (auto simp: read_size_def split: option.splits sum.splits)
  show ?thesis using parse_format_memory [OF parse_memory_bounds [OF n(1), THEN conjunct1] parse_memory_bounds [OF n(1), THEN conjunct2]]
    by (simp add: memory_ok_def Some n(2))
qed (simp add: memory_ok_def)

lemma read_cpus_Inr:
  assumes "read_size kvs f parse_cpus format_cpus = Inr r"
  shows "cpus_ok r"
proof (cases r)
  case (Some t)
  obtain v n where n: "parse_cpus v = Inr n" "t = format_cpus n"
    using assms Some by (auto simp: read_size_def split: option.splits sum.splits)
  show ?thesis using parse_format_cpus [OF parse_cpus_bounds [OF n(1), THEN conjunct1] parse_cpus_bounds [OF n(1), THEN conjunct2], of "Size_number (format_cpus n)"]
    by (simp add: cpus_ok_def Some n(2))
qed (simp add: cpus_ok_def)

lemma read_share_Inr: "read_share kvs = Inr r \<Longrightarrow> case r of None \<Rightarrow> True | Some h \<Rightarrow> 1 \<le> h \<and> h \<le> 100"
  by (auto simp: read_share_def split: option.splits json.splits if_splits)

lemma read_min_jobs_Inr:
  assumes "read_min_jobs kvs l = Inr r"
  shows "case r of None \<Rightarrow> True
    | Some n \<Rightarrow> 1 \<le> n \<and> is_safe n \<and> (lm_memory l \<noteq> None \<or> lm_cpus l \<noteq> None) \<and> (case lm_concurrent l of None \<Rightarrow> True | Some c \<Rightarrow> n \<le> c)"
  using assms by (auto simp: read_min_jobs_def split: option.splits json.splits if_splits)

lemma read_size_fields_Inr:
  assumes "read_size_fields kvs version project l = Inr l'"
  shows "l' = l \<and> list_all (\<lambda>f. present kvs f = None) size_limit_fields
    \<or> project \<and> 3 \<le> version \<and> sizes_ok l' \<and> (\<exists>m c h n. l' = l\<lparr>lm_memory := m, lm_cpus := c, lm_share := h, lm_min_jobs := n\<rparr>)"
proof (cases "list_all (\<lambda>f. present kvs f = None) size_limit_fields")
  case True
  then show ?thesis using assms by (simp add: read_size_fields_def)
next
  case False
  then obtain m c h n where r: "read_size kvs ''memory'' parse_memory format_memory = Inr m"
    "read_size kvs ''cpus'' parse_cpus format_cpus = Inr c" "read_share kvs = Inr h"
    "read_min_jobs kvs (l\<lparr>lm_memory := m, lm_cpus := c\<rparr>) = Inr n" "project" "3 \<le> version"
    "l' = l\<lparr>lm_memory := m, lm_cpus := c, lm_share := h, lm_min_jobs := n\<rparr>"
    using assms by (auto simp: read_size_fields_def sum_bind_Inr split: if_splits)
  have "sizes_ok l'"
    using read_memory_Inr [OF r(1)] read_cpus_Inr [OF r(2)] read_share_Inr [OF r(3)] read_min_jobs_Inr [OF r(4)]
    by (cases n; cases h) (simp_all add: sizes_ok_def r(7))
  with r show ?thesis by blast
qed

section \<open>Reading a row\<close>

lemma space_heads: "list_all (\<lambda>w. \<not> prefix w (CHR '':'' # s)) space_texts"
proof -
  have "list_all (\<lambda>w. hd w \<noteq> CHR '':'') space_texts" by code_simp
  then have h: "hd w \<noteq> CHR '':''" if "w \<in> set space_texts" for w using that unfolding list_all_iff by blast
  have "\<not> prefix w (CHR '':'' # s)" if m: "w \<in> set space_texts" for w
    using h [OF m] space_not_Nil [OF m] by (cases w) (simp_all add: prefix_def)
  then show ?thesis unfolding list_all_iff by blast
qed

lemma trim_front_colon [simp]: "trim_front (CHR '':'' # s) = CHR '':'' # s"
  using space_heads [of s] unfolding list_all_iff by (intro trim_front_id) blast

lemma lower_project [simp]: "lower_text ''project'' = ''project''"
  by code_simp

lemma project_near_miss: "is_project_scope t \<Longrightarrow> near_miss ''project'' t"
proof -
  assume "is_project_scope t"
  then obtain r where t: "t = ''project'' @ CHR '':'' # r" by (auto simp: is_project_scope_def prefix_def)
  have "take (length ''project'') t = ''project''" "drop (length ''project'') t = CHR '':'' # r" unfolding t by simp_all
  then show ?thesis unfolding near_miss_def Let_def by (simp only: lower_project trim_front_colon) simp
qed

lemma normalize_limit_cases:
  assumes "normalize_limit nfc version row = Inr l"
  obtains (model) kvs s where "row = JObj kvs" "map_of kvs ''scope'' = Some (JStr s)" "is_model_scope (nfc (trim s))"
      "normalize_model_limit kvs (nfc (trim s)) version = Inr l"
  | (other) kvs s t form l1 l2 where "row = JObj kvs" "map_of kvs ''scope'' = Some (JStr s)" "t = nfc (trim s)" "\<not> is_model_scope t"
      "\<not> near_miss ''model'' t" "near_miss ''project'' t \<Longrightarrow> is_project_scope t \<and> is_project_id (drop 8 t)" "CHR ''*'' \<notin> set t"
      "scope_form_of nfc t = Inr form" "form_version version form = Inr ()"
      "read_usd_fields kvs version (bare_limit (stored_scope t form)) = Inr l1" "read_count_fields kvs l1 = Inr l2"
      "read_size_fields kvs version (is_project_scope t) l2 = Inr l" "limits_something l"
proof -
  obtain kvs where row: "row = JObj kvs" using assms by (cases row) (auto simp: normalize_limit_def)
  obtain s where s: "map_of kvs ''scope'' = Some (JStr s)"
    using assms by (auto simp: normalize_limit_def row split: option.splits json.splits)
  define t where "t = nfc (trim s)"
  have m: "normalize_scoped nfc version kvs t = Inr l"
    using assms by (auto simp: normalize_limit_def row s t_def split: if_splits)
  show thesis
  proof (cases "is_model_scope t")
    case True
    with m show thesis using model [OF row s] by (simp add: t_def normalize_scoped_def)
  next
    case False
    have g: "\<not> near_miss ''model'' t" "near_miss ''project'' t \<Longrightarrow> is_project_scope t \<and> is_project_id (drop 8 t)" "CHR ''*'' \<notin> set t"
      using m False by (auto simp: normalize_scoped_def split: if_splits)
    have "sum_bind (scope_form_of nfc t) (\<lambda>form.
             sum_bind (form_version version form) (\<lambda>_.
             sum_bind (read_usd_fields kvs version (bare_limit (stored_scope t form))) (\<lambda>l.
             sum_bind (read_count_fields kvs l) (\<lambda>l.
             sum_bind (read_size_fields kvs version (is_project_scope t) l) (\<lambda>l.
               if limits_something l then Inr l else Inl Row_empty))))) = Inr l"
      using m False g by (auto simp: normalize_scoped_def split: if_splits)
    then obtain form u l1 l2 l3 where f: "scope_form_of nfc t = Inr form" "form_version version form = Inr u"
      "read_usd_fields kvs version (bare_limit (stored_scope t form)) = Inr l1" "read_count_fields kvs l1 = Inr l2"
      "read_size_fields kvs version (is_project_scope t) l2 = Inr l3" "(if limits_something l3 then Inr l3 else Inl Row_empty) = Inr l"
      unfolding sum_bind_Inr by blast
    have l3: "l3 = l" "limits_something l" using f(6) by (auto split: if_splits)
    show thesis
      by (rule other [OF row s t_def False g(1) _ g(3) f(1) _ f(3,4)]) (use g(2) f(2,5) l3 in auto)
  qed
qed

lemma split_model_entry_text: "split_model_entry s = Some (p, m) \<Longrightarrow> s = p @ ''/'' @ m"
proof -
  assume a: "split_model_entry s = Some (p, m)"
  let ?p = "takeWhile (\<lambda>c. c \<noteq> CHR ''/'') s"
  have pm: "p = ?p" "m = drop (length p + 1) s" "p \<noteq> s" using a by (auto simp: split_model_entry_def Let_def split: if_splits)
  have s: "s = p @ dropWhile (\<lambda>c. c \<noteq> CHR ''/'') s" by (simp add: pm(1))
  then obtain c r where cr: "dropWhile (\<lambda>c. c \<noteq> CHR ''/'') s = c # r" using pm(3) by (cases "dropWhile (\<lambda>c. c \<noteq> CHR ''/'') s") auto
  then have "c = CHR ''/''" by (simp add: dropWhile_eq_Cons_conv)
  moreover have "m = r" using pm(2) s cr by (metis One_nat_def append_eq_conv_conj drop_Suc_Cons drop0 drop_drop add.commute)
  ultimately show ?thesis using s cr by simp
qed

lemma form_scope:
  assumes "scope_form_of nfc t = Inr form" "\<not> is_model_scope t"
  shows "\<not> is_model_scope (stored_scope t form)" "is_project_scope (stored_scope t form) \<longleftrightarrow> is_project_scope t"
    "is_project_scope t \<Longrightarrow> stored_scope t form = t"
proof -
  have k: "k \<in> set forge_kinds" if "form = Some (Qualified k r)" for k r
    using assms(1) that by (auto simp: scope_form_of_def parse_scope_string_def Let_def split: if_splits option.splits sum.splits)
  have q: "\<not> is_model_scope (k @ '':'' @ r) \<and> \<not> is_project_scope (k @ '':'' @ r)" if "k \<in> set forge_kinds" for k r
    using that by (auto simp: forge_kinds_def is_model_scope_def is_project_scope_def)
  have a: "\<not> is_model_scope (resolve p) \<and> \<not> is_project_scope (resolve p)" for p
  proof -
    have "\<exists>r. resolve p = CHR ''/'' # r"
      by (cases "resolve_segments (segments p)") (auto simp: resolve_def path_text_def)
    then show ?thesis by (auto simp: is_model_scope_def is_project_scope_def)
  qed
  have p: "is_project_scope t \<Longrightarrow> form = None" "\<not> is_project_scope t \<Longrightarrow> form \<noteq> None" using assms(1) by (auto simp: scope_form_of_def split: sum.splits)
  show "\<not> is_model_scope (stored_scope t form)" "is_project_scope (stored_scope t form) \<longleftrightarrow> is_project_scope t"
    "is_project_scope t \<Longrightarrow> stored_scope t form = t"
    using p q a k assms(2) by (auto simp: stored_scope_def absolute_def split: option.splits scope_form.splits)
qed

lemma bare_fields [simp]:
  "lm_scope (bare_limit s) = s" "lm_day (bare_limit s) = None" "lm_week (bare_limit s) = None" "lm_month (bare_limit s) = None"
  "lm_concurrent (bare_limit s) = None" "lm_day_usd (bare_limit s) = None" "lm_week_usd (bare_limit s) = None"
  "lm_month_usd (bare_limit s) = None" "lm_memory (bare_limit s) = None" "lm_cpus (bare_limit s) = None"
  "lm_share (bare_limit s) = None" "lm_min_jobs (bare_limit s) = None"
  by (simp_all add: bare_limit_def)

lemma plain_sizes: "lm_memory l = None \<Longrightarrow> lm_cpus l = None \<Longrightarrow> lm_share l = None \<Longrightarrow> lm_min_jobs l = None \<Longrightarrow> sizes_ok l \<and> \<not> has_size_field l"
  by (simp add: sizes_ok_def memory_ok_def cpus_ok_def has_size_field_def)

lemma count_ok_None [simp]: "count_ok None" by (simp add: count_ok_def)
lemma usd_ok_None [simp]: "usd_ok None" by (simp add: usd_ok_def)

lemma normalized_good:
  assumes "normalize_limit nfc version row = Inr l"
  shows "good_limit l"
  using assms
proof (cases rule: normalize_limit_cases)
  case (model kvs s)
  let ?t = "nfc (trim s)"
  obtain p m where pm: "split_model_entry (drop 6 ?t) = Some (p, m)"
    and u: "read_usd_fields kvs version (bare_limit (''model:'' @ p @ ''/'' @ m)) = Inr l" "limits_something l"
    using model(4) by (auto simp: normalize_model_limit_def sum_bind_Inr split: if_splits option.splits)
  have "drop 6 (''model:'' @ p @ ''/'' @ m) = drop 6 ?t" using split_model_entry_text [OF pm] by simp
  then show ?thesis
    using u(2) pm by (auto intro: read_usd_fields_Inr [OF u(1)]
        simp: good_limit_def counts_ok_def dollars_ok_def plain_sizes has_count_def is_model_scope_def is_project_scope_def
        elim!: read_usd_fields_Inr [OF u(1)])
next
  case (other kvs s t form l1 l2)
  note fs = form_scope [OF other(8,4)]
  obtain d w m where l1: "l1 = (bare_limit (stored_scope t form))\<lparr>lm_day_usd := d, lm_week_usd := w, lm_month_usd := m\<rparr>"
    "usd_ok d" "usd_ok w" "usd_ok m" by (rule read_usd_fields_Inr [OF other(10)])
  obtain d' w' m' c' where l2: "l2 = l1\<lparr>lm_day := d', lm_week := w', lm_month := m', lm_concurrent := c'\<rparr>"
    "count_ok d'" "count_ok w'" "count_ok m'" "count_ok c'" by (rule read_count_fields_Inr [OF other(11)])
  have pid: "is_project_scope t \<Longrightarrow> is_project_id (drop 8 t)" using other(6) project_near_miss by blast
  have base: "counts_ok l2" "dollars_ok l2" "lm_scope l2 = stored_scope t form" "sizes_ok l2" "\<not> has_size_field l2"
    using l1 l2 plain_sizes [of l2] by (simp_all add: counts_ok_def dollars_ok_def)
  from read_size_fields_Inr [OF other(12)] consider "l = l2"
    | m c h n where "is_project_scope t" "sizes_ok l" "l = l2\<lparr>lm_memory := m, lm_cpus := c, lm_share := h, lm_min_jobs := n\<rparr>" by blast
  then show ?thesis
  proof cases
    case 1
    then show ?thesis using base other(13) fs pid by (simp add: good_limit_def)
  next
    case 2
    then show ?thesis using base other(13) fs pid by (simp add: good_limit_def counts_ok_def dollars_ok_def)
  qed
qed

section \<open>Reading the file\<close>

lemma read_rows_Inr:
  "read_rows nfc v i js = Inr rows \<Longrightarrow> list_all2 (\<lambda>j l. normalize_limit nfc v j = Inr l) js rows"
proof (induction js arbitrary: i rows)
  case (Cons j js)
  then show ?case by (auto simp: sum_bind_Inr split: sum.splits)
qed simp

lemma map_of_known: "map_of xs k \<noteq> None \<longleftrightarrow> k \<in> fst ` set xs"
  by (simp add: map_of_eq_None_iff image_iff)

lemma first_duplicate_None:
  "first_duplicate seen i rows = None \<Longrightarrow>
     distinct (map row_identity rows) \<and> set (map row_identity rows) \<inter> fst ` set seen = {}"
proof (induction rows arbitrary: seen i)
  case (Cons l ls)
  have n: "map_of seen (row_identity l) = None" using Cons.prems by (auto split: option.splits)
  then have "first_duplicate ((row_identity l, i) # seen) (Suc i) ls = None" using Cons.prems by simp
  from Cons.IH [OF this] show ?case using n by (auto simp: map_of_eq_None_iff)
qed simp

lemma first_duplicate_distinct:
  "distinct (map row_identity rows) \<Longrightarrow> set (map row_identity rows) \<inter> fst ` set seen = {} \<Longrightarrow> first_duplicate seen i rows = None"
proof (induction rows arbitrary: seen i)
  case (Cons l ls)
  then have "map_of seen (row_identity l) = None" by (auto simp: map_of_eq_None_iff)
  moreover have "first_duplicate ((row_identity l, i) # seen) (Suc i) ls = None"
    using Cons.prems by (intro Cons.IH) auto
  ultimately show ?case by simp
qed simp

lemma first_mixed_None:
  "first_mixed bare i forms = None \<longleftrightarrow> (\<forall>f \<in> set forms. \<forall>k r. f = Some (Qualified k r) \<longrightarrow> r \<notin> fst ` set bare)"
proof (induction forms arbitrary: i)
  case (Cons f fs)
  show ?case
  proof (cases "\<exists>k r. f = Some (Qualified k r)")
    case True
    then obtain k r where "f = Some (Qualified k r)" by blast
    then have f: "f = Some (Qualified k r)" .
    show ?thesis
    proof (cases "map_of bare r")
      case None
      then have "r \<notin> fst ` set bare" by (simp add: map_of_eq_None_iff)
      then show ?thesis using Cons.IH [of "Suc i"] None by (auto simp: f)
    next
      case (Some j)
      then have "r \<in> fst ` set bare" by (metis map_of_known option.distinct(1))
      then show ?thesis using Some by (simp add: f)
    qed
  next
    case False
    then show ?thesis using Cons.IH by (cases f) (auto split: scope_form.splits)
  qed
qed simp

lemma bare_scopes_iff:
  assumes "length forms = length rows"
  shows "s \<in> fst ` set (bare_scopes rows forms) \<longleftrightarrow> (\<exists>i < length rows. lm_scope (rows ! i) = s \<and> forms ! i = Some Bare_form)"
proof -
  have "s \<in> fst ` set (bare_scopes rows forms) \<longleftrightarrow> (\<exists>i l f. (i, l, f) \<in> set (zip [0..<length rows] (zip rows forms)) \<and> f = Some Bare_form \<and> lm_scope l = s)"
    by (force simp: bare_scopes_def image_iff)
  also have "set (zip [0..<length rows] (zip rows forms)) = {(i, rows ! i, forms ! i) | i. i < length rows}"
  proof -
    have "([0..<length rows] ! i, zip rows forms ! i) = (i, rows ! i, forms ! i)" if "i \<in> {..<length rows}" for i
      using that assms by simp
    then have "(\<lambda>i. ([0..<length rows] ! i, zip rows forms ! i)) ` {..<length rows} = (\<lambda>i. (i, rows ! i, forms ! i)) ` {..<length rows}"
      by (rule image_cong [OF refl])
    then have "{([0..<length rows] ! i, zip rows forms ! i) | i. i < length rows} = {(i, rows ! i, forms ! i) | i. i < length rows}"
      by (simp only: setcompr_eq_image lessThan_def)
    moreover have "min (length [0..<length rows]) (length (zip rows forms)) = length rows" using assms by simp
    ultimately show ?thesis by (simp only: set_zip)
  qed
  also have "(\<exists>i l f. (i, l, f) \<in> {(i, rows ! i, forms ! i) | i. i < length rows} \<and> f = Some Bare_form \<and> lm_scope l = s)
      \<longleftrightarrow> (\<exists>i < length rows. lm_scope (rows ! i) = s \<and> forms ! i = Some Bare_form)"
    by auto
  finally show ?thesis .
qed

text \<open>No bare row beside a qualified row for its repository.\<close>

definition unmixed :: "(string \<Rightarrow> string) \<Rightarrow> limit list \<Rightarrow> bool" where
  "unmixed nfc rows \<longleftrightarrow> (\<forall>l \<in> set rows. \<exists>f. row_form nfc l = Inr f)
     \<and> (\<forall>l \<in> set rows. \<forall>l' \<in> set rows. \<forall>k r. row_form nfc l = Inr (Some (Qualified k r)) \<longrightarrow> row_form nfc l' = Inr (Some Bare_form) \<longrightarrow> lm_scope l' \<noteq> r)"

lemma refuse_mixed_forms_ok: "refuse_mixed_forms nfc rows = Inr u \<longleftrightarrow> unmixed nfc rows"
proof (cases "\<exists>forms. sum_map_list (row_form nfc) rows = Inr forms")
  case True
  then obtain forms where f: "sum_map_list (row_form nfc) rows = Inr forms" by blast
  then have a: "list_all2 (\<lambda>l f. row_form nfc l = Inr f) rows forms" by (simp add: sum_map_list_Inr)
  then have len: "length forms = length rows" and nth: "i < length rows \<Longrightarrow> row_form nfc (rows ! i) = Inr (forms ! i)" for i
    by (auto simp: list_all2_conv_all_nth)
  have "refuse_mixed_forms nfc rows = Inr u \<longleftrightarrow> first_mixed (bare_scopes rows forms) 0 forms = None"
    by (simp add: refuse_mixed_forms_def f split: option.splits prod.splits)
  also have "\<dots> \<longleftrightarrow> (\<forall>i < length rows. \<forall>k r. forms ! i = Some (Qualified k r) \<longrightarrow>
      \<not> (\<exists>j < length rows. lm_scope (rows ! j) = r \<and> forms ! j = Some Bare_form))"
    unfolding first_mixed_None bare_scopes_iff [OF len] using len by (metis in_set_conv_nth)
  also have "\<dots> \<longleftrightarrow> unmixed nfc rows"
  proof -
    have ex: "\<forall>l \<in> set rows. \<exists>f. row_form nfc l = Inr f" using nth by (metis in_set_conv_nth)
    show ?thesis
    proof
      assume m: "\<forall>i < length rows. \<forall>k r. forms ! i = Some (Qualified k r) \<longrightarrow>
        \<not> (\<exists>j < length rows. lm_scope (rows ! j) = r \<and> forms ! j = Some Bare_form)"
      have "lm_scope l' \<noteq> r" if "l \<in> set rows" "l' \<in> set rows" "row_form nfc l = Inr (Some (Qualified k r))" "row_form nfc l' = Inr (Some Bare_form)" for l l' k r
      proof -
        from \<open>l \<in> set rows\<close> obtain i where i: "i < length rows" "rows ! i = l" by (auto simp: in_set_conv_nth)
        from \<open>l' \<in> set rows\<close> obtain j where j: "j < length rows" "rows ! j = l'" by (auto simp: in_set_conv_nth)
        note ij = i j
        have "forms ! i = Some (Qualified k r)" "forms ! j = Some Bare_form" using nth [OF ij(1)] nth [OF ij(3)] ij that by simp_all
        then show ?thesis using m ij by blast
      qed
      with ex show "unmixed nfc rows" by (auto simp: unmixed_def)
    next
      assume u: "unmixed nfc rows"
      show "\<forall>i < length rows. \<forall>k r. forms ! i = Some (Qualified k r) \<longrightarrow>
        \<not> (\<exists>j < length rows. lm_scope (rows ! j) = r \<and> forms ! j = Some Bare_form)"
      proof (intro allI impI notI)
        fix i k r assume i: "i < length rows" "forms ! i = Some (Qualified k r)"
          and "\<exists>j < length rows. lm_scope (rows ! j) = r \<and> forms ! j = Some Bare_form"
        then obtain j where j: "j < length rows" "lm_scope (rows ! j) = r" "forms ! j = Some Bare_form" by blast
        have "row_form nfc (rows ! i) = Inr (Some (Qualified k r))" "row_form nfc (rows ! j) = Inr (Some Bare_form)"
          using nth [OF i(1)] nth [OF j(1)] i(2) j(3) by simp_all
        moreover have "rows ! i \<in> set rows" "rows ! j \<in> set rows" using i(1) j(1) by simp_all
        ultimately show False using u j(2) unfolding unmixed_def by blast
      qed
    qed
  qed
  finally show ?thesis .
next
  case False
  have "\<not> unmixed nfc rows"
  proof
    assume "unmixed nfc rows"
    then have "\<forall>l \<in> set rows. \<exists>f. row_form nfc l = Inr f" by (simp add: unmixed_def)
    then have "\<exists>forms. sum_map_list (row_form nfc) rows = Inr forms"
      by (induction rows) auto
    with False show False by blast
  qed
  moreover have "refuse_mixed_forms nfc rows \<noteq> Inr u" using False by (auto simp: refuse_mixed_forms_def sum_bind_Inr)
  ultimately show ?thesis by simp
qed

lemma check_rows_together_ok:
  "check_rows_together nfc rows = Inr rows' \<longleftrightarrow> rows' = rows \<and> unmixed nfc rows \<and> distinct (map row_identity rows)"
proof -
  have d: "first_duplicate [] 0 rows = None \<longleftrightarrow> distinct (map row_identity rows)"
    using first_duplicate_None first_duplicate_distinct [of rows "[]"] by fastforce
  show ?thesis
    by (cases "first_duplicate [] 0 rows") (use d refuse_mixed_forms_ok [of nfc rows "()"] in \<open>auto simp: check_rows_together_def sum_bind_Inr split: prod.splits\<close>)
qed

lemma judge_limits_Inr:
  assumes "judge_limits nfc parsed = Inr rows"
  obtains kvs v js where "parsed = JObj kvs" "map_of kvs ''version'' = Some (JInt v)" "1 \<le> v" "v \<le> scoped_limits_version"
    "map_of kvs ''limits'' = Some (JArr js)" "list_all2 (\<lambda>j l. normalize_limit nfc v j = Inr l) js rows"
    "unmixed nfc rows" "distinct (map row_identity rows)"
proof -
  obtain kvs where p: "parsed = JObj kvs" using assms by (cases parsed) (auto simp: judge_limits_def)
  obtain v where v: "map_of kvs ''version'' = Some (JInt v)" "1 \<le> v" "v \<le> scoped_limits_version"
    using assms by (auto simp: judge_limits_def p split: option.splits json.splits if_splits)
  obtain js where js: "map_of kvs ''limits'' = Some (JArr js)"
    using assms v by (auto simp: judge_limits_def p split: option.splits json.splits)
  have "sum_bind (read_rows nfc v 0 js) (check_rows_together nfc) = Inr rows"
    using assms v js by (simp add: judge_limits_def p)
  then have "list_all2 (\<lambda>j l. normalize_limit nfc v j = Inr l) js rows" "unmixed nfc rows" "distinct (map row_identity rows)"
    by (auto simp: sum_bind_Inr check_rows_together_ok dest: read_rows_Inr)
  then show thesis by (rule that [OF p v js])
qed

lemma list_all2_right: "list_all2 P xs ys \<Longrightarrow> y \<in> set ys \<Longrightarrow> \<exists>x. P x y"
  by (induction rule: list_all2_induct) auto

lemma limits_facts:
  assumes "judge_limits nfc parsed = Inr rows"
  shows "\<forall>l \<in> set rows. good_limit l" "unmixed nfc rows" "distinct (map row_identity rows)" "distinct (map lm_scope rows)"
proof -
  obtain v js where r: "list_all2 (\<lambda>j l. normalize_limit nfc v j = Inr l) js rows" "unmixed nfc rows" "distinct (map row_identity rows)"
    by (rule judge_limits_Inr [OF assms]) (rule that)
  show "\<forall>l \<in> set rows. good_limit l" 
  proof
    fix l assume "l \<in> set rows"
    then obtain j where "normalize_limit nfc v j = Inr l"  using list_all2_right [OF r(1)] by blast
    then show "good_limit l" by (rule normalized_good)
  qed
  show "unmixed nfc rows" "distinct (map row_identity rows)" by (rule r)+
  have i: "inj_on row_identity (set rows)" and d: "distinct rows" using r(3) by (simp_all add: distinct_map)
  have "inj_on lm_scope (set rows)"
  proof (rule inj_onI)
    fix l l' assume m: "l \<in> set rows" "l' \<in> set rows" "lm_scope l = lm_scope l'"
    then have "row_identity l = row_identity l'" by (simp add: row_identity_def)
    then show "l = l'" using inj_onD [OF i] m by simp
  qed
  then show "distinct (map lm_scope rows)" using d by (simp add: distinct_map)
qed

text \<open>
  C23: What an accepted file guarantees: every row's counts are integers of at least 1, its dollar
  windows canonical amounts, its sizes within the bounds a job may have and on a project row alone,
  a minimum of jobs has a size and is reachable, a model row carries dollars only; no scope has two
  rows (model references compared in lower case), and no bare repository row stands beside a
  qualified row of that repository.
\<close>

theorem accepted_limits_well_formed:
  assumes "parse_scoped_limits json_parse nfc text = Inr rows"
  shows "(\<forall>l \<in> set rows. good_limit l) \<and> distinct (map lm_scope rows) \<and> distinct (map row_identity rows) \<and> unmixed nfc rows"
  using assms limits_facts by (auto simp: parse_scoped_limits_def split: option.splits)

section \<open>The row that governs a job\<close>

text \<open>A job whose names are as the forges and the file system give them: trimmed and normalized.\<close>

definition plain_job :: "(string \<Rightarrow> string) \<Rightarrow> job \<Rightarrow> bool" where
  "plain_job nfc j \<longleftrightarrow> (case (jb_kind j, jb_repo j) of
     (Some k, Some r) \<Rightarrow> k \<in> set forge_kinds \<and> r \<noteq> [] \<and> trimmed r \<and> trimmed (k @ '':'' @ r) \<and> nfc r = r \<and> nfc (k @ '':'' @ r) = k @ '':'' @ r
   | _ \<Rightarrow> False)"

lemma find_unique:
  assumes "distinct (map f xs)" "x \<in> set xs" "P x" "\<forall>y \<in> set xs. P y \<longrightarrow> f y = f x"
  shows "find P xs = Some x"
  using assms
proof (induction xs)
  case (Cons y ys)
  show ?case
  proof (cases "x = y")
    case False
    then have x: "x \<in> set ys" using Cons.prems(2) by simp
    have "f y \<notin> f ` set ys" using Cons.prems(1) by simp
    then have n: "f y \<noteq> f x" using x by blast
    have "P y \<longrightarrow> f y = f x" using Cons.prems(4) by (rule bspec) simp
    then have "\<not> P y" using n by blast
    moreover have "find P ys = Some x"
    proof (rule Cons.IH [OF _ x Cons.prems(3)])
      show "distinct (map f ys)" using Cons.prems(1) by simp
      show "\<forall>y \<in> set ys. P y \<longrightarrow> f y = f x" using Cons.prems(4) by (intro ballI) (drule bspec, rule list.set_intros(2), assumption)
    qed
    ultimately show ?thesis by simp
  qed (use Cons.prems(3) in simp)
qed simp

lemma find_row_scope:
  assumes "distinct (map lm_scope rows)" "l \<in> set rows" "\<not> is_group_scope (lm_scope l)" "non_empty (lm_scope l)"
  shows "find_row rows (Some (lm_scope l)) = Some l"
  using find_unique [OF assms(1,2), of "\<lambda>x. lm_scope x = lm_scope l \<and> \<not> is_group_scope (lm_scope x)"] assms(3,4)
  by (simp add: find_row_def)

lemma find_row_Some: "find_row rows s = Some l \<Longrightarrow> l \<in> set rows \<and> s = Some (lm_scope l) \<and> \<not> is_group_scope (lm_scope l)"
  by (auto simp: find_row_def find_Some_iff split: option.splits if_splits)

lemma split_slash_not_Nil [simp]: "split_slash s \<noteq> []"
  by (induction s) (auto split: list.splits)

lemma split_slash_chars: "c \<in> set s \<Longrightarrow> c \<noteq> CHR ''/'' \<Longrightarrow> \<exists>p \<in> set (split_slash s). c \<in> set p"
  by (induction s) (auto split: list.splits)

lemma qualified_repo_bare:
  assumes "qualified_repo r" "trimmed r" "nfc r = r"
  shows "parse_scope_string nfc r = Inr Bare_form"
proof -
  have seg: "repo_segment p" if "p \<in> set (split_slash r)" for p using assms(1) that by (simp add: qualified_repo_def list_all_iff)
  have colon: "CHR '':'' \<notin> set r"
  proof
    assume "CHR '':'' \<in> set r"
    then obtain p where "p \<in> set (split_slash r)" "CHR '':'' \<in> set p" using split_slash_chars by blast
    with seg show False by (fastforce simp: repo_segment_def list_all_iff)
  qed
  have "\<not> absolute r"
  proof
    assume "absolute r"
    then obtain s where "r = CHR ''/'' # s" by (cases r) (auto simp: absolute_def)
    then have "[] \<in> set (split_slash r)" by simp
    with seg show False by (auto simp: repo_segment_def)
  qed
  moreover have "\<not> drive_letter r" using colon by (cases r; cases "tl r") (auto simp: drive_letter_def)
  moreover have "prefix_and_rest r = None"
  proof -
    have "hd (drop n r) \<noteq> CHR '':''" if "drop n r \<noteq> []" for n
      using that colon by (metis hd_in_set in_set_dropD)
    then show ?thesis by (auto simp: prefix_and_rest_def Let_def)
  qed
  ultimately show ?thesis using assms by (simp add: parse_scope_string_def trim_id)
qed

lemma kind_parts:
  assumes "k \<in> set forge_kinds"
  shows "prefix_and_rest (k @ '':'' @ r) = Some (k, r)" "\<not> absolute (k @ '':'' @ r)" "\<not> drive_letter (k @ '':'' @ r)"
    "\<not> is_model_scope (k @ '':'' @ r)" "\<not> is_project_scope (k @ '':'' @ r)"
  using assms
  by (auto simp: forge_kinds_def prefix_and_rest_def absolute_def drive_letter_def is_model_scope_def is_project_scope_def)

lemma trimmed_non_empty: "trimmed s \<Longrightarrow> s \<noteq> [] \<Longrightarrow> non_empty s"
  by (simp add: non_empty_def trim_id)

lemma forge_kinds_spelled: "k \<in> set forge_kinds \<Longrightarrow> non_empty k \<and> k \<noteq> ''local''"
proof -
  assume k: "k \<in> set forge_kinds"
  have "list_all (\<lambda>k. non_empty k \<and> k \<noteq> ''local'') forge_kinds" by code_simp
  with k show ?thesis by (simp add: list_all_iff)
qed

lemma plain_job_scopes:
  assumes "plain_job nfc j"
  obtains k r where "jb_kind j = Some k" "jb_repo j = Some r" "k \<in> set forge_kinds" "r \<noteq> []" "trimmed r" "trimmed (k @ '':'' @ r)"
    "nfc r = r" "nfc (k @ '':'' @ r) = k @ '':'' @ r"
    "qualified_scope_of nfc j = Some (k @ '':'' @ r)" "canonical_scope nfc cwd j = Some r"
proof -
  obtain k r where kr: "jb_kind j = Some k" "jb_repo j = Some r" "k \<in> set forge_kinds" "r \<noteq> []" "trimmed r" "trimmed (k @ '':'' @ r)"
    "nfc r = r" "nfc (k @ '':'' @ r) = k @ '':'' @ r"
    using assms by (auto simp: plain_job_def split: option.splits)
  have "non_empty k" "k \<noteq> ''local''" "non_empty r" using forge_kinds_spelled [OF kr(3)] trimmed_non_empty kr(4,5) by blast+
  then have "qualified_scope_of nfc j = Some (k @ '':'' @ r)" "canonical_scope nfc cwd j = Some r"
    using kr by (simp_all add: qualified_scope_of_def canonical_scope_def scope_of_def)
  with kr show thesis by (rule that)
qed

lemma qualified_row_form:
  assumes "k \<in> set forge_kinds" "r \<noteq> []" "trimmed r" "trimmed (k @ '':'' @ r)" "nfc (k @ '':'' @ r) = k @ '':'' @ r"
    and "lm_scope l = k @ '':'' @ r" "row_form nfc l = Inr f"
  shows "f = Some (Qualified k r) \<and> qualified_repo r"
  using assms kind_parts [OF assms(1)]
  by (auto simp: row_form_def is_group_scope_def parse_scope_string_def trim_id Let_def split: if_splits)

text \<open>
  Of an accepted file's rows that name a forge job's repository, bare or with its forge, there is
  at most one, and it is the row that governs the job: the order in which the two spellings are
  looked up decides nothing.
\<close>

theorem governing_row_unique:
  assumes "parse_scoped_limits json_parse nfc text = Inr rows" "plain_job nfc j"
    and "l \<in> set rows" "\<not> is_group_scope (lm_scope l)"
    and "Some (lm_scope l) = canonical_scope nfc cwd j \<or> Some (lm_scope l) = qualified_scope_of nfc j"
  shows "limit_for nfc cwd rows j = Some l"
proof -
  obtain parsed where "judge_limits nfc parsed = Inr rows" using assms(1) by (auto simp: parse_scoped_limits_def split: option.splits)
  note F = limits_facts [OF this]
  obtain k r where kr: "jb_kind j = Some k" "jb_repo j = Some r" "k \<in> set forge_kinds" "r \<noteq> []" "trimmed r" "trimmed (k @ '':'' @ r)"
    "nfc r = r" "nfc (k @ '':'' @ r) = k @ '':'' @ r" "qualified_scope_of nfc j = Some (k @ '':'' @ r)" "canonical_scope nfc cwd j = Some r"
    by (rule plain_job_scopes [OF assms(2)])
  have nl: "jb_kind j \<noteq> Some ''local''" using kr(1) forge_kinds_spelled [OF kr(3)] by simp
  have ne: "non_empty r" "non_empty (k @ '':'' @ r)" using trimmed_non_empty kr(4-6) by simp_all
  show ?thesis
  proof (cases "lm_scope l = k @ '':'' @ r")
    case True
    have "find_row rows (Some (lm_scope l)) = Some l"
      by (rule find_row_scope [OF F(4) assms(3,4)]) (use ne(2) True in simp)
    then show ?thesis using True nl kr(9) by (simp add: limit_for_def)
  next
    case False
    then have s: "lm_scope l = r" using assms(5) kr(9,10) by simp
    have "find_row rows (Some (k @ '':'' @ r)) = None"
    proof (rule ccontr)
      assume "find_row rows (Some (k @ '':'' @ r)) \<noteq> None"
      then obtain l' where l': "l' \<in> set rows" "lm_scope l' = k @ '':'' @ r" by (auto dest: find_row_Some)
      then obtain f where f: "row_form nfc l' = Inr f" using F(2) by (auto simp: unmixed_def)
      note q = qualified_row_form [OF kr(3-6) kr(8) l'(2) f]
      have "qualified_repo r" using q by blast
      then have "parse_scope_string nfc r = Inr Bare_form" using kr(5,7) by (rule qualified_repo_bare)
      then have "row_form nfc l = Inr (Some Bare_form)" using assms(4) by (simp add: row_form_def s)
      then show False using F(2) l'(1) assms(3) f q s unfolding unmixed_def by blast
    qed
    moreover have "find_row rows (Some (lm_scope l)) = Some l"
      by (rule find_row_scope [OF F(4) assms(3,4)]) (simp add: ne s)
    ultimately show ?thesis using nl kr(9,10) s by (simp add: limit_for_def)
  qed
qed

text \<open>A file of two rows, as the witnesses parse it.\<close>

definition sample_limits :: json where
  "sample_limits = JObj [(''version'', JInt 2), (''limits'', JArr
     [JObj [(''scope'', JStr ''gitlab:g/p''), (''day'', JInt 5)], JObj [(''scope'', JStr ''o/r''), (''week'', JInt 9)]])]"

definition sample_rows :: "limit list" where
  "sample_rows = [(bare_limit ''gitlab:g/p'')\<lparr>lm_day := Some 5\<rparr>, (bare_limit ''o/r'')\<lparr>lm_week := Some 9\<rparr>]"

lemma sample_parses: "parse_scoped_limits (\<lambda>_. Some sample_limits) id [] = Inr sample_rows"
  by code_simp

lemma accepted_limits_well_formed_witness:
  "list_all good_limit sample_rows \<and> distinct (map lm_scope sample_rows) \<and> distinct (map row_identity sample_rows) \<and> unmixed id sample_rows"
  using accepted_limits_well_formed [OF sample_parses] by (simp add: list_all_iff)

lemma governing_row_unique_witness:
  "limit_for id ''/srv'' sample_rows \<lparr>jb_kind = Some ''gitlab'', jb_folder = None, jb_repo = Some ''g/p''\<rparr>
   = Some ((bare_limit ''gitlab:g/p'')\<lparr>lm_day := Some 5\<rparr>)"
proof (rule governing_row_unique [OF sample_parses])
  show "plain_job id \<lparr>jb_kind = Some ''gitlab'', jb_folder = None, jb_repo = Some ''g/p''\<rparr>" by code_simp
  show "(bare_limit ''gitlab:g/p'')\<lparr>lm_day := Some 5\<rparr> \<in> set sample_rows" by (simp add: sample_rows_def)
  show "\<not> is_group_scope (lm_scope ((bare_limit ''gitlab:g/p'')\<lparr>lm_day := Some 5\<rparr>))" by code_simp
  have "qualified_scope_of id \<lparr>jb_kind = Some ''gitlab'', jb_folder = None, jb_repo = Some ''g/p''\<rparr> = Some ''gitlab:g/p''" by code_simp
  then show "Some (lm_scope ((bare_limit ''gitlab:g/p'')\<lparr>lm_day := Some 5\<rparr>))
      = canonical_scope id ''/srv'' \<lparr>jb_kind = Some ''gitlab'', jb_folder = None, jb_repo = Some ''g/p''\<rparr>
    \<or> Some (lm_scope ((bare_limit ''gitlab:g/p'')\<lparr>lm_day := Some 5\<rparr>))
      = qualified_scope_of id \<lparr>jb_kind = Some ''gitlab'', jb_folder = None, jb_repo = Some ''g/p''\<rparr>" by simp
qed

end
