(* ===== verification/FleetLease.thy ===== *)
theory FleetLease
  imports ScopedLimits "HOL-Library.Word" "HOL-Library.Sublist"
begin

text \<open>
  Fleet-wide slots (worker/src/fleet-lease.mjs): the numbered keys a job claims across hosts, with
  their expiry, the two scripts, acquire, release and refresh, and the boot sweep of a host's own
  claims. Every command may be answered, run with its reply lost, never be sent, or be given up on and
  run later; time passes between any two commands. Hashes are a parameter; an id is ASCII text, so its
  characters are its UTF-16 code units.
\<close>

section \<open>Keys\<close>

definition check_slot_key :: "nat \<Rightarrow> key" where "check_slot_key i = ''wait:check:'' @ nat_text i"
definition scope_slot_key :: "string \<Rightarrow> nat \<Rightarrow> key" where "scope_slot_key h i = ''slot:s:'' @ h @ '':'' @ nat_text i"
definition endpoint_slot_key :: "string \<Rightarrow> nat \<Rightarrow> key" where "endpoint_slot_key h i = ''slot:m:'' @ h @ '':'' @ nat_text i"

definition hash_code :: "string \<Rightarrow> 32 word" where
  "hash_code s = foldl (\<lambda>h c. h * 31 + word_of_nat (of_char c)) 0 s"

text \<open>The slots in the order a call tries them: every slot once, from \<open>hashCode(id) mod slots\<close>.\<close>

definition first_slot :: "string \<Rightarrow> nat \<Rightarrow> nat" where
  "first_slot i n = nat (\<bar>sint (hash_code i)\<bar> mod int n)"

definition probe_keys :: "(nat \<Rightarrow> key) \<Rightarrow> string \<Rightarrow> nat \<Rightarrow> key list" where
  "probe_keys key_for i n = map (\<lambda>m. key_for ((first_slot i n + m) mod n)) [0..<n]"

section \<open>The store\<close>

text \<open>A key holds a value until its expiry.\<close>

record claims =
  cl_now :: int
  cl_keys :: "key \<Rightarrow> (string \<times> int) option"

definition claim :: "claims \<Rightarrow> key \<Rightarrow> string option" where
  "claim s k = (case cl_keys s k of None \<Rightarrow> None | Some (v, e) \<Rightarrow> if cl_now s < e then Some v else None)"

definition set_nx :: "key \<Rightarrow> string \<Rightarrow> int \<Rightarrow> claims \<Rightarrow> bool \<times> claims" where
  "set_nx k v ttl s =
     (if claim s k = None then (True, s\<lparr>cl_keys := (cl_keys s)(k \<mapsto> (v, cl_now s + ttl))\<rparr>) else (False, s))"

text \<open>\<open>RELEASE_IF_MINE\<close> and \<open>DELETE_IF_PREFIX\<close>, with the number of keys deleted.\<close>

definition release_claim :: "key \<Rightarrow> string \<Rightarrow> claims \<Rightarrow> nat \<times> claims" where
  "release_claim k v s = (if claim s k = Some v then (1, s\<lparr>cl_keys := (cl_keys s)(k := None)\<rparr>) else (0, s))"

definition delete_if_prefix :: "key \<Rightarrow> string \<Rightarrow> claims \<Rightarrow> nat \<times> claims" where
  "delete_if_prefix k p s =
     (case claim s k of None \<Rightarrow> (0, s)
      | Some v \<Rightarrow> if prefix p v then (1, s\<lparr>cl_keys := (cl_keys s)(k := None)\<rparr>) else (0, s))"

definition pexpire :: "key \<Rightarrow> int \<Rightarrow> claims \<Rightarrow> claims" where
  "pexpire k ms s =
     (case claim s k of None \<Rightarrow> s | Some v \<Rightarrow> s\<lparr>cl_keys := (cl_keys s)(k \<mapsto> (v, cl_now s + ms))\<rparr>)"

section \<open>Acquire\<close>

text \<open>What becomes of a command: answered, run with the reply lost, never run, or given up on while it
  is still queued.\<close>

datatype reply = Answered | Reply_lost | Not_sent | Queued

datatype lease_command = Set_nx key string int | Release key string | Delete_prefix key string | Pexpire key string int

fun run_command :: "lease_command \<Rightarrow> claims \<Rightarrow> claims" where
  "run_command (Set_nx k h ttl) s = snd (set_nx k h ttl s)"
| "run_command (Release k h) s = snd (release_claim k h s)"
| "run_command (Delete_prefix k p) s = snd (delete_if_prefix k p s)"
| "run_command (Pexpire k h ms) s = pexpire k ms s"

text \<open>A call of acquire: no bound to take, the slots left to try and those tried, the slot it won, the
  degraded handle with every key it tried, or \<open>null\<close>.\<close>

datatype call = Unbounded | Probing string int "key list" "key list" | Holding key string
  | Open_degraded "key list" string | All_held

definition open_call :: "(nat \<Rightarrow> key) \<Rightarrow> string \<Rightarrow> string \<Rightarrow> int \<Rightarrow> int option \<Rightarrow> call" where
  "open_call key_for worker i ttl slots =
     (case slots of None \<Rightarrow> Unbounded
      | Some n \<Rightarrow> if n < 1 then Unbounded else Probing (worker @ ''#'' @ i) ttl (probe_keys key_for i (nat n)) [])"

text \<open>One turn of the loop: the call, the store and what is left queued.\<close>

fun probe :: "reply \<Rightarrow> call \<Rightarrow> claims \<Rightarrow> call \<times> claims \<times> lease_command list" where
  "probe r (Probing h ttl (k # ks) tried) s =
     (case r of
        Answered \<Rightarrow>
          (case set_nx k h ttl s of (won, s') \<Rightarrow>
             ((if won then Holding k h else if ks = [] then All_held else Probing h ttl ks (tried @ [k])), s', []))
      | Reply_lost \<Rightarrow> (Open_degraded (tried @ [k]) h, snd (set_nx k h ttl s), [])
      | Not_sent \<Rightarrow> (Open_degraded (tried @ [k]) h, s, [])
      | Queued \<Rightarrow> (Open_degraded (tried @ [k]) h, s, [Set_nx k h ttl]))"
| "probe r c s = (c, s, [])"

text \<open>The loop to its end, with what others do to the store before the n-th probe.\<close>

fun acquire_from ::
  "(nat \<Rightarrow> claims \<Rightarrow> claims) \<Rightarrow> (nat \<Rightarrow> reply) \<Rightarrow> nat \<Rightarrow> key list \<Rightarrow> key list \<Rightarrow> string \<Rightarrow> int \<Rightarrow> claims \<Rightarrow> call \<times> claims" where
  "acquire_from env rs n [] tried h ttl s = (All_held, s)"
| "acquire_from env rs n (k # ks) tried h ttl s =
     (case probe (rs n) (Probing h ttl (k # ks) tried) (env n s) of
        (Probing _ _ _ _, s', _) \<Rightarrow> acquire_from env rs (Suc n) ks (tried @ [k]) h ttl s'
      | (c, s', _) \<Rightarrow> (c, s'))"

definition acquire ::
  "(nat \<Rightarrow> claims \<Rightarrow> claims) \<Rightarrow> (nat \<Rightarrow> reply) \<Rightarrow> (nat \<Rightarrow> key) \<Rightarrow> string \<Rightarrow> string \<Rightarrow> int \<Rightarrow> int option \<Rightarrow> claims \<Rightarrow> call \<times> claims" where
  "acquire env rs key_for worker i ttl slots s =
     (case open_call key_for worker i ttl slots of
        Probing h t ks tried \<Rightarrow> acquire_from env rs 0 ks tried h t s
      | c \<Rightarrow> (c, s))"

section \<open>Release, refresh, sweep\<close>

fun release_commands :: "call \<Rightarrow> lease_command list" where
  "release_commands (Holding k h) = [Release k h]"
| "release_commands (Open_degraded ks h) = map (\<lambda>k. Release k h) ks"
| "release_commands _ = []"

text \<open>The first command of refresh: its answer sends the second, or is no.\<close>

fun refresh_get :: "int \<Rightarrow> call \<Rightarrow> claims \<Rightarrow> lease_command list" where
  "refresh_get ms (Holding k h) s = (if claim s k = Some h then [Pexpire k h ms] else [])"
| "refresh_get ms _ s = []"

text \<open>What one key of the sweep meets: an answer, an error about the key, or a fault of the server
  after or before the script ran.\<close>

datatype sweep_reply = Swept | Key_error | Server_fault bool

fun sweep_row_keys :: "(nat \<Rightarrow> sweep_reply) \<Rightarrow> nat \<Rightarrow> key list \<Rightarrow> string \<Rightarrow> nat \<Rightarrow> claims \<Rightarrow> (nat \<times> bool) \<times> claims" where
  "sweep_row_keys rs n [] p swept s = ((swept, False), s)"
| "sweep_row_keys rs n (k # ks) p swept s =
     (case rs n of
        Swept \<Rightarrow> (case delete_if_prefix k p s of (d, s') \<Rightarrow> sweep_row_keys rs (Suc n) ks p (swept + d) s')
      | Key_error \<Rightarrow> sweep_row_keys rs (Suc n) ks p swept s
      | Server_fault b \<Rightarrow> ((swept, True), if b then snd (delete_if_prefix k p s) else s))"

text \<open>Each row is a count and a hash; a row without a count of at least one, or without a hash, has no
  keys.\<close>

definition sweep_keys :: "(string \<Rightarrow> nat \<Rightarrow> key) \<Rightarrow> (int option \<times> string) list \<Rightarrow> key list" where
  "sweep_keys key_for rows =
     concat (map (\<lambda>(c, h). case c of None \<Rightarrow> [] | Some n \<Rightarrow> if n < 1 \<or> h = [] then [] else map (key_for h) [0..<nat n]) rows)"

definition sweep_claims ::
  "(nat \<Rightarrow> sweep_reply) \<Rightarrow> (string \<Rightarrow> nat \<Rightarrow> key) \<Rightarrow> string \<Rightarrow> (int option \<times> string) list \<Rightarrow> bool \<Rightarrow> claims \<Rightarrow> (nat \<times> bool) \<times> claims" where
  "sweep_claims rs key_for worker rows reaped s =
     (if \<not> reaped then ((0, True), s) else sweep_row_keys rs 0 (sweep_keys key_for rows) (worker @ ''#'') 0 s)"

definition scope_sweep ::
  "(nat \<Rightarrow> sweep_reply) \<Rightarrow> (string \<Rightarrow> string) \<Rightarrow> string \<Rightarrow> limit list \<Rightarrow> bool \<Rightarrow> claims \<Rightarrow> (nat \<times> bool) \<times> claims" where
  "scope_sweep rs hash worker limits reaped s = sweep_claims rs scope_slot_key worker (scope_claim_rows hash limits) reaped s"

end
