(* ===== verification/FleetLeaseFacts.thy ===== *)
theory FleetLeaseFacts
  imports FleetLease
begin

text \<open>
  The fleet's hosts and Valkey as a step relation over the calls of acquire, the commands still
  queued and the clock, with the wins nobody gave up as history: no slot is held twice while its lease
  runs, a free slot is found, the boot sweep frees exactly the host's own slots, and a refresh may
  answer yes for a slot another host holds.
\<close>

section \<open>Steps\<close>

text \<open>\<open>fl_won\<close> records each win (key, holder, end of the lease as it was granted) until a release of
  that holder or a sweep of its host deletes the key; \<open>fl_yes\<close> the refreshes that answered yes.\<close>

record fleet =
  fl_store :: claims
  fl_calls :: "call list"
  fl_late :: "lease_command list"
  fl_won :: "(key \<times> string \<times> int) list"
  fl_yes :: "(key \<times> string) list"

fun keeps_win :: "lease_command \<Rightarrow> key \<times> string \<times> int \<Rightarrow> bool" where
  "keeps_win (Release k h) (k', h', u) \<longleftrightarrow> \<not> (k' = k \<and> h' = h)"
| "keeps_win (Delete_prefix k p) (k', h', u) \<longleftrightarrow> \<not> (k' = k \<and> prefix p h')"
| "keeps_win _ w \<longleftrightarrow> True"

definition after_command :: "lease_command \<Rightarrow> fleet \<Rightarrow> fleet" where
  "after_command c f =
     f\<lparr>fl_store := run_command c (fl_store f), fl_won := filter (keeps_win c) (fl_won f),
       fl_yes := (case c of Pexpire k h ms \<Rightarrow> (k, h) # fl_yes f | _ \<Rightarrow> fl_yes f)\<rparr>"

definition after_probe :: "nat \<Rightarrow> reply \<Rightarrow> int \<Rightarrow> fleet \<Rightarrow> fleet" where
  "after_probe i r ttl f =
     (case probe r (fl_calls f ! i) (fl_store f) of (c, s, late) \<Rightarrow>
        f\<lparr>fl_store := s, fl_calls := (fl_calls f)[i := c], fl_late := fl_late f @ late,
          fl_won := (case c of Holding k h \<Rightarrow> [(k, h, cl_now (fl_store f) + ttl)] | _ \<Rightarrow> []) @ fl_won f\<rparr>)"

text \<open>Who acts: the clock, a job under its holder name, or a host under the prefix of its claims.\<close>

datatype actor = Clock | Job string | Host string

fun call_holder :: "call \<Rightarrow> string option" where
  "call_holder (Probing h t ks tried) = Some h"
| "call_holder (Holding k h) = Some h"
| "call_holder (Open_degraded ks h) = Some h"
| "call_holder _ = None"

fun command_actor :: "lease_command \<Rightarrow> actor" where
  "command_actor (Set_nx k h t) = Job h"
| "command_actor (Release k h) = Job h"
| "command_actor (Pexpire k h ms) = Job h"
| "command_actor (Delete_prefix k p) = Host p"

text \<open>A key's family has one lease length (\<open>len k = Some ms\<close>, the scope and the endpoint slots) or
  none (the check slots, whose length each call derives from its own profiles); only the first can be
  refreshed.\<close>

definition of_length :: "(key \<Rightarrow> int option) \<Rightarrow> call \<Rightarrow> bool" where
  "of_length len c = (case c of Probing h t ks tried \<Rightarrow> list_all (\<lambda>k. len k = None \<or> len k = Some t) ks | _ \<Rightarrow> True)"

inductive fleet_by :: "(key \<Rightarrow> int option) \<Rightarrow> actor \<Rightarrow> fleet \<Rightarrow> fleet \<Rightarrow> bool" for len where
  wait: "0 \<le> d \<Longrightarrow> fleet_by len Clock f (f\<lparr>fl_store := (fl_store f)\<lparr>cl_now := cl_now (fl_store f) + d\<rparr>\<rparr>)"
| enter: "of_length len (open_call key_for worker i ttl slots) \<Longrightarrow>
    fleet_by len (Job (worker @ ''#'' @ i)) f (f\<lparr>fl_calls := fl_calls f @ [open_call key_for worker i ttl slots]\<rparr>)"
| probe: "i < length (fl_calls f) \<Longrightarrow> fl_calls f ! i = Probing h t ks tried \<Longrightarrow> fleet_by len (Job h) f (after_probe i r t f)"
| release: "c \<in> set (fl_calls f) \<Longrightarrow> call_holder c = Some h \<Longrightarrow> fleet_by len (Job h) f (f\<lparr>fl_late := fl_late f @ release_commands c\<rparr>)"
| refresh: "Holding k h \<in> set (fl_calls f) \<Longrightarrow> len k = Some ms \<Longrightarrow>
    fleet_by len (Job h) f (f\<lparr>fl_late := fl_late f @ refresh_get ms (Holding k h) (fl_store f)\<rparr>)"
| sweep: "fleet_by len (Host (worker @ ''#'')) f (f\<lparr>fl_late := fl_late f @ [Delete_prefix k (worker @ ''#'')]\<rparr>)"
| land: "fl_late f = xs @ c # ys \<Longrightarrow> fleet_by len (command_actor c) f (after_command c (f\<lparr>fl_late := xs @ ys\<rparr>))"
| lose: "fl_late f = xs @ c # ys \<Longrightarrow> fleet_by len Clock f (f\<lparr>fl_late := xs @ ys\<rparr>)"

definition fleet_step :: "(key \<Rightarrow> int option) \<Rightarrow> fleet \<Rightarrow> fleet \<Rightarrow> bool" where
  "fleet_step len f f' \<longleftrightarrow> (\<exists>a. fleet_by len a f f')"

lemma fleet_stepI: "fleet_by len a f f' \<Longrightarrow> fleet_step len f f'"
  by (auto simp: fleet_step_def)

definition idle_fleet :: "int \<Rightarrow> fleet" where
  "idle_fleet t = \<lparr>fl_store = \<lparr>cl_now = t, cl_keys = (\<lambda>_. None)\<rparr>, fl_calls = [], fl_late = [], fl_won = [], fl_yes = []\<rparr>"

definition live_wins :: "fleet \<Rightarrow> (key \<times> string \<times> int) list" where
  "live_wins f = filter (\<lambda>(k, h, u). cl_now (fl_store f) < u) (fl_won f)"

section \<open>No slot twice\<close>

text \<open>The store holds every live win, until its end at least; and the ends and the queued expiries are
  those of the families' lengths.\<close>

definition win_held :: "claims \<Rightarrow> key \<times> string \<times> int \<Rightarrow> bool" where
  "win_held s w = (case w of (k, h, u) \<Rightarrow> cl_now s < u \<longrightarrow> (\<exists>e. cl_keys s k = Some (h, e) \<and> u \<le> e))"

definition win_even :: "(key \<Rightarrow> int option) \<Rightarrow> int \<Rightarrow> key \<times> string \<times> int \<Rightarrow> bool" where
  "win_even len now w = (case w of (k, h, u) \<Rightarrow> \<forall>ms. len k = Some ms \<longrightarrow> u \<le> now + ms)"

definition calls_even :: "(key \<Rightarrow> int option) \<Rightarrow> call list \<Rightarrow> bool" where
  "calls_even len cs \<longleftrightarrow> (\<forall>c \<in> set cs. of_length len c)"

definition late_even :: "(key \<Rightarrow> int option) \<Rightarrow> lease_command list \<Rightarrow> bool" where
  "late_even len cs \<longleftrightarrow> (\<forall>k h ms. Pexpire k h ms \<in> set cs \<longrightarrow> len k = Some ms)"

text \<open>A queued release was sent by a call of its own holder, for a key that call holds or tried.\<close>

definition releases_own :: "call list \<Rightarrow> lease_command list \<Rightarrow> bool" where
  "releases_own cs late \<longleftrightarrow> (\<forall>k h. Release k h \<in> set late \<longrightarrow> (\<exists>c \<in> set cs. Release k h \<in> set (release_commands c) \<and> call_holder c = Some h))"

definition fleet_inv :: "(key \<Rightarrow> int option) \<Rightarrow> fleet \<Rightarrow> bool" where
  "fleet_inv len f \<longleftrightarrow> calls_even len (fl_calls f) \<and> late_even len (fl_late f) \<and> releases_own (fl_calls f) (fl_late f)
     \<and> (\<forall>w \<in> set (fl_won f). win_held (fl_store f) w \<and> win_even len (cl_now (fl_store f)) w)
     \<and> distinct (map fst (live_wins f))"

lemma claim_held: "win_held s (k, h, u) \<Longrightarrow> cl_now s < u \<Longrightarrow> claim s k = Some h"
  by (auto simp: win_held_def claim_def)

lemma now_run_command [simp]: "cl_now (run_command c s) = cl_now s"
  by (cases c) (auto simp: set_nx_def release_claim_def delete_if_prefix_def pexpire_def split: option.splits)

lemma now_set_nx [simp]: "cl_now (snd (set_nx k h ttl s)) = cl_now s"
  by (simp add: set_nx_def)

lemma set_nx_holds: "win_held s w \<Longrightarrow> win_held (snd (set_nx k h ttl s)) w"
  by (cases w) (auto simp: win_held_def set_nx_def claim_def)

lemma run_command_holds:
  assumes "win_held s w" "keeps_win c w" "win_even len (cl_now s) w" "\<And>k h ms. c = Pexpire k h ms \<Longrightarrow> len k = Some ms"
  shows "win_held (run_command c s) w"
proof -
  obtain k h u where w: "w = (k, h, u)" by (cases w) auto
  show ?thesis
  proof (cases "cl_now s < u")
    case True
    then obtain e where e: "cl_keys s k = Some (h, e)" "u \<le> e" using assms(1) by (auto simp: win_held_def w)
    then have k: "claim s k = Some h" using True by (simp add: claim_def)
    show ?thesis
    proof (cases c)
      case (Set_nx k' h' t)
      then show ?thesis using set_nx_holds [OF assms(1)] by simp
    next
      case (Release k' h')
      then show ?thesis using assms(2) e k True by (auto simp: w win_held_def release_claim_def)
    next
      case (Delete_prefix k' p)
      then show ?thesis using assms(2) e k True by (auto simp: w win_held_def delete_if_prefix_def split: option.split)
    next
      case (Pexpire k' h' ms)
      then have "len k' = Some ms" using assms(4) by blast
      then show ?thesis using Pexpire assms(3) e k True by (auto simp: w win_held_def win_even_def pexpire_def split: option.split)
    qed
  qed (simp add: win_held_def w)
qed

lemma live_wins_fewer:
  assumes "distinct (map fst (live_wins f))" "cl_now (fl_store f) \<le> cl_now (fl_store f')" "fl_won f' = filter P (fl_won f)"
  shows "distinct (map fst (live_wins f'))"
proof -
  have "live_wins f' = filter (\<lambda>(k, h, u). P (k, h, u) \<and> cl_now (fl_store f') < u) (live_wins f)"
    using assms(2) by (auto simp: live_wins_def assms(3) intro!: filter_cong)
  then show ?thesis using assms(1) by (simp add: distinct_map_filter split_def)
qed

lemma probe_cases:
  assumes "probe r (Probing h t ks tried) s = (c, s', late)"
  obtains "s' = s" "late = [] \<or> (\<exists>k. late = [Set_nx k h t])" "\<And>k h'. c \<noteq> Holding k h'" "\<And>h' t' ks' tried'. c = Probing h' t' ks' tried' \<Longrightarrow> t' = t \<and> set ks' \<subseteq> set ks"
  | k where "s' = snd (set_nx k h t s)" "late = []" "\<And>k h'. c \<noteq> Holding k h'" "\<And>h' t' ks' tried'. c \<noteq> Probing h' t' ks' tried'"
  | k where "claim s k = None" "s' = s\<lparr>cl_keys := (cl_keys s)(k \<mapsto> (h, cl_now s + t))\<rparr>" "late = []" "c = Holding k h" "k \<in> set ks"
proof (cases ks)
  case Nil
  show thesis by (rule that(1)) (use assms Nil in auto)
next
  case (Cons k ks')
  show thesis
  proof (cases r)
    case Answered
    show thesis
    proof (cases "claim s k = None")
      case True
      show thesis by (rule that(3) [OF True]) (use assms Cons Answered True in \<open>auto simp: set_nx_def\<close>)
    next
      case False
      show thesis by (rule that(1)) (use assms Cons Answered False in \<open>auto simp: set_nx_def split: if_splits\<close>)
    qed
  next
    case Reply_lost
    show thesis by (rule that(2) [of k]) (use assms Cons Reply_lost in auto)
  next
    case Not_sent
    show thesis by (rule that(1)) (use assms Cons Not_sent in auto)
  next
    case Queued
    show thesis by (rule that(1)) (use assms Cons Queued in auto)
  qed
qed

lemma calls_even_update: "calls_even len cs \<Longrightarrow> of_length len c \<Longrightarrow> calls_even len (cs[i := c])"
  using set_update_subset_insert [of cs i c] unfolding calls_even_def by blast

lemma calls_even_append [simp]: "calls_even len (xs @ ys) \<longleftrightarrow> calls_even len xs \<and> calls_even len ys"
  by (auto simp: calls_even_def)

lemma late_even_append [simp]: "late_even len (xs @ ys) \<longleftrightarrow> late_even len xs \<and> late_even len ys"
  by (auto simp: late_even_def)

lemma late_even_Nil [simp]: "late_even len []" by (simp add: late_even_def)

lemma late_even_Cons [simp]: "late_even len (c # cs) \<longleftrightarrow> (\<forall>k h ms. c = Pexpire k h ms \<longrightarrow> len k = Some ms) \<and> late_even len cs"
  by (auto simp: late_even_def)

lemma release_even: "late_even len (release_commands c)"
  by (cases c) (auto simp: late_even_def)

lemma refresh_even: "len k = Some ms \<Longrightarrow> late_even len (refresh_get ms (Holding k h) s)"
  by (auto simp: late_even_def)

lemma own_append: "releases_own cs (xs @ ys) \<longleftrightarrow> releases_own cs xs \<and> releases_own cs ys"
  by (auto simp: releases_own_def)

lemma own_none: "(\<And>k h. Release k h \<notin> set ys) \<Longrightarrow> releases_own cs ys"
  by (auto simp: releases_own_def)

lemma own_more: "releases_own cs late \<Longrightarrow> releases_own (cs @ [c]) late"
  by (fastforce simp: releases_own_def)

lemma own_update:
  assumes "releases_own cs late" "i < length cs" "cs ! i = Probing h t ks tried"
  shows "releases_own (cs[i := c]) late"
proof -
  have "c' \<in> set (cs[i := c])" if c': "c' \<in> set cs" "release_commands c' \<noteq> []" for c'
  proof -
    obtain j where j: "j < length cs" "cs ! j = c'" using c'(1) by (auto simp: in_set_conv_nth)
    then have "j \<noteq> i" using assms(3) c'(2) by auto
    then have "(cs[i := c]) ! j = c'" using j by simp
    then show ?thesis using j(1) by (metis length_list_update nth_mem)
  qed
  then show ?thesis using assms(1) unfolding releases_own_def by (metis empty_iff list.set(1))
qed

lemma own_release: "c \<in> set cs \<Longrightarrow> releases_own cs (release_commands c)"
  by (cases c) (force simp: releases_own_def)+

lemma probe_inv:
  assumes "fleet_inv len f" "i < length (fl_calls f)" "fl_calls f ! i = Probing h t ks tried"
  shows "fleet_inv len (after_probe i r t f)"
proof -
  have t: "list_all (\<lambda>k. len k = None \<or> len k = Some t) ks"
    using assms nth_mem [OF assms(2)] by (auto simp: fleet_inv_def calls_even_def of_length_def)
  obtain c s late where p: "probe r (Probing h t ks tried) (fl_store f) = (c, s, late)" by (metis prod_cases3)
  have inv: "calls_even len (fl_calls f)" "late_even len (fl_late f)" "distinct (map fst (live_wins f))"
    "\<And>w. w \<in> set (fl_won f) \<Longrightarrow> win_held (fl_store f) w \<and> win_even len (cl_now (fl_store f)) w"
    "releases_own ((fl_calls f)[i := c]) (fl_late f)"
    using assms(1) own_update [OF _ assms(2,3)] by (auto simp: fleet_inv_def)
  note up = calls_even_update [OF inv(1), of c i]
  let ?f = "after_probe i r t f"
  let ?won = "case c of Holding k h \<Rightarrow> [(k, h, cl_now (fl_store f) + t)] | _ \<Rightarrow> []"
  have f: "fl_store ?f = s" "fl_calls ?f = (fl_calls f)[i := c]" "fl_late ?f = fl_late f @ late" "fl_won ?f = ?won @ fl_won f"
    by (simp_all add: after_probe_def assms(3) p)
  show ?thesis
  proof (rule probe_cases [OF p])
    assume a: "s = fl_store f" "late = [] \<or> (\<exists>k. late = [Set_nx k h t])" "\<And>k h'. c \<noteq> Holding k h'"
      "\<And>h' t' ks' tried'. c = Probing h' t' ks' tried' \<Longrightarrow> t' = t \<and> set ks' \<subseteq> set ks"
    have w: "?won = []" using a(3) by (cases c) auto
    have "of_length len c"
    proof (cases c)
      case (Probing h' t' ks' tried')
      have "t' = t" "set ks' \<subseteq> set ks" using a(4) [OF Probing] by simp_all
      with t show ?thesis unfolding Probing of_length_def list_all_iff call.case by blast
    qed (simp_all add: of_length_def)
    then have "calls_even len ((fl_calls f)[i := c])" by (rule up)
    moreover have "late_even len late" "releases_own ((fl_calls f)[i := c]) late" using a(2) by (auto intro: own_none)
    ultimately show ?thesis using inv by (simp add: fleet_inv_def live_wins_def f w a(1) own_append)
  next
    fix k assume a: "s = snd (set_nx k h t (fl_store f))" "late = []" "\<And>k h'. c \<noteq> Holding k h'" "\<And>h' t' ks' tried'. c \<noteq> Probing h' t' ks' tried'"
    have w: "?won = []" using a(3) by (cases c) auto
    have "calls_even len ((fl_calls f)[i := c])" by (rule up) (use a(4) in \<open>auto simp: of_length_def split: call.split\<close>)
    then show ?thesis using inv set_nx_holds by (simp add: fleet_inv_def live_wins_def f w a(1,2))
  next
    fix k assume a: "claim (fl_store f) k = None" "s = fl_store f\<lparr>cl_keys := (cl_keys (fl_store f))(k \<mapsto> (h, cl_now (fl_store f) + t))\<rparr>"
      "late = []" "c = Holding k h" "k \<in> set ks"
    have other: "k' \<noteq> k" if "(k', h', u) \<in> set (live_wins f)" for k' h' u
      using claim_held [of "fl_store f" k' h' u] inv(4) [of "(k', h', u)"] that a(1) by (auto simp: live_wins_def)
    have live: "live_wins ?f = (if 0 < t then [(k, h, cl_now (fl_store f) + t)] else []) @ live_wins f"
      by (simp add: live_wins_def f a(2,4))
    have "distinct (map fst (live_wins ?f))" using inv(3) other by (force simp: live)
    moreover have "win_held s w" if "w \<in> set (fl_won f)" for w
    proof (cases w)
      case (fields k' h' u)
      show ?thesis
      proof (cases "cl_now (fl_store f) < u")
        case True
        then have "k' \<noteq> k" using other that fields by (auto simp: live_wins_def)
        then show ?thesis using inv(4) [OF that] by (auto simp: fields win_held_def a(2))
      qed (simp add: fields win_held_def a(2))
    qed
    moreover have "win_held s (k, h, cl_now (fl_store f) + t)" by (simp add: win_held_def a(2))
    moreover have "win_even len (cl_now s) (k, h, cl_now (fl_store f) + t)" using t a(5) by (auto simp: win_even_def a(2) list_all_iff)
    moreover have "calls_even len ((fl_calls f)[i := c])" by (rule up) (simp add: a(4) of_length_def)
    ultimately show ?thesis using inv by (simp add: fleet_inv_def f a(2-4))
  qed
qed

lemma win_even_later: "win_even len now w \<Longrightarrow> now \<le> now' \<Longrightarrow> win_even len now' w"
  by (cases w) (force simp: win_even_def)

lemma fleet_by_inv: "fleet_by len a f f' \<Longrightarrow> fleet_inv len f \<Longrightarrow> fleet_inv len f'"
proof (induction rule: fleet_by.induct)
  case (wait d f)
  let ?f = "f\<lparr>fl_store := (fl_store f)\<lparr>cl_now := cl_now (fl_store f) + d\<rparr>\<rparr>"
  have "distinct (map fst (live_wins ?f))"
    by (rule live_wins_fewer [of f _ "\<lambda>_. True"]) (use wait in \<open>simp_all add: fleet_inv_def\<close>)
  moreover have "win_held (fl_store ?f) w" if "win_held (fl_store f) w" for w
    using that wait(1) by (auto simp: win_held_def split: prod.splits)
  moreover have "win_even len (cl_now (fl_store ?f)) w" if "win_even len (cl_now (fl_store f)) w" for w
    using win_even_later [OF that] wait(1) by simp
  ultimately show ?case using wait by (simp add: fleet_inv_def)
next
  case (enter key_for worker i ttl slots f)
  then show ?case by (simp add: fleet_inv_def live_wins_def own_more) (simp add: calls_even_def)
next
  case (probe i f h t ks tried r)
  show ?case by (rule probe_inv [OF probe(3,1,2)])
next
  case (release c f h)
  then show ?case using release_even own_release [OF release(1)] by (simp add: fleet_inv_def live_wins_def own_append)
next
  case (refresh k h f ms)
  have "releases_own (fl_calls f) (refresh_get ms (Holding k h) (fl_store f))" by (rule own_none) simp
  then show ?case using refresh refresh_even [of len k ms, OF refresh(2)] by (simp add: fleet_inv_def live_wins_def own_append del: refresh_get.simps)
next
  case (sweep worker f k)
  have "releases_own (fl_calls f) [Delete_prefix k (worker @ ''#'')]" by (rule own_none) simp
  then show ?case using sweep by (simp add: fleet_inv_def live_wins_def own_append)
next
  case (land f xs c ys)
  let ?f = "after_command c (f\<lparr>fl_late := xs @ ys\<rparr>)"
  have f: "fl_store ?f = run_command c (fl_store f)" "fl_calls ?f = fl_calls f" "fl_late ?f = xs @ ys" "fl_won ?f = filter (keeps_win c) (fl_won f)"
    by (simp_all add: after_command_def)
  have "distinct (map fst (live_wins ?f))"
    by (rule live_wins_fewer [of f _ "keeps_win c"]) (use land in \<open>simp_all add: fleet_inv_def f\<close>)
  moreover have "win_held (fl_store ?f) w \<and> win_even len (cl_now (fl_store ?f)) w" if "w \<in> set (fl_won ?f)" for w
    using run_command_holds [of "fl_store f" w c len] that land by (auto simp: fleet_inv_def f)
  moreover have "releases_own (fl_calls f) (xs @ ys)" using land by (auto simp: fleet_inv_def releases_own_def)
  ultimately show ?case using land by (simp add: fleet_inv_def f)
next
  case (lose f xs c ys)
  have "releases_own (fl_calls f) (xs @ ys)" using lose by (auto simp: fleet_inv_def releases_own_def)
  then show ?case using lose by (simp add: fleet_inv_def live_wins_def)
qed

lemma fleet_step_inv: "fleet_step len f f' \<Longrightarrow> fleet_inv len f \<Longrightarrow> fleet_inv len f'"
  by (auto simp: fleet_step_def intro: fleet_by_inv)

lemma fleet_reachable_inv:
  assumes "(fleet_step len)\<^sup>*\<^sup>* (idle_fleet t) f"
  shows "fleet_inv len f"
  using assms
proof (induction rule: rtranclp_induct)
  case base
  show ?case by (simp add: idle_fleet_def fleet_inv_def calls_even_def live_wins_def releases_own_def)
qed (rule fleet_step_inv)

text \<open>
  C2: However hosts, faults, commands run late and the clock interleave, and whatever length each call's
  lease has, no slot is won by two jobs within one lease: every win whose lease still runs and that neither its own release nor a sweep of
  its own host gave up is the value in the store, and the slots of a bound of \<open>n\<close> carry at most
  \<open>n\<close> of them.
\<close>

theorem slots_never_overbooked:
  assumes "(fleet_step len)\<^sup>*\<^sup>* (idle_fleet t) f"
  shows "(\<forall>(k, h, u) \<in> set (live_wins f). claim (fl_store f) k = Some h)
    \<and> length (filter (\<lambda>w. fst w \<in> key_for ` {..<n}) (live_wins f)) \<le> n"
proof
  note inv = fleet_reachable_inv [OF assms]
  show "\<forall>(k, h, u) \<in> set (live_wins f). claim (fl_store f) k = Some h"
    using inv claim_held by (fastforce simp: fleet_inv_def live_wins_def)
  let ?ws = "filter (\<lambda>w. fst w \<in> key_for ` {..<n}) (live_wins f)"
  have "distinct (map fst ?ws)" using inv by (simp add: fleet_inv_def distinct_map_filter)
  then have "length ?ws = card (set (map fst ?ws))" by (metis distinct_card length_map)
  also have "\<dots> \<le> card (key_for ` {..<n})" by (rule card_mono) auto
  also have "\<dots> \<le> n" using card_image_le [of "{..<n}" key_for] by simp
  finally show "length ?ws \<le> n" .
qed

section \<open>A refresh that answers yes for another host's slot\<close>

text \<open>One slot, hosts \<open>a\<close> and \<open>b\<close>: \<open>a\<close> wins it, asks whether it still holds it just before the lease
  ends, \<open>b\<close> wins it, and the second command of the refresh runs.\<close>

definition race_key :: key where "race_key = check_slot_key 0"

definition race_len :: "key \<Rightarrow> int option" where "race_len = (\<lambda>_. Some 10)"

definition race_fleet :: "int \<Rightarrow> (string \<times> int) option \<Rightarrow> call list \<Rightarrow> lease_command list \<Rightarrow> (key \<times> string \<times> int) list \<Rightarrow> (key \<times> string) list \<Rightarrow> fleet" where
  "race_fleet t v calls late won yes =
     \<lparr>fl_store = \<lparr>cl_now = t, cl_keys = (\<lambda>k. if k = race_key then v else None)\<rparr>, fl_calls = calls, fl_late = late, fl_won = won, fl_yes = yes\<rparr>"

definition race_call :: "string \<Rightarrow> call" where "race_call h = Probing h 10 [race_key] []"

lemma race_open: "open_call check_slot_key w i 10 (Some 1) = race_call (w @ ''#'' @ i)"
  by (simp add: open_call_def race_call_def probe_keys_def first_slot_def race_key_def)

lemma race_enter: "fleet_step race_len (race_fleet t v calls late won yes) (race_fleet t v (calls @ [race_call (w @ ''#'' @ i)]) late won yes)"
  using fleet_stepI [OF fleet_by.enter [of race_len check_slot_key w i 10 "Some 1" "race_fleet t v calls late won yes"]]
  by (simp add: race_open of_length_def race_call_def race_len_def) (simp add: race_fleet_def race_call_def)

lemma race_wins:
  assumes "\<forall>h e. v = Some (h, e) \<longrightarrow> e \<le> t"
  shows "fleet_step race_len (race_fleet t v (calls @ [race_call h]) late won yes)
    (race_fleet t (Some (h, t + 10)) (calls @ [Holding race_key h]) late ((race_key, h, t + 10) # won) yes)"
proof -
  let ?f = "race_fleet t v (calls @ [race_call h]) late won yes"
  have "claim (fl_store ?f) race_key = None" using assms by (auto simp: race_fleet_def claim_def split: option.split)
  moreover have "(\<lambda>k. if k = race_key then v else None)(race_key \<mapsto> (h, t + 10)) = (\<lambda>k. if k = race_key then Some (h, t + 10) else None)" by auto
  ultimately have "after_probe (length calls) Answered 10 ?f
    = race_fleet t (Some (h, t + 10)) (calls @ [Holding race_key h]) late ((race_key, h, t + 10) # won) yes"
    by (simp add: after_probe_def race_fleet_def race_call_def set_nx_def)
  then show ?thesis
    using fleet_stepI [OF fleet_by.probe [of "length calls" ?f h 10 "[race_key]" "[]" race_len Answered]] by (simp add: race_fleet_def race_call_def)
qed

lemma race_wait: "0 \<le> d \<Longrightarrow> fleet_step race_len (race_fleet t v calls late won yes) (race_fleet (t + d) v calls late won yes)"
  using fleet_stepI [OF fleet_by.wait [of d race_len "race_fleet t v calls late won yes"]] by (simp add: race_fleet_def)

lemma race_refresh:
  "fleet_step race_len (race_fleet 9 (Some (h, 10)) [Holding race_key h] [] won yes) (race_fleet 9 (Some (h, 10)) [Holding race_key h] [Pexpire race_key h 10] won yes)"
  using fleet_stepI [OF fleet_by.refresh [of race_key h "race_fleet 9 (Some (h, 10)) [Holding race_key h] [] won yes" race_len 10]]
  by (simp add: race_fleet_def claim_def race_len_def)

lemma race_start: "idle_fleet 0 = race_fleet 0 None [] [] [] []"
  by (simp add: idle_fleet_def race_fleet_def)

lemma race_first: "(fleet_step race_len)\<^sup>*\<^sup>* (idle_fleet 0) (race_fleet 0 (Some (''a#1'', 10)) [Holding race_key ''a#1''] [] [(race_key, ''a#1'', 10)] [])"
proof -
  have "fleet_step race_len (idle_fleet 0) (race_fleet 0 None [race_call ''a#1''] [] [] [])"
    using race_enter [of 0 None "[]" "[]" "[]" "[]" "''a''" "''1''"] by (simp add: race_start)
  moreover have "fleet_step race_len (race_fleet 0 None [race_call ''a#1''] [] [] [])
    (race_fleet 0 (Some (''a#1'', 10)) [Holding race_key ''a#1''] [] [(race_key, ''a#1'', 10)] [])"
    using race_wins [of None 0 "[]" "''a#1''" "[]" "[]" "[]"] by simp
  ultimately show ?thesis by (meson converse_rtranclp_into_rtranclp rtranclp.rtrancl_refl)
qed

lemma slots_never_overbooked_witness:
  "length (live_wins (race_fleet 0 (Some (''a#1'', 10)) [Holding race_key ''a#1''] [] [(race_key, ''a#1'', 10)] [])) = 1
   \<and> length (filter (\<lambda>w. fst w \<in> check_slot_key ` {..<1})
       (live_wins (race_fleet 0 (Some (''a#1'', 10)) [Holding race_key ''a#1''] [] [(race_key, ''a#1'', 10)] []))) \<le> 1"
  using slots_never_overbooked [OF race_first, of check_slot_key 1] by (simp add: live_wins_def race_fleet_def)

text \<open>
  A refresh is two commands, a GET and a PEXPIRE: between them the lease can end and another host
  win the slot, and the refresh then answers that the slot is still held, and lengthens the other
  host's lease instead.
\<close>

theorem refresh_can_answer_for_another:
  "\<exists>f f' k h h' u. (fleet_step race_len)\<^sup>*\<^sup>* (idle_fleet 0) f \<and> fleet_step race_len f f' \<and> Holding k h \<in> set (fl_calls f)
     \<and> fl_yes f' = (k, h) # fl_yes f \<and> (k, h', u) \<in> set (live_wins f) \<and> claim (fl_store f) k = Some h' \<and> h' \<noteq> h
     \<and> claim (fl_store f') k = Some h'"
proof -
  let ?wa = "[(race_key, ''a#1'', 10)]" and ?p = "[Pexpire race_key ''a#1'' 10]"
  let ?wb = "(race_key, ''b#2'', 20) # ?wa" and ?ca = "Holding race_key ''a#1''" and ?cb = "Holding race_key ''b#2''"
  let ?f = "race_fleet 10 (Some (''b#2'', 20)) [?ca, ?cb] ?p ?wb []"
  have w: "fleet_step race_len (race_fleet 0 (Some (''a#1'', 10)) [?ca] [] ?wa []) (race_fleet 9 (Some (''a#1'', 10)) [?ca] [] ?wa [])"
    "fleet_step race_len (race_fleet 9 (Some (''a#1'', 10)) [?ca] ?p ?wa []) (race_fleet 10 (Some (''a#1'', 10)) [?ca] ?p ?wa [])"
    using race_wait [of 9 0] race_wait [of 1 9] by simp_all
  have e: "fleet_step race_len (race_fleet 10 (Some (''a#1'', 10)) [?ca] ?p ?wa []) (race_fleet 10 (Some (''a#1'', 10)) [?ca, race_call ''b#2''] ?p ?wa [])"
    using race_enter [of 10 "Some (''a#1'', 10)" "[?ca]" ?p ?wa "[]" "''b''" "''2''"] by simp
  have b: "fleet_step race_len (race_fleet 10 (Some (''a#1'', 10)) [?ca, race_call ''b#2''] ?p ?wa []) ?f"
    using race_wins [of "Some (''a#1'', 10)" 10 "[?ca]" "''b#2''" ?p ?wa "[]"] by simp
  have r: "(fleet_step race_len)\<^sup>*\<^sup>* (idle_fleet 0) ?f"
    using race_first w(1) race_refresh [of "''a#1''" ?wa "[]"] w(2) e b by (meson rtranclp.rtrancl_into_rtrancl)
  let ?g = "after_command (Pexpire race_key ''a#1'' 10) (?f\<lparr>fl_late := []\<rparr>)"
  have "fleet_step race_len ?f ?g" using fleet_stepI [OF fleet_by.land [of ?f "[]" "Pexpire race_key ''a#1'' 10" "[]" race_len]] by (simp add: race_fleet_def)
  moreover have "fl_yes ?g = (race_key, ''a#1'') # fl_yes ?f" "claim (fl_store ?f) race_key = Some ''b#2''" "claim (fl_store ?g) race_key = Some ''b#2''"
    "?ca \<in> set (fl_calls ?f)" "(race_key, ''b#2'', 20) \<in> set (live_wins ?f)"
    by (simp_all add: after_command_def race_fleet_def claim_def pexpire_def live_wins_def)
  moreover have "''b#2'' \<noteq> ''a#1''" by simp
  ultimately show ?thesis using r by blast
qed

section \<open>Acquire finds a free slot\<close>

lemma probe_keys_set: "set (probe_keys key_for i n) = key_for ` {..<n}"
proof (cases "n = 0")
  case False
  let ?a = "first_slot i n"
  have "(\<lambda>m. (?a + m) mod n) ` {..<n} = {..<n}"
  proof (rule endo_inj_surj)
    show "inj_on (\<lambda>m. (?a + m) mod n) {..<n}"
    proof (rule inj_onI)
      have le: "y \<le> x" if "x < n" "y < n" "(?a + x) mod n = (?a + y) mod n" for x y
      proof (rule ccontr)
        assume "\<not> y \<le> x"
        then have "n dvd y - x" using that(3) mod_eq_dvd_iff_nat [of "?a + x" "?a + y" n] by simp
        with that(2) \<open>\<not> y \<le> x\<close> show False using dvd_imp_le [of n "y - x"] by simp
      qed
      fix x y assume "x \<in> {..<n}" "y \<in> {..<n}" "(?a + x) mod n = (?a + y) mod n"
      then show "x = y" using le [of x y] le [of y x] by simp
    qed
  qed (use False in auto)
  then have "key_for ` {..<n} = key_for ` (\<lambda>m. (?a + m) mod n) ` {..<n}" by simp
  then show ?thesis by (simp add: probe_keys_def image_image lessThan_atLeast0)
qed (simp add: probe_keys_def)

lemma claim_set_nx: "0 < ttl \<Longrightarrow> claim (snd (set_nx k h ttl s)) k' = (if k' = k \<and> claim s k = None then Some h else claim s k')"
  by (auto simp: claim_def set_nx_def split: option.splits)

lemma acquire_from_free:
  assumes "claim s k = None" "k \<in> set ks" "0 < ttl" "\<And>m s. claim s k = None \<Longrightarrow> claim (env m s) k = None"
    and "acquire_from env rs n ks tried h ttl s = (c, s')"
  shows "(\<exists>k'. c = Holding k' h \<and> k' \<in> set ks \<and> claim s' k' = Some h)
    \<or> (\<exists>ks'. c = Open_degraded ks' h \<and> (\<exists>m < length ks. rs (n + m) \<noteq> Answered))"
  using assms(1,2,5)
proof (induction ks arbitrary: n tried s)
  case (Cons k1 ks)
  let ?s = "env n s"
  have free: "claim ?s k = None" using assms(4) Cons.prems(1) .
  show ?case
  proof (cases "rs n = Answered")
    case True
    show ?thesis
    proof (cases "claim ?s k1 = None")
      case True
      have "c = Holding k1 h" "s' = snd (set_nx k1 h ttl ?s)" using Cons.prems(3) True \<open>rs n = Answered\<close> by (auto simp: set_nx_def)
      then show ?thesis using True claim_set_nx [OF assms(3)] by auto
    next
      case False
      then have k: "k \<in> set ks" "ks \<noteq> []" using Cons.prems(2) free by auto
      have "acquire_from env rs (Suc n) ks (tried @ [k1]) h ttl ?s = (c, s')"
        using Cons.prems(3) \<open>rs n = Answered\<close> False k(2) by (simp add: set_nx_def)
      from Cons.IH [OF free k(1) this] show ?thesis
      proof
        assume "\<exists>ks'. c = Open_degraded ks' h \<and> (\<exists>m < length ks. rs (Suc n + m) \<noteq> Answered)"
        then obtain ks' m where "c = Open_degraded ks' h" "m < length ks" "rs (Suc n + m) \<noteq> Answered" by blast
        then show ?thesis by (intro disjI2 exI [of _ ks'] conjI exI [of _ "Suc m"]) simp_all
      qed auto
    qed
  next
    case False
    then have "\<exists>ks'. c = Open_degraded ks' h" using Cons.prems(3) by (cases "rs n") auto
    then show ?thesis using False by (auto intro!: exI [of _ 0])
  qed
qed simp

text \<open>
  C32: A slot that stays free while a job asks is found: whatever the others do to the other slots
  meanwhile, acquire answers a slot of its own, or the degraded handle when a command was not
  answered, never that all are held.
\<close>

theorem acquire_finds_free_slot:
  assumes "acquire env rs key_for worker i ttl (Some (int n)) s = (c, s')" "0 < ttl" "k \<in> key_for ` {..<n}"
    and "claim s k = None" "\<And>m s. claim s k = None \<Longrightarrow> claim (env m s) k = None"
  shows "(\<exists>k' \<in> key_for ` {..<n}. c = Holding k' (worker @ ''#'' @ i) \<and> claim s' k' = Some (worker @ ''#'' @ i))
    \<or> (\<exists>ks. c = Open_degraded ks (worker @ ''#'' @ i) \<and> (\<exists>m < n. rs m \<noteq> Answered))"
proof -
  let ?ks = "probe_keys key_for i n"
  have "0 < n" using assms(3) by auto
  then have "acquire_from env rs 0 ?ks [] (worker @ ''#'' @ i) ttl s = (c, s')"
    using assms(1) by (simp add: acquire_def open_call_def)
  from acquire_from_free [OF assms(4) _ assms(2) assms(5) this] show ?thesis
    using assms(3) by (simp add: probe_keys_set) (auto simp: probe_keys_def)
qed

lemma acquire_finds_free_slot_witness:
  "\<exists>c s'. acquire (\<lambda>m s. s) (\<lambda>m. Answered) check_slot_key ''a'' ''1'' 10 (Some (int 2)) \<lparr>cl_now = 0, cl_keys = (\<lambda>_. None)\<rparr> = (c, s')
     \<and> (\<exists>k'. c = Holding k' ''a#1'' \<and> claim s' k' = Some ''a#1'')"
proof -
  obtain c s' where a: "acquire (\<lambda>m s. s) (\<lambda>m. Answered) check_slot_key ''a'' ''1'' 10 (Some (int 2)) \<lparr>cl_now = 0, cl_keys = (\<lambda>_. None)\<rparr> = (c, s')"
    by (metis surj_pair)
  have "(\<exists>k' \<in> check_slot_key ` {..<2 :: nat}. c = Holding k' (''a'' @ ''#'' @ ''1'') \<and> claim s' k' = Some (''a'' @ ''#'' @ ''1''))
    \<or> (\<exists>ks. c = Open_degraded ks (''a'' @ ''#'' @ ''1'') \<and> (\<exists>m < (2 :: nat). Answered \<noteq> Answered))"
    by (rule acquire_finds_free_slot [OF a, of "check_slot_key 0"]) (simp_all add: claim_def)
  with a show ?thesis by auto
qed

section \<open>The boot sweep\<close>

lemma claim_delete: "claim (snd (delete_if_prefix k p s)) k'
    = (if k' = k \<and> (\<exists>v. claim s k = Some v \<and> prefix p v) then None else claim s k')"
  by (auto simp: claim_def delete_if_prefix_def split: option.splits)

definition own_claim :: "string \<Rightarrow> claims \<Rightarrow> key \<Rightarrow> bool" where
  "own_claim p s k \<longleftrightarrow> (\<exists>v. claim s k = Some v \<and> prefix p v)"

lemma own_claim_delete: "own_claim p (snd (delete_if_prefix k p s)) k' \<longleftrightarrow> k' \<noteq> k \<and> own_claim p s k'"
  by (auto simp: own_claim_def claim_delete)

lemma sweep_row_keys_spec:
  assumes "sweep_row_keys rs n ks p swept s = ((m, skipped), s')"
  shows "(\<not> own_claim p s k \<or> k \<notin> set ks \<longrightarrow> claim s' k = claim s k)
    \<and> ((\<forall>i. rs i = Swept) \<longrightarrow> \<not> skipped \<and> (k \<in> set ks \<longrightarrow> \<not> own_claim p s' k))"
  using assms
proof (induction ks arbitrary: n swept s)
  case (Cons k1 ks)
  let ?s = "snd (delete_if_prefix k1 p s)"
  show ?case
  proof (cases "rs n")
    case Swept
    then have r: "sweep_row_keys rs (Suc n) ks p (swept + fst (delete_if_prefix k1 p s)) ?s = ((m, skipped), s')"
      using Cons.prems by (simp add: split_def)
    note ih = Cons.IH [OF r]
    have keep: "claim s' k = claim s k" if "\<not> own_claim p s k \<or> k \<notin> set (k1 # ks)"
    proof -
      have "claim ?s k = claim s k" using that unfolding claim_delete own_claim_def by auto
      moreover have "\<not> own_claim p ?s k \<or> k \<notin> set ks" using that unfolding own_claim_delete by auto
      ultimately show ?thesis using conjunct1 [OF ih] by simp
    qed
    have "\<not> own_claim p s' k" if "\<forall>i. rs i = Swept" "k \<in> set (k1 # ks)"
    proof (cases "k \<in> set ks")
      case False
      then have "claim s' k = claim ?s k" using ih by blast
      then show ?thesis using that(2) False own_claim_delete [of p k1 s k] by (simp add: own_claim_def)
    qed (use ih that(1) in blast)
    with keep conjunct2 [OF ih] show ?thesis by simp
  next
    case Key_error
    then have "sweep_row_keys rs (Suc n) ks p swept s = ((m, skipped), s')" using Cons.prems by simp
    from conjunct1 [OF Cons.IH [OF this]] show ?thesis using Key_error by (metis list.set_intros(2) sweep_reply.distinct(1))
  next
    case (Server_fault b)
    then have "s' = (if b then ?s else s)" using Cons.prems by simp
    then have "\<not> own_claim p s k \<or> k \<notin> set (k1 # ks) \<longrightarrow> claim s' k = claim s k"
      by (auto simp: claim_delete own_claim_def)
    then show ?thesis using Server_fault by (metis sweep_reply.distinct(3))
  qed
qed simp

lemma scope_slot_swept:
  assumes "l \<in> set limits" "lm_concurrent l = Some c" "i < nat c" "hash (lm_scope l) \<noteq> []"
  shows "scope_slot_key (hash (lm_scope l)) i \<in> set (sweep_keys scope_slot_key (scope_claim_rows hash limits))"
proof -
  have "1 \<le> c" using assms(3) by simp
  let ?keys = "\<lambda>(c, h). case c of None \<Rightarrow> [] | Some n \<Rightarrow> if n < 1 \<or> h = [] then [] else map (scope_slot_key h) [0..<nat n]"
  have "(lm_concurrent l, hash (lm_scope l)) \<in> set (scope_claim_rows hash limits)"
    unfolding scope_claim_rows_def set_map using assms(1) by (rule imageI)
  moreover have "scope_slot_key (hash (lm_scope l)) i \<in> set (?keys (lm_concurrent l, hash (lm_scope l)))"
    using \<open>1 \<le> c\<close> assms(2-4) by simp
  ultimately show ?thesis unfolding sweep_keys_def set_concat set_map by blast
qed

lemma own_claim_worker:
  assumes "claim s k = Some (w @ ''#'' @ i)" "CHR ''#'' \<notin> set w" "CHR ''#'' \<notin> set worker"
  shows "own_claim (worker @ ''#'') s k \<longleftrightarrow> w = worker"
proof
  assume "own_claim (worker @ ''#'') s k"
  then have "prefix (worker @ ''#'') (w @ ''#'' @ i)" using assms(1) by (auto simp: own_claim_def)
  then obtain r where "w @ CHR ''#'' # i = worker @ CHR ''#'' # r" by (auto simp: prefix_def)
  then have "takeWhile (\<lambda>c. c \<noteq> CHR ''#'') (w @ CHR ''#'' # i) = takeWhile (\<lambda>c. c \<noteq> CHR ''#'') (worker @ CHR ''#'' # r)" by simp
  moreover have "takeWhile (\<lambda>c. c \<noteq> CHR ''#'') (v @ CHR ''#'' # x) = v" if "CHR ''#'' \<notin> set v" for v x
    using that by (induction v) auto
  ultimately show "w = worker" using assms(2,3) by metis
qed (use assms(1) in \<open>auto simp: own_claim_def\<close>)

text \<open>
  The boot sweep never frees another host's slot, whatever is answered, and changes nothing when
  the reaper listed no containers; answered throughout, it leaves no slot of a scope row of the limits
  file claimed by this host.
\<close>

theorem boot_sweep_exact:
  assumes "scope_sweep rs hash worker limits reaped s = ((m, skipped), s')" "CHR ''#'' \<notin> set worker"
  shows "(\<forall>k w i. claim s k = Some (w @ ''#'' @ i) \<longrightarrow> CHR ''#'' \<notin> set w \<longrightarrow> w \<noteq> worker \<longrightarrow> claim s' k = Some (w @ ''#'' @ i))
    \<and> (\<not> reaped \<longrightarrow> skipped \<and> s' = s)
    \<and> (reaped \<longrightarrow> (\<forall>n. rs n = Swept) \<longrightarrow> \<not> skipped \<and>
        (\<forall>l c n. l \<in> set limits \<longrightarrow> lm_concurrent l = Some c \<longrightarrow> n < nat c \<longrightarrow> hash (lm_scope l) \<noteq> [] \<longrightarrow>
           \<not> own_claim (worker @ ''#'') s' (scope_slot_key (hash (lm_scope l)) n)))"
proof (cases reaped)
  case True
  then have r: "sweep_row_keys rs 0 (sweep_keys scope_slot_key (scope_claim_rows hash limits)) (worker @ ''#'') 0 s = ((m, skipped), s')"
    using assms(1) by (simp add: scope_sweep_def sweep_claims_def)
  note spec = sweep_row_keys_spec [OF r]
  have "claim s' k = Some (w @ ''#'' @ i)" if "claim s k = Some (w @ ''#'' @ i)" "CHR ''#'' \<notin> set w" "w \<noteq> worker" for k w i
    using spec [of k] own_claim_worker [OF that(1,2) assms(2)] that by simp
  moreover have "\<not> own_claim (worker @ ''#'') s' (scope_slot_key (hash (lm_scope l)) n)"
    if "\<forall>n. rs n = Swept" "l \<in> set limits" "lm_concurrent l = Some c" "n < nat c" "hash (lm_scope l) \<noteq> []" for l c n
    using spec [of "scope_slot_key (hash (lm_scope l)) n"] scope_slot_swept [of l limits c n hash, OF that(2-5)] that(1) by blast
  ultimately show ?thesis using True spec by blast
next
  case False
  then show ?thesis using assms(1) by (simp add: scope_sweep_def sweep_claims_def)
qed

lemma boot_sweep_exact_witness:
  "claim (snd (scope_sweep (\<lambda>_. Swept) (\<lambda>s. ''0123456789abcdef'') ''a'' [(bare_limit ''o/r'')\<lparr>lm_concurrent := Some 1\<rparr>] True
       \<lparr>cl_now = 0, cl_keys = (\<lambda>_. Some (''b#2'', 5))\<rparr>)) ''slot:s:0123456789abcdef:0'' = Some ''b#2''"
proof -
  let ?s = "\<lparr>cl_now = 0, cl_keys = (\<lambda>_. Some (''b#2'', 5 :: int))\<rparr>"
  let ?r = "scope_sweep (\<lambda>_. Swept) (\<lambda>s. ''0123456789abcdef'') ''a'' [(bare_limit ''o/r'')\<lparr>lm_concurrent := Some 1\<rparr>] True ?s"
  have e: "?r = ((fst (fst ?r), snd (fst ?r)), snd ?r)" by simp
  have h: "CHR ''#'' \<notin> set ''a''" by simp
  have c: "claim ?s ''slot:s:0123456789abcdef:0'' = Some (''b'' @ ''#'' @ ''2'')" by (simp add: claim_def)
  have w: "CHR ''#'' \<notin> set ''b''" "''b'' \<noteq> ''a''" by simp_all
  show ?thesis
    using conjunct1 [OF boot_sweep_exact [OF e h], rule_format, OF c w] by simp
qed

section \<open>Refinement of a slot table\<close>

text \<open>What the fleet is promised, with no store, no queue and no calls: a slot has at most one holder
  until its lease ends; only the clock ends leases; a job takes a slot that has no holder, for itself,
  for its family's length, and gives up a slot it has; a host gives up the slots its own jobs have,
  those whose holder begins with its prefix; and nobody does anything else.\<close>

record slot_table =
  st_now :: int
  st_slots :: "key \<Rightarrow> (string \<times> int) option"

inductive slot_step :: "(key \<Rightarrow> int option) \<Rightarrow> actor \<Rightarrow> slot_table \<Rightarrow> slot_table \<Rightarrow> bool" for len where
  keep: "slot_step len a t t"
| pass: "0 \<le> d \<Longrightarrow> slot_step len Clock t
    \<lparr>st_now = st_now t + d, st_slots = (\<lambda>k. case st_slots t k of None \<Rightarrow> None | Some (h, u) \<Rightarrow> if st_now t + d < u then Some (h, u) else None)\<rparr>"
| grant: "st_slots t k = None \<Longrightarrow> len k = None \<or> len k = Some ms \<Longrightarrow> slot_step len (Job h) t (t\<lparr>st_slots := (st_slots t)(k \<mapsto> (h, st_now t + ms))\<rparr>)"
| give_up: "st_slots t k = Some (h, u) \<Longrightarrow> slot_step len (Job h) t (t\<lparr>st_slots := (st_slots t)(k := None)\<rparr>)"
| sweep: "st_slots t k = Some (h, u) \<Longrightarrow> prefix p h \<Longrightarrow> slot_step len (Host p) t (t\<lparr>st_slots := (st_slots t)(k := None)\<rparr>)"

text \<open>In the table a slot leaves its holder by the end of the lease, by the holder itself or by its own host.\<close>

lemma slot_kept:
  "slot_step len a t t' \<Longrightarrow> st_slots t k = Some (h, u) \<Longrightarrow>
   st_slots t' k = Some (h, u) \<or> (a = Clock \<and> u \<le> st_now t') \<or> a = Job h \<or> (\<exists>p. a = Host p \<and> prefix p h)"
  by (induction rule: slot_step.induct) (auto split: if_splits)

lemma slot_taken:
  "slot_step len a t t' \<Longrightarrow> st_slots t' k = Some (h, u) \<Longrightarrow> st_slots t k = Some (h, u) \<or> (st_slots t k = None \<and> a = Job h)"
  by (induction rule: slot_step.induct) (auto split: if_splits option.splits prod.splits)

definition slot_table_of :: "fleet \<Rightarrow> slot_table" where
  "slot_table_of f = \<lparr>st_now = cl_now (fl_store f), st_slots = map_of (live_wins f)\<rparr>"

lemma map_of_filter_distinct:
  assumes "distinct (map fst xs)"
  shows "map_of (filter P xs) slot = (case map_of xs slot of Some h \<Rightarrow> if P (slot, h) then Some h else None | None \<Rightarrow> None)"
  using assms
proof (induction xs)
  case (Cons x xs)
  show ?case
  proof (cases "fst x = slot")
    case True
    then have "map_of xs slot = None" using Cons.prems by (auto simp: map_of_eq_None_iff)
    then show ?thesis using True Cons by (cases x) (auto split: option.split)
  qed (use Cons in \<open>cases x; auto split: option.split\<close>)
qed simp

lemma live_after_command: "live_wins (after_command c (f\<lparr>fl_late := l\<rparr>)) = filter (keeps_win c) (live_wins f)"
  by (simp add: live_wins_def after_command_def conj_commute)

lemma lost_win: "\<not> keeps_win c (k, h, u) \<Longrightarrow> command_actor c = Job h \<or> (\<exists>p. command_actor c = Host p \<and> prefix p h)"
  by (cases c) auto

lemma keeps_win_key: "\<exists>k. \<forall>w. \<not> keeps_win c w \<longrightarrow> fst w = k"
  by (cases c) (auto simp: split_paired_all)

lemma land_refines:
  assumes "distinct (map fst (live_wins f))"
  shows "slot_step len (command_actor c) (slot_table_of f) (slot_table_of (after_command c (f\<lparr>fl_late := l\<rparr>)))"
proof -
  let ?f = "after_command c (f\<lparr>fl_late := l\<rparr>)"
  obtain k where k: "\<And>w. \<not> keeps_win c w \<Longrightarrow> fst w = k" using keeps_win_key by blast
  have other: "keeps_win c (x, v)" if "x \<noteq> k" for x v using k [of "(x, v)"] that by auto
  have now: "cl_now (fl_store ?f) = cl_now (fl_store f)" by (simp add: after_command_def)
  show ?thesis
  proof (cases "map_of (live_wins f) k")
    case None
    have "map_of (live_wins ?f) x = map_of (live_wins f) x" for x
      unfolding live_after_command map_of_filter_distinct [OF assms]
      by (cases "x = k") (simp_all add: None other split: option.split)
    then have "map_of (live_wins ?f) = map_of (live_wins f)" by blast
    then have "slot_table_of ?f = slot_table_of f" using now by (simp add: slot_table_of_def)
    then show ?thesis using slot_step.keep by simp
  next
    case (Some hu)
    obtain h u where hu: "hu = (h, u)" by (cases hu)
    have "map_of (live_wins ?f) x = (if keeps_win c (k, hu) then map_of (live_wins f) else (map_of (live_wins f))(k := None)) x" for x
      unfolding live_after_command map_of_filter_distinct [OF assms]
      by (cases "x = k") (simp_all add: Some other split: option.split)
    then have m: "map_of (live_wins ?f) = (if keeps_win c (k, hu) then map_of (live_wins f) else (map_of (live_wins f))(k := None))" by blast
    show ?thesis
    proof (cases "keeps_win c (k, hu)")
      case True
      then have "slot_table_of ?f = slot_table_of f" using m now by (simp add: slot_table_of_def)
      then show ?thesis using slot_step.keep by simp
    next
      case False
      have s: "st_slots (slot_table_of f) k = Some (h, u)" using Some hu by (simp add: slot_table_of_def)
      have "slot_table_of ?f = slot_table_of f\<lparr>st_slots := (st_slots (slot_table_of f))(k := None)\<rparr>"
        using m False now by (simp add: slot_table_of_def)
      then show ?thesis
        using lost_win [of c k h u] False slot_step.give_up [OF s, of len] slot_step.sweep [OF s, of _ len] unfolding hu by auto
    qed
  qed
qed

lemma wait_refines:
  assumes "distinct (map fst (live_wins f))" "0 \<le> d"
  shows "slot_step len Clock (slot_table_of f) (slot_table_of (f\<lparr>fl_store := (fl_store f)\<lparr>cl_now := cl_now (fl_store f) + d\<rparr>\<rparr>))"
proof -
  let ?f = "f\<lparr>fl_store := (fl_store f)\<lparr>cl_now := cl_now (fl_store f) + d\<rparr>\<rparr>"
  have "live_wins ?f = filter (\<lambda>(k, h, u). cl_now (fl_store f) + d < u) (live_wins f)"
    using assms(2) by (auto simp: live_wins_def intro!: filter_cong)
  then have "map_of (live_wins ?f) k = (case map_of (live_wins f) k of None \<Rightarrow> None | Some (h, u) \<Rightarrow> if cl_now (fl_store f) + d < u then Some (h, u) else None)" for k
    by (simp add: map_of_filter_distinct [OF assms(1)] split: option.split prod.split)
  then have "slot_table_of ?f = \<lparr>st_now = st_now (slot_table_of f) + d,
      st_slots = (\<lambda>k. case st_slots (slot_table_of f) k of None \<Rightarrow> None | Some (h, u) \<Rightarrow> if st_now (slot_table_of f) + d < u then Some (h, u) else None)\<rparr>"
    by (simp add: slot_table_of_def fun_eq_iff split: option.split)
  then show ?thesis by (simp only: slot_step.pass [OF assms(2), of len "slot_table_of f"])
qed

lemma probe_refines:
  assumes "fleet_inv len f" "i < length (fl_calls f)" "fl_calls f ! i = Probing h t ks tried"
  shows "slot_step len (Job h) (slot_table_of f) (slot_table_of (after_probe i r t f))"
proof -
  obtain c s late where p: "probe r (Probing h t ks tried) (fl_store f) = (c, s, late)" by (metis prod_cases3)
  have even: "list_all (\<lambda>k. len k = None \<or> len k = Some t) ks"
    using assms nth_mem [OF assms(2)] by (auto simp: fleet_inv_def calls_even_def of_length_def)
  let ?f = "after_probe i r t f" and ?won = "case c of Holding k h \<Rightarrow> [(k, h, cl_now (fl_store f) + t)] | _ \<Rightarrow> []"
  have f: "fl_store ?f = s" "fl_won ?f = ?won @ fl_won f" by (simp_all add: assms(3) after_probe_def p)
  have same: "slot_step len (Job h) (slot_table_of f) (slot_table_of ?f)" if "cl_now s = cl_now (fl_store f)" "live_wins ?f = live_wins f"
    using that slot_step.keep [of len "Job h" "slot_table_of f"] by (simp add: slot_table_of_def f)
  have none: "live_wins ?f = live_wins f" if "cl_now s = cl_now (fl_store f)" "\<And>k h'. c \<noteq> Holding k h'"
  proof -
    have "?won = []" using that(2) by (cases c) auto
    then show ?thesis using that(1) by (simp add: live_wins_def f)
  qed
  show ?thesis
  proof (rule probe_cases [OF p])
    assume "s = fl_store f" "\<And>k h'. c \<noteq> Holding k h'"
    then show ?thesis using same none by simp
  next
    fix k assume "s = snd (set_nx k h t (fl_store f))" "\<And>k h'. c \<noteq> Holding k h'"
    then show ?thesis using same none by simp
  next
    fix k assume a: "claim (fl_store f) k = None" "s = fl_store f\<lparr>cl_keys := (cl_keys (fl_store f))(k \<mapsto> (h, cl_now (fl_store f) + t))\<rparr>"
      "c = Holding k h" "k \<in> set ks"
    have free: "st_slots (slot_table_of f) k = None"
    proof (rule ccontr)
      assume "st_slots (slot_table_of f) k \<noteq> None"
      then obtain h' u where m: "(k, h', u) \<in> set (live_wins f)" by (auto simp: slot_table_of_def dest: map_of_SomeD)
      then have "(k, h', u) \<in> set (fl_won f)" "cl_now (fl_store f) < u" by (auto simp: live_wins_def)
      then have "claim (fl_store f) k = Some h'" using assms(1) claim_held unfolding fleet_inv_def by blast
      then show False using a(1) by simp
    qed
    show ?thesis
    proof (cases "0 < t")
      case True
      then have "live_wins ?f = (k, h, cl_now (fl_store f) + t) # live_wins f" by (simp add: live_wins_def f a(2,3))
      then have "slot_table_of ?f = slot_table_of f\<lparr>st_slots := (st_slots (slot_table_of f))(k \<mapsto> (h, st_now (slot_table_of f) + t))\<rparr>"
        by (simp add: slot_table_of_def f a(2))
      moreover have "len k = None \<or> len k = Some t" using even a(4) by (auto simp: list_all_iff)
      ultimately show ?thesis using slot_step.grant [OF free, of len t h] by simp
    next
      case False
      then have "live_wins ?f = live_wins f" by (simp add: live_wins_def f a(2,3))
      then show ?thesis using same a(2) by simp
    qed
  qed
qed

text \<open>
  C10: The hosts, their queued commands and Valkey together refine the slot table, actor by actor:
  every step of the clock, a job or a host is a step of the same actor in the table, so a slot is taken
  only while it has no holder and only by the job that then has it, and a slot whose lease still runs
  leaves its holder only by that job's own release or by a sweep of that job's own host; and every
  release that is queued was sent by a call of the very job it names, for a key that call won or
  tried.
\<close>

theorem fleet_refines_slot_table:
  assumes "(fleet_step len)\<^sup>*\<^sup>* (idle_fleet t) f" "fleet_by len a f f'"
  shows "slot_step len a (slot_table_of f) (slot_table_of f')
    \<and> (\<forall>k h u. (k, h, u) \<in> set (live_wins f) \<and> cl_now (fl_store f') < u \<and> (k, h, u) \<notin> set (live_wins f')
         \<longrightarrow> a = Job h \<or> (\<exists>p. a = Host p \<and> prefix p h))
    \<and> (\<forall>k h u. (k, h, u) \<in> set (live_wins f') \<and> (k, h, u) \<notin> set (live_wins f) \<longrightarrow> a = Job h \<and> k \<notin> fst ` set (live_wins f))
    \<and> (\<forall>k h. Release k h \<in> set (fl_late f) \<longrightarrow> (\<exists>c \<in> set (fl_calls f). Release k h \<in> set (release_commands c) \<and> call_holder c = Some h))"
proof -
  have inv: "fleet_inv len f" using assms(1) by (rule fleet_reachable_inv)
  then have d: "distinct (map fst (live_wins f))" by (simp add: fleet_inv_def)
  have d': "distinct (map fst (live_wins f'))" using fleet_by_inv [OF assms(2) inv] by (simp add: fleet_inv_def)
  have same: "slot_step len b (slot_table_of f) (slot_table_of g)" if "fl_store g = fl_store f" "fl_won g = fl_won f" for g b
    using that slot_step.keep [of len b "slot_table_of f"] by (simp add: slot_table_of_def live_wins_def)
  from assms(2) have st: "slot_step len a (slot_table_of f) (slot_table_of f')"
  proof cases
    case (wait x)
    then show ?thesis using wait_refines [OF d] by simp
  next
    case (probe i h t' ks tried r)
    show ?thesis unfolding probe(1,2) by (rule probe_refines [OF inv probe(3,4)])
  next
    case (land xs c ys)
    show ?thesis unfolding land(1,2) by (rule land_refines [OF d])
  qed (simp_all add: same)
  have slots: "st_slots (slot_table_of g) k = Some (h, u) \<longleftrightarrow> (k, h, u) \<in> set (live_wins g)" if "distinct (map fst (live_wins g))" for g k h u
    using that by (simp add: slot_table_of_def)
  have now: "st_now (slot_table_of f') = cl_now (fl_store f')" by (simp add: slot_table_of_def)
  have left: "a = Job h \<or> (\<exists>p. a = Host p \<and> prefix p h)"
    if "(k, h, u) \<in> set (live_wins f)" "cl_now (fl_store f') < u" "(k, h, u) \<notin> set (live_wins f')" for k h u
    using slot_kept [OF st, of k h u] that now unfolding slots [OF d] slots [OF d'] by auto
  have taken: "a = Job h \<and> k \<notin> fst ` set (live_wins f)" if "(k, h, u) \<in> set (live_wins f')" "(k, h, u) \<notin> set (live_wins f)" for k h u
  proof -
    have "st_slots (slot_table_of f) k = None \<and> a = Job h"
      using slot_taken [OF st, of k h u] that unfolding slots [OF d] slots [OF d'] by auto
    then show ?thesis by (auto simp: slot_table_of_def map_of_eq_None_iff)
  qed
  from inv have "releases_own (fl_calls f) (fl_late f)" by (simp add: fleet_inv_def)
  then show ?thesis using st left taken unfolding releases_own_def by blast
qed

lemma fleet_refines_slot_table_witness:
  "slot_step race_len Clock (slot_table_of (race_fleet 0 (Some (''a#1'', 10)) [Holding race_key ''a#1''] [] [(race_key, ''a#1'', 10)] []))
     (slot_table_of (race_fleet 9 (Some (''a#1'', 10)) [Holding race_key ''a#1''] [] [(race_key, ''a#1'', 10)] []))"
proof -
  let ?f = "race_fleet 0 (Some (''a#1'', 10)) [Holding race_key ''a#1''] [] [(race_key, ''a#1'', 10)] []"
  have "fleet_by race_len Clock ?f (race_fleet 9 (Some (''a#1'', 10)) [Holding race_key ''a#1''] [] [(race_key, ''a#1'', 10)] [])"
    using fleet_by.wait [of 9 race_len ?f] by (simp add: race_fleet_def)
  from fleet_refines_slot_table [OF race_first this] show ?thesis by blast
qed

end
