(* ===== verification/StoreVersion.thy ===== *)
theory StoreVersion
  imports Json
begin

text \<open>
  The version rule of the operator's files (worker/src/store-version.mjs): a file says the lowest
  version its content needs, and a reader turns away a newer version and content the declared
  version does not cover. A table gives the version a field needs, a value table the version a value
  of a field needs; a rule that throws, or answers no integer above 1, is \<open>None\<close>.
\<close>

type_synonym version_table = "string \<Rightarrow> int option"
type_synonym value_table = "string \<Rightarrow> json \<Rightarrow> int option"

datatype version_problem = Broken_version | Newer_version int

definition version_problem :: "json option \<Rightarrow> int \<Rightarrow> version_problem option" where
  "version_problem declared supported =
     (case declared of None \<Rightarrow> None
      | Some (JInt v) \<Rightarrow> if \<not> is_safe v \<or> v < 1 then Some Broken_version
          else if supported < v then Some (Newer_version v) else None
      | Some _ \<Rightarrow> Some Broken_version)"

fun needed_from :: "int \<Rightarrow> version_table \<Rightarrow> string list \<Rightarrow> int" where
  "needed_from n t [] = n"
| "needed_from n t (f # fs) = needed_from (case t f of Some v \<Rightarrow> if n < v then v else n | None \<Rightarrow> n) t fs"

definition needed_version :: "string list \<Rightarrow> version_table \<Rightarrow> int" where
  "needed_version fields t = needed_from 1 t fields"

definition under_declared :: "string list \<Rightarrow> version_table \<Rightarrow> int \<Rightarrow> (string \<times> int) option" where
  "under_declared fields t have =
     Option.bind (find (\<lambda>f. case t f of Some v \<Rightarrow> have < v | None \<Rightarrow> False) fields) (\<lambda>f. map_option (Pair f) (t f))"

definition rule_version :: "value_table \<Rightarrow> string \<Rightarrow> json \<Rightarrow> int" where
  "rule_version vt f v = (case vt f v of Some n \<Rightarrow> if is_safe n \<and> 1 < n then n else 1 | None \<Rightarrow> 1)"

fun value_needed_from :: "int \<Rightarrow> value_table \<Rightarrow> (string \<times> json) list \<Rightarrow> int" where
  "value_needed_from n vt [] = n"
| "value_needed_from n vt ((f, v) # kvs) = value_needed_from (if n < rule_version vt f v then rule_version vt f v else n) vt kvs"

definition value_needed_version :: "(string \<times> json) list \<Rightarrow> value_table \<Rightarrow> int" where
  "value_needed_version kvs vt = value_needed_from 1 vt kvs"

definition value_under_declared :: "(string \<times> json) list \<Rightarrow> value_table \<Rightarrow> int \<Rightarrow> (string \<times> int) option" where
  "value_under_declared kvs vt have =
     map_option (\<lambda>(f, v). (f, rule_version vt f v)) (find (\<lambda>(f, v). have < rule_version vt f v) kvs)"

lemma needed_from_le: "needed_from n t fs \<le> v \<longleftrightarrow> n \<le> v \<and> (\<forall>f \<in> set fs. \<forall>m. t f = Some m \<longrightarrow> m \<le> v)"
  by (induction fs arbitrary: n) (auto split: option.split)

lemma value_needed_from_le: "value_needed_from n vt kvs \<le> v \<longleftrightarrow> n \<le> v \<and> (\<forall>(f, x) \<in> set kvs. rule_version vt f x \<le> v)"
proof (induction kvs arbitrary: n)
  case (Cons kv kvs)
  show ?case by (cases kv) (use Cons.IH in \<open>auto split: if_splits\<close>)
qed simp

lemma under_declared_None: "under_declared fs t v = None \<longleftrightarrow> (\<forall>f \<in> set fs. \<forall>m. t f = Some m \<longrightarrow> m \<le> v)"
proof (cases "find (\<lambda>f. case t f of Some m \<Rightarrow> v < m | None \<Rightarrow> False) fs")
  case None
  then have "\<not> (case t f of Some m \<Rightarrow> v < m | None \<Rightarrow> False)" if "f \<in> set fs" for f using that unfolding find_None_iff by blast
  then have "m \<le> v" if "f \<in> set fs" "t f = Some m" for f m using that by fastforce
  then show ?thesis using None by (simp add: under_declared_def)
next
  case (Some f)
  then have "f \<in> set fs" "\<exists>m. t f = Some m \<and> v < m" by (auto simp: find_Some_iff split: option.splits)
  then show ?thesis using Some by (auto simp: under_declared_def)
qed

lemma value_under_declared_None: "value_under_declared kvs vt v = None \<longleftrightarrow> (\<forall>(f, x) \<in> set kvs. rule_version vt f x \<le> v)"
  by (force simp: value_under_declared_def find_None_iff)

text \<open>The lowest version a record's fields and values need, and what a reader asks of the version
  it declares, are the same question.\<close>

lemma covered_iff_needed:
  assumes "1 \<le> v"
  shows "under_declared (map fst kvs) t v = None \<and> value_under_declared kvs vt v = None
    \<longleftrightarrow> max (needed_version (map fst kvs) t) (value_needed_version kvs vt) \<le> v"
  using assms by (simp add: under_declared_None value_under_declared_None needed_version_def value_needed_version_def
      needed_from_le value_needed_from_le)

end
