(* ===== verification/PauseWindows.thy ===== *)
theory PauseWindows
  imports Scope StoreVersion Calendar
begin

text \<open>
  Pause windows (worker/src/pause-windows.mjs): the operator's file of windows in which a scope's
  jobs wait, read with every refusal, and when the pause of a job ends. Parameters: \<open>JSON.parse\<close>,
  Unicode normalization and lower casing, which time zones exist, and the parts \<open>Intl\<close> formats an
  instant as in a zone. Instants are milliseconds.
\<close>

section \<open>The file\<close>

definition pause_windows_version :: int where "pause_windows_version = 1"
definition pause_window_fields :: "string list" where
  "pause_window_fields = [''scope'', ''from'', ''to'', ''tz'', ''days'', ''dateFrom'', ''dateTo'']"
definition pause_field_versions :: version_table where "pause_field_versions = (\<lambda>_. None)"
definition pause_value_versions :: value_table where "pause_value_versions = (\<lambda>_ _. None)"
definition day_names :: "string list" where
  "day_names = [''sun'', ''mon'', ''tue'', ''wed'', ''thu'', ''fri'', ''sat'']"

record pause_window =
  pw_scope :: string
  pw_from :: string
  pw_to :: string
  pw_from_min :: int
  pw_to_min :: int
  pw_tz :: json
  pw_days :: "string list option"
  pw_date_from :: "string option"
  pw_date_to :: "string option"

datatype window_refusal = Window_shape | Window_scope | Window_form scope_refusal | Window_time string | Window_range string
  | Window_same | Window_tz | Window_days | Window_day json | Window_date string | Window_dates

text \<open>\<open>String(value)\<close> of a parsed value.\<close>

fun join_text :: "string list \<Rightarrow> string" where
  "join_text [] = []"
| "join_text [s] = s"
| "join_text (s # ss) = s @ '','' @ join_text ss"

fun js_text :: "json \<Rightarrow> string" where
  "js_text JNull = ''null''"
| "js_text (JBool b) = (if b then ''true'' else ''false'')"
| "js_text (JInt n) = int_text n"
| "js_text (JFloat t) = t"
| "js_text (JStr s) = s"
| "js_text (JArr xs) = join_text (map (\<lambda>x. if x = JNull then [] else js_text x) xs)"
| "js_text (JObj kvs) = ''[object Object]''"

text \<open>\<open>/^([0-9]{1,2}):([0-9]{2})$/\<close> and \<open>/^([0-9]{4})-([0-9]{2})-([0-9]{2})$/\<close>\<close>

definition hhmm_pattern :: "string \<Rightarrow> (nat \<times> nat) option" where
  "hhmm_pattern t =
     (let h = takeWhile is_digit t; r = drop (length h) t
      in if (length h = 1 \<or> length h = 2) \<and> length r = 3 \<and> hd r = CHR '':'' \<and> list_all is_digit (tl r)
         then Some (text_nat h, text_nat (tl r)) else None)"

definition date_pattern :: "string \<Rightarrow> (nat \<times> nat \<times> nat) option" where
  "date_pattern t =
     (let y = take 4 t; m = take 2 (drop 5 t); d = drop 8 t
      in if length t = 10 \<and> list_all is_digit (y @ m @ d) \<and> t ! 4 = CHR ''-'' \<and> t ! 7 = CHR ''-''
         then Some (text_nat y, text_nat m, text_nat d) else None)"

definition parse_hhmm :: "json option \<Rightarrow> string \<Rightarrow> window_refusal + int" where
  "parse_hhmm v label =
     (case (case v of Some (JStr s) \<Rightarrow> if non_empty s then hhmm_pattern (trim s) else None | _ \<Rightarrow> None) of
        None \<Rightarrow> Inl (Window_time label)
      | Some (h, m) \<Rightarrow> if h > 23 \<or> m > 59 then Inl (Window_range label) else Inr (int h * 60 + int m))"

text \<open>The date a bound is stored as.\<close>

definition read_date :: "json option \<Rightarrow> string \<Rightarrow> window_refusal + string option" where
  "read_date v label =
     (case v of None \<Rightarrow> Inr None
      | Some x \<Rightarrow>
          (let t = trim (js_text x)
           in case date_pattern t of None \<Rightarrow> Inl (Window_date label)
              | Some (y, m, d) \<Rightarrow> if m < 1 \<or> m > 12 \<or> d < 1 \<or> d > 31 then Inl (Window_date label) else Inr (Some t)))"

definition read_tz :: "(json \<Rightarrow> bool) \<Rightarrow> json option \<Rightarrow> window_refusal + json" where
  "read_tz zone_ok v = (case v of None \<Rightarrow> Inr (JStr ''UTC'') | Some tz \<Rightarrow> if zone_ok tz then Inr tz else Inl Window_tz)"

definition read_day :: "(string \<Rightarrow> string) \<Rightarrow> json \<Rightarrow> window_refusal + string" where
  "read_day lower d = (let k = take 3 (lower (trim (js_text d))) in if k \<in> set day_names then Inr k else Inl (Window_day d))"

definition read_days :: "(string \<Rightarrow> string) \<Rightarrow> json option \<Rightarrow> window_refusal + string list option" where
  "read_days lower v =
     (case v of None \<Rightarrow> Inr None
      | Some (JArr ds) \<Rightarrow> if ds = [] then Inl Window_days else sum_bind (sum_map_list (read_day lower) ds) (\<lambda>ks. Inr (Some ks))
      | Some _ \<Rightarrow> Inl Window_days)"

definition read_window_scope :: "(string \<Rightarrow> string) \<Rightarrow> string \<Rightarrow> window_refusal + string" where
  "read_window_scope nfc s =
     (let t = trim s
      in if t = ''*'' then Inr t
         else case parse_scope_string nfc t of Inl e \<Rightarrow> Inl (Window_form e)
           | Inr (Qualified k r) \<Rightarrow> Inr (k @ '':'' @ r)
           | Inr _ \<Rightarrow> Inr t)"

text \<open>\<open>w.from.trim()\<close> of a field that was read as a time\<close>

definition time_text :: "json option \<Rightarrow> string" where
  "time_text v = (case v of Some (JStr s) \<Rightarrow> trim s | _ \<Rightarrow> [])"

definition normalize_window ::
  "(string \<Rightarrow> string) \<Rightarrow> (string \<Rightarrow> string) \<Rightarrow> (json \<Rightarrow> bool) \<Rightarrow> json \<Rightarrow> window_refusal + pause_window" where
  "normalize_window nfc lower zone_ok w =
     (case w of
        JArr _ \<Rightarrow> Inl Window_scope
      | JObj kvs \<Rightarrow>
          (case map_of kvs ''scope'' of
             Some (JStr s) \<Rightarrow>
               if \<not> non_empty s then Inl Window_scope
               else sum_bind (read_window_scope nfc s) (\<lambda>scope.
                    sum_bind (parse_hhmm (map_of kvs ''from'') ''from'') (\<lambda>f.
                    sum_bind (parse_hhmm (map_of kvs ''to'') ''to'') (\<lambda>t.
                      if f = t then Inl Window_same
                      else sum_bind (read_tz zone_ok (map_of kvs ''tz'')) (\<lambda>tz.
                           sum_bind (read_days lower (map_of kvs ''days'')) (\<lambda>days.
                           sum_bind (read_date (map_of kvs ''dateFrom'') ''dateFrom'') (\<lambda>df.
                           sum_bind (read_date (map_of kvs ''dateTo'') ''dateTo'') (\<lambda>dt.
                             if (case (df, dt) of (Some a, Some b) \<Rightarrow> b < a | _ \<Rightarrow> False) then Inl Window_dates
                             else Inr \<lparr>pw_scope = scope, pw_from = time_text (map_of kvs ''from''), pw_to = time_text (map_of kvs ''to''),
                               pw_from_min = f, pw_to_min = t, pw_tz = tz, pw_days = days, pw_date_from = df, pw_date_to = dt\<rparr>)))))))
           | _ \<Rightarrow> Inl Window_scope)
      | _ \<Rightarrow> Inl Window_shape)"

datatype pause_refusal = Pause_json | Pause_newer int | Pause_version | Pause_list | Pause_window nat window_refusal
  | Pause_field nat string int | Pause_value nat string int

text \<open>The version of a file, and what a window of a file that declares it may hold.\<close>

definition declared_version :: "json \<Rightarrow> json option" where
  "declared_version doc = (case doc of JObj kvs \<Rightarrow> map_of kvs ''version'' | _ \<Rightarrow> None)"

definition pause_version_refusal :: "int \<Rightarrow> json \<Rightarrow> version_problem option" where
  "pause_version_refusal supported doc = version_problem (declared_version doc) supported"

definition window_keys :: "json \<Rightarrow> (string \<times> json) list" where
  "window_keys w = (case w of JObj kvs \<Rightarrow> kvs | _ \<Rightarrow> [])"

fun read_windows ::
  "(string \<Rightarrow> string) \<Rightarrow> (string \<Rightarrow> string) \<Rightarrow> (json \<Rightarrow> bool) \<Rightarrow> nat \<Rightarrow> json list \<Rightarrow> pause_refusal + pause_window list" where
  "read_windows nfc lower zone_ok i [] = Inr []"
| "read_windows nfc lower zone_ok i (w # ws) =
     (case normalize_window nfc lower zone_ok w of Inl e \<Rightarrow> Inl (Pause_window i e)
      | Inr p \<Rightarrow> sum_bind (read_windows nfc lower zone_ok (Suc i) ws) (\<lambda>ps. Inr (p # ps)))"

fun check_versions :: "version_table \<Rightarrow> value_table \<Rightarrow> int \<Rightarrow> nat \<Rightarrow> json list \<Rightarrow> pause_refusal + unit" where
  "check_versions table vt have i [] = Inr ()"
| "check_versions table vt have i (w # ws) =
     (case under_declared (map fst (window_keys w)) table have of Some (f, n) \<Rightarrow> Inl (Pause_field i f n)
      | None \<Rightarrow> (case value_under_declared (window_keys w) vt have of Some (f, n) \<Rightarrow> Inl (Pause_value i f n)
          | None \<Rightarrow> check_versions table vt have (Suc i) ws))"

definition judge_pause ::
  "(string \<Rightarrow> string) \<Rightarrow> (string \<Rightarrow> string) \<Rightarrow> (json \<Rightarrow> bool) \<Rightarrow> int \<Rightarrow> version_table \<Rightarrow> value_table \<Rightarrow> json
   \<Rightarrow> pause_refusal + pause_window list" where
  "judge_pause nfc lower zone_ok supported table vt parsed =
     (case pause_version_refusal supported parsed of
        Some Broken_version \<Rightarrow> Inl Pause_version
      | Some (Newer_version v) \<Rightarrow> Inl (Pause_newer v)
      | None \<Rightarrow>
          (case (case parsed of JObj kvs \<Rightarrow> map_of kvs ''windows'' | _ \<Rightarrow> None) of
             Some (JArr ws) \<Rightarrow>
               sum_bind (read_windows nfc lower zone_ok 0 ws) (\<lambda>ps.
               sum_bind (check_versions table vt (case declared_version parsed of Some (JInt v) \<Rightarrow> v | _ \<Rightarrow> 1) 0 ws) (\<lambda>_. Inr ps))
           | _ \<Rightarrow> Inl Pause_list))"

definition parse_pause_windows ::
  "(string \<Rightarrow> json option) \<Rightarrow> (string \<Rightarrow> string) \<Rightarrow> (string \<Rightarrow> string) \<Rightarrow> (json \<Rightarrow> bool) \<Rightarrow> string
   \<Rightarrow> pause_refusal + pause_window list" where
  "parse_pause_windows json_parse nfc lower zone_ok text =
     (case json_parse text of None \<Rightarrow> Inl Pause_json
      | Some parsed \<Rightarrow> judge_pause nfc lower zone_ok pause_windows_version pause_field_versions pause_value_versions parsed)"

section \<open>Writing the file\<close>

fun pause_version_from :: "version_table \<Rightarrow> value_table \<Rightarrow> int \<Rightarrow> json list \<Rightarrow> int" where
  "pause_version_from table vt n [] = n"
| "pause_version_from table vt n (w # ws) =
     pause_version_from table vt
       (let needs = max (needed_version (map fst (window_keys w)) table) (value_needed_version (window_keys w) vt)
        in if n < needs then needs else n) ws"

definition pause_windows_version_for :: "version_table \<Rightarrow> value_table \<Rightarrow> json list \<Rightarrow> int" where
  "pause_windows_version_for table vt ws = pause_version_from table vt 1 ws"

text \<open>The document \<open>pauseWindowsText\<close> prints, over the keys of the document the write started from.\<close>

definition pause_windows_doc :: "version_table \<Rightarrow> value_table \<Rightarrow> json \<Rightarrow> json list \<Rightarrow> (string \<times> json) list" where
  "pause_windows_doc table vt doc ws =
     (let rest = window_keys doc; v = pause_windows_version_for table vt ws
      in (if v > 1 then [(''version'', JInt v)] else [])
         @ (if map_of rest ''windows'' = None then [(''windows'', JArr ws)] else [])
         @ map (\<lambda>(k, x). if k = ''windows'' then (k, JArr ws) else (k, x)) (filter (\<lambda>(k, x). k \<noteq> ''version'') rest))"

section \<open>The clock of a zone\<close>

record parts =
  pt_y :: int
  pt_mo :: int
  pt_d :: int
  pt_hh :: int
  pt_mi :: int
  pt_dow :: nat

type_synonym zone_format = "json \<Rightarrow> int \<Rightarrow> parts"

definition zoned_parts :: "zone_format \<Rightarrow> json \<Rightarrow> int \<Rightarrow> parts" where
  "zoned_parts fmt tz ms = (let p = fmt tz ms in p\<lparr>pt_hh := if pt_hh p = 24 then 0 else pt_hh p\<rparr>)"

text \<open>\<open>Date.UTC(y, month, d, hh, mi)\<close>, the month from 0\<close>

definition utc_ms :: "int \<Rightarrow> int \<Rightarrow> int \<Rightarrow> int \<Rightarrow> int \<Rightarrow> int" where
  "utc_ms y mo d hh mi = date_utc y mo d * day_ms + hh * 3600000 + mi * 60000"

definition wall_to_ms :: "zone_format \<Rightarrow> json \<Rightarrow> int \<Rightarrow> int \<Rightarrow> int \<Rightarrow> int \<Rightarrow> int \<Rightarrow> int" where
  "wall_to_ms fmt tz y mo d hh mi =
     (let guess = utc_ms y (mo - 1) d hh mi;
          shown = zoned_parts fmt tz guess;
          shown_utc = utc_ms (pt_y shown) (pt_mo shown - 1) (pt_d shown) (pt_hh shown) (pt_mi shown)
      in guess - (shown_utc - guess))"

definition shift_day :: "zone_format \<Rightarrow> json \<Rightarrow> parts \<Rightarrow> int \<Rightarrow> parts" where
  "shift_day fmt tz p delta = zoned_parts fmt tz (wall_to_ms fmt tz (pt_y p) (pt_mo p) (pt_d p) 12 0 + delta * 86400000)"

definition ymd :: "parts \<Rightarrow> string" where
  "ymd p = pad_start 4 (CHR ''0'') (int_text (pt_y p)) @ ''-'' @ pad_start 2 (CHR ''0'') (int_text (pt_mo p)) @ ''-''
     @ pad_start 2 (CHR ''0'') (int_text (pt_d p))"

definition qualifies :: "pause_window \<Rightarrow> parts \<Rightarrow> bool" where
  "qualifies w p \<longleftrightarrow>
     (case pw_days w of None \<Rightarrow> True | Some ds \<Rightarrow> day_names ! pt_dow p \<in> set ds)
     \<and> (case pw_date_from w of None \<Rightarrow> True | Some a \<Rightarrow> \<not> ymd p < a)
     \<and> (case pw_date_to w of None \<Rightarrow> True | Some b \<Rightarrow> \<not> b < ymd p)"

definition end_at :: "zone_format \<Rightarrow> pause_window \<Rightarrow> parts \<Rightarrow> int" where
  "end_at fmt w p = wall_to_ms fmt (pw_tz w) (pt_y p) (pt_mo p) (pt_d p) (pw_to_min w div 60) (pw_to_min w mod 60)"

definition window_end_at :: "zone_format \<Rightarrow> pause_window \<Rightarrow> int \<Rightarrow> int option" where
  "window_end_at fmt w now =
     (let p = zoned_parts fmt (pw_tz w) now; m = pt_hh p * 60 + pt_mi p
      in if pw_from_min w < pw_to_min w
         then (if pw_from_min w \<le> m \<and> m < pw_to_min w \<and> qualifies w p then Some (end_at fmt w p) else None)
         else if pw_from_min w \<le> m \<and> qualifies w p then Some (end_at fmt w (shift_day fmt (pw_tz w) p 1))
         else if m < pw_to_min w \<and> qualifies w (shift_day fmt (pw_tz w) p (- 1)) then Some (end_at fmt w p)
         else None)"

section \<open>The pause of a job\<close>

definition window_matches :: "(string \<Rightarrow> string) \<Rightarrow> job \<Rightarrow> pause_window \<Rightarrow> bool" where
  "window_matches nfc j w \<longleftrightarrow>
     pw_scope w = ''*'' \<or> Some (pw_scope w) = scope_of j \<or> Some (pw_scope w) = qualified_scope_of nfc j"

fun latest_end :: "int option \<Rightarrow> int option list \<Rightarrow> int option" where
  "latest_end m [] = m"
| "latest_end m (None # es) = latest_end m es"
| "latest_end m (Some e # es) = latest_end (case m of None \<Rightarrow> Some e | Some x \<Rightarrow> if x < e then Some e else Some x) es"

definition pause_until :: "(string \<Rightarrow> string) \<Rightarrow> zone_format \<Rightarrow> pause_window list \<Rightarrow> job \<Rightarrow> int \<Rightarrow> int option" where
  "pause_until nfc fmt ws j now =
     (case scope_of j of None \<Rightarrow> None
      | Some s \<Rightarrow> if \<not> non_empty s then None
          else latest_end None (map (\<lambda>w. window_end_at fmt w now) (filter (window_matches nfc j) ws)))"

text \<open>The gate at pickup: the instant the job is deferred to, \<open>None\<close> when it goes on.\<close>

definition pause_gate :: "int option \<Rightarrow> int \<Rightarrow> int option" where
  "pause_gate until now = (case until of None \<Rightarrow> None | Some u \<Rightarrow> if u \<noteq> 0 \<and> now + 1000 < u then Some u else None)"

end
