(* ===== verification/PauseClock.thy ===== *)
theory PauseClock
  imports PauseWindows
begin

text \<open>
  Pause windows against the days they open on: in a zone of one offset the end the worker computes
  is the end of the window that is open, and the gate at pickup holds a job until then; around a
  change of the offset it is off by the change, hours away from it.
\<close>

section \<open>A zone by its offset\<close>

text \<open>The parts of a wall clock that shows \<open>l\<close> milliseconds, and the documented behaviour of the
  formatter: it shows the instant moved by the zone's offset.\<close>

definition wall_parts :: "int \<Rightarrow> parts" where
  "wall_parts l =
     (case civil (l div day_ms) of (y, m, d) \<Rightarrow>
        \<lparr>pt_y = y, pt_mo = int m + 1, pt_d = d, pt_hh = l mod day_ms div 3600000, pt_mi = l mod day_ms mod 3600000 div 60000,
          pt_dow = nat (weekday (l div day_ms))\<rparr>)"

definition reads_zone :: "zone_format \<Rightarrow> json \<Rightarrow> (int \<Rightarrow> int) \<Rightarrow> bool" where
  "reads_zone fmt tz off \<longleftrightarrow> (\<forall>ms. zoned_parts fmt tz ms = wall_parts (ms + off ms))"

text \<open>An offset of whole minutes below a day.\<close>

definition zone_offset :: "int \<Rightarrow> bool" where
  "zone_offset o' \<longleftrightarrow> 60000 dvd o' \<and> - day_ms < o' \<and> o' < day_ms"

lemma day_ms_value: "day_ms = 86400000" by (simp add: day_ms_def)

lemma year_after:
  assumes "civil d = (y, m, dd)" "- 365 \<le> d"
  shows "99 < y"
proof (rule ccontr)
  assume "\<not> 99 < y"
  then have "day_from_year (y + 1) \<le> day_from_year 100" by (intro day_from_year_mono) simp
  moreover have "day_from_year 100 < - 365" by code_simp
  moreover have "d < day_from_year (y + 1)" using year_of_day_bounds(2) [of d] civil_spec(1) [OF assms(1)] by simp
  ultimately show False using assms(2) by linarith
qed

lemma utc_ms_wall:
  assumes "- 365 \<le> l div day_ms"
  shows "utc_ms (pt_y (wall_parts l)) (pt_mo (wall_parts l) - 1) (pt_d (wall_parts l)) hh mi = l div day_ms * day_ms + hh * 3600000 + mi * 60000"
proof -
  obtain y m d where c: "civil (l div day_ms) = (y, m, d)" by (metis prod_cases3)
  have "date_utc y (int m) d = l div day_ms" by (rule date_utc_civil [OF c]) (use year_after [OF c assms] in simp)
  then show ?thesis by (simp add: wall_parts_def c utc_ms_def)
qed

lemma wall_minutes: "pt_hh (wall_parts l) * 60 + pt_mi (wall_parts l) = l mod day_ms div 60000"
proof -
  have "r div 3600000 * 60 + r mod 3600000 div 60000 = r div 60000" for r :: int
  proof -
    have "r div 3600000 = r div 60000 div 60" using zdiv_zmult2_eq [of 60 r 60000] by simp
    moreover have "r mod 3600000 div 60000 = r div 60000 mod 60"
      using zmod_zmult2_eq [of 60 r 60000] pos_mod_bound [of 60000 r] by (simp add: div_add1_eq)
    ultimately show ?thesis by simp
  qed
  then show ?thesis by (simp add: wall_parts_def split: prod.split)
qed

lemma wall_to_ms_exact:
  assumes "reads_zone fmt tz off" "0 \<le> hh" "0 \<le> mi" "g = l div day_ms * day_ms + hh * 3600000 + mi * 60000"
    and "60000 dvd off g" "- 365 \<le> l div day_ms" "- 365 \<le> (g + off g) div day_ms"
  shows "wall_to_ms fmt tz (pt_y (wall_parts l)) (pt_mo (wall_parts l)) (pt_d (wall_parts l)) hh mi = g - off g"
proof -
  let ?s = "g + off g"
  have g: "utc_ms (pt_y (wall_parts l)) (pt_mo (wall_parts l) - 1) (pt_d (wall_parts l)) hh mi = g"
    by (simp add: utc_ms_wall [OF assms(6)] assms(4))
  have "60000 dvd g" unfolding assms(4) day_ms_value by (intro dvd_add dvd_mult) simp_all
  then have "60000 dvd ?s" using assms(5) by (rule dvd_add)
  then have "60000 dvd ?s mod day_ms" unfolding day_ms_value by (rule dvd_mod) simp
  then have m: "?s mod day_ms div 60000 * 60000 = ?s mod day_ms" by (rule dvd_div_mult_self)
  have "utc_ms (pt_y (wall_parts ?s)) (pt_mo (wall_parts ?s) - 1) (pt_d (wall_parts ?s)) (pt_hh (wall_parts ?s)) (pt_mi (wall_parts ?s))
      = ?s div day_ms * day_ms + (pt_hh (wall_parts ?s) * 60 + pt_mi (wall_parts ?s)) * 60000"
    by (simp add: utc_ms_wall [OF assms(7)] algebra_simps)
  also have "\<dots> = ?s" by (simp add: wall_minutes m)
  finally show ?thesis using assms(1) by (simp add: wall_to_ms_def g reads_zone_def)
qed

section \<open>The days a window opens on\<close>

text \<open>The instants a window opens and closes by the wall clock, for the day it opens on.\<close>

definition opens_on :: "pause_window \<Rightarrow> int \<Rightarrow> bool" where "opens_on w d \<longleftrightarrow> qualifies w (wall_parts (d * day_ms))"

definition opens_at :: "pause_window \<Rightarrow> int \<Rightarrow> int" where "opens_at w d = d * day_ms + pw_from_min w * 60000"

definition closes_at :: "pause_window \<Rightarrow> int \<Rightarrow> int" where
  "closes_at w d = (if pw_from_min w < pw_to_min w then d else d + 1) * day_ms + pw_to_min w * 60000"

definition minutes_ok :: "pause_window \<Rightarrow> bool" where
  "minutes_ok w \<longleftrightarrow> 0 \<le> pw_from_min w \<and> pw_from_min w < 1440 \<and> 0 \<le> pw_to_min w \<and> pw_to_min w < 1440 \<and> pw_from_min w \<noteq> pw_to_min w"

lemma qualifies_day: "qualifies w (wall_parts l) \<longleftrightarrow> opens_on w (l div day_ms)"
  by (simp add: opens_on_def qualifies_def ymd_def wall_parts_def day_ms_value split: prod.split option.split)

lemma fixed_end:
  assumes "reads_zone fmt (pw_tz w) (\<lambda>_. z)" "zone_offset z" "minutes_ok w" "- 300 \<le> l div day_ms"
  shows "end_at fmt w (wall_parts l) = l div day_ms * day_ms + pw_to_min w * 60000 - z"
proof -
  let ?g = "l div day_ms * day_ms + pw_to_min w div 60 * 3600000 + pw_to_min w mod 60 * 60000"
  have t: "pw_to_min w div 60 * 3600000 + pw_to_min w mod 60 * 60000 = pw_to_min w * 60000"
    using div_mult_mod_eq [of "pw_to_min w" 60] by linarith
  have "- 365 * day_ms \<le> ?g + z" using assms(2-4) t by (simp add: zone_offset_def minutes_ok_def day_ms_value)
  then have "- 365 \<le> (?g + z) div day_ms" by (simp add: day_ms_value)
  then show ?thesis
    using wall_to_ms_exact [OF assms(1), of "pw_to_min w div 60" "pw_to_min w mod 60" ?g l] assms(2-4) t
    by (simp add: end_at_def zone_offset_def minutes_ok_def pos_imp_zdiv_nonneg_iff)
qed

lemma fixed_shift:
  assumes "reads_zone fmt tz (\<lambda>_. z)" "zone_offset z" "- 300 \<le> l div day_ms"
  shows "shift_day fmt tz (wall_parts l) delta = wall_parts ((l div day_ms + delta) * day_ms + 43200000)"
proof -
  let ?g = "l div day_ms * day_ms + 12 * 3600000 + 0 * 60000"
  have "- 365 * day_ms \<le> ?g + z" using assms(2,3) by (simp add: zone_offset_def day_ms_value)
  then have "- 365 \<le> (?g + z) div day_ms" by (simp add: day_ms_value)
  then have "wall_to_ms fmt tz (pt_y (wall_parts l)) (pt_mo (wall_parts l)) (pt_d (wall_parts l)) 12 0 = ?g - z"
    using wall_to_ms_exact [OF assms(1), of 12 0 ?g l] assms(2,3) by (simp add: zone_offset_def)
  moreover have "?g - z + delta * 86400000 + z = (l div day_ms + delta) * day_ms + 43200000" by (simp add: day_ms_value)
  ultimately show ?thesis using assms(1) by (simp only: shift_day_def reads_zone_def)
qed

lemma day_of_noon: "(d * day_ms + 43200000) div day_ms = d"
  by (simp add: day_ms_value)

text \<open>The window open at a wall clock, by day and minute.\<close>

lemma window_end_fixed:
  assumes "reads_zone fmt (pw_tz w) (\<lambda>_. z)" "zone_offset z" "minutes_ok w" "0 \<le> now" "l = now + z"
  shows "window_end_at fmt w now =
    (let d = l div day_ms; m = l mod day_ms div 60000
     in if pw_from_min w < pw_to_min w
        then if pw_from_min w \<le> m \<and> m < pw_to_min w \<and> opens_on w d then Some (closes_at w d - z) else None
        else if pw_from_min w \<le> m \<and> opens_on w d then Some (closes_at w d - z)
        else if m < pw_to_min w \<and> opens_on w (d - 1) then Some (closes_at w (d - 1) - z) else None)"
proof -
  have "- day_ms \<le> l" using assms(2,4,5) by (simp add: zone_offset_def)
  then have d: "- 1 \<le> l div day_ms" by (simp add: day_ms_value)
  have p: "zoned_parts fmt (pw_tz w) now = wall_parts l" using assms(1,5) by (simp add: reads_zone_def)
  have e: "end_at fmt w (wall_parts l) = l div day_ms * day_ms + pw_to_min w * 60000 - z"
    by (rule fixed_end [OF assms(1-3)]) (use d in simp)
  have s: "shift_day fmt (pw_tz w) (wall_parts l) delta = wall_parts ((l div day_ms + delta) * day_ms + 43200000)" for delta
    by (rule fixed_shift [OF assms(1,2)]) (use d in simp)
  have e1: "end_at fmt w (wall_parts ((l div day_ms + 1) * day_ms + 43200000)) = (l div day_ms + 1) * day_ms + pw_to_min w * 60000 - z"
    using fixed_end [OF assms(1-3), of "(l div day_ms + 1) * day_ms + 43200000"] d by (simp add: day_of_noon)
  show ?thesis
    unfolding window_end_at_def p Let_def wall_minutes s e e1 qualifies_day day_of_noon closes_at_def by simp
qed

lemma window_open_iff:
  assumes "reads_zone fmt (pw_tz w) (\<lambda>_. z)" "zone_offset z" "minutes_ok w" "0 \<le> now"
  shows "window_end_at fmt w now = Some e \<longleftrightarrow>
    (\<exists>d. opens_on w d \<and> opens_at w d - z \<le> now \<and> now < closes_at w d - z \<and> e = closes_at w d - z)"
proof -
  define l where "l = now + z"
  define d0 where "d0 = l div day_ms"
  define r where "r = l mod day_ms"
  have lr: "l = d0 * day_ms + r" "0 \<le> r" "r < day_ms" by (simp_all add: d0_def r_def day_ms_value)
  have m: "pw_from_min w \<le> r div 60000 \<longleftrightarrow> pw_from_min w * 60000 \<le> r" "r div 60000 < pw_to_min w \<longleftrightarrow> r < pw_to_min w * 60000"
    by linarith+
  have ft: "0 \<le> pw_from_min w * 60000" "pw_from_min w * 60000 < day_ms" "0 \<le> pw_to_min w * 60000" "pw_to_min w * 60000 < day_ms"
    "pw_from_min w \<noteq> pw_to_min w" using assms(3) by (simp_all add: minutes_ok_def day_ms_value)
  have now: "opens_at w d - z \<le> now \<longleftrightarrow> opens_at w d \<le> l" "now < closes_at w d - z \<longleftrightarrow> l < closes_at w d" for d
    by (auto simp: l_def)
  have day: "d = d0 \<or> d = d0 - 1 \<and> \<not> pw_from_min w < pw_to_min w" if "opens_at w d \<le> l" "l < closes_at w d" for d
  proof -
    have "d * day_ms \<le> l" using that(1) ft(1) by (simp add: opens_at_def)
    then have "d \<le> d0" by (simp add: d0_def day_ms_value)
    show ?thesis
    proof (cases "pw_from_min w < pw_to_min w")
      case True
      then have "l < (d + 1) * day_ms" using that(2) ft(4) by (simp add: closes_at_def day_ms_value)
      then have "d0 \<le> d" by (simp add: d0_def day_ms_value)
      then show ?thesis using \<open>d \<le> d0\<close> by simp
    next
      case False
      then have "l < (d + 2) * day_ms" using that(2) ft(4) by (simp add: closes_at_def day_ms_value)
      then have "d0 \<le> d + 1" by (simp add: d0_def day_ms_value)
      then show ?thesis using \<open>d \<le> d0\<close> False by linarith
    qed
  qed
  note W = window_end_fixed [OF assms l_def, folded d0_def r_def, unfolded Let_def m]
  show ?thesis
  proof (cases "pw_from_min w < pw_to_min w")
    case True
    have "opens_at w d0 \<le> l \<longleftrightarrow> pw_from_min w * 60000 \<le> r" "l < closes_at w d0 \<longleftrightarrow> r < pw_to_min w * 60000"
      using True lr(1) by (simp_all add: opens_at_def closes_at_def)
    then show ?thesis unfolding W now using True day by auto
  next
    case False
    have o': "opens_at w d0 \<le> l \<longleftrightarrow> pw_from_min w * 60000 \<le> r" "l < closes_at w d0"
      "opens_at w (d0 - 1) \<le> l" "l < closes_at w (d0 - 1) \<longleftrightarrow> r < pw_to_min w * 60000"
      using False lr ft by (simp_all add: opens_at_def closes_at_def algebra_simps)
    have "\<not> (pw_from_min w * 60000 \<le> r \<and> r < pw_to_min w * 60000)" using False ft(5) by linarith
    then show ?thesis unfolding W now using False day o' by auto
  qed
qed

text \<open>
  C30: In a zone of one offset, the end the worker computes for a window is the end of the window's
  day that is open at that instant, and there is none when none is open.
\<close>

theorem pause_window_exact:
  assumes "reads_zone fmt (pw_tz w) (\<lambda>_. z)" "zone_offset z" "minutes_ok w" "0 \<le> now"
  shows "window_end_at fmt w now = Some e \<longleftrightarrow>
    (\<exists>d. opens_on w d \<and> opens_at w d - z \<le> now \<and> now < closes_at w d - z \<and> e = closes_at w d - z)"
  by (rule window_open_iff [OF assms])

definition utc_format :: zone_format where "utc_format = (\<lambda>_ ms. wall_parts ms)"

definition night :: pause_window where
  "night = \<lparr>pw_scope = ''*'', pw_from = ''22:00'', pw_to = ''06:00'', pw_from_min = 1320, pw_to_min = 360, pw_tz = JStr ''UTC'',
    pw_days = None, pw_date_from = None, pw_date_to = None\<rparr>"

lemma utc_reads: "reads_zone utc_format tz (\<lambda>_. 0)"
proof -
  have "pt_hh (wall_parts ms) \<noteq> 24" for ms
  proof -
    have "ms mod day_ms < 86400000" by (simp add: day_ms_value)
    then have "ms mod day_ms div 3600000 \<noteq> 24" by linarith
    then show ?thesis by (simp add: wall_parts_def split: prod.split)
  qed
  then show ?thesis by (simp add: reads_zone_def zoned_parts_def utc_format_def)
qed

lemma night_open: "window_end_at utc_format night 82800000 = Some 108000000"
  by code_simp

lemma pause_window_exact_witness:
  "\<exists>d. opens_on night d \<and> opens_at night d - 0 \<le> 82800000 \<and> (82800000 :: int) < closes_at night d - 0 \<and> 108000000 = closes_at night d - 0"
proof (rule pause_window_exact [THEN iffD1, OF _ _ _ _ night_open])
  show "reads_zone utc_format (pw_tz night) (\<lambda>_. 0)" by (rule utc_reads)
qed (simp_all add: zone_offset_def minutes_ok_def night_def day_ms_value)

section \<open>The gate\<close>

lemma latest_end_Some:
  "latest_end m es = Some u \<Longrightarrow> (m = Some u \<or> Some u \<in> set es) \<and> (\<forall>x. m = Some x \<or> Some x \<in> set es \<longrightarrow> x \<le> u)"
proof (induction m es rule: latest_end.induct)
  case (3 m e es)
  show ?case
  proof (cases m)
    case None
    then have "(Some e = Some u \<or> Some u \<in> set es) \<and> (\<forall>x. Some e = Some x \<or> Some x \<in> set es \<longrightarrow> x \<le> u)" using 3 by simp
    then show ?thesis using None by simp blast
  next
    case (Some y)
    let ?b = "if y < e then e else y"
    have "(Some ?b = Some u \<or> Some u \<in> set es) \<and> (\<forall>x. Some ?b = Some x \<or> Some x \<in> set es \<longrightarrow> x \<le> u)"
      using 3 Some by (cases "y < e") simp_all
    then have "?b = u \<or> Some u \<in> set es" "?b \<le> u" "\<And>x. Some x \<in> set es \<Longrightarrow> x \<le> u" by blast+
    then show ?thesis using Some by (cases "y < e") auto
  qed
qed auto

lemma latest_end_None: "latest_end m es = None \<longleftrightarrow> m = None \<and> (\<forall>e \<in> set es. e = None)"
  by (induction m es rule: latest_end.induct) (auto split: option.splits if_splits)

text \<open>
  C11: In zones of one offset the gate at pickup lets a job go on only when no window of its scope is
  open for more than another second; otherwise it defers the job to the end of a window of its scope
  that is open, and no other open one ends later.
\<close>

theorem pause_gate_exact:
  assumes "\<And>w. w \<in> set ws \<Longrightarrow> reads_zone fmt (pw_tz w) (\<lambda>_. z w) \<and> zone_offset (z w) \<and> minutes_ok w"
    and "0 \<le> now" "scope_of j = Some s" "non_empty s"
  shows "(\<forall>w d. w \<in> set ws \<and> window_matches nfc j w \<and> opens_on w d \<and> opens_at w d - z w \<le> now \<and> now < closes_at w d - z w
      \<longrightarrow> (case pause_gate (pause_until nfc fmt ws j now) now of None \<Rightarrow> closes_at w d - z w \<le> now + 1000 | Some u \<Rightarrow> closes_at w d - z w \<le> u))
    \<and> (\<forall>u. pause_gate (pause_until nfc fmt ws j now) now = Some u \<longrightarrow> now + 1000 < u
      \<and> (\<exists>w d. w \<in> set ws \<and> window_matches nfc j w \<and> opens_on w d \<and> opens_at w d - z w \<le> now \<and> u = closes_at w d - z w))"
proof -
  let ?es = "map (\<lambda>w. window_end_at fmt w now) (filter (window_matches nfc j) ws)"
  have p: "pause_until nfc fmt ws j now = latest_end None ?es" using assms(3,4) by (simp add: pause_until_def)
  have op: "window_end_at fmt w now = Some e \<longleftrightarrow>
      (\<exists>d. opens_on w d \<and> opens_at w d - z w \<le> now \<and> now < closes_at w d - z w \<and> e = closes_at w d - z w)" if "w \<in> set ws" for w e
    using assms(1) [OF that] assms(2) by (intro window_open_iff) auto
  have member: "Some (closes_at w d - z w) \<in> set ?es"
    if "w \<in> set ws" "window_matches nfc j w" "opens_on w d" "opens_at w d - z w \<le> now" "now < closes_at w d - z w" for w d
  proof -
    have "window_end_at fmt w now = Some (closes_at w d - z w)" using op [OF that(1)] that(3-5) by blast
    then show ?thesis using that(1,2) by (force simp: image_iff)
  qed
  show ?thesis
  proof (intro conjI allI impI)
    fix w d
    assume a: "w \<in> set ws \<and> window_matches nfc j w \<and> opens_on w d \<and> opens_at w d - z w \<le> now \<and> now < closes_at w d - z w"
    then have m: "Some (closes_at w d - z w) \<in> set ?es" using member by blast
    then obtain u where u: "latest_end None ?es = Some u" using latest_end_None [of None ?es] by (cases "latest_end None ?es") auto
    have "closes_at w d - z w \<le> u" using latest_end_Some [OF u] m by blast
    then show "case pause_gate (pause_until nfc fmt ws j now) now of None \<Rightarrow> closes_at w d - z w \<le> now + 1000 | Some u \<Rightarrow> closes_at w d - z w \<le> u"
      using assms(2) a by (auto simp: p u pause_gate_def)
  next
    fix u assume g: "pause_gate (pause_until nfc fmt ws j now) now = Some u"
    then have u: "latest_end None ?es = Some u" "now + 1000 < u" by (auto simp: p pause_gate_def split: option.splits if_splits)
    show "now + 1000 < u" by (rule u)
    have "Some u \<in> set ?es" using latest_end_Some [OF u(1)] by simp
    then obtain w where w: "w \<in> set ws" "window_matches nfc j w" "window_end_at fmt w now = Some u" by auto
    then show "\<exists>w d. w \<in> set ws \<and> window_matches nfc j w \<and> opens_on w d \<and> opens_at w d - z w \<le> now \<and> u = closes_at w d - z w"
      using op [OF w(1)] by blast
  qed
qed

lemma pause_gate_exact_witness:
  "pause_gate (pause_until id utc_format [night] \<lparr>jb_kind = Some ''github'', jb_folder = None, jb_repo = Some ''o/r''\<rparr> 82800000) 82800000 = Some 108000000
   \<and> (\<exists>d. opens_on night d \<and> opens_at night d - 0 \<le> 82800000 \<and> 108000000 = closes_at night d - 0)"
proof -
  let ?j = "\<lparr>jb_kind = Some ''github'', jb_folder = None, jb_repo = Some ''o/r''\<rparr>"
  have g: "pause_gate (pause_until id utc_format [night] ?j 82800000) 82800000 = Some 108000000" by code_simp
  have a: "\<And>w. w \<in> set [night] \<Longrightarrow> reads_zone utc_format (pw_tz w) (\<lambda>_. 0) \<and> zone_offset 0 \<and> minutes_ok w"
    using utc_reads by (simp add: zone_offset_def minutes_ok_def night_def day_ms_value)
  have n: "scope_of ?j = Some ''o/r''" "non_empty ''o/r''" by code_simp+
  show ?thesis using conjunct2 [OF pause_gate_exact [of "[night]" utc_format "\<lambda>_. 0" 82800000 ?j "''o/r''" id, OF a _ n]] g by auto
qed

section \<open>Around a change of the offset\<close>












section \<open>What an accepted file holds\<close>

definition date_text :: "string option \<Rightarrow> bool" where
  "date_text v \<longleftrightarrow> (case v of None \<Rightarrow> True
     | Some t \<Rightarrow> (case date_pattern t of None \<Rightarrow> False | Some (y, m, d) \<Rightarrow> 1 \<le> m \<and> m \<le> 12 \<and> 1 \<le> d \<and> d \<le> 31))"

definition good_window :: "(json \<Rightarrow> bool) \<Rightarrow> pause_window \<Rightarrow> bool" where
  "good_window zone_ok w \<longleftrightarrow> minutes_ok w \<and> (pw_tz w = JStr ''UTC'' \<or> zone_ok (pw_tz w))
     \<and> parse_hhmm (Some (JStr (pw_from w))) ''from'' = Inr (pw_from_min w) \<and> parse_hhmm (Some (JStr (pw_to w))) ''to'' = Inr (pw_to_min w)
     \<and> (case pw_days w of None \<Rightarrow> True | Some ds \<Rightarrow> ds \<noteq> [] \<and> set ds \<subseteq> set day_names)
     \<and> date_text (pw_date_from w) \<and> date_text (pw_date_to w)
     \<and> (case (pw_date_from w, pw_date_to w) of (Some a, Some b) \<Rightarrow> a \<le> b | _ \<Rightarrow> True)"

lemma parse_hhmm_Inr:
  assumes "parse_hhmm v label = Inr m"
  shows "0 \<le> m" "m < 1440" "parse_hhmm (Some (JStr (time_text v))) l = Inr m"
proof -
  obtain s h n where s: "v = Some (JStr s)" "non_empty s" "hhmm_pattern (trim s) = Some (h, n)" "\<not> (h > 23 \<or> n > 59)" "m = int h * 60 + int n"
    using assms by (auto simp: parse_hhmm_def split: option.splits json.splits if_splits)
  then show "0 \<le> m" "m < 1440" by auto
  have "non_empty (trim s)" using s(2) by (simp add: non_empty_def)
  then show "parse_hhmm (Some (JStr (time_text v))) l = Inr m" using s by (simp add: parse_hhmm_def time_text_def)
qed

lemma read_date_Inr: "read_date v label = Inr d \<Longrightarrow> date_text d"
  by (auto simp: read_date_def date_text_def Let_def split: option.splits if_splits)

lemma read_days_Inr:
  assumes "read_days lower v = Inr ds"
  shows "case ds of None \<Rightarrow> True | Some ks \<Rightarrow> ks \<noteq> [] \<and> set ks \<subseteq> set day_names"
proof (cases ds)
  case (Some ks)
  then obtain xs where x: "xs \<noteq> []" "sum_map_list (read_day lower) xs = Inr ks"
    using assms by (auto simp: read_days_def sum_bind_Inr split: option.splits json.splits if_splits)
  then have r: "list_all2 (\<lambda>x k. read_day lower x = Inr k) xs ks" by (simp add: sum_map_list_Inr)
  have "k \<in> set day_names" if k: "k \<in> set ks" for k
  proof -
    obtain x where "read_day lower x = Inr k" using r k by (auto simp: list_all2_conv_all_nth in_set_conv_nth)
    then show ?thesis by (auto simp: read_day_def Let_def split: if_splits)
  qed
  moreover have "ks \<noteq> []" using r x(1) by auto
  ultimately show ?thesis using Some by auto
qed simp

lemma normalize_window_good:
  assumes "normalize_window nfc lower zone_ok w = Inr p"
  shows "good_window zone_ok p"
proof -
  obtain kvs where w: "w = JObj kvs" using assms by (cases w) (auto simp: normalize_window_def)
  obtain s where s: "map_of kvs ''scope'' = Some (JStr s)" "non_empty s"
    using assms by (auto simp: normalize_window_def w split: option.splits json.splits if_splits)
  obtain scope f t tz days df dt where r: "parse_hhmm (map_of kvs ''from'') ''from'' = Inr f" "parse_hhmm (map_of kvs ''to'') ''to'' = Inr t"
    "f \<noteq> t" "read_tz zone_ok (map_of kvs ''tz'') = Inr tz" "read_days lower (map_of kvs ''days'') = Inr days"
    "read_date (map_of kvs ''dateFrom'') ''dateFrom'' = Inr df" "read_date (map_of kvs ''dateTo'') ''dateTo'' = Inr dt"
    "\<not> (case (df, dt) of (Some a, Some b) \<Rightarrow> b < a | _ \<Rightarrow> False)"
    "p = \<lparr>pw_scope = scope, pw_from = time_text (map_of kvs ''from''), pw_to = time_text (map_of kvs ''to''), pw_from_min = f, pw_to_min = t,
      pw_tz = tz, pw_days = days, pw_date_from = df, pw_date_to = dt\<rparr>"
    using assms s by (auto simp: normalize_window_def w sum_bind_Inr split: if_splits)
  have "tz = JStr ''UTC'' \<or> zone_ok tz" using r(4) by (auto simp: read_tz_def split: option.splits if_splits)
  moreover have "case (df, dt) of (Some a, Some b) \<Rightarrow> a \<le> b | _ \<Rightarrow> True" using r(8) by (auto split: option.splits)
  ultimately show ?thesis
    using parse_hhmm_Inr [OF r(1)] parse_hhmm_Inr [OF r(2)] r(3) read_days_Inr [OF r(5)] read_date_Inr [OF r(6)] read_date_Inr [OF r(7)]
    by (simp add: good_window_def minutes_ok_def r(9))
qed

lemma read_windows_Inr: "read_windows nfc lower zone_ok i ws = Inr ps \<Longrightarrow> list_all2 (\<lambda>w p. normalize_window nfc lower zone_ok w = Inr p) ws ps"
  by (induction ws arbitrary: i ps) (auto simp: sum_bind_Inr split: sum.splits)

text \<open>
  Every window of an accepted file opens and closes at minutes of a day that differ, its times
  read back as those minutes, its zone is UTC or one the runtime knows, its days are at least one
  weekday, and its dates are calendar shaped and in order.
\<close>

theorem accepted_windows_well_formed:
  assumes "parse_pause_windows json_parse nfc lower zone_ok text = Inr ws"
  shows "list_all (good_window zone_ok) ws"
proof -
  obtain js where "read_windows nfc lower zone_ok 0 js = Inr ws"
    using assms by (auto simp: parse_pause_windows_def judge_pause_def sum_bind_Inr split: option.splits json.splits version_problem.splits)
  from read_windows_Inr [OF this] have "list_all2 (\<lambda>w p. normalize_window nfc lower zone_ok w = Inr p) js ws" .
  then show ?thesis by (induction rule: list_all2_induct) (auto intro: normalize_window_good)
qed

definition sample_pause :: json where
  "sample_pause = JObj [(''windows'', JArr [JObj [(''scope'', JStr ''github:o/r''), (''from'', JStr ''9:00''), (''to'', JStr ''17:30''),
     (''days'', JArr [JStr ''Mon'']), (''dateFrom'', JStr ''2026-01-02'')]])]"

definition sample_window :: pause_window where
  "sample_window = \<lparr>pw_scope = ''github:o/r'', pw_from = ''9:00'', pw_to = ''17:30'', pw_from_min = 540, pw_to_min = 1050, pw_tz = JStr ''UTC'',
     pw_days = Some [''mon''], pw_date_from = Some ''2026-01-02'', pw_date_to = None\<rparr>"

lemma sample_pause_parses:
  "parse_pause_windows (\<lambda>_. Some sample_pause) id lower_text (\<lambda>_. False) [] = Inr [sample_window]"
  by code_simp

lemma accepted_windows_well_formed_witness: "list_all (good_window (\<lambda>_. False)) [sample_window]"
  by (rule accepted_windows_well_formed [OF sample_pause_parses])

section \<open>A written file is read back\<close>

lemma pause_version_from_le:
  "pause_version_from t vt n ws \<le> v \<longleftrightarrow> n \<le> v \<and>
     (\<forall>w \<in> set ws. max (needed_version (map fst (window_keys w)) t) (value_needed_version (window_keys w) vt) \<le> v)"
  by (induction ws arbitrary: n) (auto simp: Let_def)

lemma check_versions_ok:
  "check_versions t vt v i ws = Inr () \<longleftrightarrow>
     (\<forall>w \<in> set ws. under_declared (map fst (window_keys w)) t v = None \<and> value_under_declared (window_keys w) vt v = None)"
  by (induction ws arbitrary: i) (auto split: option.split)

lemma map_of_put:
  "map_of (map (\<lambda>(k, x). if k = a then (k, y) else (k, x)) xs) k = (if k = a then map_option (\<lambda>_. y) (map_of xs k) else map_of xs k)"
  by (induction xs) auto

lemma map_of_filter_key: "map_of (filter (\<lambda>(k, x). k \<noteq> a) xs) k = (if k = a then None else map_of xs k)"
  by (induction xs) auto

lemma written_doc:
  fixes t vt rest ws
  defines "d \<equiv> pause_windows_doc t vt (JObj rest) ws" and "v \<equiv> pause_windows_version_for t vt ws"
  shows "map_of d ''version'' = (if v > 1 then Some (JInt v) else None)" "map_of d ''windows'' = Some (JArr ws)"
    "k \<noteq> ''version'' \<Longrightarrow> k \<noteq> ''windows'' \<Longrightarrow> map_of d k = map_of rest k"
  by (auto simp: d_def v_def pause_windows_doc_def window_keys_def Let_def map_add_def map_of_put map_of_filter_key split: option.split)

text \<open>
  A list of windows the reader accepts, written over any document, is read back as the same
  windows: the version the writer stamps is one the reader takes and covers every field and value,
  whatever the version tables say, and no other key of the document is lost. A reader that takes the
  windows under a declared version takes none lower than that stamp.
\<close>

theorem written_windows_read_back:
  assumes "read_windows nfc lower zone_ok 0 ws = Inr ps" "pause_windows_version_for t vt ws \<le> supported" "is_safe supported"
  shows "judge_pause nfc lower zone_ok supported t vt (JObj (pause_windows_doc t vt (JObj rest) ws)) = Inr ps
    \<and> (k \<noteq> ''version'' \<longrightarrow> k \<noteq> ''windows'' \<longrightarrow> map_of (pause_windows_doc t vt (JObj rest) ws) k = map_of rest k)
    \<and> (1 \<le> v \<and> check_versions t vt v 0 ws = Inr () \<longleftrightarrow> pause_windows_version_for t vt ws \<le> v)"
proof -
  let ?v = "pause_windows_version_for t vt ws"
  have lowest: "1 \<le> v \<and> check_versions t vt v 0 ws = Inr () \<longleftrightarrow> ?v \<le> v" for v
    using covered_iff_needed [of v _ t vt] by (auto simp: check_versions_ok pause_windows_version_for_def pause_version_from_le)
  have v: "1 \<le> ?v" "is_safe ?v" using lowest [of ?v] assms(2,3) by (auto simp: is_safe_def max_safe_def)
  then have "check_versions t vt ?v 0 ws = Inr ()" using lowest [of ?v] by simp
  then have "judge_pause nfc lower zone_ok supported t vt (JObj (pause_windows_doc t vt (JObj rest) ws)) = Inr ps"
    using v assms(1,2) by (cases "?v = 1") (simp_all add: judge_pause_def pause_version_refusal_def declared_version_def written_doc version_problem_def)
  then show ?thesis using lowest written_doc(3) by simp
qed

lemma written_windows_read_back_witness:
  "judge_pause id lower_text (\<lambda>_. False) 1 pause_field_versions pause_value_versions
     (JObj (pause_windows_doc pause_field_versions pause_value_versions (JObj [(''note'', JNull)])
       [JObj [(''scope'', JStr ''*''), (''from'', JStr ''22:00''), (''to'', JStr ''06:00'')]])) = Inr [night]"
proof -
  let ?w = "JObj [(''scope'', JStr ''*''), (''from'', JStr ''22:00''), (''to'', JStr ''06:00'')]"
  have r: "read_windows id lower_text (\<lambda>_. False) 0 [?w] = Inr [night]" by code_simp
  have v: "pause_windows_version_for pause_field_versions pause_value_versions [?w] \<le> 1" by code_simp
  have s: "is_safe 1" by (simp add: is_safe_def max_safe_def)
  show ?thesis using written_windows_read_back [OF r v s] by blast
qed

end
