(* ===== verification/ScopedLimitsUse.thy ===== *)
theory ScopedLimitsUse
  imports ScopedLimitsFacts "HOL-Library.Multiset"
begin

text \<open>
  The rows of an accepted limits file at work: the job-count ledgers of a pickup take one slot of
  every window and no other counter, nothing the rows become is refused at pickup, and the in-process
  slots stay within a scope's bound.
\<close>

section \<open>The ledgers of a pickup\<close>

text \<open>The list the processor reserves: the job's row, its project's row, then the deployment's windows.\<close>

definition global_ledger :: "caps \<Rightarrow> int option \<Rightarrow> ledger" where
  "global_ledger c pct = \<lparr>l_scope = None, l_prefix = None, l_caps = c, l_pct = pct, l_reason = []\<rparr>"

definition pickup_ledgers ::
  "(string \<Rightarrow> string) \<Rightarrow> string \<Rightarrow> (string \<Rightarrow> string) \<Rightarrow> job \<Rightarrow> limit list \<Rightarrow> string option \<Rightarrow> caps \<Rightarrow> int option \<Rightarrow> ledger list" where
  "pickup_ledgers nfc cwd hash j limits project c pct = scoped_ledgers nfc cwd hash j limits project @ [global_ledger c pct]"

lemma iso_text_not_s: "hd (iso_text t) \<noteq> CHR ''s''" "iso_text t \<noteq> []"
proof -
  obtain y m dd where c: "civil (utc_day t) = (y, m, dd)" by (cases "civil (utc_day t)") auto
  obtain x u where xu: "pad_start 4 (CHR ''0'') (nat_text (nat y)) = x # u"
    by (cases "pad_start 4 (CHR ''0'') (nat_text (nat y))") (auto simp: pad_start_def)
  then have "is_digit x" using pad_start_digits [of x 4 "nat y"] by simp
  then have "hd (iso_year y) \<noteq> CHR ''s'' \<and> iso_year y \<noteq> []" using xu by (auto simp: iso_year_def is_digit_def)
  then show "hd (iso_text t) \<noteq> CHR ''s''" "iso_text t \<noteq> []"
    using c by (auto simp: iso_text_def Let_def iso_date_def iso_month_def)
qed

lemma ledger_key_shape:
  assumes "k \<in> set (ledger_keys now l)"
  shows "\<exists>c x. k = ledger_prefix l @ CHR '':'' # c # x \<and> c \<noteq> CHR ''s''"
proof -
  have iso: "\<exists>c x. take n (iso_text t) = c # x \<and> c \<noteq> CHR ''s''" if "0 < n" for n t
    using iso_text_not_s [of t] that by (cases "iso_text t"; cases n) auto
  have "k \<in> {day_key now (ledger_prefix l), week_key now (ledger_prefix l), month_key now (ledger_prefix l)}"
    using assms by (auto simp: ledger_keys_def active_windows_def split: option.splits)
  then show ?thesis using iso [of 10 now] by (auto simp: day_key_def week_key_def month_key_def Let_def split: prod.splits)
qed

lemma row_keys_apart:
  assumes "k \<in> set (ledger_keys now (row_ledger hash r s c))" "k \<in> set (ledger_keys now (row_ledger hash r' s' c'))"
    and "\<forall>s. length (hash s) = 16"
  shows "hash s = hash s'"
proof -
  have p: "ledger_prefix (row_ledger hash r s c) = ''budget:s:'' @ hash s" for r s c
    by (simp add: ledger_prefix_def row_ledger_def scope_key_prefix_def)
  obtain x where x: "k = ''budget:s:'' @ hash s @ x" using ledger_key_shape [OF assms(1)] by (auto simp: p)
  obtain y where y: "k = ''budget:s:'' @ hash s' @ y" using ledger_key_shape [OF assms(2)] by (auto simp: p)
  have "hash s @ x = hash s' @ y" using x y by simp
  then show ?thesis using assms(3) by (metis append_eq_append_conv)
qed

lemma row_global_apart: "k \<in> set (ledger_keys now (row_ledger hash r s c)) \<Longrightarrow> k \<notin> set (ledger_keys now (global_ledger c' pct))"
proof
  assume a: "k \<in> set (ledger_keys now (row_ledger hash r s c))" "k \<in> set (ledger_keys now (global_ledger c' pct))"
  from ledger_key_shape [OF a(1)] obtain x where "k = ''budget:s:'' @ x"
    by (auto simp: ledger_prefix_def row_ledger_def scope_key_prefix_def)
  moreover from ledger_key_shape [OF a(2)] obtain d y where "k = ''budget:'' @ d # y" "d \<noteq> CHR ''s''"
    by (auto simp: ledger_prefix_def global_ledger_def)
  ultimately show False by simp
qed

lemma ledger_keys_distinct: "distinct (ledger_keys now l)"
  using active_windows_distinct(1) by (simp add: ledger_keys_def)

lemma project_row_Some: "project_row_for rows p = Some l \<Longrightarrow> l \<in> set rows \<and> is_project_scope (lm_scope l)"
  by (auto simp: project_row_for_def find_Some_iff is_project_scope_def project_scope_def split: option.splits if_splits)

lemma limit_for_Some: "limit_for nfc cwd rows j = Some l \<Longrightarrow> l \<in> set rows \<and> \<not> is_group_scope (lm_scope l)"
  by (auto simp: limit_for_def dest: find_row_Some split: option.splits if_splits)

lemma pickup_keys_distinct:
  assumes "\<forall>s. length (hash s) = 16" "inj_on hash (lm_scope ` set rows)"
  shows "distinct (ledgers_keys now (pickup_ledgers nfc cwd hash j rows project c pct))"
proof -
  let ?scoped = "case budget_caps_for nfc cwd j rows of None \<Rightarrow> [] | Some (s, c) \<Rightarrow> [row_ledger hash ''scope-cap'' s c]"
  let ?proj = "case project_row_for rows project of None \<Rightarrow> []
        | Some l \<Rightarrow> (case count_caps l of None \<Rightarrow> [] | Some c \<Rightarrow> [row_ledger hash ''project-cap'' (lm_scope l) c])"
  have one: "ls = [] \<or> (\<exists>l r c. l \<in> set rows \<and> Q l \<and> ls = [row_ledger hash r (lm_scope l) c]) \<Longrightarrow> distinct (ledgers_keys now ls)" for ls Q
    using ledger_keys_distinct by auto
  have s: "?scoped = [] \<or> (\<exists>l r c. l \<in> set rows \<and> \<not> is_group_scope (lm_scope l) \<and> ?scoped = [row_ledger hash r (lm_scope l) c])"
  proof (cases "budget_caps_for nfc cwd j rows")
    case (Some sc)
    then obtain l where "limit_for nfc cwd rows j = Some l" "fst sc = lm_scope l" by (auto simp: budget_caps_for_def split: Option.bind_splits)
    then have "?scoped = [row_ledger hash ''scope-cap'' (lm_scope l) (snd sc)]" "l \<in> set rows \<and> \<not> is_group_scope (lm_scope l)"
      using limit_for_Some [of nfc cwd rows j l] Some by (simp_all add: split_def)
    then show ?thesis by blast
  qed simp
  have p: "?proj = [] \<or> (\<exists>l r c. l \<in> set rows \<and> is_group_scope (lm_scope l) \<and> ?proj = [row_ledger hash r (lm_scope l) c])"
    using project_row_Some by (fastforce simp: is_group_scope_def split: option.splits)
  define sc where "sc = ?scoped"
  define pr where "pr = ?proj"
  note s = s [folded sc_def] and p = p [folded pr_def]
  have "set (ledgers_keys now sc) \<inter> set (ledgers_keys now pr) = {}"
  proof (rule ccontr)
    assume "set (ledgers_keys now sc) \<inter> set (ledgers_keys now pr) \<noteq> {}"
    then obtain k where k: "k \<in> set (ledgers_keys now sc)" "k \<in> set (ledgers_keys now pr)" by blast
    from s k(1) obtain l r c where l: "l \<in> set rows" "\<not> is_group_scope (lm_scope l)" "k \<in> set (ledger_keys now (row_ledger hash r (lm_scope l) c))" by auto
    from p k(2) obtain l' r' c' where l': "l' \<in> set rows" "is_group_scope (lm_scope l')" "k \<in> set (ledger_keys now (row_ledger hash r' (lm_scope l') c'))" by auto
    have "hash (lm_scope l) = hash (lm_scope l')" by (rule row_keys_apart [OF l(3) l'(3) assms(1)])
    then have "lm_scope l = lm_scope l'" using inj_onD [OF assms(2)] l(1) l'(1) by blast
    then show False using l(2) l'(2) by simp
  qed
  moreover have "set (ledgers_keys now (sc @ pr)) \<inter> set (ledger_keys now (global_ledger c pct)) = {}"
  proof -
    have "k \<notin> set (ledger_keys now (global_ledger c pct))" if "k \<in> set (ledgers_keys now (sc @ pr))" for k
      using that s p row_global_apart by auto
    then show ?thesis by blast
  qed
  moreover have "pickup_ledgers nfc cwd hash j rows project c pct = sc @ pr @ [global_ledger c pct]"
    by (simp add: pickup_ledgers_def scoped_ledgers_def sc_def pr_def)
  ultimately show ?thesis
    using one [OF s] one [OF p] ledger_keys_distinct [of now "global_ledger c pct"]
    by (simp add: Int_Un_distrib Int_Un_distrib2)
qed

text \<open>
  A pickup whose job-count reservations are all admitted took exactly one slot of every window it
  counts in, its row's, its project's and the deployment's, and touched no other counter.
\<close>

theorem admitted_takes_one_slot:
  assumes "counter_store C val" "\<forall>s. length (hash s) = 16" "inj_on hash (lm_scope ` set rows)"
    and "reserve_ledgers C now (pickup_ledgers nfc cwd hash j rows project c pct) [] s = (Inr Admitted, held, s')"
  shows "held = pickup_ledgers nfc cwd hash j rows project c pct
    \<and> count_at (val s') k = count_at (val s) k + (if k \<in> set (ledgers_keys now (pickup_ledgers nfc cwd hash j rows project c pct)) then 1 else 0)"
  using counter_store.reserve_ledgers_ok [OF assms(1,4)] count_list_distinct [OF pickup_keys_distinct [OF assms(2,3)]]
  by (auto simp: count_bump)

definition sample_hash :: "string \<Rightarrow> string" where
  "sample_hash s = (if s = ''o/r'' then replicate 16 (CHR ''0'') else replicate 16 (CHR ''1''))"

definition sample_job :: job where "sample_job = \<lparr>jb_kind = Some ''github'', jb_folder = None, jb_repo = Some ''o/r''\<rparr>"

lemma sample_pickup:
  "pickup_ledgers id ''/'' sample_hash sample_job [(bare_limit ''o/r'')\<lparr>lm_day := Some 2\<rparr>] None \<lparr>cap_day = Some 3, cap_week = None, cap_month = None\<rparr> None
   = [row_ledger sample_hash ''scope-cap'' ''o/r'' \<lparr>cap_day = Some 2, cap_week = None, cap_month = None\<rparr>,
      global_ledger \<lparr>cap_day = Some 3, cap_week = None, cap_month = None\<rparr> None]"
  by code_simp

lemma admitted_takes_one_slot_witness:
  "\<exists>held s'. reserve_ledgers mem_client 0 (pickup_ledgers id ''/'' sample_hash sample_job [(bare_limit ''o/r'')\<lparr>lm_day := Some 2\<rparr>] None
       \<lparr>cap_day = Some 3, cap_week = None, cap_month = None\<rparr> None) [] mem_init = (Inr Admitted, held, s')
     \<and> length held = 2 \<and> count_at (m_store s') (day_key 0 ''budget'') = 1"
proof -
  let ?rows = "[(bare_limit ''o/r'')\<lparr>lm_day := Some 2\<rparr>]" and ?c = "\<lparr>cap_day = Some 3, cap_week = None, cap_month = None\<rparr>"
  let ?ls = "pickup_ledgers id ''/'' sample_hash sample_job ?rows None ?c None"
  have l: "length ?ls = 2" unfolding sample_pickup by simp
  have k: "day_key 0 ''budget'' \<in> set (ledgers_keys 0 ?ls)"
    unfolding sample_pickup by (simp add: ledger_keys_def active_windows_def global_ledger_def ledger_prefix_def)
  have d: "day_key 0 (''budget:s:'' @ h) \<noteq> day_key 0 ''budget''" for h
    using iso_text_not_s [of 0] by (cases "iso_text 0") (auto simp: day_key_def)
  have "\<exists>held s'. reserve_ledgers mem_client 0 ?ls [] mem_init = (Inr Admitted, held, s')"
    unfolding sample_pickup using d [of "sample_hash ''o/r''", symmetric]
    by (simp add: row_ledger_def global_ledger_def ledger_prefix_def scope_key_prefix_def reserve_budget_def active_windows_def mem_run
        judge_windows_def window_order_def in_state_def window_state_def count_at_def add_at_other)
  then obtain held s' where r: "reserve_ledgers mem_client 0 ?ls [] mem_init = (Inr Admitted, held, s')" by blast
  have h: "\<forall>s. length (sample_hash s) = 16" by (simp add: sample_hash_def)
  have i: "inj_on sample_hash (lm_scope ` set ?rows)" by simp
  have z: "count_at (m_store mem_init) (day_key 0 ''budget'') = 0" by (simp add: count_at_def mem_init_def)
  note t = admitted_takes_one_slot [OF mem.counter_store_axioms h i r, of "day_key 0 ''budget''"]
  show ?thesis using r t l z k by auto
qed

section \<open>Nothing is refused later\<close>

lemma usd_ok_caps: "usd_ok v \<Longrightarrow> \<exists>c. usd_cap v f = Inr c \<and> (case c of None \<Rightarrow> v = None | Some m \<Rightarrow> 0 < m \<and> m \<le> max_usd_micros \<and> (\<exists>t. v = Some t \<and> format_micros m = Inr t))"
proof (cases v)
  case (Some t)
  assume "usd_ok v"
  then obtain m where m: "parse_usd_micros (Usd_text t) [] = Inr m" "format_micros m = Inr t"
    using Some by (auto simp: usd_ok_def split: sum.splits)
  have b: "0 < m" "m \<le> max_usd_micros" using parse_usd_bounds [OF m(1)] by simp_all
  have "parse_usd_micros (Usd_text t) f = Inr m" using usd_ok_format(2) [OF b m(2)] .
  then show ?thesis using Some m b by (simp add: usd_cap_def)
qed (simp add: usd_cap_def)

lemma good_usd_caps:
  assumes "good_limit l"
  obtains d w m where "usd_cap (lm_day_usd l) ''dayUsd'' = Inr d" "usd_cap (lm_week_usd l) ''weekUsd'' = Inr w" "usd_cap (lm_month_usd l) ''monthUsd'' = Inr m"
    "\<forall>x. Some x \<in> {d, w, m} \<longrightarrow> 0 < x \<and> x \<le> max_usd_micros"
proof -
  have ok: "usd_ok (lm_day_usd l)" "usd_ok (lm_week_usd l)" "usd_ok (lm_month_usd l)" using assms by (simp_all add: good_limit_def dollars_ok_def)
  obtain d where d: "usd_cap (lm_day_usd l) ''dayUsd'' = Inr d" "case d of None \<Rightarrow> True | Some m \<Rightarrow> 0 < m \<and> m \<le> max_usd_micros"
    using usd_ok_caps [OF ok(1), of "''dayUsd''"] by (auto split: option.splits)
  obtain w where w: "usd_cap (lm_week_usd l) ''weekUsd'' = Inr w" "case w of None \<Rightarrow> True | Some m \<Rightarrow> 0 < m \<and> m \<le> max_usd_micros"
    using usd_ok_caps [OF ok(2), of "''weekUsd''"] by (auto split: option.splits)
  obtain m where m: "usd_cap (lm_month_usd l) ''monthUsd'' = Inr m" "case m of None \<Rightarrow> True | Some m \<Rightarrow> 0 < m \<and> m \<le> max_usd_micros"
    using usd_ok_caps [OF ok(3), of "''monthUsd''"] by (auto split: option.splits)
  show thesis by (rule that [OF d(1) w(1) m(1)]) (use d(2) w(2) m(2) in auto)
qed

definition caps_within :: "caps \<Rightarrow> bool" where
  "caps_within c \<longleftrightarrow> (\<forall>x. Some x \<in> {cap_day c, cap_week c, cap_month c} \<longrightarrow> 0 < x \<and> x \<le> max_usd_micros)"

lemma good_row_dollars:
  assumes "good_limit l"
  shows "\<exists>r. row_dollars n p l = Inr r \<and> (\<forall>d. r = Some d \<longrightarrow> caps_within (d_caps (snd d)))"
proof -
  obtain d w m where c: "usd_cap (lm_day_usd l) ''dayUsd'' = Inr d" "usd_cap (lm_week_usd l) ''weekUsd'' = Inr w" "usd_cap (lm_month_usd l) ''monthUsd'' = Inr m"
    "\<forall>x. Some x \<in> {d, w, m} \<longrightarrow> 0 < x \<and> x \<le> max_usd_micros" by (rule good_usd_caps [OF assms])
  then show ?thesis by (auto simp: row_dollars_def usd_caps_def caps_within_def)
qed

lemma good_rows_dollars:
  assumes "\<forall>l \<in> set ls. good_limit l"
  shows "\<exists>ds. sum_map_list (\<lambda>l. row_dollars (n l) (p l) l) ls = Inr ds \<and> (\<forall>d. Some d \<in> set ds \<longrightarrow> caps_within (d_caps (snd d)))"
  using assms
proof (induction ls)
  case (Cons l ls)
  obtain r where "row_dollars (n l) (p l) l = Inr r" "\<forall>d. r = Some d \<longrightarrow> caps_within (d_caps (snd d))"
    using good_row_dollars Cons.prems by fastforce
  with Cons show ?case by auto
qed simp

text \<open>A row as the size of a job reads it.\<close>

definition size_row :: "limit \<Rightarrow> limit_row" where
  "size_row l =
     \<lparr>lr_scope = Some (lm_scope l), lr_memory = (case lm_memory l of None \<Rightarrow> Size_absent | Some t \<Rightarrow> Size_text t),
      lr_cpus = (case lm_cpus l of None \<Rightarrow> Size_absent | Some t \<Rightarrow> Size_number t), lr_host_share = lm_share l, lr_min_jobs = lm_min_jobs l\<rparr>"

lemma good_row_sizes:
  assumes "good_limit l"
  shows "row_memory (Some (size_row l)) \<noteq> Some (Inl e)" "row_cpus (Some (size_row l)) \<noteq> Some (Inl e)"
  using assms by (auto simp: good_limit_def sizes_ok_def row_memory_def row_cpus_def size_row_def memory_ok_def cpus_ok_def split: option.splits sum.splits)

lemma good_rows_size:
  assumes "\<forall>l \<in> set rows. good_limit l" "job_size_defaults em ec = Inr d"
  shows "\<exists>z. resolve_job_size project (map size_row rows) em ec = Inr z"
proof (cases "project_row (map size_row rows) project")
  case None
  then show ?thesis using assms(2) by (simp add: resolve_job_size_def pick_size_def row_memory_def row_cpus_def)
next
  case (Some r)
  then have "r \<in> set (map size_row rows)" by (auto simp: project_row_def find_Some_iff split: option.splits)
  then obtain l where l: "l \<in> set rows" "r = size_row l" by auto
  have "row_memory (Some r) \<noteq> Some (Inl e)" "row_cpus (Some r) \<noteq> Some (Inl e)" for e
    using good_row_sizes assms(1) l by auto
  then show ?thesis using assms(2) Some by (auto simp: resolve_job_size_def pick_size_def Let_def split: option.splits sum.splits)
qed

text \<open>
  Rows that were accepted are never refused at pickup: every dollar window a row becomes, for the
  job's scope, its project and the models, is read again, within the bounds of an amount, and the
  project's size is read whenever the deployment's own size settings are.
\<close>

theorem accepted_limits_never_refused:
  assumes "parse_scoped_limits json_parse nfc text = Inr rows"
  shows "(\<exists>r. dollar_caps_for nfc cwd hash j rows = Inr r \<and> (\<forall>d. r = Some d \<longrightarrow> caps_within (d_caps (snd d))))
    \<and> (\<exists>r. project_dollar_caps_for hash rows project = Inr r \<and> (\<forall>d. r = Some d \<longrightarrow> caps_within (d_caps (snd d))))
    \<and> (\<exists>ds. model_dollar_rows hash rows models = Inr ds \<and> (\<forall>d. d \<in> set ds \<longrightarrow> caps_within (d_caps (snd d))))
    \<and> (\<forall>em ec d. job_size_defaults em ec = Inr d \<longrightarrow> (\<exists>z. resolve_job_size project (map size_row rows) em ec = Inr z))"
proof (intro conjI allI impI)
  obtain parsed where "judge_limits nfc parsed = Inr rows" using assms by (auto simp: parse_scoped_limits_def split: option.splits)
  note good = limits_facts(1) [OF this]
  show "\<exists>r. dollar_caps_for nfc cwd hash j rows = Inr r \<and> (\<forall>d. r = Some d \<longrightarrow> caps_within (d_caps (snd d)))"
  proof (cases "limit_for nfc cwd rows j")
    case (Some l)
    then have "good_limit l" using limit_for_Some [OF Some] good by simp
    then show ?thesis using good_row_dollars Some by (simp add: dollar_caps_for_def)
  qed (simp add: dollar_caps_for_def)
  show "\<exists>r. project_dollar_caps_for hash rows project = Inr r \<and> (\<forall>d. r = Some d \<longrightarrow> caps_within (d_caps (snd d)))"
  proof (cases "project_row_for rows project")
    case (Some l)
    then have "good_limit l" using project_row_Some [OF Some] good by simp
    then show ?thesis using good_row_dollars Some by (simp add: project_dollar_caps_for_def)
  qed (simp add: project_dollar_caps_for_def)
  let ?wanted = "\<lambda>r. case models of None \<Rightarrow> True | Some ms \<Rightarrow> r \<in> set (map lower_text ms)"
  let ?rows = "filter (\<lambda>l. is_model_scope (lm_scope l) \<and> ?wanted (lower_text (drop 6 (lm_scope l)))) rows"
  have "\<forall>l \<in> set ?rows. good_limit l" using good by simp
  then obtain ds where ds: "sum_map_list (\<lambda>l. row_dollars (lower_text (drop 6 (lm_scope l))) (model_dollar_key_prefix hash (lower_text (drop 6 (lm_scope l)))) l) ?rows = Inr ds"
    "\<forall>d. Some d \<in> set ds \<longrightarrow> caps_within (d_caps (snd d))"
    using good_rows_dollars [of ?rows "\<lambda>l. lower_text (drop 6 (lm_scope l))" "\<lambda>l. model_dollar_key_prefix hash (lower_text (drop 6 (lm_scope l)))"]
    by blast
  have "set (List.map_filter (\<lambda>d. d) ds) = {d. Some d \<in> set ds}" by (force simp: map_filter_def)
  then show "\<exists>ds. model_dollar_rows hash rows models = Inr ds \<and> (\<forall>d. d \<in> set ds \<longrightarrow> caps_within (d_caps (snd d)))"
    using ds by (simp add: model_dollar_rows_def Let_def)
  fix em ec d assume "job_size_defaults em ec = Inr d"
  then show "\<exists>z. resolve_job_size project (map size_row rows) em ec = Inr z" by (rule good_rows_size [OF good])
qed

lemma accepted_limits_never_refused_witness:
  "\<exists>r. dollar_caps_for id ''/'' sample_hash sample_job sample_rows = Inr r"
  using accepted_limits_never_refused [OF sample_parses] by blast

section \<open>The folder mutex\<close>

text \<open>Pickups and ends of jobs over the in-process slots, under limits that may be reloaded between any
  two steps. A running job is listed with the key it took, and beside it the members of projects with the
  project's key, taken after the scope's and given back before it (here at any moment): both kinds of
  key count in one map.\<close>

type_synonym slots = "in_flight \<times> (string \<times> job) list \<times> (string \<times> job) list"

inductive slot_run :: "(string \<Rightarrow> string) \<Rightarrow> string \<Rightarrow> slots \<Rightarrow> slots \<Rightarrow> bool"
  for nfc cwd where
  taken: "row_scope_for nfc cwd j limits = Some s \<Longrightarrow> try_acquire s (concurrency_for nfc cwd j limits) f = (True, f') \<Longrightarrow>
    slot_run nfc cwd (f, js, ps) (f', (s, j) # js, ps)"
| busy: "row_scope_for nfc cwd j limits = Some s \<Longrightarrow> try_acquire s (concurrency_for nfc cwd j limits) f = (False, f') \<Longrightarrow>
    slot_run nfc cwd (f, js, ps) (f', js, ps)"
| ended: "(s, j) \<in> set js \<Longrightarrow> slot_run nfc cwd (f, js, ps) (release_slot s f, remove1 (s, j) js, ps)"
| project_taken: "project_row_for limits p = Some l \<Longrightarrow> lm_concurrent l = Some n \<Longrightarrow> try_acquire (lm_scope l) (Some n) f = (True, f') \<Longrightarrow>
    slot_run nfc cwd (f, js, ps) (f', js, (lm_scope l, j) # ps)"
| project_busy: "project_row_for limits p = Some l \<Longrightarrow> lm_concurrent l = Some n \<Longrightarrow> try_acquire (lm_scope l) (Some n) f = (False, f') \<Longrightarrow>
    slot_run nfc cwd (f, js, ps) (f', js, ps)"
| project_ended: "(s, j) \<in> set ps \<Longrightarrow> slot_run nfc cwd (f, js, ps) (release_slot s f, js, remove1 (s, j) ps)"

definition holding :: "string \<Rightarrow> (string \<times> job) list \<Rightarrow> job list" where
  "holding s js = map snd (filter (\<lambda>(s', j). s' = s) js)"

definition is_local :: "job \<Rightarrow> bool" where "is_local j \<longleftrightarrow> jb_kind j = Some ''local''"

definition slots_counted :: "slots \<Rightarrow> bool" where
  "slots_counted st \<longleftrightarrow> (case st of (f, js, ps) \<Rightarrow>
     \<forall>s. in_flight_count f s = length (holding s js) + length (holding s ps) \<and> length (filter is_local (holding s js)) \<le> 1)"

lemma holding_Cons: "holding s ((s', j) # js) = (if s' = s then j # holding s js else holding s js)"
  by (simp add: holding_def)

lemma holding_remove: "(s, j) \<in> set js \<Longrightarrow> mset (holding s js) = add_mset j (mset (holding s (remove1 (s, j) js)))"
  by (induction js) (auto simp: holding_def)

lemma holding_remove_other: "s' \<noteq> s \<Longrightarrow> holding s' (remove1 (s, j) js) = holding s' js"
  by (induction js) (auto simp: holding_def)

lemma local_limit:
  assumes "is_local j" "row_scope_for nfc cwd j limits = Some s"
  shows "\<exists>c. concurrency_for nfc cwd j limits = Some c \<and> c \<le> 1"
proof -
  have "canonical_scope nfc cwd j \<noteq> None"
  proof
    assume "canonical_scope nfc cwd j = None"
    with assms show False by (simp add: row_scope_for_def limit_for_def find_row_def is_local_def)
  qed
  then show ?thesis using assms(1) by (auto simp: concurrency_for_def is_local_def Let_def split: option.splits)
qed

lemma holding_length: "(s, j) \<in> set js \<Longrightarrow> length (holding s js) = Suc (length (holding s (remove1 (s, j) js)))"
  using arg_cong [OF holding_remove, of s j js size] by simp

lemma acquired: "try_acquire s l f = (True, f') \<Longrightarrow> f' = f(s \<mapsto> Suc (in_flight_count f s))"
  by (auto simp: try_acquire_def Let_def split: if_splits)

lemma refused: "try_acquire s l f = (False, f') \<Longrightarrow> f' = f"
  by (auto simp: try_acquire_def Let_def split: if_splits)

lemma released_count: "in_flight_count (release_slot s f) s' = (if s' = s then in_flight_count f s - 1 else in_flight_count f s')"
  by (auto simp: release_slot_def Let_def in_flight_count_def)

lemma slot_run_counted: "slot_run nfc cwd st st' \<Longrightarrow> slots_counted st \<Longrightarrow> slots_counted st'"
proof (induction rule: slot_run.induct)
  case (taken j limits s f f' js ps)
  have "in_flight_count f s = 0" if "is_local j"
    using local_limit [OF that taken(1)] taken(2) by (auto simp: try_acquire_def Let_def split: if_splits)
  then have "is_local j \<Longrightarrow> holding s js = []" using taken(3) by (simp add: slots_counted_def)
  then show ?case using taken(3) by (auto simp: slots_counted_def holding_Cons acquired [OF taken(2)] in_flight_count_def)
next
  case (busy j limits s f f' js ps)
  then show ?case using refused by fastforce
next
  case (ended s j js f ps)
  have loc: "length (filter is_local (holding s (remove1 (s, j) js))) \<le> length (filter is_local (holding s js))"
    using holding_remove [OF ended(1)] by (metis filter_mset_add_mset le_SucI mset_filter nle_le size_add_mset size_mset)
  then show ?case using ended(2) holding_length [OF ended(1)] holding_remove_other [of _ s j js]
    by (fastforce simp: slots_counted_def released_count intro: order_trans)
next
  case (project_taken limits p l n f f' js ps j)
  then show ?case by (auto simp: slots_counted_def holding_Cons acquired [OF project_taken(3)] in_flight_count_def)
next
  case (project_busy limits p l n f f' js ps)
  then show ?case using refused by fastforce
next
  case (project_ended s j ps f js)
  then show ?case using holding_length [OF project_ended(1)] holding_remove_other [of _ s j ps]
    by (auto simp: slots_counted_def released_count)
qed

lemma local_key: "is_local j \<Longrightarrow> row_scope_for nfc cwd j limits = canonical_scope nfc cwd j"
  by (auto simp: row_scope_for_def limit_for_def is_local_def dest: find_row_Some split: option.splits)

text \<open>
  C22: Two local jobs never run in one folder: whatever limits are loaded, and reloaded, between
  pickups and ends of jobs, at most one local job holds the slot of a key, the key of a local job is
  its resolved folder under any limits, and the count of a key is the number of jobs that hold it, as
  their scope's or as their project's.
\<close>

theorem folder_mutex:
  assumes "(slot_run nfc cwd)\<^sup>*\<^sup>* (\<lambda>_. None, [], []) (f, js, ps)"
  shows "length (filter is_local (holding s js)) \<le> 1 \<and> in_flight_count f s = length (holding s js) + length (holding s ps)
    \<and> (is_local j \<longrightarrow> row_scope_for nfc cwd j limits = canonical_scope nfc cwd j)"
proof -
  have "slots_counted (f, js, ps)" using assms
  proof (induction rule: rtranclp_induct)
    case base
    show ?case by (simp add: slots_counted_def holding_def in_flight_count_def)
  qed (rule slot_run_counted)
  then show ?thesis using local_key by (simp add: slots_counted_def)
qed

lemma folder_mutex_witness:
  "\<exists>f. (slot_run id ''/'')\<^sup>*\<^sup>* (\<lambda>_. None, [], []) (f, [(''/srv'', \<lparr>jb_kind = Some ''local'', jb_folder = Some ''/srv/'', jb_repo = None\<rparr>)], [])
     \<and> in_flight_count f ''/srv'' = 1"
proof -
  let ?j = "\<lparr>jb_kind = Some ''local'', jb_folder = Some ''/srv/'', jb_repo = None\<rparr>"
  have c: "row_scope_for id ''/'' ?j [] = Some ''/srv''" "concurrency_for id ''/'' ?j [] = Some 1" by code_simp+
  have "try_acquire ''/srv'' (Some 1) (\<lambda>_. None) = (True, [''/srv'' \<mapsto> 1])" by (simp add: try_acquire_def in_flight_count_def)
  then have "slot_run id ''/'' (\<lambda>_. None, [], []) ([''/srv'' \<mapsto> 1], [(''/srv'', ?j)], [])" using slot_run.taken [OF c(1), of "\<lambda>_. None" _ "[]" "[]"] c(2) by simp
  then have r: "(slot_run id ''/'')\<^sup>*\<^sup>* (\<lambda>_. None, [], []) ([''/srv'' \<mapsto> 1], [(''/srv'', ?j)], [])" by blast
  show ?thesis using r folder_mutex [OF r, of "''/srv''"] by (intro exI [of _ "[''/srv'' \<mapsto> 1]"]) (simp add: holding_def)
qed

end
