(* ===== verification/GovernedDollars.thy ===== *)
theory GovernedDollars
  imports AllocationSound ScopedLimitsUse
begin

text \<open>
  The applied split at pickup (\<open>memberJob\<close>, \<open>memberDollarKeyPrefix\<close> and \<open>governedDollars\<close> of
  worker/src/allocation.mjs): how a project's share, a repo's share and the envelope's total narrow the
  dollar ledgers a job reserves in, and what a granted reservation then means for the split.
\<close>

section \<open>Members\<close>

definition member_job :: "string \<Rightarrow> job option" where
  "member_job m =
     (if m = [] then None
      else if absolute m then Some \<lparr>jb_kind = Some ''local'', jb_folder = Some m, jb_repo = None\<rparr>
      else (let k = takeWhile (\<lambda>c. c \<noteq> CHR '':'') m
            in if k \<noteq> [] \<and> k \<noteq> m then Some \<lparr>jb_kind = Some k, jb_folder = None, jb_repo = Some (drop (length k + 1) m)\<rparr> else None))"

text \<open>\<open>memberScopeOf\<close> of worker/src/projects.mjs\<close>

definition member_scope_of :: "(string \<Rightarrow> string) \<Rightarrow> string \<Rightarrow> job \<Rightarrow> string option" where
  "member_scope_of nfc cwd j = (if jb_kind j = Some ''local'' then canonical_scope nfc cwd j else qualified_scope_of nfc j)"

text \<open>With the matched ledger in hand, and matched here in the limits.\<close>

definition member_key_given :: "(string \<Rightarrow> string) \<Rightarrow> string \<Rightarrow> scoped_dollars option \<Rightarrow> string" where
  "member_key_given hash m row = (case row of Some (s, l) \<Rightarrow> d_prefix l | None \<Rightarrow> scope_dollar_key_prefix hash m)"

definition member_key_matched ::
  "(string \<Rightarrow> string) \<Rightarrow> string \<Rightarrow> (string \<Rightarrow> string) \<Rightarrow> limit list \<Rightarrow> string \<Rightarrow> config_error + string" where
  "member_key_matched nfc cwd hash limits m =
     sum_bind (case member_job m of None \<Rightarrow> Inr None | Some j \<Rightarrow> dollar_caps_for nfc cwd hash j limits)
       (\<lambda>row. Inr (member_key_given hash m row))"

section \<open>Narrowing\<close>

datatype cap_source = From_operator | From_allocation

type_synonym cap_sources = "window_name \<Rightarrow> cap_source option"

fun cap_in :: "caps \<Rightarrow> window_name \<Rightarrow> int option" where
  "cap_in c Day = cap_day c"
| "cap_in c Week = cap_week c"
| "cap_in c Month = cap_month c"

fun set_cap :: "caps \<Rightarrow> window_name \<Rightarrow> int \<Rightarrow> caps" where
  "set_cap c Day n = c\<lparr>cap_day := Some n\<rparr>"
| "set_cap c Week n = c\<lparr>cap_week := Some n\<rparr>"
| "set_cap c Month n = c\<lparr>cap_month := Some n\<rparr>"

definition no_caps :: caps where "no_caps = \<lparr>cap_day = None, cap_week = None, cap_month = None\<rparr>"

definition source_of :: "caps \<Rightarrow> cap_sources" where
  "source_of c = (\<lambda>w. map_option (\<lambda>_. From_operator) (cap_in c w))"

definition narrow_caps :: "window_name \<Rightarrow> caps \<Rightarrow> int \<Rightarrow> caps \<times> cap_sources" where
  "narrow_caps w c amount =
     (if (case cap_in c w of None \<Rightarrow> True | Some x \<Rightarrow> amount < x)
      then (set_cap c w amount, (source_of c)(w := Some From_allocation)) else (c, source_of c))"

record governed_ledger =
  gl_scope :: string
  gl_prefix :: string
  gl_caps :: caps
  gl_source :: cap_sources

definition narrow :: "window_name \<Rightarrow> scoped_dollars option \<Rightarrow> string \<Rightarrow> int \<Rightarrow> string \<Rightarrow> governed_ledger" where
  "narrow w ledger scope amount p =
     (case (case ledger of Some x \<Rightarrow> x | None \<Rightarrow> (scope, \<lparr>d_prefix = p, d_caps = no_caps\<rparr>)) of (s, l) \<Rightarrow>
        (case narrow_caps w (d_caps l) amount of (c, src) \<Rightarrow> \<lparr>gl_scope = s, gl_prefix = d_prefix l, gl_caps = c, gl_source = src\<rparr>))"

definition with_source :: "scoped_dollars \<Rightarrow> governed_ledger" where
  "with_source x = (case x of (s, l) \<Rightarrow> \<lparr>gl_scope = s, gl_prefix = d_prefix l, gl_caps = d_caps l, gl_source = source_of (d_caps l)\<rparr>)"

record operator_dollars =
  op_caps :: "caps option"
  op_scoped :: "scoped_dollars option"
  op_project :: "scoped_dollars option"

record governed =
  gd_caps :: caps
  gd_source :: cap_sources
  gd_scoped :: "governed_ledger option"
  gd_project :: "governed_ledger option"
  gd_other :: "governed_ledger option"

text \<open>An entry's amount, 0 when the state has none.\<close>

definition share_of :: "fields \<Rightarrow> string \<Rightarrow> int" where
  "share_of fs k = (case field fs k of None \<Rightarrow> 0 | Some n \<Rightarrow> n)"

definition repo_share :: "astate \<Rightarrow> string \<Rightarrow> string \<Rightarrow> int option" where
  "repo_share s entry ref =
     Option.bind (map_of (st_repos s) entry) (\<lambda>fs. case field fs ref of Some n \<Rightarrow> if is_safe n then Some n else None | None \<Rightarrow> None)"

definition entry_of :: "envelope \<Rightarrow> (string \<times> string) option \<Rightarrow> string" where
  "entry_of e member =
     (case member of Some (i, m) \<Rightarrow> if i \<in> set (envelope_entries e) \<and> i \<noteq> other_id then i else other_id | None \<Rightarrow> other_id)"

definition governed_dollars ::
  "(string \<Rightarrow> string) \<Rightarrow> (string \<Rightarrow> string) \<Rightarrow> envelope \<Rightarrow> astate \<Rightarrow> (string \<times> string) option \<Rightarrow> operator_dollars \<Rightarrow> governed" where
  "governed_dollars sha hash e s member op =
     (let w = en_window e; entry = entry_of e member; amount = share_of (st_allocations s) entry; scope = ''project:'' @ entry;
          p = scope_dollar_key_prefix hash scope;
          deployment = narrow_caps w (case op_caps op of None \<Rightarrow> no_caps | Some c \<Rightarrow> c) (case en_total e of None \<Rightarrow> 0 | Some n \<Rightarrow> n);
          base = \<lparr>gd_caps = fst deployment, gd_source = snd deployment, gd_scoped = map_option with_source (op_scoped op),
            gd_project = map_option with_source (op_project op), gd_other = None\<rparr>
      in if entry = other_id then base\<lparr>gd_other := Some (narrow w None scope amount p)\<rparr>
         else (let g = base\<lparr>gd_project := Some (narrow w (op_project op) scope amount p)\<rparr>
               in case member of None \<Rightarrow> g
                  | Some (i, m) \<Rightarrow>
                      (case repo_share s entry (scope_ref sha m) of None \<Rightarrow> g
                       | Some share \<Rightarrow> g\<lparr>gd_scoped := Some (narrow w (op_scoped op) m share (member_key_given hash m (op_scoped op)))\<rparr>)))"

text \<open>The list the processor reserves in: the deployment's windows and the ledgers beside them.\<close>

definition governed_ledgers :: "governed \<Rightarrow> dledger list \<Rightarrow> dledger list" where
  "governed_ledgers g models =
     (let plain = map_option (\<lambda>l. \<lparr>d_prefix = gl_prefix l, d_caps = gl_caps l\<rparr>)
      in dollar_ledgers (Some (gd_caps g)) (plain (gd_scoped g)) (plain (gd_project g)) (plain (gd_other g)) models)"

section \<open>Resolved paths\<close>

definition plain_segment :: "string \<Rightarrow> bool" where
  "plain_segment s \<longleftrightarrow> s \<noteq> [] \<and> CHR ''/'' \<notin> set s \<and> s \<noteq> ''.'' \<and> s \<noteq> ''..''"

lemma split_slash_no_slash: "p \<in> set (split_slash s) \<Longrightarrow> CHR ''/'' \<notin> set p"
  by (induction s arbitrary: p) (auto split: list.splits if_splits)

lemma split_slash_join: "CHR ''/'' \<notin> set s \<Longrightarrow> list_all (\<lambda>p. CHR ''/'' \<notin> set p) ss \<Longrightarrow> split_slash (s @ join_slash ss) = s # ss"
proof (induction ss arbitrary: s)
  case Nil
  then show ?case by (induction s) auto
next
  case (Cons p ss)
  have "split_slash (s @ CHR ''/'' # t) = s # split_slash t" if "CHR ''/'' \<notin> set s" for s t
    using that by (induction s) auto
  then show ?case using Cons by simp
qed

lemma segments_path_text: "list_all plain_segment ss \<Longrightarrow> segments (path_text ss) = ss"
proof (cases ss)
  case (Cons s ss')
  assume a: "list_all plain_segment ss"
  then have "list_all (\<lambda>p. CHR ''/'' \<notin> set p) ss'" "CHR ''/'' \<notin> set s" "list_all (\<lambda>p. p \<noteq> []) ss"
    by (auto simp: Cons plain_segment_def list_all_iff)
  then show ?thesis using split_slash_join [of s ss'] by (simp add: segments_def path_text_def Cons filter_id_conv list_all_iff)
qed (simp add: segments_def path_text_def)

lemma resolve_plain:
  "list_all (\<lambda>s. s \<noteq> [] \<and> CHR ''/'' \<notin> set s) ss \<Longrightarrow> list_all plain_segment (resolve_segments ss)"
proof (induction ss rule: rev_induct)
  case (snoc s ss)
  then have "list_all plain_segment (resolve_segments ss)" by simp
  then show ?case using snoc.prems by (auto simp: resolve_segments_def plain_segment_def list_all_iff dest: in_set_butlastD)
qed (simp add: resolve_segments_def)

lemma resolve_segments_id: "list_all plain_segment ss \<Longrightarrow> resolve_segments ss = ss"
  by (induction ss rule: rev_induct) (auto simp: resolve_segments_def plain_segment_def)

lemma resolve_resolve: "resolve (resolve p) = resolve p"
proof -
  have "list_all (\<lambda>s. s \<noteq> [] \<and> CHR ''/'' \<notin> set s) (segments p)"
    using split_slash_no_slash by (auto simp: segments_def list_all_iff)
  then have "list_all plain_segment (resolve_segments (segments p))" by (rule resolve_plain)
  then show ?thesis by (simp add: resolve_def segments_path_text resolve_segments_id)
qed

lemma resolve_absolute: "absolute (resolve p)"
  by (cases "resolve_segments (segments p)") (auto simp: resolve_def path_text_def absolute_def)

lemma resolve_from_absolute: "absolute (resolve_from cwd p)" "resolve_from cwd' (resolve_from cwd p) = resolve_from cwd p"
  using resolve_absolute resolve_resolve by (auto simp: resolve_from_def)

section \<open>One key per member\<close>

lemma kind_member:
  assumes "k \<in> set forge_kinds"
  shows "member_job (k @ '':'' @ r) = Some \<lparr>jb_kind = Some k, jb_folder = None, jb_repo = Some r\<rparr>"
  using assms by (auto simp: member_job_def forge_kinds_def absolute_def Let_def)

lemma dollar_caps_same_job:
  assumes "jb_kind j = jb_kind j'" "jb_kind j \<noteq> Some ''local''" "jb_repo j = jb_repo j'"
  shows "dollar_caps_for nfc cwd hash j limits = dollar_caps_for nfc cwd hash j' limits"
proof -
  have n: "jb_kind j' \<noteq> Some ''local''" using assms(1,2) by simp
  have "qualified_scope_of nfc j = qualified_scope_of nfc j'" using assms(1,3) n by (simp add: qualified_scope_of_def)
  moreover have "canonical_scope nfc cwd j = canonical_scope nfc cwd j'"
    by (cases "jb_repo j'") (use assms n in \<open>simp_all add: canonical_scope_def scope_of_def\<close>)
  ultimately show ?thesis using assms(2) n by (simp only: dollar_caps_for_def limit_for_def)
qed

text \<open>A local job's folder whose resolved path neither Unicode normalization nor trimming changes.\<close>

definition plain_folder :: "(string \<Rightarrow> string) \<Rightarrow> string \<Rightarrow> job \<Rightarrow> bool" where
  "plain_folder nfc cwd j \<longleftrightarrow> jb_kind j = Some ''local'' \<and>
     (case canonical_scope nfc cwd j of None \<Rightarrow> False | Some m \<Rightarrow> trimmed m \<and> nfc m = m)"

text \<open>
  The counter a member's repo share is read under is the counter it is enforced under: for a
  forge job, or a local one whose resolved folder has no white space at its ends, the key of the
  ledger its own row gives and the key matched from the member's scope alone are the same.
\<close>

theorem member_key_agrees:
  assumes "plain_job nfc j \<or> plain_folder nfc cwd j" "member_scope_of nfc cwd j = Some m"
    and "dollar_caps_for nfc cwd hash j limits = Inr row"
  shows "member_key_matched nfc cwd hash limits m = Inr (member_key_given hash m row)"
proof -
  have "\<exists>j'. member_job m = Some j' \<and> dollar_caps_for nfc cwd hash j' limits = Inr row"
    using assms(1)
  proof
    assume p: "plain_job nfc j"
    obtain k r where kr: "jb_kind j = Some k" "jb_repo j = Some r" "k \<in> set forge_kinds" "qualified_scope_of nfc j = Some (k @ '':'' @ r)"
      by (rule plain_job_scopes [OF p])
    have nl: "jb_kind j \<noteq> Some ''local''" using kr(1) forge_kinds_spelled [OF kr(3)] by simp
    then have "m = k @ '':'' @ r" using assms(2) kr(4) by (simp add: member_scope_of_def)
    moreover have "dollar_caps_for nfc cwd hash \<lparr>jb_kind = Some k, jb_folder = None, jb_repo = Some r\<rparr> limits = Inr row"
      using dollar_caps_same_job [of j "\<lparr>jb_kind = Some k, jb_folder = None, jb_repo = Some r\<rparr>" nfc cwd hash limits] nl kr(1,2) assms(3) by simp
    ultimately show ?thesis using kind_member [OF kr(3)] by simp
  next
    assume p: "plain_folder nfc cwd j"
    then have m: "canonical_scope nfc cwd j = Some m" "trimmed m" "nfc m = m" "jb_kind j = Some ''local''"
      using assms(2) by (auto simp: plain_folder_def member_scope_of_def)
    then obtain s where s: "m = resolve_from cwd s" by (auto simp: canonical_scope_def split: option.splits if_splits)
    have a: "absolute m" "resolve_from cwd m = m" using s resolve_from_absolute by simp_all
    then have ne: "m \<noteq> []" by (auto simp: absolute_def)
    let ?j = "\<lparr>jb_kind = Some ''local'', jb_folder = Some m, jb_repo = None\<rparr>"
    have "canonical_scope nfc cwd ?j = Some m"
      using m(2,3) a ne trimmed_non_empty by (simp add: canonical_scope_def scope_of_def trim_id)
    then have "dollar_caps_for nfc cwd hash ?j limits = dollar_caps_for nfc cwd hash j limits"
      using m(1,4) by (simp add: dollar_caps_for_def limit_for_def)
    then show ?thesis using a(1) ne assms(3) by (simp add: member_job_def)
  qed
  then show ?thesis by (auto simp: member_key_matched_def)
qed

lemma member_key_agrees_witness:
  "member_key_matched id ''/'' sample_hash [(bare_limit ''o/r'')\<lparr>lm_day_usd := Some ''5''\<rparr>] ''github:o/r''
   = Inr (member_key_given sample_hash ''github:o/r''
       (Some (''o/r'', \<lparr>d_prefix = scope_dollar_key_prefix sample_hash ''o/r'', d_caps = \<lparr>cap_day = Some 5000000, cap_week = None, cap_month = None\<rparr>\<rparr>)))"
proof (rule member_key_agrees [where j = sample_job])
  show "plain_job id sample_job \<or> plain_folder id ''/'' sample_job" by code_simp
qed code_simp+

text \<open>
  A folder whose name ends in white space has two keys: a local job on \<open>/w/a\<close>, a space and a
  slash counts under the row of that folder, the member it is stored as is read back without the
  space, and the counter a manager reads is another one.
\<close>

lemma spaced_member_has_two_keys:
  "\<exists>j m limits row. member_scope_of id ''/'' j = Some m \<and> dollar_caps_for id ''/'' (\<lambda>s. s) j limits = Inr (Some row)
     \<and> (\<exists>k. member_key_matched id ''/'' (\<lambda>s. s) limits m = Inr k \<and> k \<noteq> member_key_given (\<lambda>s. s) m (Some row))"
proof -
  let ?j = "\<lparr>jb_kind = Some ''local'', jb_folder = Some ''/w/a /'', jb_repo = None\<rparr>" and ?m = "''/w/a ''"
  let ?row = "(bare_limit ''/w/a '')\<lparr>lm_day_usd := Some ''5''\<rparr>" and ?row' = "(bare_limit ''/w/a'')\<lparr>lm_day_usd := Some ''7''\<rparr>"
  have "member_scope_of id ''/'' ?j = Some ?m" by code_simp
  moreover have "dollar_caps_for id ''/'' (\<lambda>s. s) ?j [?row, ?row']
      = Inr (Some (''/w/a '', \<lparr>d_prefix = ''budget:usd:s:/w/a '', d_caps = \<lparr>cap_day = Some 5000000, cap_week = None, cap_month = None\<rparr>\<rparr>))" by code_simp
  moreover have "member_key_matched id ''/'' (\<lambda>s. s) [?row, ?row'] ?m = Inr ''budget:usd:s:/w/a''" by code_simp
  moreover have "''budget:usd:s:/w/a'' \<noteq> member_key_given (\<lambda>s. s) ?m
      (Some (''/w/a '', \<lparr>d_prefix = ''budget:usd:s:/w/a '', d_caps = \<lparr>cap_day = Some 5000000, cap_week = None, cap_month = None\<rparr>\<rparr>))" by code_simp
  ultimately show ?thesis by blast
qed

section \<open>Only narrower\<close>

text \<open>Caps narrowed to an amount in one window: every cap that was there is there and no higher, the
  window is within the amount, the other windows are as they were, and the source names the
  allocation exactly where it bound.\<close>

definition narrowed :: "window_name \<Rightarrow> int \<Rightarrow> caps \<Rightarrow> caps \<Rightarrow> cap_sources \<Rightarrow> bool" where
  "narrowed w amount c c' src \<longleftrightarrow>
     (\<exists>n. cap_in c' w = Some n \<and> n \<le> amount \<and> (\<forall>x. cap_in c w = Some x \<longrightarrow> n \<le> x) \<and> (n = amount \<or> cap_in c w = Some n)
        \<and> src w = Some (if cap_in c w = Some n then From_operator else From_allocation))
     \<and> (\<forall>v. v \<noteq> w \<longrightarrow> cap_in c' v = cap_in c v \<and> src v = map_option (\<lambda>_. From_operator) (cap_in c v))"

lemma cap_in_set_cap: "cap_in (set_cap c w n) v = (if v = w then Some n else cap_in c v)"
  by (cases w; cases v) auto

lemma narrow_caps_narrowed:
  assumes "narrow_caps w c amount = (c', src)"
  shows "narrowed w amount c c' src"
proof (cases "case cap_in c w of None \<Rightarrow> True | Some x \<Rightarrow> amount < x")
  case True
  then have "c' = set_cap c w amount" "src = (source_of c)(w := Some From_allocation)" using assms by (auto simp: narrow_caps_def)
  then show ?thesis using True by (auto simp: narrowed_def cap_in_set_cap source_of_def split: option.splits)
next
  case False
  then obtain x where "cap_in c w = Some x" "x \<le> amount" by (auto split: option.splits)
  moreover have "c' = c" "src = source_of c" using False assms by (auto simp: narrow_caps_def)
  ultimately show ?thesis by (auto simp: narrowed_def source_of_def)
qed

lemma narrow_narrowed:
  "narrowed w amount (case l of Some x \<Rightarrow> d_caps (snd x) | None \<Rightarrow> no_caps) (gl_caps (narrow w l s amount p)) (gl_source (narrow w l s amount p))"
  "gl_prefix (narrow w l s amount p) = (case l of Some x \<Rightarrow> d_prefix (snd x) | None \<Rightarrow> p)"
proof -
  let ?c = "case l of Some x \<Rightarrow> d_caps (snd x) | None \<Rightarrow> no_caps"
  obtain c src where n: "narrow_caps w ?c amount = (c, src)" by (metis surj_pair)
  show "narrowed w amount ?c (gl_caps (narrow w l s amount p)) (gl_source (narrow w l s amount p))"
    using narrow_caps_narrowed [OF n] n by (cases l) (auto simp: narrow_def split: prod.splits)
  show "gl_prefix (narrow w l s amount p) = (case l of Some x \<Rightarrow> d_prefix (snd x) | None \<Rightarrow> p)"
    by (cases l) (auto simp: narrow_def split: prod.splits)
qed

text \<open>The ledger that carries the entry's share: its project's, or the one of \<open>_other\<close>.\<close>

definition entry_ledger :: "governed \<Rightarrow> governed_ledger option" where
  "entry_ledger g = (case gd_other g of Some l \<Rightarrow> Some l | None \<Rightarrow> gd_project g)"

lemma governed_cases:
  obtains (other) "entry_of e member = other_id" "gd_other (governed_dollars sha hash e s member op)
        = Some (narrow (en_window e) None (''project:'' @ other_id) (share_of (st_allocations s) other_id) (scope_dollar_key_prefix hash (''project:'' @ other_id)))"
      "gd_scoped (governed_dollars sha hash e s member op) = map_option with_source (op_scoped op)"
      "gd_project (governed_dollars sha hash e s member op) = map_option with_source (op_project op)"
  | (entry) i m where "member = Some (i, m)" "entry_of e member = i" "i \<noteq> other_id" "i \<in> set (envelope_entries e)"
      "gd_other (governed_dollars sha hash e s member op) = None"
      "gd_project (governed_dollars sha hash e s member op)
        = Some (narrow (en_window e) (op_project op) (''project:'' @ i) (share_of (st_allocations s) i) (scope_dollar_key_prefix hash (''project:'' @ i)))"
      "gd_scoped (governed_dollars sha hash e s member op) =
        (case repo_share s i (scope_ref sha m) of None \<Rightarrow> map_option with_source (op_scoped op)
         | Some share \<Rightarrow> Some (narrow (en_window e) (op_scoped op) m share (member_key_given hash m (op_scoped op))))"
proof (cases "entry_of e member = other_id")
  case True
  then show ?thesis by (intro other) (simp_all add: governed_dollars_def Let_def)
next
  case False
  then obtain i m where im: "member = Some (i, m)" "i \<in> set (envelope_entries e)" "i \<noteq> other_id" "entry_of e member = i"
    by (auto simp: entry_of_def split: option.splits if_splits)
  show ?thesis by (rule entry [OF im(1,4,3,2)]) (use im in \<open>auto simp: governed_dollars_def Let_def split: option.split\<close>)
qed

lemma governed_deployment:
  "narrowed (en_window e) (case en_total e of None \<Rightarrow> 0 | Some n \<Rightarrow> n) (case op_caps op of None \<Rightarrow> no_caps | Some c \<Rightarrow> c)
     (gd_caps (governed_dollars sha hash e s member op)) (gd_source (governed_dollars sha hash e s member op))"
proof -
  let ?n = "narrow_caps (en_window e) (case op_caps op of None \<Rightarrow> no_caps | Some c \<Rightarrow> c) (case en_total e of None \<Rightarrow> 0 | Some n \<Rightarrow> n)"
  have "gd_caps (governed_dollars sha hash e s member op) = fst ?n" "gd_source (governed_dollars sha hash e s member op) = snd ?n"
    by (simp_all add: governed_dollars_def Let_def split: option.split)
  then show ?thesis using narrow_caps_narrowed [of "en_window e" _ _ "fst ?n" "snd ?n"] by simp
qed

text \<open>What the operator's own row gives the entry (nothing for \<open>_other\<close>), and the caps and the key of a row.\<close>

definition entry_row :: "envelope \<Rightarrow> (string \<times> string) option \<Rightarrow> operator_dollars \<Rightarrow> scoped_dollars option" where
  "entry_row e member op = (if entry_of e member = other_id then None else op_project op)"

definition row_caps :: "scoped_dollars option \<Rightarrow> caps" where
  "row_caps row = (case row of Some x \<Rightarrow> d_caps (snd x) | None \<Rightarrow> no_caps)"

definition row_key :: "scoped_dollars option \<Rightarrow> string \<Rightarrow> string" where
  "row_key row p = (case row of Some x \<Rightarrow> d_prefix (snd x) | None \<Rightarrow> p)"

text \<open>The member's repo share, when its entry is governed and the split gives one.\<close>

definition repo_cut :: "(string \<Rightarrow> string) \<Rightarrow> envelope \<Rightarrow> astate \<Rightarrow> (string \<times> string) option \<Rightarrow> (string \<times> int) option" where
  "repo_cut sha e s member =
     (case member of None \<Rightarrow> None
      | Some (i, m) \<Rightarrow> if entry_of e member = other_id then None else map_option (Pair m) (repo_share s i (scope_ref sha m)))"

lemma narrow_row:
  "narrowed w amount (row_caps l) (gl_caps (narrow w l s amount p)) (gl_source (narrow w l s amount p))"
  "gl_prefix (narrow w l s amount p) = row_key l p"
  using narrow_narrowed [where w = w and amount = amount and l = l and s = s and p = p] by (simp_all add: row_caps_def row_key_def)

lemma entry_ledger_share:
  "\<exists>l. entry_ledger (governed_dollars sha hash e s member op) = Some l
     \<and> narrowed (en_window e) (share_of (st_allocations s) (entry_of e member)) (row_caps (entry_row e member op)) (gl_caps l) (gl_source l)
     \<and> gl_prefix l = row_key (entry_row e member op) (scope_dollar_key_prefix hash (''project:'' @ entry_of e member))"
proof (rule governed_cases [of e member sha hash s op])
  assume a: "entry_of e member = other_id" "gd_other (governed_dollars sha hash e s member op)
        = Some (narrow (en_window e) None (''project:'' @ other_id) (share_of (st_allocations s) other_id) (scope_dollar_key_prefix hash (''project:'' @ other_id)))"
  then have r: "entry_row e member op = None" by (simp add: entry_row_def)
  show ?thesis
    unfolding a(1) r entry_ledger_def a(2) option.case by (intro exI conjI, rule refl) (rule narrow_row)+
next
  fix i m
  assume a: "entry_of e member = i" "i \<noteq> other_id" "gd_other (governed_dollars sha hash e s member op) = None"
    "gd_project (governed_dollars sha hash e s member op)
        = Some (narrow (en_window e) (op_project op) (''project:'' @ i) (share_of (st_allocations s) i) (scope_dollar_key_prefix hash (''project:'' @ i)))"
  then have r: "entry_row e member op = op_project op" by (simp add: entry_row_def)
  show ?thesis
    unfolding a(1) r entry_ledger_def a(3,4) option.case by (intro exI conjI, rule refl) (rule narrow_row)+
qed

lemma repo_ledger_share:
  "gd_scoped (governed_dollars sha hash e s member op) =
     (case repo_cut sha e s member of None \<Rightarrow> map_option with_source (op_scoped op)
      | Some (m, share) \<Rightarrow> Some (narrow (en_window e) (op_scoped op) m share (member_key_given hash m (op_scoped op))))"
proof (rule governed_cases [of e member sha hash s op])
  assume "entry_of e member = other_id" "gd_scoped (governed_dollars sha hash e s member op) = map_option with_source (op_scoped op)"
  moreover from this(1) have "repo_cut sha e s member = None" by (cases member) (auto simp: repo_cut_def)
  ultimately show ?thesis by simp
next
  fix i m
  assume "member = Some (i, m)" "entry_of e member = i" "i \<noteq> other_id" "gd_scoped (governed_dollars sha hash e s member op) =
        (case repo_share s i (scope_ref sha m) of None \<Rightarrow> map_option with_source (op_scoped op)
         | Some share \<Rightarrow> Some (narrow (en_window e) (op_scoped op) m share (member_key_given hash m (op_scoped op))))"
  then show ?thesis by (simp add: repo_cut_def split: option.split)
qed

text \<open>A ledger the operator gave is still reserved in, under its own key, with every cap it had and none higher.\<close>

definition kept_within :: "scoped_dollars option \<Rightarrow> governed_ledger option \<Rightarrow> bool" where
  "kept_within given got \<longleftrightarrow>
     (case given of None \<Rightarrow> True
      | Some x \<Rightarrow> (case got of None \<Rightarrow> False
          | Some l \<Rightarrow> gl_prefix l = d_prefix (snd x) \<and>
              (\<forall>v. case cap_in (d_caps (snd x)) v of None \<Rightarrow> True
                 | Some n \<Rightarrow> (case cap_in (gl_caps l) v of None \<Rightarrow> False | Some n' \<Rightarrow> n' \<le> n))))"

lemma kept_with_source: "kept_within l (map_option with_source l)"
  by (cases l) (auto simp: kept_within_def with_source_def split: option.split prod.split)

lemma kept_narrow: "kept_within l (Some (narrow w l sc amount p))"
proof (cases l)
  case (Some x)
  have "case cap_in (d_caps (snd x)) v of None \<Rightarrow> True | Some n \<Rightarrow> (case cap_in (gl_caps (narrow w (Some x) sc amount p)) v of None \<Rightarrow> False | Some n' \<Rightarrow> n' \<le> n)" for v
    using narrow_narrowed(1) [of w amount "Some x" sc p] by (cases "v = w") (auto simp: narrowed_def split: option.split)
  then show ?thesis using Some narrow_narrowed(2) [of w "Some x" sc amount p] by (simp add: kept_within_def)
qed (simp add: kept_within_def)

text \<open>A ledger kept as the operator gave it: the same key and caps, and every cap the operator's.\<close>

definition kept_whole :: "scoped_dollars option \<Rightarrow> governed_ledger option \<Rightarrow> bool" where
  "kept_whole given got \<longleftrightarrow>
     (case (given, got) of (None, None) \<Rightarrow> True
      | (Some x, Some l) \<Rightarrow> gl_prefix l = d_prefix (snd x) \<and> gl_caps l = d_caps (snd x) \<and> gl_source l = source_of (d_caps (snd x))
      | _ \<Rightarrow> False)"

lemma kept_whole_source: "kept_whole l (map_option with_source l)"
  by (cases l) (auto simp: kept_whole_def with_source_def split: prod.split)

text \<open>
  C33: An envelope only ever narrows what the operator's settings allow: a governed job reserves in
  every ledger the operator's rows gave it, under the same key and with no cap dropped or raised. The
  deployment's window is the lower of the operator's cap and the envelope's total; the entry's is
  the lower of the cap of its own row (its project's, none for \<open>_other\<close>) and its share, under that
  row's key or else the entry's; the repo's, when the split gives the member a share, is the lower of
  the cap of its own row and that share, under the member's key, and otherwise its row as it was; and
  the project's row is as it was for a job of \<open>_other\<close>. In each of them the caps of the other windows
  are the operator's, and the source of a cap is the allocation exactly when its amount is the lower one.
\<close>

theorem governed_only_narrows:
  "narrowed (en_window e) (case en_total e of None \<Rightarrow> 0 | Some n \<Rightarrow> n) (case op_caps op of None \<Rightarrow> no_caps | Some c \<Rightarrow> c)
     (gd_caps (governed_dollars sha hash e s member op)) (gd_source (governed_dollars sha hash e s member op))
   \<and> (\<exists>l. entry_ledger (governed_dollars sha hash e s member op) = Some l
     \<and> narrowed (en_window e) (share_of (st_allocations s) (entry_of e member)) (row_caps (entry_row e member op)) (gl_caps l) (gl_source l)
     \<and> gl_prefix l = row_key (entry_row e member op) (scope_dollar_key_prefix hash (''project:'' @ entry_of e member)))
   \<and> (case repo_cut sha e s member of
        None \<Rightarrow> kept_whole (op_scoped op) (gd_scoped (governed_dollars sha hash e s member op))
      | Some (m, share) \<Rightarrow> (\<exists>l. gd_scoped (governed_dollars sha hash e s member op) = Some l
          \<and> narrowed (en_window e) share (row_caps (op_scoped op)) (gl_caps l) (gl_source l)
          \<and> gl_prefix l = row_key (op_scoped op) (scope_dollar_key_prefix hash m)))
   \<and> (if entry_of e member = other_id then kept_whole (op_project op) (gd_project (governed_dollars sha hash e s member op))
      else gd_other (governed_dollars sha hash e s member op) = None)
   \<and> kept_within (op_scoped op) (gd_scoped (governed_dollars sha hash e s member op))
   \<and> kept_within (op_project op) (gd_project (governed_dollars sha hash e s member op))"
proof -
  let ?g = "governed_dollars sha hash e s member op"
  have repo: "case repo_cut sha e s member of None \<Rightarrow> kept_whole (op_scoped op) (gd_scoped ?g)
      | Some (m, share) \<Rightarrow> (\<exists>l. gd_scoped ?g = Some l \<and> narrowed (en_window e) share (row_caps (op_scoped op)) (gl_caps l) (gl_source l)
          \<and> gl_prefix l = row_key (op_scoped op) (scope_dollar_key_prefix hash m))"
  proof (cases "repo_cut sha e s member")
    case None
    then show ?thesis unfolding repo_ledger_share by (simp add: kept_whole_source)
  next
    case (Some x)
    obtain m share where x: "x = (m, share)" by (cases x)
    have "row_key (op_scoped op) (member_key_given hash m (op_scoped op)) = row_key (op_scoped op) (scope_dollar_key_prefix hash m)"
      by (simp add: row_key_def member_key_given_def split: option.split)
    then show ?thesis
      unfolding repo_ledger_share Some x option.case prod.case
      using narrow_row [where w = "en_window e" and amount = share and l = "op_scoped op" and s = m and p = "member_key_given hash m (op_scoped op)"] by simp
  qed
  have rest: "kept_within (op_scoped op) (gd_scoped ?g) \<and> kept_within (op_project op) (gd_project ?g)
      \<and> (if entry_of e member = other_id then kept_whole (op_project op) (gd_project ?g) else gd_other ?g = None)"
  proof (rule governed_cases [of e member sha hash s op])
    assume "entry_of e member = other_id" "gd_scoped ?g = map_option with_source (op_scoped op)"
      "gd_project ?g = map_option with_source (op_project op)"
    then show ?thesis by (simp only: kept_with_source kept_whole_source simp_thms if_True)
  next
    fix i m
    assume a: "entry_of e member = i" "i \<noteq> other_id" "gd_other ?g = None" "gd_project ?g
        = Some (narrow (en_window e) (op_project op) (''project:'' @ i) (share_of (st_allocations s) i) (scope_dollar_key_prefix hash (''project:'' @ i)))"
      "gd_scoped ?g = (case repo_share s i (scope_ref sha m) of None \<Rightarrow> map_option with_source (op_scoped op)
         | Some share \<Rightarrow> Some (narrow (en_window e) (op_scoped op) m share (member_key_given hash m (op_scoped op))))"
    then show ?thesis
      by (cases "repo_share s i (scope_ref sha m)") (simp_all only: option.case kept_with_source kept_narrow simp_thms if_False)
  qed
  show ?thesis by (intro conjI governed_deployment entry_ledger_share repo) (use rest in blast)+
qed

section \<open>What a granted reservation leaves\<close>

fun win_key :: "int \<Rightarrow> string \<Rightarrow> window_name \<Rightarrow> key" where
  "win_key now p Day = day_key now p"
| "win_key now p Week = week_key now p"
| "win_key now p Month = month_key now p"

lemma ledger_window:
  assumes "l \<in> set ledgers" "cap_in (d_caps l) w = Some n"
  shows "\<exists>x \<in> set (dollar_windows ledgers now). w_key x = win_key now (d_prefix l) w \<and> w_cap x = n"
  using assms by (cases w) (force simp: dollar_windows_def List.map_filter_def)+

lemma governed_ledgers_members:
  "\<lparr>d_prefix = dollar_key_prefix, d_caps = gd_caps g\<rparr> \<in> set (governed_ledgers g models)"
  "entry_ledger g = Some l \<Longrightarrow> \<lparr>d_prefix = gl_prefix l, d_caps = gl_caps l\<rparr> \<in> set (governed_ledgers g models)"
  "gd_scoped g = Some l \<Longrightarrow> \<lparr>d_prefix = gl_prefix l, d_caps = gl_caps l\<rparr> \<in> set (governed_ledgers g models)"
  by (auto simp: governed_ledgers_def dollar_ledgers_def Let_def entry_ledger_def split: option.splits)

lemma shares_within_total:
  assumes "splits e (vector_of s)"
  shows "total_of (envelope_entries e) (share_of (st_allocations s)) \<le> (case en_total e of None \<Rightarrow> 0 | Some n \<Rightarrow> n)"
proof -
  obtain tot floors b u where e: "envelope_numbers e = Some (tot, floors, envelope_entries e)"
    and v: "vector_numbers (vector_of s) (envelope_entries e) tot = Some (b, u)"
    using assms by (auto simp: splits_def)
  have m: "\<forall>k \<in> set (envelope_entries e). micros (field (st_allocations s) k) \<noteq> None"
    using v by (auto simp: vector_numbers_def vector_of_def all_micros_def split: if_splits)
  have "share_of (st_allocations s) k = b k" if "k \<in> set (envelope_entries e)" for k
    using m that vector_numbers_Some(1) [OF v]
    by (auto simp: share_of_def vector_of_def amounts_def micros_def split: option.splits if_splits)
  then have "total_of (envelope_entries e) (share_of (st_allocations s)) = total_of (envelope_entries e) b" by (rule total_of_cong)
  moreover have "en_total e = Some tot" using envelope_numbers_Some(4) [OF e] by (auto simp: micros_def split: option.splits if_splits)
  ultimately show ?thesis using vector_numbers_Some(2,3) [OF v] by simp
qed

text \<open>A project's row counts under its own scope, so the entry has one counter, whoever its members are.\<close>

lemma row_dollars_prefix: "row_dollars name p l = Inr (Some x) \<Longrightarrow> d_prefix (snd x) = p"
  by (cases "usd_caps l") (auto simp: row_dollars_def)

lemma project_row_key:
  assumes "project_dollar_caps_for hash limits (Some i) = Inr row"
  shows "row_key row (scope_dollar_key_prefix hash (''project:'' @ i)) = scope_dollar_key_prefix hash (''project:'' @ i)"
proof (cases row)
  case (Some x)
  then obtain l where l: "project_row_for limits (Some i) = Some l"
    "row_dollars (lm_scope l) (scope_dollar_key_prefix hash (lm_scope l)) l = Inr (Some x)"
    using assms by (auto simp: project_dollar_caps_for_def split: option.splits)
  have "lm_scope l = ''project:'' @ i"
    using l(1) by (auto simp: project_row_for_def project_scope_def find_Some_iff split: if_splits)
  then show ?thesis using row_dollars_prefix [OF l(2)] by (simp add: Some row_key_def)
qed (simp add: row_key_def)

lemma entry_counter:
  assumes "project_dollar_caps_for hash limits (map_option fst member) = Inr (op_project op)"
  shows "row_key (entry_row e member op) (scope_dollar_key_prefix hash (''project:'' @ entry_of e member))
    = scope_dollar_key_prefix hash (''project:'' @ entry_of e member)"
proof (cases "entry_of e member = other_id")
  case False
  then obtain i m where "member = Some (i, m)" "entry_of e member = i"
    by (auto simp: entry_of_def split: option.splits if_splits)
  with assms project_row_key [of hash limits i "op_project op"] False show ?thesis by (simp add: entry_row_def)
qed (simp add: entry_row_def row_key_def)

text \<open>
  C5: Under an applied split a job is let in only within it. The project's row is the one the limits
  give (\<open>projectDollarCapsFor\<close>). Then a granted reservation is counted at the deployment's counter
  of the split's window and at the one counter of the job's entry, which its project's id alone
  decides and all its members share; afterwards the first is within the envelope's total and the
  second within the entry's share; a member with a repo share is counted at the member's own counter
  too, and that is within the repo share; and the shares of all entries are together within the total.
\<close>

theorem granted_within_split:
  assumes "counter_store C val" and "is_safe a" "0 < a" and "splits e (vector_of s)"
    and "project_dollar_caps_for hash limits (map_option fst member) = Inr (op_project op)"
    and "g = governed_dollars sha hash e s member op"
    and "distinct (map w_key (dollar_windows (governed_ledgers g models) now))"
    and "reserve_dollars C (governed_ledgers g models) a now st = (Inr (Held h), lg, st')"
  shows "win_key now dollar_key_prefix (en_window e) \<in> set (h_keys h)
    \<and> count_at (val st') (win_key now dollar_key_prefix (en_window e)) \<le> (case en_total e of None \<Rightarrow> 0 | Some n \<Rightarrow> n)
    \<and> (let k = win_key now (scope_dollar_key_prefix hash (''project:'' @ entry_of e member)) (en_window e)
       in k \<in> set (h_keys h) \<and> count_at (val st') k = count_at (val st) k + a
          \<and> count_at (val st') k \<le> share_of (st_allocations s) (entry_of e member))
    \<and> (case repo_cut sha e s member of None \<Rightarrow> True
       | Some (m, share) \<Rightarrow> (let k = win_key now (row_key (op_scoped op) (scope_dollar_key_prefix hash m)) (en_window e)
            in k \<in> set (h_keys h) \<and> count_at (val st') k \<le> share))
    \<and> total_of (envelope_entries e) (share_of (st_allocations s)) \<le> (case en_total e of None \<Rightarrow> 0 | Some n \<Rightarrow> n)"
proof -
  note gr = granted_windows [OF assms(1-3,7,8)]
  have within: "win_key now p w \<in> set (h_keys h) \<and> count_at (val st') (win_key now p w) = count_at (val st) (win_key now p w) + a
      \<and> count_at (val st') (win_key now p w) \<le> n"
    if m: "\<lparr>d_prefix = p, d_caps = c'\<rparr> \<in> set (governed_ledgers g models)" and na: "narrowed w n c c' src" for p w c c' src n
  proof -
    obtain n' where n': "cap_in c' w = Some n'" "n' \<le> n" using na by (auto simp: narrowed_def)
    obtain x where x: "x \<in> set (dollar_windows (governed_ledgers g models) now)" "w_key x = win_key now p w" "w_cap x = n'"
      using ledger_window [OF m, of w n' now] n'(1) by auto
    have "win_key now p w \<in> set (h_keys h)" using gr x(1) x(2) [symmetric] by simp
    moreover from this have "count_at (val st') (win_key now p w) = count_at (val st) (win_key now p w) + a" using gr by simp
    moreover have "count_at (val st') (win_key now p w) \<le> n'" using gr x by metis
    ultimately show ?thesis using n'(2) by simp
  qed
  obtain l where l: "entry_ledger g = Some l"
    "narrowed (en_window e) (share_of (st_allocations s) (entry_of e member)) (row_caps (entry_row e member op)) (gl_caps l) (gl_source l)"
    "gl_prefix l = scope_dollar_key_prefix hash (''project:'' @ entry_of e member)"
    using entry_ledger_share [of sha hash e s member op] unfolding assms(6) entry_counter [OF assms(5)] by blast
  have repo: "case repo_cut sha e s member of None \<Rightarrow> True
       | Some (m, share) \<Rightarrow> (let k = win_key now (row_key (op_scoped op) (scope_dollar_key_prefix hash m)) (en_window e)
            in k \<in> set (h_keys h) \<and> count_at (val st') k \<le> share)"
  proof (cases "repo_cut sha e s member")
    case (Some x)
    obtain m share where x: "x = (m, share)" by (cases x)
    define r where "r = narrow (en_window e) (op_scoped op) m share (member_key_given hash m (op_scoped op))"
    have gs: "gd_scoped g = Some r" using Some x by (simp add: assms(6) repo_ledger_share r_def)
    have "row_key (op_scoped op) (member_key_given hash m (op_scoped op)) = row_key (op_scoped op) (scope_dollar_key_prefix hash m)"
      by (simp add: row_key_def member_key_given_def split: option.split)
    then have r: "narrowed (en_window e) share (row_caps (op_scoped op)) (gl_caps r) (gl_source r)"
      "gl_prefix r = row_key (op_scoped op) (scope_dollar_key_prefix hash m)"
      using narrow_row unfolding r_def by auto
    then show ?thesis using within [OF governed_ledgers_members(3) [OF gs] r(1)] by (simp add: Some x Let_def)
  qed simp
  have dep: "narrowed (en_window e) (case en_total e of None \<Rightarrow> 0 | Some n \<Rightarrow> n) (case op_caps op of None \<Rightarrow> no_caps | Some c \<Rightarrow> c) (gd_caps g) (gd_source g)"
    unfolding assms(6) by (rule governed_deployment)
  from within [OF governed_ledgers_members(1) dep] within [OF governed_ledgers_members(2) [OF l(1)] l(2)] repo shares_within_total [OF assms(4)]
  show ?thesis unfolding l(3) Let_def by blast
qed

definition demo_split :: astate where
  "demo_split = \<lparr>st_version = 1, st_plan_id = None, st_basis = None, st_writer = ''neutral'', st_job_id = None, st_trigger_id = None,
     st_applied_at = 0, st_last_plan_at = None, st_valid_until = None, st_digest = None, st_weights = [], st_repo_weights = [],
     st_reasons = [], st_allocations = [(''_other'', Some 8), (''a'', Some 2)], st_unallocated = None, st_repos = [], st_clamped = False\<rparr>"

lemma demo_splits: "splits demo_envelope (vector_of demo_split)"
  using demo_numbers demo_entries
  by (auto simp: splits_def vector_of_def demo_split_def vector_numbers_def all_micros_def micros_def field_def is_safe_def max_safe_def
      unallocated_of_def amounts_def sorted_keys_def)

definition demo_governed :: governed where
  "demo_governed = governed_dollars id sample_hash demo_envelope demo_split None \<lparr>op_caps = None, op_scoped = None, op_project = None\<rparr>"

lemma demo_ledgers: "governed_ledgers demo_governed [] =
   [\<lparr>d_prefix = dollar_key_prefix, d_caps = \<lparr>cap_day = Some 10, cap_week = None, cap_month = None\<rparr>\<rparr>,
    \<lparr>d_prefix = ''budget:usd:s:1111111111111111'', d_caps = \<lparr>cap_day = Some 8, cap_week = None, cap_month = None\<rparr>\<rparr>]"
  by code_simp

lemma demo_keys: "day_key 0 ''budget:usd:s:1111111111111111'' \<noteq> day_key 0 dollar_key_prefix"
  unfolding day_key_def append_same_eq by code_simp

theorem granted_within_split_witness:
  "\<exists>h st'. reserve_dollars mem_client (governed_ledgers demo_governed []) 2 0 mem_init = (Inr (Held h), [], st')
     \<and> count_at (m_store st') (win_key 0 dollar_key_prefix Day) \<le> 10"
proof -
  obtain h st' where r: "reserve_dollars mem_client (governed_ledgers demo_governed []) 2 0 mem_init = (Inr (Held h), [], st')"
    by (simp add: demo_ledgers reserve_dollars_def dollar_windows_def mem_run is_safe_def max_safe_def demo_keys)
  have "count_at (m_store st') (win_key 0 dollar_key_prefix Day) \<le> 10"
    using granted_within_split [OF mem.counter_store_axioms _ _ demo_splits _ demo_governed_def _ r, of "[]"]
    by (simp add: project_dollar_caps_for_def project_row_for_def Let_def is_safe_def max_safe_def demo_ledgers dollar_windows_def demo_keys demo_keys [symmetric])
  with r show ?thesis by blast
qed

end
