(* ===== verification/RunBudget.thy ===== *)
theory RunBudget
  imports DollarBudget Json "HOL-Library.AList"
begin

text \<open>
  The per-run budget ledger (worker/src/run-budget-ledger.mjs): a hash per run in Valkey that remembers
  the run's slot, its container numbers and the dollar hold of each container with that hold's state.
  Every method is one script; a script runs whole, and its answer may be lost.
\<close>

section \<open>The key and the constants\<close>

definition run_budget_key_prefix :: string where "run_budget_key_prefix = ''run:budget:''"

definition run_budget_ttl_ms :: int where "run_budget_ttl_ms = 35 * 24 * 3600 * 1000"

definition run_budget_max_keys :: nat where "run_budget_max_keys = 16"

text \<open>The job id as a file name segment (\<open>sanitizeJobId\<close> of worker/src/run-history.mjs). A character
  outside the safe ones is replaced once per UTF-16 unit.\<close>

definition safe_id_char :: "nat \<Rightarrow> bool" where
  "safe_id_char p \<longleftrightarrow> 65 \<le> p \<and> p \<le> 90 \<or> 97 \<le> p \<and> p \<le> 122 \<or> 48 \<le> p \<and> p \<le> 57 \<or> p \<in> set [46, 95, 45]"

definition units_of :: "nat \<Rightarrow> nat" where "units_of p = (if p < 65536 then 1 else 2)"

definition js_length :: "string \<Rightarrow> nat" where "js_length s = sum_list (map units_of (code_points s))"

definition sanitize_job_id :: "string option \<Rightarrow> string" where
  "sanitize_job_id i =
     (case i of None \<Rightarrow> ''unknown-job''
      | Some s \<Rightarrow> if s = [] then ''unknown-job''
          else concat (map (\<lambda>p. if safe_id_char p then [char_of p] else replicate (units_of p) (CHR ''_'')) (code_points s)))"

definition run_budget_key_for :: "string option \<Rightarrow> key" where
  "run_budget_key_for i = run_budget_key_prefix @ sanitize_job_id i"

section \<open>Hashes\<close>

text \<open>The fields of a hash in the order \<open>HGETALL\<close> gives them; an absent hash is the empty list.\<close>

type_synonym hash = "(string \<times> string) list"

abbreviation hget :: "hash \<Rightarrow> string \<Rightarrow> string option" where "hget \<equiv> map_of"

abbreviation hset :: "string \<Rightarrow> string \<Rightarrow> hash \<Rightarrow> hash" where "hset \<equiv> AList.update"

text \<open>A script's answer, and the hash it leaves when it wrote (it then refreshed the expiry).\<close>

type_synonym 'r script = "hash \<Rightarrow> (fault + 'r) \<times> hash option"

definition state_field :: "nat \<Rightarrow> string" where "state_field n = CHR ''s'' # nat_text n"

definition hold_field :: "nat \<Rightarrow> string" where "hold_field n = CHR ''h'' # nat_text n"

definition claim_script :: "string \<Rightarrow> nat script" where
  "claim_script stamp h =
     (let (n, h1) = (if hget h ''slot'' = None then (1, hset ''slot'' ''held'' h) else (0, h))
      in (Inr n, Some (hset ''at'' stamp h1)))"

definition record_script :: "nat \<Rightarrow> string \<Rightarrow> string \<Rightarrow> nat script" where
  "record_script seq hold stamp h =
     (if hget h (state_field seq) \<noteq> None then (Inr 0, None)
      else (Inr 1, Some (hset ''at'' stamp (hset (state_field seq) ''held'' (hset (hold_field seq) hold h)))))"

definition move_script :: "nat \<Rightarrow> string \<Rightarrow> string \<Rightarrow> nat script" where
  "move_script seq to stamp h =
     (if hget h (state_field seq) \<noteq> Some ''held'' then (Inr 0, None)
      else (Inr 1, Some (hset ''at'' stamp (hset (state_field seq) to h))))"

text \<open>The number in a field of the form \<open>s\<close> and digits.\<close>

definition state_seq :: "string \<Rightarrow> nat option" where
  "state_seq f = (case f of [] \<Rightarrow> None
     | c # ds \<Rightarrow> if c = CHR ''s'' \<and> ds \<noteq> [] \<and> list_all is_digit ds then Some (text_nat ds) else None)"

definition crashed_below :: "nat \<Rightarrow> string \<times> string \<Rightarrow> bool" where
  "crashed_below below f = (case state_seq (fst f) of None \<Rightarrow> False | Some n \<Rightarrow> snd f = ''held'' \<and> n < below)"

definition crashed_script :: "nat \<Rightarrow> string \<Rightarrow> nat list script" where
  "crashed_script below stamp h =
     (let fs = filter (crashed_below below) h;
          h1 = foldl (\<lambda>h f. hset (fst f) ''settled-crashed'' h) h fs;
          moved = List.map_filter (\<lambda>f. state_seq (fst f)) fs
      in (Inr moved, if moved = [] then None else Some (hset ''at'' stamp h1)))"

text \<open>\<open>HINCRBY\<close>: an absent field counts from 0, and a field that is no number is refused. No script
  writes anything but digits to \<open>seq\<close>.\<close>

definition seq_script :: "string \<Rightarrow> nat script" where
  "seq_script stamp h =
     (case hget h ''seq'' of
        None \<Rightarrow> (Inr 1, Some (hset ''at'' stamp (hset ''seq'' (nat_text 1) h)))
      | Some v \<Rightarrow> if list_all is_digit v \<and> nat_text (text_nat v) = v
          then (Inr (text_nat v + 1), Some (hset ''at'' stamp (hset ''seq'' (nat_text (text_nat v + 1)) h)))
          else (Inl (Fault None), None))"

section \<open>The store and an attempt at a script\<close>

record ledgers =
  ls_now :: int
  ls_hash :: "key \<Rightarrow> (hash \<times> int) option"    \<comment> \<open>the hash and the instant it expires at\<close>

definition ledger_at :: "ledgers \<Rightarrow> key \<Rightarrow> hash" where
  "ledger_at s k = (case ls_hash s k of None \<Rightarrow> [] | Some (h, e) \<Rightarrow> if ls_now s < e then h else [])"

definition write_ledger :: "key \<Rightarrow> int \<Rightarrow> hash option \<Rightarrow> ledgers \<Rightarrow> ledgers" where
  "write_ledger k ttl h s = (case h of None \<Rightarrow> s | Some h' \<Rightarrow> s\<lparr>ls_hash := (ls_hash s)(k \<mapsto> (h', ls_now s + ttl))\<rparr>)"

text \<open>What becomes of a command: answered, never run, or run with its answer lost.\<close>

datatype fate = Answered | Unsent fault | Unanswered fault

definition eval_script :: "fate \<Rightarrow> key \<Rightarrow> int \<Rightarrow> 'r script \<Rightarrow> ledgers \<Rightarrow> (fault + 'r) \<times> ledgers" where
  "eval_script d k ttl sc s =
     (let (r, h) = sc (ledger_at s k); s1 = write_ledger k ttl h s
      in case d of Answered \<Rightarrow> (r, s1) | Unsent e \<Rightarrow> (Inl e, s) | Unanswered e \<Rightarrow> (Inl e, s1))"

text \<open>\<open>attempt\<close>: the error's code. A caller asks whether the code is truthy, so an error with an empty
  code reads as an answer without a value.\<close>

definition attempt_code :: "fault \<Rightarrow> string" where
  "attempt_code e = (case e of Fault (Some c) \<Rightarrow> c | Fault None \<Rightarrow> ''valkey'')"

definition attempted :: "fault + 'r \<Rightarrow> string + 'r option" where
  "attempted r = (case r of Inr v \<Rightarrow> Inr (Some v) | Inl e \<Rightarrow> if attempt_code e = [] then Inr None else Inl (attempt_code e))"

section \<open>The methods\<close>

definition is_seq :: "int \<Rightarrow> bool" where "is_seq n \<longleftrightarrow> is_safe n \<and> 1 \<le> n"

datatype claim_result = Claim_new | Claim_carried | Claim_error string

definition claim_slot :: "fate \<Rightarrow> int \<Rightarrow> string option \<Rightarrow> ledgers \<Rightarrow> claim_result \<times> ledgers" where
  "claim_slot d ttl i s =
     (let (r, s1) = eval_script d (run_budget_key_for i) ttl (claim_script (int_text (ls_now s))) s
      in (case attempted r of Inl c \<Rightarrow> Claim_error c | Inr v \<Rightarrow> if v = Some 1 then Claim_new else Claim_carried, s1))"

datatype move_result = Was_moved | Not_held | Move_error string

definition move_hold :: "fate \<Rightarrow> int \<Rightarrow> string option \<Rightarrow> int \<Rightarrow> string \<Rightarrow> ledgers \<Rightarrow> move_result \<times> ledgers" where
  "move_hold d ttl i seq to s =
     (if \<not> is_seq seq then (Move_error ''bad-seq'', s)
      else let (r, s1) = eval_script d (run_budget_key_for i) ttl (move_script (nat seq) to (int_text (ls_now s))) s
           in (case attempted r of Inl c \<Rightarrow> Move_error c | Inr v \<Rightarrow> if v = Some 1 then Was_moved else Not_held, s1))"

definition settle_hold :: "fate \<Rightarrow> int \<Rightarrow> string option \<Rightarrow> int \<Rightarrow> ledgers \<Rightarrow> move_result \<times> ledgers" where
  "settle_hold d ttl i seq = move_hold d ttl i seq ''settled''"

definition release_hold :: "fate \<Rightarrow> int \<Rightarrow> string option \<Rightarrow> int \<Rightarrow> ledgers \<Rightarrow> move_result \<times> ledgers" where
  "release_hold d ttl i seq = move_hold d ttl i seq ''released''"

definition settle_crashed :: "fate \<Rightarrow> int \<Rightarrow> string option \<Rightarrow> int \<Rightarrow> ledgers \<Rightarrow> (string + nat list) \<times> ledgers" where
  "settle_crashed d ttl i below s =
     (if \<not> is_seq below then (Inl ''bad-seq'', s)
      else let (r, s1) = eval_script d (run_budget_key_for i) ttl (crashed_script (nat below) (int_text (ls_now s))) s
           in (case attempted r of Inl c \<Rightarrow> Inl c | Inr v \<Rightarrow> Inr (case v of None \<Rightarrow> [] | Some ns \<Rightarrow> sort ns), s1))"

definition next_seq :: "fate \<Rightarrow> int \<Rightarrow> string option \<Rightarrow> ledgers \<Rightarrow> (string + int) \<times> ledgers" where
  "next_seq d ttl i s =
     (let (r, s1) = eval_script d (run_budget_key_for i) ttl (seq_script (int_text (ls_now s))) s
      in (case attempted r of Inl c \<Rightarrow> Inl c
          | Inr (Some n) \<Rightarrow> if is_seq (int n) then Inr (int n) else Inl ''bad-reply'' | Inr None \<Rightarrow> Inl ''bad-reply'', s1))"

definition remove_ledger :: "fate \<Rightarrow> string option \<Rightarrow> ledgers \<Rightarrow> (string + unit) \<times> ledgers" where
  "remove_ledger d i s =
     (let s1 = s\<lparr>ls_hash := (ls_hash s)(run_budget_key_for i := None)\<rparr>
      in case d of Answered \<Rightarrow> (Inr (), s1)
         | Unsent e \<Rightarrow> (if attempt_code e = [] then Inr () else Inl (attempt_code e), s)
         | Unanswered e \<Rightarrow> (if attempt_code e = [] then Inr () else Inl (attempt_code e), s1))"

section \<open>Valid holds\<close>

definition starts_with :: "string \<Rightarrow> string \<Rightarrow> bool" where "starts_with p s \<longleftrightarrow> take (length p) s = p"

definition is_dollar_key :: "json \<Rightarrow> bool" where
  "is_dollar_key j = (case j of JStr k \<Rightarrow> js_length k > length dollar_key_prefix + 1 \<and> js_length k \<le> 256
        \<and> starts_with (dollar_key_prefix @ '':'') k | _ \<Rightarrow> False)"

definition is_dollar_prefix :: "string \<Rightarrow> bool" where
  "is_dollar_prefix p \<longleftrightarrow> js_length p \<le> 256 \<and> (p = dollar_key_prefix \<or> starts_with (dollar_key_prefix @ '':'') p)"

text \<open>A hold as it is stored. A hold without ledgers keeps none.\<close>

record stored_hold =
  sh_amount :: int
  sh_keys :: "key list"
  sh_ledgers :: "(string \<times> key list) list option"

text \<open>One ledger of a hold: a dollar prefix and an array that is not empty. Its keys are compared with the
  hold's, so they are its strings.\<close>

definition read_hold_ledger :: "json \<Rightarrow> (string \<times> json list) option" where
  "read_hold_ledger j =
     (case j of JObj kvs \<Rightarrow>
        (case (map_of kvs ''keyPrefix'', map_of kvs ''keys'') of
           (Some (JStr p), Some (JArr ks)) \<Rightarrow> if is_dollar_prefix p \<and> ks \<noteq> [] then Some (p, ks) else None
         | _ \<Rightarrow> None)
      | _ \<Rightarrow> None)"

fun opt_map :: "('a \<Rightarrow> 'b option) \<Rightarrow> 'a list \<Rightarrow> 'b list option" where
  "opt_map f [] = Some []"
| "opt_map f (x # xs) = (case f x of None \<Rightarrow> None | Some y \<Rightarrow> map_option ((#) y) (opt_map f xs))"

definition str_of :: "json \<Rightarrow> string" where "str_of j = (case j of JStr s \<Rightarrow> s | _ \<Rightarrow> [])"

definition valid_hold :: "json \<Rightarrow> stored_hold option" where
  "valid_hold j =
     (case j of JObj kvs \<Rightarrow>
        (case (map_of kvs ''amountMicros'', map_of kvs ''keys'') of
           (Some (JInt n), Some (JArr ks)) \<Rightarrow>
             if \<not> is_safe n \<or> n < 0 \<or> length ks > run_budget_max_keys \<or> \<not> list_all is_dollar_key ks \<or> \<not> distinct (map str_of ks) then None
             else (case map_of kvs ''ledgers'' of
                 None \<Rightarrow> Some \<lparr>sh_amount = n, sh_keys = map str_of ks, sh_ledgers = None\<rparr>
               | Some (JArr ls) \<Rightarrow>
                   if length ls > run_budget_max_keys then None
                   else (case opt_map read_hold_ledger ls of None \<Rightarrow> None
                     | Some out \<Rightarrow>
                         if concat (map snd out) \<noteq> ks then None
                         else if \<not> list_all (\<lambda>(p, l). list_all (\<lambda>k. starts_with (p @ '':'') (str_of k)) l) out then None
                         else Some \<lparr>sh_amount = n, sh_keys = map str_of ks, sh_ledgers = Some (map (\<lambda>(p, l). (p, map str_of l)) out)\<rparr>)
               | Some _ \<Rightarrow> None)
         | _ \<Rightarrow> None)
      | _ \<Rightarrow> None)"

text \<open>What is written, and the value a hold of the worker is as JSON.\<close>

definition stored_json :: "stored_hold \<Rightarrow> json" where
  "stored_json h = JObj ([(''amountMicros'', JInt (sh_amount h)), (''keys'', JArr (map JStr (sh_keys h)))]
     @ (case sh_ledgers h of None \<Rightarrow> []
        | Some ls \<Rightarrow> [(''ledgers'', JArr (map (\<lambda>(p, ks). JObj [(''keyPrefix'', JStr p), (''keys'', JArr (map JStr ks))]) ls))]))"

datatype record_result = Record_ok | Record_error string

text \<open>\<open>stringify\<close> is \<open>JSON.stringify\<close>.\<close>

definition record_hold ::
  "(json \<Rightarrow> string) \<Rightarrow> fate \<Rightarrow> int \<Rightarrow> string option \<Rightarrow> int \<Rightarrow> json \<Rightarrow> ledgers \<Rightarrow> record_result \<times> ledgers" where
  "record_hold stringify d ttl i seq hold s =
     (if \<not> is_seq seq then (Record_error ''bad-seq'', s)
      else case valid_hold hold of None \<Rightarrow> (Record_error ''bad-hold'', s)
      | Some h \<Rightarrow>
          (let (r, s1) = eval_script d (run_budget_key_for i) ttl
               (record_script (nat seq) (stringify (stored_json h)) (int_text (ls_now s))) s
           in (case attempted r of Inl c \<Rightarrow> Record_error c | Inr v \<Rightarrow> if v = Some 1 then Record_ok else Record_error ''exists'', s1)))"

section \<open>Reading the ledger\<close>

record read_row =
  rr_seq :: nat
  rr_state :: string
  rr_amount :: "int option"

record read_ledger =
  rl_slot :: "string option"
  rl_seq :: nat
  rl_at :: "string option"   \<comment> \<open>the text of the stamp\<close>
  rl_holds :: "read_row list"

text \<open>The amount of a stored text, none where it does not parse to an object with one.\<close>

definition amount_of :: "(string \<Rightarrow> json option) \<Rightarrow> string option \<Rightarrow> int option" where
  "amount_of json_parse text =
     (case Option.bind text json_parse of Some (JObj kvs) \<Rightarrow>
        (case map_of kvs ''amountMicros'' of Some (JInt n) \<Rightarrow> if is_safe n then Some n else None | _ \<Rightarrow> None)
      | _ \<Rightarrow> None)"

definition ledger_rows :: "(string \<Rightarrow> json option) \<Rightarrow> hash \<Rightarrow> read_row list" where
  "ledger_rows json_parse h =
     sort_key rr_seq (List.map_filter (\<lambda>(f, v). map_option (\<lambda>n.
        \<lparr>rr_seq = n, rr_state = v, rr_amount = amount_of json_parse (hget h (hold_field n))\<rparr>) (state_seq f)) h)"

text \<open>An absent ledger is \<open>None\<close>.\<close>

definition read_run_ledger :: "(string \<Rightarrow> json option) \<Rightarrow> fate \<Rightarrow> string option \<Rightarrow> ledgers \<Rightarrow> string + read_ledger option" where
  "read_run_ledger json_parse d i s =
     (case attempted (case d of Answered \<Rightarrow> Inr (ledger_at s (run_budget_key_for i)) | Unsent e \<Rightarrow> Inl e | Unanswered e \<Rightarrow> Inl e) of
        Inl c \<Rightarrow> Inl c
      | Inr v \<Rightarrow>
          (let h = (case v of None \<Rightarrow> [] | Some h \<Rightarrow> h)
           in Inr (if h = [] then None
                else Some \<lparr>rl_slot = hget h ''slot'',
                  rl_seq = (case hget h ''seq'' of Some t \<Rightarrow> if list_all is_digit t then text_nat t else 0 | None \<Rightarrow> 0),
                  rl_at = hget h ''at'', rl_holds = ledger_rows json_parse h\<rparr>)))"

end
