(* ===== verification/RunBudgetFacts.thy ===== *)
theory RunBudgetFacts
  imports RunBudget
begin

text \<open>
  What the run's budget ledger guarantees: over any sequence of calls of any callers, answered or not,
  each container number is handed out once, each hold is recorded once and finished once, and the slot
  is claimed once; and what is recorded is read back.
\<close>

section \<open>Fields\<close>

lemma state_seq_field [simp]: "state_seq (state_field n) = Some n"
  using nat_text_all_digits by (simp add: state_seq_def state_field_def)

lemma state_field_inj [simp]: "state_field m = state_field n \<longleftrightarrow> m = n"
  by (simp add: state_field_def)

lemma digits_not_word:
  "nat_text n \<noteq> ''lot''" "nat_text n \<noteq> ''eq''" "''lot'' \<noteq> nat_text n" "''eq'' \<noteq> nat_text n"
proof -
  have "nat_text n \<noteq> ''lot'' \<and> nat_text n \<noteq> ''eq''"
  proof (intro conjI notI)
    assume "nat_text n = ''lot''"
    then have "is_digit (CHR ''l'')" using nat_text_digits [of "CHR ''l''" n] by simp
    then show False by code_simp
  next
    assume "nat_text n = ''eq''"
    then have "is_digit (CHR ''e'')" using nat_text_digits [of "CHR ''e''" n] by simp
    then show False by code_simp
  qed
  then show "nat_text n \<noteq> ''lot''" "nat_text n \<noteq> ''eq''" "''lot'' \<noteq> nat_text n" "''eq'' \<noteq> nat_text n" by auto
qed

lemma field_names [simp]:
  "state_field n \<noteq> ''slot''" "state_field n \<noteq> ''seq''" "state_field n \<noteq> ''at''" "state_field n \<noteq> hold_field m"
  "''slot'' \<noteq> state_field n" "''seq'' \<noteq> state_field n" "''at'' \<noteq> state_field n" "hold_field m \<noteq> state_field n"
  "hold_field n \<noteq> ''slot''" "hold_field n \<noteq> ''seq''" "hold_field n \<noteq> ''at''"
  "''slot'' \<noteq> hold_field n" "''seq'' \<noteq> hold_field n" "''at'' \<noteq> hold_field n"
  using digits_not_word by (auto simp: state_field_def hold_field_def)

text \<open>The fields the scripts write, and what they write there.\<close>

definition known_field :: "string \<times> string \<Rightarrow> bool" where
  "known_field f \<longleftrightarrow> fst f \<in> {''slot'', ''at''} \<or> (fst f = ''seq'' \<and> (\<exists>n. snd f = nat_text n))
     \<or> (\<exists>n. fst f = hold_field n) \<or> (\<exists>n. fst f = state_field n)"

definition ledger_ok :: "hash \<Rightarrow> bool" where
  "ledger_ok h \<longleftrightarrow> distinct (map fst h) \<and> list_all known_field h"

lemma ledger_ok_Nil [simp]: "ledger_ok []" by (simp add: ledger_ok_def)

lemma update_all: "list_all P h \<Longrightarrow> P (k, v) \<Longrightarrow> list_all P (hset k v h)"
  by (induction h) auto

lemma ledger_ok_hset: "ledger_ok h \<Longrightarrow> known_field (k, v) \<Longrightarrow> ledger_ok (hset k v h)"
  by (simp add: ledger_ok_def distinct_update update_all)

lemma hget_hset [simp]: "hget (hset k v h) f = (if f = k then Some v else hget h f)"
  by (simp add: update_conv')

lemma hset_not_Nil [simp]: "hset k v h \<noteq> []"
  by (cases h) (auto split: prod.splits)

text \<open>Only a state field is read as one.\<close>

lemma known_state: "known_field f \<Longrightarrow> state_seq (fst f) = Some n \<Longrightarrow> fst f = state_field n"
proof -
  assume k: "known_field f" and s: "state_seq (fst f) = Some n"
  have "state_seq ''slot'' = None" "state_seq ''at'' = None" "state_seq ''seq'' = None" by code_simp+
  moreover have "state_seq (hold_field m) = None" for m by (simp add: state_seq_def hold_field_def)
  ultimately show ?thesis using k s by (auto simp: known_field_def)
qed

lemma known_fields [simp]:
  "known_field (''slot'', v)" "known_field (''at'', v)" "known_field (''seq'', nat_text n)" "known_field (state_field n, v)" "known_field (hold_field n, v)"
  by (auto simp: known_field_def)

section \<open>The scripts over the abstract ledger\<close>

text \<open>What of a ledger decides: the slot, the last number handed out, and the state of each hold.\<close>

record abstract_ledger =
  ab_slot :: bool
  ab_last :: nat
  ab_states :: "nat \<Rightarrow> string option"

definition view :: "hash \<Rightarrow> abstract_ledger" where
  "view h = \<lparr>ab_slot = hget h ''slot'' \<noteq> None, ab_last = (case hget h ''seq'' of None \<Rightarrow> 0 | Some v \<Rightarrow> text_nat v),
     ab_states = (\<lambda>n. hget h (state_field n))\<rparr>"

definition spec_claim :: "abstract_ledger \<Rightarrow> bool \<times> abstract_ledger" where
  "spec_claim a = (\<not> ab_slot a, a\<lparr>ab_slot := True\<rparr>)"

definition spec_record :: "nat \<Rightarrow> abstract_ledger \<Rightarrow> bool \<times> abstract_ledger" where
  "spec_record n a = (if ab_states a n = None then (True, a\<lparr>ab_states := (ab_states a)(n \<mapsto> ''held'')\<rparr>) else (False, a))"

definition spec_move :: "nat \<Rightarrow> string \<Rightarrow> abstract_ledger \<Rightarrow> bool \<times> abstract_ledger" where
  "spec_move n to a = (if ab_states a n = Some ''held'' then (True, a\<lparr>ab_states := (ab_states a)(n \<mapsto> to)\<rparr>) else (False, a))"

definition spec_crashed :: "nat \<Rightarrow> abstract_ledger \<Rightarrow> nat set \<times> abstract_ledger" where
  "spec_crashed b a = ({n. n < b \<and> ab_states a n = Some ''held''},
     a\<lparr>ab_states := (\<lambda>n. if n < b \<and> ab_states a n = Some ''held'' then Some ''settled-crashed'' else ab_states a n)\<rparr>)"

definition spec_next :: "abstract_ledger \<Rightarrow> nat \<times> abstract_ledger" where
  "spec_next a = (Suc (ab_last a), a\<lparr>ab_last := Suc (ab_last a)\<rparr>)"

text \<open>The ledger a script leaves.\<close>

definition left_by :: "'r script \<Rightarrow> hash \<Rightarrow> hash" where
  "left_by sc h = (case snd (sc h) of None \<Rightarrow> h | Some g \<Rightarrow> g)"

lemma claim_effect:
  assumes "ledger_ok h"
  shows "fst (claim_script stamp h) = Inr (if fst (spec_claim (view h)) then 1 else 0)"
    "view (left_by (claim_script stamp) h) = snd (spec_claim (view h))" "ledger_ok (left_by (claim_script stamp) h)"
  using assms by (auto simp: claim_script_def left_by_def spec_claim_def view_def ledger_ok_hset)

lemma record_effect:
  assumes "ledger_ok h"
  shows "fst (record_script n text stamp h) = Inr (if fst (spec_record n (view h)) then 1 else 0)"
    "view (left_by (record_script n text stamp) h) = snd (spec_record n (view h))" "ledger_ok (left_by (record_script n text stamp) h)"
  using assms by (auto simp: record_script_def left_by_def spec_record_def view_def ledger_ok_hset fun_eq_iff)

lemma move_effect:
  assumes "ledger_ok h"
  shows "fst (move_script n to stamp h) = Inr (if fst (spec_move n to (view h)) then 1 else 0)"
    "view (left_by (move_script n to stamp) h) = snd (spec_move n to (view h))" "ledger_ok (left_by (move_script n to stamp) h)"
  using assms by (auto simp: move_script_def left_by_def spec_move_def view_def ledger_ok_hset fun_eq_iff)

lemma seq_effect:
  assumes "ledger_ok h"
  shows "fst (seq_script stamp h) = Inr (fst (spec_next (view h)))"
    "view (left_by (seq_script stamp) h) = snd (spec_next (view h))" "ledger_ok (left_by (seq_script stamp) h)"
proof -
  have "list_all is_digit v \<and> nat_text (text_nat v) = v" if m: "hget h ''seq'' = Some v" for v
  proof -
    have "known_field (''seq'', v)" using assms map_of_SomeD [OF m] by (auto simp: ledger_ok_def list_all_iff)
    then obtain n where "v = nat_text n" by (auto simp: known_field_def)
    then show ?thesis using nat_text_all_digits by simp
  qed
  then show "fst (seq_script stamp h) = Inr (fst (spec_next (view h)))"
    "view (left_by (seq_script stamp) h) = snd (spec_next (view h))" "ledger_ok (left_by (seq_script stamp) h)"
    using assms by (auto simp: seq_script_def left_by_def spec_next_def view_def ledger_ok_hset fun_eq_iff split: option.split)
qed

lemma foldl_hset: "hget (foldl (\<lambda>h f. hset (fst f) v h) h fs) k = (if k \<in> fst ` set fs then Some v else hget h k)"
  by (induction fs arbitrary: h) auto

lemma foldl_hset_ok: "ledger_ok h \<Longrightarrow> \<forall>f \<in> set fs. known_field (fst f, v) \<Longrightarrow> ledger_ok (foldl (\<lambda>h f. hset (fst f) v h) h fs)"
  by (induction fs arbitrary: h) (auto intro: ledger_ok_hset)

lemma crashed_member:
  assumes "ledger_ok h" "f \<in> set h" "crashed_below b f"
  shows "\<exists>n. fst f = state_field n \<and> state_seq (fst f) = Some n \<and> n < b \<and> hget h (state_field n) = Some ''held''"
proof -
  obtain n where n: "state_seq (fst f) = Some n" "n < b" "snd f = ''held''" using assms(3) by (auto simp: crashed_below_def split: option.splits)
  have "fst f = state_field n" using known_state n(1) assms(1,2) by (auto simp: ledger_ok_def list_all_iff)
  moreover have "hget h (fst f) = Some (snd f)" using assms(1,2) by (cases f) (simp add: ledger_ok_def)
  ultimately show ?thesis using n by auto
qed

lemma map_filter_the: "\<forall>x \<in> set xs. g x \<noteq> None \<Longrightarrow> List.map_filter g xs = map (the \<circ> g) xs"
  by (induction xs) (auto simp: List.map_filter_def)

lemma crashed_effect:
  assumes "ledger_ok h"
  shows "\<exists>ns. fst (crashed_script b stamp h) = Inr ns \<and> set ns = fst (spec_crashed b (view h)) \<and> distinct ns"
    "view (left_by (crashed_script b stamp) h) = snd (spec_crashed b (view h))" "ledger_ok (left_by (crashed_script b stamp) h)"
proof -
  define fs where "fs = filter (crashed_below b) h"
  define ns where "ns = List.map_filter (\<lambda>f. state_seq (fst f)) fs"
  have mem: "\<exists>n. fst f = state_field n \<and> state_seq (fst f) = Some n \<and> n < b \<and> hget h (state_field n) = Some ''held''" if "f \<in> set fs" for f
    using crashed_member [OF assms] that by (simp add: fs_def)
  have cov: "(state_field n, ''held'') \<in> set fs" if "n < b" "hget h (state_field n) = Some ''held''" for n
    using map_of_SomeD [OF that(2)] that(1) by (simp add: fs_def crashed_below_def)
  have names: "map (state_field \<circ> the \<circ> state_seq \<circ> fst) fs = map fst fs" using mem by fastforce
  have "\<forall>f \<in> set fs. state_seq (fst f) \<noteq> None" using mem by force
  then have ns: "ns = map (the \<circ> state_seq \<circ> fst) fs" unfolding ns_def by (subst map_filter_the) (auto simp: comp_def)
  have "distinct (map fst fs)" using assms by (simp add: fs_def ledger_ok_def distinct_map_filter)
  then have "distinct (map state_field ns)" unfolding names [symmetric] by (simp only: ns map_map comp_assoc)
  then have d: "distinct ns" by (simp add: distinct_map)
  have "set ns = {n. n < b \<and> hget h (state_field n) = Some ''held''}"
    using mem cov by (force simp: ns image_iff)
  then have s: "set ns = fst (spec_crashed b (view h))" by (simp add: spec_crashed_def view_def)
  have c: "crashed_script b stamp h = (Inr ns, if ns = [] then None else Some (hset ''at'' stamp (foldl (\<lambda>h f. hset (fst f) ''settled-crashed'' h) h fs)))"
    by (simp add: crashed_script_def Let_def fs_def ns_def)
  show "\<exists>ns. fst (crashed_script b stamp h) = Inr ns \<and> set ns = fst (spec_crashed b (view h)) \<and> distinct ns" using c d s by simp
  have im: "state_field n \<in> fst ` set fs \<longleftrightarrow> n < b \<and> hget h (state_field n) = Some ''held''" for n
    using mem cov by force
  have other: "f \<notin> fst ` set fs" if "f \<in> {''slot'', ''seq''}" for f using mem that by fastforce
  have e: "ns = [] \<longleftrightarrow> fs = []" by (simp add: ns)
  show "view (left_by (crashed_script b stamp) h) = snd (spec_crashed b (view h))"
    using im other by (cases "fs = []") (auto simp: left_by_def c e view_def spec_crashed_def foldl_hset fun_eq_iff)
  have "ledger_ok (foldl (\<lambda>h f. hset (fst f) ''settled-crashed'' h) h fs)" using mem assms by (intro foldl_hset_ok) fastforce+
  then show "ledger_ok (left_by (crashed_script b stamp) h)" using assms by (simp add: left_by_def c ledger_ok_hset)
qed

section \<open>Calls on one run's ledger\<close>

datatype ledger_call = Call_claim | Call_record int json | Call_settle int | Call_release int | Call_crashed int | Call_next | Call_remove

datatype answer = A_claim claim_result | A_record record_result | A_move move_result | A_crashed "string + nat list" | A_next "string + int" | A_removed "string + unit"

fun do_call :: "(json \<Rightarrow> string) \<Rightarrow> int \<Rightarrow> string option \<Rightarrow> ledger_call \<Rightarrow> fate \<Rightarrow> ledgers \<Rightarrow> answer \<times> ledgers" where
  "do_call js ttl i Call_claim d s = map_prod A_claim id (claim_slot d ttl i s)"
| "do_call js ttl i (Call_record n h) d s = map_prod A_record id (record_hold js d ttl i n h s)"
| "do_call js ttl i (Call_settle n) d s = map_prod A_move id (settle_hold d ttl i n s)"
| "do_call js ttl i (Call_release n) d s = map_prod A_move id (release_hold d ttl i n s)"
| "do_call js ttl i (Call_crashed n) d s = map_prod A_crashed id (settle_crashed d ttl i n s)"
| "do_call js ttl i Call_next d s = map_prod A_next id (next_seq d ttl i s)"
| "do_call js ttl i Call_remove d s = map_prod A_removed id (remove_ledger d i s)"

text \<open>
  Calls of any callers, of this run or another, in the order their scripts run, and time passing
  between them. Each answer is listed with the life of the run's ledger it was given in: a ledger that
  was removed or has expired starts a new one.
\<close>

datatype event = Call "string option" ledger_call fate | Pass int

fun answers :: "(json \<Rightarrow> string) \<Rightarrow> int \<Rightarrow> string option \<Rightarrow> event list \<Rightarrow> ledgers \<Rightarrow> nat \<Rightarrow> (nat \<times> ledger_call \<times> answer) list" where
  "answers js ttl i [] s g = []"
| "answers js ttl i (Pass d # evs) s g =
     answers js ttl i evs (s\<lparr>ls_now := ls_now s + d\<rparr>) (if ledger_at s (run_budget_key_for i) = [] then Suc g else g)"
| "answers js ttl i (Call j c d # evs) s g =
     (let g' = (if ledger_at s (run_budget_key_for i) = [] then Suc g else g); (a, s1) = do_call js ttl j c d s
      in (if run_budget_key_for j = run_budget_key_for i then [(g', c, a)] else []) @ answers js ttl i evs s1 g')"

text \<open>What a call made true when its answer says so.\<close>

definition new_claims :: "ledger_call \<times> answer \<Rightarrow> unit list" where
  "new_claims x = (case x of (Call_claim, A_claim Claim_new) \<Rightarrow> [()] | _ \<Rightarrow> [])"

definition new_records :: "ledger_call \<times> answer \<Rightarrow> nat list" where
  "new_records x = (case x of (Call_record n h, A_record Record_ok) \<Rightarrow> [nat n] | _ \<Rightarrow> [])"

definition finished :: "ledger_call \<times> answer \<Rightarrow> nat list" where
  "finished x = (case x of (Call_settle n, A_move Was_moved) \<Rightarrow> [nat n] | (Call_release n, A_move Was_moved) \<Rightarrow> [nat n]
     | (Call_crashed n, A_crashed (Inr ns)) \<Rightarrow> ns | _ \<Rightarrow> [])"

definition numbers :: "ledger_call \<times> answer \<Rightarrow> nat list" where
  "numbers x = (case x of (Call_next, A_next (Inr n)) \<Rightarrow> [nat n] | _ \<Rightarrow> [])"

definition given_out :: "(ledger_call \<times> answer \<Rightarrow> 'x list) \<Rightarrow> (nat \<times> ledger_call \<times> answer) list \<Rightarrow> (nat \<times> 'x) list" where
  "given_out out as = concat (map (\<lambda>(g, ca). map (Pair g) (out ca)) as)"

section \<open>Once in a ledger's life\<close>

text \<open>Every stored hash, expired ones included, is one the scripts wrote.\<close>

definition stored_ok :: "ledgers \<Rightarrow> bool" where
  "stored_ok s \<longleftrightarrow> (\<forall>k h e. ls_hash s k = Some (h, e) \<longrightarrow> ledger_ok h)"

lemma stored_ok_at: "stored_ok s \<Longrightarrow> ledger_ok (ledger_at s k)"
  by (auto simp: stored_ok_def ledger_at_def split: option.splits)

lemma stored_ok_pass: "stored_ok s \<Longrightarrow> stored_ok (s\<lparr>ls_now := n\<rparr>)"
  by (simp add: stored_ok_def)

text \<open>What a script's run does to the ledgers, whatever becomes of its answer.\<close>

lemma eval_script_cases:
  assumes "eval_script d k ttl sc s = (r, s')"
  obtains (untouched) e where "r = Inl e" "s' = s"
  | (run) "r = fst (sc (ledger_at s k)) \<or> (\<exists>e. r = Inl e)" "\<And>k'. k' \<noteq> k \<Longrightarrow> ledger_at s' k' = ledger_at s k'"
      "ledger_at s' k = left_by sc (ledger_at s k) \<or> (ledger_at s' k = [] \<and> ttl \<le> 0)"
      "\<And>k' h e. ls_hash s' k' = Some (h, e) \<Longrightarrow> ls_hash s k' = Some (h, e) \<or> (k' = k \<and> snd (sc (ledger_at s k)) = Some h)"
proof -
  obtain r0 h0 where sc: "sc (ledger_at s k) = (r0, h0)" by (cases "sc (ledger_at s k)") auto
  have lb: "left_by sc (ledger_at s k) = (case h0 of None \<Rightarrow> ledger_at s k | Some g \<Rightarrow> g)" by (simp add: left_by_def sc)
  have w: "\<And>k'. k' \<noteq> k \<Longrightarrow> ledger_at (write_ledger k ttl h0 s) k' = ledger_at s k'"
    "ledger_at (write_ledger k ttl h0 s) k = left_by sc (ledger_at s k) \<or> (ledger_at (write_ledger k ttl h0 s) k = [] \<and> ttl \<le> 0)"
    "\<And>k' h e. ls_hash (write_ledger k ttl h0 s) k' = Some (h, e) \<Longrightarrow> ls_hash s k' = Some (h, e) \<or> (k' = k \<and> h0 = Some h)"
    unfolding lb by (auto simp: write_ledger_def ledger_at_def split: option.splits if_splits)
  show ?thesis
  proof (cases d)
    case (Unsent e)
    then show ?thesis using assms untouched [of e] by (simp add: eval_script_def sc)
  qed (use assms w sc run in \<open>auto simp: eval_script_def Let_def\<close>)
qed

lemma call_elsewhere:
  assumes "do_call js ttl j c d s = (a, s')" "run_budget_key_for j \<noteq> k"
  shows "ledger_at s' k = ledger_at s k"
proof -
  have ev: "ledger_at s1 k = ledger_at s k" if "eval_script d (run_budget_key_for j) ttl sc s = (r, s1)" for sc :: "'r script" and r s1
    by (rule eval_script_cases [OF that]) (use assms(2) in auto)
  show ?thesis
  proof (cases c)
    case Call_remove
    then show ?thesis using assms by (cases d) (auto simp: remove_ledger_def ledger_at_def split: option.split)
  qed (use assms(1) ev in \<open>auto simp: claim_slot_def record_hold_def settle_hold_def release_hold_def move_hold_def settle_crashed_def
      next_seq_def split: prod.splits if_splits option.splits\<close>)
qed

text \<open>What a call does to the abstract ledger, and what its answer may say of the one it found.\<close>

fun spec_call :: "ledger_call \<Rightarrow> abstract_ledger \<Rightarrow> abstract_ledger" where
  "spec_call Call_claim v = snd (spec_claim v)"
| "spec_call (Call_record n h) v = snd (spec_record (nat n) v)"
| "spec_call (Call_settle n) v = snd (spec_move (nat n) ''settled'' v)"
| "spec_call (Call_release n) v = snd (spec_move (nat n) ''released'' v)"
| "spec_call (Call_crashed n) v = snd (spec_crashed (nat n) v)"
| "spec_call Call_next v = snd (spec_next v)"
| "spec_call Call_remove v = v"

definition silent :: "ledger_call \<Rightarrow> answer \<Rightarrow> bool" where
  "silent c a \<longleftrightarrow> new_claims (c, a) = [] \<and> new_records (c, a) = [] \<and> finished (c, a) = [] \<and> numbers (c, a) = []"

lemmas answer_defs = silent_def new_claims_def new_records_def finished_def numbers_def

definition says_truly :: "ledger_call \<Rightarrow> abstract_ledger \<Rightarrow> answer \<Rightarrow> bool" where
  "says_truly c v a \<longleftrightarrow> silent c a \<or>
     (case c of
        Call_claim \<Rightarrow> a = A_claim Claim_new \<and> \<not> ab_slot v
      | Call_record n h \<Rightarrow> a = A_record Record_ok \<and> ab_states v (nat n) = None
      | Call_settle n \<Rightarrow> a = A_move Was_moved \<and> ab_states v (nat n) = Some ''held''
      | Call_release n \<Rightarrow> a = A_move Was_moved \<and> ab_states v (nat n) = Some ''held''
      | Call_crashed n \<Rightarrow> (\<exists>ns. a = A_crashed (Inr ns) \<and> distinct ns \<and> (\<forall>m \<in> set ns. m < nat n \<and> ab_states v m = Some ''held''))
      | Call_next \<Rightarrow> a = A_next (Inr (int (Suc (ab_last v))))
      | Call_remove \<Rightarrow> False)"

lemma attempt_Some: "attempted r = Inr (Some v) \<longleftrightarrow> r = Inr v"
  by (auto simp: attempted_def split: sum.splits if_splits)

lemma script_view:
  assumes "eval_script d k ttl sc s = (r, s')" "stored_ok s"
    and "ledger_ok (left_by sc (ledger_at s k))"
  shows "stored_ok s' \<and> (r = fst (sc (ledger_at s k)) \<or> (\<exists>e. r = Inl e))
    \<and> ((ledger_at s' k = [] \<and> ttl \<le> 0) \<or> view (ledger_at s' k) = view (left_by sc (ledger_at s k))
        \<or> (view (ledger_at s' k) = view (ledger_at s k) \<and> (\<exists>e. r = Inl e)))"
proof (rule eval_script_cases [OF assms(1)])
  fix e
  assume "r = Inl e" "s' = s"
  then show ?thesis using assms(2) by simp
next
  assume a: "r = fst (sc (ledger_at s k)) \<or> (\<exists>e. r = Inl e)" "ledger_at s' k = left_by sc (ledger_at s k) \<or> (ledger_at s' k = [] \<and> ttl \<le> 0)"
    and w: "\<And>k' h e. ls_hash s' k' = Some (h, e) \<Longrightarrow> ls_hash s k' = Some (h, e) \<or> (k' = k \<and> snd (sc (ledger_at s k)) = Some h)"
  have "ledger_ok h" if "ls_hash s' k' = Some (h, e)" for k' h e
    using w [OF that] assms(2,3) by (auto simp: stored_ok_def left_by_def)
  then have "stored_ok s'" by (auto simp: stored_ok_def)
  then show ?thesis using a by auto
qed

lemma call_view:
  assumes "do_call js ttl i c d s = (a, s')" "stored_ok s"
  shows "stored_ok s' \<and> says_truly c (view (ledger_at s (run_budget_key_for i))) a
    \<and> ((ledger_at s' (run_budget_key_for i) = [] \<and> (ttl \<le> 0 \<or> c = Call_remove))
        \<or> view (ledger_at s' (run_budget_key_for i)) = spec_call c (view (ledger_at s (run_budget_key_for i)))
        \<or> (view (ledger_at s' (run_budget_key_for i)) = view (ledger_at s (run_budget_key_for i)) \<and> silent c a))"
proof -
  let ?k = "run_budget_key_for i" and ?t = "int_text (ls_now s)"
  note ok = stored_ok_at [OF assms(2), of ?k]
  have quiet: ?thesis if "s' = s" "silent c a" using that assms(2) by (simp add: says_truly_def)
  show ?thesis
  proof (cases c)
    case Call_claim
    obtain r where e: "eval_script d ?k ttl (claim_script ?t) s = (r, s')" "a = A_claim (case attempted r of Inl c \<Rightarrow> Claim_error c | Inr v \<Rightarrow> if v = Some 1 then Claim_new else Claim_carried)"
      using assms(1) by (auto simp: Call_claim claim_slot_def split: prod.splits)
    show ?thesis using script_view [OF e(1) assms(2) claim_effect(3) [OF ok]] claim_effect(1,2) [OF ok, of ?t] e(2)
      by (auto simp: Call_claim says_truly_def answer_defs attempted_def spec_claim_def split: sum.splits if_splits)
  next
    case (Call_record n h)
    show ?thesis
    proof (cases "is_seq n \<and> valid_hold h \<noteq> None")
      case False
      then show ?thesis using assms(1) by (intro quiet) (auto simp: Call_record record_hold_def answer_defs split: option.splits if_splits)
    next
      case True
      then obtain v r where e: "eval_script d ?k ttl (record_script (nat n) (js (stored_json v)) ?t) s = (r, s')"
        "a = A_record (case attempted r of Inl c \<Rightarrow> Record_error c | Inr v \<Rightarrow> if v = Some 1 then Record_ok else Record_error ''exists'')"
        using assms(1) by (auto simp: Call_record record_hold_def split: prod.splits option.splits)
      show ?thesis using script_view [OF e(1) assms(2) record_effect(3) [OF ok]] record_effect(1,2) [OF ok, of "nat n" _ ?t] e(2)
        by (auto simp: Call_record says_truly_def answer_defs attempted_def spec_record_def split: sum.splits if_splits)
    qed
  next
    case (Call_crashed n)
    show ?thesis
    proof (cases "is_seq n")
      case False
      then show ?thesis using assms(1) by (intro quiet) (auto simp: Call_crashed settle_crashed_def answer_defs)
    next
      case True
      then obtain r where e: "eval_script d ?k ttl (crashed_script (nat n) ?t) s = (r, s')"
        "a = A_crashed (case attempted r of Inl c \<Rightarrow> Inl c | Inr v \<Rightarrow> Inr (case v of None \<Rightarrow> [] | Some ns \<Rightarrow> sort ns))"
        using assms(1) by (auto simp: Call_crashed settle_crashed_def split: prod.splits)
      show ?thesis using script_view [OF e(1) assms(2) crashed_effect(3) [OF ok]] crashed_effect(1,2) [OF ok, of "nat n" ?t] e(2)
        by (auto simp: Call_crashed says_truly_def answer_defs attempted_def spec_crashed_def split: sum.splits if_splits)
    qed
  next
    case Call_next
    obtain r where e: "eval_script d ?k ttl (seq_script ?t) s = (r, s')"
      "a = A_next (case attempted r of Inl c \<Rightarrow> Inl c | Inr (Some n) \<Rightarrow> if is_seq (int n) then Inr (int n) else Inl ''bad-reply'' | Inr None \<Rightarrow> Inl ''bad-reply'')"
      using assms(1) by (auto simp: Call_next next_seq_def split: prod.splits)
    show ?thesis using script_view [OF e(1) assms(2) seq_effect(3) [OF ok]] seq_effect(1,2) [OF ok, of ?t] e(2)
      by (auto simp: Call_next says_truly_def answer_defs attempted_def spec_next_def split: sum.splits if_splits)
  next
    case Call_remove
    have "silent c a" "says_truly c (view (ledger_at s ?k)) a"
      using assms(1) by (auto simp: Call_remove says_truly_def answer_defs)
    moreover have "stored_ok (s\<lparr>ls_hash := (ls_hash s)(?k := None)\<rparr>)" using assms(2) by (auto simp: stored_ok_def)
    then have "s' = s \<or> ledger_at s' ?k = [] \<and> stored_ok s'"
      using assms(1) by (cases d) (auto simp: Call_remove remove_ledger_def ledger_at_def)
    ultimately show ?thesis using assms(2) Call_remove by auto
  next
    case (Call_settle n)
    show ?thesis
    proof (cases "is_seq n")
      case False
      then show ?thesis using assms(1) by (intro quiet) (auto simp: Call_settle settle_hold_def move_hold_def answer_defs)
    next
      case True
      then obtain r where e: "eval_script d ?k ttl (move_script (nat n) ''settled'' ?t) s = (r, s')"
        "a = A_move (case attempted r of Inl c \<Rightarrow> Move_error c | Inr v \<Rightarrow> if v = Some 1 then Was_moved else Not_held)"
        using assms(1) by (auto simp: Call_settle settle_hold_def move_hold_def split: prod.splits)
      show ?thesis using script_view [OF e(1) assms(2) move_effect(3) [OF ok]] move_effect(1,2) [OF ok, of "nat n" "''settled''" ?t] e(2)
        by (auto simp: Call_settle says_truly_def answer_defs attempted_def spec_move_def split: sum.splits if_splits)
    qed
  next
    case (Call_release n)
    show ?thesis
    proof (cases "is_seq n")
      case False
      then show ?thesis using assms(1) by (intro quiet) (auto simp: Call_release release_hold_def move_hold_def answer_defs)
    next
      case True
      then obtain r where e: "eval_script d ?k ttl (move_script (nat n) ''released'' ?t) s = (r, s')"
        "a = A_move (case attempted r of Inl c \<Rightarrow> Move_error c | Inr v \<Rightarrow> if v = Some 1 then Was_moved else Not_held)"
        using assms(1) by (auto simp: Call_release release_hold_def move_hold_def split: prod.splits)
      show ?thesis using script_view [OF e(1) assms(2) move_effect(3) [OF ok]] move_effect(1,2) [OF ok, of "nat n" "''released''" ?t] e(2)
        by (auto simp: Call_release says_truly_def answer_defs attempted_def spec_move_def split: sum.splits if_splits)
    qed
  qed
qed

section \<open>What is given out once\<close>

text \<open>
  Something a call's answer gives out, and when the ledger shows that it is spent: what is given out
  was not spent and is from then on, and what is spent stays so.
\<close>

locale once =
  fixes out :: "ledger_call \<times> answer \<Rightarrow> 'x list" and spent :: "abstract_ledger \<Rightarrow> 'x \<Rightarrow> bool"
  assumes fresh: "says_truly c v a \<Longrightarrow> distinct (out (c, a)) \<and> (\<forall>x \<in> set (out (c, a)). \<not> spent v x \<and> spent (spec_call c v) x)"
    and quiet: "silent c a \<Longrightarrow> out (c, a) = []"
    and keeps: "spent v x \<Longrightarrow> spent (spec_call c v) x"
begin

lemma call_once:
  assumes "do_call js ttl j c d s = (a, s')" "stored_ok s" "run_budget_key_for j = k"
  shows "stored_ok s'" "distinct (out (c, a))"
    "x \<in> set (out (c, a)) \<Longrightarrow> \<not> spent (view (ledger_at s k)) x \<and> (ledger_at s' k = [] \<or> spent (view (ledger_at s' k)) x)"
    "spent (view (ledger_at s k)) x \<Longrightarrow> ledger_at s' k = [] \<or> spent (view (ledger_at s' k)) x"
  using call_view [OF assms(1,2)] fresh [of c "view (ledger_at s k)" a] quiet [of c a] keeps [of "view (ledger_at s k)" x c]
  unfolding assms(3) by auto

lemma call_stored: "do_call js ttl j c d s = (a, s') \<Longrightarrow> stored_ok s \<Longrightarrow> stored_ok s'"
  using call_view by blast

lemma given_once:
  assumes "stored_ok s"
  shows "distinct (given_out out (answers js ttl i evs s g))
    \<and> (\<forall>(g', x) \<in> set (given_out out (answers js ttl i evs s g)).
         g \<le> g' \<and> (g' = g \<longrightarrow> ledger_at s (run_budget_key_for i) \<noteq> [] \<and> \<not> spent (view (ledger_at s (run_budget_key_for i))) x))"
  using assms
proof (induction evs arbitrary: s g)
  case Nil
  then show ?case by (simp add: given_out_def)
next
  case (Cons ev evs)
  let ?k = "run_budget_key_for i" and ?g = "if ledger_at s (run_budget_key_for i) = [] then Suc g else g"
  show ?case
  proof (cases ev)
    case (Pass n)
    let ?s = "s\<lparr>ls_now := ls_now s + n\<rparr>"
    have IH: "distinct (given_out out (answers js ttl i evs ?s ?g))"
      "\<forall>(g', x) \<in> set (given_out out (answers js ttl i evs ?s ?g)). ?g \<le> g' \<and> (g' = ?g \<longrightarrow> ledger_at ?s ?k \<noteq> [] \<and> \<not> spent (view (ledger_at ?s ?k)) x)"
      using Cons.IH [of ?s ?g] stored_ok_pass [OF Cons.prems] by blast+
    have "ledger_at ?s ?k = ledger_at s ?k \<or> ledger_at ?s ?k = [] \<or> ledger_at s ?k = []"
      by (auto simp: ledger_at_def split: option.splits)
    then show ?thesis using IH unfolding Pass answers.simps by (fastforce split: if_splits)
  next
    case (Call j c d)
    obtain a s1 where c: "do_call js ttl j c d s = (a, s1)" by (metis surj_pair)
    have IH: "distinct (given_out out (answers js ttl i evs s1 ?g))"
      "\<forall>(g', x) \<in> set (given_out out (answers js ttl i evs s1 ?g)). ?g \<le> g' \<and> (g' = ?g \<longrightarrow> ledger_at s1 ?k \<noteq> [] \<and> \<not> spent (view (ledger_at s1 ?k)) x)"
      using Cons.IH [of s1 ?g] call_stored [OF c Cons.prems] by blast+
    show ?thesis
    proof (cases "run_budget_key_for j = ?k")
      case False
      then have "answers js ttl i (ev # evs) s g = answers js ttl i evs s1 ?g" using c by (simp add: Call Let_def)
      moreover have "ledger_at s1 ?k = ledger_at s ?k" using call_elsewhere [OF c False] .
      ultimately show ?thesis using IH by (fastforce split: if_splits)
    next
      case True
      then have "given_out out (answers js ttl i (ev # evs) s g) = map (Pair ?g) (out (c, a)) @ given_out out (answers js ttl i evs s1 ?g)"
        using c by (simp add: Call Let_def given_out_def)
      moreover note call_once(2) [OF c Cons.prems True]
      moreover have "\<not> spent (view (ledger_at s ?k)) x \<and> (ledger_at s1 ?k = [] \<or> spent (view (ledger_at s1 ?k)) x)" if "x \<in> set (out (c, a))" for x
        using call_once(3) [OF c Cons.prems True that] .
      moreover have "ledger_at s1 ?k = [] \<or> spent (view (ledger_at s1 ?k)) x" if "spent (view (ledger_at s ?k)) x" for x
        using call_once(4) [OF c Cons.prems True that] .
      ultimately show ?thesis using IH by (fastforce simp: distinct_map inj_on_def split: if_splits)
    qed
  qed
qed

end

text \<open>The slot, the records, the ends of the holds and the container numbers.\<close>

lemma says_truly_cases [consumes 1]:
  assumes "says_truly c v a"
  obtains "silent c a" | "c = Call_claim" "a = A_claim Claim_new" "\<not> ab_slot v"
  | n h where "c = Call_record n h" "a = A_record Record_ok" "ab_states v (nat n) = None"
  | n where "c = Call_settle n" "a = A_move Was_moved" "ab_states v (nat n) = Some ''held''"
  | n where "c = Call_release n" "a = A_move Was_moved" "ab_states v (nat n) = Some ''held''"
  | n ns where "c = Call_crashed n" "a = A_crashed (Inr ns)" "distinct ns" "\<forall>m \<in> set ns. m < nat n \<and> ab_states v m = Some ''held''"
  | "c = Call_next" "a = A_next (Inr (int (Suc (ab_last v))))"
  using assms unfolding says_truly_def by (cases c) auto

lemmas spec_defs = spec_claim_def spec_record_def spec_move_def spec_crashed_def spec_next_def

interpretation slot: once new_claims "\<lambda>(v :: abstract_ledger) _. ab_slot v"
proof unfold_locales
  fix c and v :: abstract_ledger and a assume "says_truly c v a"
  then show "distinct (new_claims (c, a)) \<and> (\<forall>x\<in>set (new_claims (c, a)). \<not> ab_slot v \<and> ab_slot (spec_call c v))"
    by (cases rule: says_truly_cases) (auto simp: answer_defs spec_defs)
next
  fix v :: abstract_ledger and c assume "ab_slot v" then show "ab_slot (spec_call c v)" by (cases c) (auto simp: spec_defs)
qed (simp add: silent_def)

interpretation recorded: once new_records "\<lambda>(v :: abstract_ledger) n. ab_states v n \<noteq> None"
proof unfold_locales
  fix c and v :: abstract_ledger and a assume "says_truly c v a"
  then show "distinct (new_records (c, a)) \<and> (\<forall>n\<in>set (new_records (c, a)). \<not> ab_states v n \<noteq> None \<and> ab_states (spec_call c v) n \<noteq> None)"
    by (cases rule: says_truly_cases) (auto simp: answer_defs spec_defs)
next
  fix v :: abstract_ledger and c n assume "ab_states v n \<noteq> None" then show "ab_states (spec_call c v) n \<noteq> None" by (cases c) (auto simp: spec_defs)
qed (simp add: silent_def)

definition closed :: "abstract_ledger \<Rightarrow> nat \<Rightarrow> bool" where
  "closed v n \<longleftrightarrow> (case ab_states v n of None \<Rightarrow> False | Some x \<Rightarrow> x \<noteq> ''held'')"

interpretation ended: once finished closed
proof unfold_locales
  fix c and v :: abstract_ledger and a assume "says_truly c v a"
  then show "distinct (finished (c, a)) \<and> (\<forall>n\<in>set (finished (c, a)). \<not> closed v n \<and> closed (spec_call c v) n)"
    by (cases rule: says_truly_cases) (auto simp: answer_defs spec_defs closed_def)
next
  fix v :: abstract_ledger and c n assume "closed v n" then show "closed (spec_call c v) n" by (cases c) (auto simp: spec_defs closed_def split: option.splits)
qed (simp add: silent_def)

interpretation numbered: once numbers "\<lambda>(v :: abstract_ledger) n. n \<le> ab_last v"
proof unfold_locales
  fix c and v :: abstract_ledger and a assume "says_truly c v a"
  then show "distinct (numbers (c, a)) \<and> (\<forall>n\<in>set (numbers (c, a)). \<not> n \<le> ab_last v \<and> n \<le> ab_last (spec_call c v))"
    by (cases rule: says_truly_cases) (auto simp: answer_defs spec_defs nat_add_distrib)
next
  fix v :: abstract_ledger and c n assume "n \<le> ab_last v" then show "n \<le> ab_last (spec_call c v)" by (cases c) (auto simp: spec_defs)
qed (simp add: silent_def)

text \<open>
  C14: In one life of a run's ledger, whatever calls of whatever callers interleave, fail before or after
  their script ran, and let time pass: the slot is claimed as new at most once, a container number is
  handed out at most once, a hold is recorded at most once, and at most one call is told that it
  finished a hold, by settling it, releasing it or settling it at the floor after a crash. So no hold
  is refunded twice.
\<close>

theorem ledger_exactly_once:
  assumes "stored_ok s"
  shows "distinct (given_out new_claims (answers js ttl i evs s g)) \<and> distinct (given_out numbers (answers js ttl i evs s g))
    \<and> distinct (given_out new_records (answers js ttl i evs s g)) \<and> distinct (given_out finished (answers js ttl i evs s g))"
  by (intro conjI conjunct1 [OF slot.given_once [OF assms]] conjunct1 [OF numbered.given_once [OF assms]]
      conjunct1 [OF recorded.given_once [OF assms]] conjunct1 [OF ended.given_once [OF assms]])

definition empty_ledgers :: ledgers where "empty_ledgers = \<lparr>ls_now = 0, ls_hash = (\<lambda>_. None)\<rparr>"

definition sample_calls :: "event list" where
  "sample_calls =
     [Call (Some ''7'') Call_next Answered,
      Call (Some ''7'') (Call_record 1 (JObj [(''amountMicros'', JInt 5), (''keys'', JArr [])])) Answered,
      Call (Some ''7'') (Call_settle 1) (Unsent (Fault None)), Pass 10,
      Call (Some ''7'') (Call_crashed 2) Answered, Call (Some ''7'') (Call_release 1) Answered]"

lemma sample_answers:
  "given_out finished (answers (\<lambda>_. []) 1000 (Some ''7'') sample_calls empty_ledgers 0) = [(1, 1)]"
  by code_simp

lemma ledger_exactly_once_witness:
  "stored_ok empty_ledgers \<and> distinct [(1 :: nat, 1 :: nat)]"
proof -
  have s: "stored_ok empty_ledgers" by (simp add: stored_ok_def empty_ledgers_def)
  then show ?thesis using ledger_exactly_once [OF s, of "\<lambda>_. []" 1000 "Some ''7''" sample_calls 0] unfolding sample_answers by blast
qed

section \<open>The crashed holds\<close>

lemma eval_answered:
  assumes "eval_script Answered k ttl sc s = (r, s')" "0 < ttl"
  shows "r = fst (sc (ledger_at s k))" "ledger_at s' k = left_by sc (ledger_at s k)"
  using assms by (auto simp: eval_script_def Let_def write_ledger_def ledger_at_def left_by_def split: prod.splits option.splits)

text \<open>
  A recovery's settlement of the crashed containers closes exactly the holds still held below its own
  container, each at the floor, and lists them in order; every other hold, the slot and the last number
  stay as they were, and a second recovery finds none.
\<close>

theorem crashed_settled_exactly:
  assumes "stored_ok s" "0 < ttl" "is_seq b" "settle_crashed Answered ttl i b s = (Inr ns, s')"
  shows "sorted_wrt (<) ns \<and> set ns = {n. n < nat b \<and> ab_states (view (ledger_at s (run_budget_key_for i))) n = Some ''held''}
    \<and> view (ledger_at s' (run_budget_key_for i)) = (view (ledger_at s (run_budget_key_for i)))
        \<lparr>ab_states := (\<lambda>n. if n \<in> set ns then Some ''settled-crashed'' else ab_states (view (ledger_at s (run_budget_key_for i))) n)\<rparr>
    \<and> fst (settle_crashed Answered ttl i b s') = Inr []"
proof -
  let ?k = "run_budget_key_for i"
  note ok = stored_ok_at [OF assms(1), of ?k]
  let ?sc = "crashed_script (nat b) (int_text (ls_now s))"
  obtain r where e: "eval_script Answered ?k ttl ?sc s = (r, s')" "Inr ns = (case attempted r of Inl c \<Rightarrow> Inl c | Inr v \<Rightarrow> Inr (case v of None \<Rightarrow> [] | Some ms \<Rightarrow> sort ms))"
    using assms(3,4) by (auto simp: settle_crashed_def split: prod.splits)
  obtain ms where ms: "r = Inr ms" "set ms = fst (spec_crashed (nat b) (view (ledger_at s ?k)))" "distinct ms"
    using eval_answered(1) [OF e(1) assms(2)] crashed_effect(1) [OF ok, of "nat b" "int_text (ls_now s)"] by auto
  then have ns: "ns = sort ms" using e(2) by (simp add: attempted_def)
  have v: "view (ledger_at s' ?k) = snd (spec_crashed (nat b) (view (ledger_at s ?k)))"
    using eval_answered(2) [OF e(1) assms(2)] crashed_effect(2) [OF ok] by simp
  have ok': "ledger_ok (ledger_at s' ?k)" using eval_answered(2) [OF e(1) assms(2)] crashed_effect(3) [OF ok] by simp
  have "sorted_wrt (<) ns" using ns ms(3) by (simp add: strict_sorted_iff)
  moreover have "set ns = {n. n < nat b \<and> ab_states (view (ledger_at s ?k)) n = Some ''held''}" using ns ms(2) by (simp add: spec_crashed_def)
  moreover from this have "view (ledger_at s' ?k) = (view (ledger_at s ?k))
      \<lparr>ab_states := (\<lambda>n. if n \<in> set ns then Some ''settled-crashed'' else ab_states (view (ledger_at s ?k)) n)\<rparr>"
    unfolding v by (simp add: spec_crashed_def)
  moreover have "fst (settle_crashed Answered ttl i b s') = Inr []"
  proof -
    obtain ms' where "fst (crashed_script (nat b) (int_text (ls_now s')) (ledger_at s' ?k)) = Inr ms'"
      "set ms' = fst (spec_crashed (nat b) (view (ledger_at s' ?k)))"
      using crashed_effect(1) [OF ok'] by blast
    moreover from this have "set ms' = {}" unfolding v by (auto simp: spec_crashed_def split: if_splits)
    ultimately have "fst (crashed_script (nat b) (int_text (ls_now s')) (ledger_at s' ?k)) = Inr []" by simp
    then show ?thesis using assms(3) by (simp add: settle_crashed_def attempted_def eval_script_def split_def Let_def)
  qed
  ultimately show ?thesis by blast
qed

lemma crashed_settled_exactly_witness:
  "\<exists>s ns s'. settle_crashed Answered 1000 (Some ''7'') 2 s = (Inr ns, s') \<and> ns = [1] \<and> fst (settle_crashed Answered 1000 (Some ''7'') 2 s') = Inr []"
proof -
  define s where "s = snd (record_hold (\<lambda>_. []) Answered 1000 (Some ''7'') 1 (JObj [(''amountMicros'', JInt 5), (''keys'', JArr [])]) empty_ledgers)"
  have ok: "stored_ok s"
    using call_view [of "\<lambda>_. []" 1000 "Some ''7''" "Call_record 1 (JObj [(''amountMicros'', JInt 5), (''keys'', JArr [])])" Answered empty_ledgers _ s]
    by (simp add: s_def stored_ok_def empty_ledgers_def prod_eq_iff)
  have "fst (settle_crashed Answered 1000 (Some ''7'') 2 s) = Inr [1]" unfolding s_def by code_simp
  then obtain s' where r: "settle_crashed Answered 1000 (Some ''7'') 2 s = (Inr [1], s')" by (metis prod.collapse)
  have "fst (settle_crashed Answered 1000 (Some ''7'') 2 s') = Inr []"
    using crashed_settled_exactly [OF ok _ _ r] by (simp add: is_seq_def is_safe_def max_safe_def)
  with r show ?thesis by blast
qed

end
