(* ===== verification/RunBudgetUse.thy ===== *)
theory RunBudgetUse
  imports RunBudgetFacts ScopedLimitsUse
begin

text \<open>
  Holds in the run's ledger: which hold of a reservation can be recorded, that what is recorded is read
  back, and that a reservation over more than sixteen windows never is.
\<close>

section \<open>The hold of a reservation as a value\<close>

text \<open>\<open>reserveDollars\<close>' hold: a zero amount carries no ledgers.\<close>

definition hold_json :: "hold \<Rightarrow> json" where
  "hold_json h = stored_json \<lparr>sh_amount = h_amount h, sh_keys = h_keys h, sh_ledgers = (if h_amount h = 0 then None else Some (h_ledgers h))\<rparr>"

lemma opt_map_Some: "opt_map f xs = Some ys \<longleftrightarrow> list_all2 (\<lambda>x y. f x = Some y) xs ys"
  by (induction xs arbitrary: ys) (auto simp: list_all2_Cons1 split: option.splits)

lemma opt_map_map: "(\<And>x. x \<in> set xs \<Longrightarrow> f (g x) = Some (h x)) \<Longrightarrow> opt_map f (map g xs) = Some (map h xs)"
  by (induction xs) auto

lemma str_of_JStr [simp]: "str_of (JStr s) = s" by (simp add: str_of_def)

text \<open>What \<open>validHold\<close> asks of a hold.\<close>

definition hold_ok :: "stored_hold \<Rightarrow> bool" where
  "hold_ok h \<longleftrightarrow> is_safe (sh_amount h) \<and> 0 \<le> sh_amount h \<and> length (sh_keys h) \<le> run_budget_max_keys
     \<and> list_all (\<lambda>k. is_dollar_key (JStr k)) (sh_keys h) \<and> distinct (sh_keys h)
     \<and> (case sh_ledgers h of None \<Rightarrow> True
        | Some ls \<Rightarrow> length ls \<le> run_budget_max_keys \<and> concat (map snd ls) = sh_keys h
            \<and> list_all (\<lambda>(p, ks). is_dollar_prefix p \<and> ks \<noteq> [] \<and> list_all (starts_with (p @ '':'')) ks) ls)"

lemma concat_JStr: "concat (map snd (map (\<lambda>(p, ks). (p, map JStr ks)) ls)) = map JStr (concat (map snd ls))"
  by (induction ls) auto

lemma inj_JStr: "map JStr xs = map JStr ys \<longleftrightarrow> xs = ys"
  using inj_map_eq_map [of JStr xs ys] by (simp add: inj_def)

lemma valid_stored: "valid_hold (stored_json h) = (if hold_ok h then Some h else None)"
proof -
  let ?js = "\<lambda>(p, ks). JObj [(''keyPrefix'', JStr p), (''keys'', JArr (map JStr ks))]"
  have k: "list_all is_dollar_key (map JStr (sh_keys h)) = list_all (\<lambda>k. is_dollar_key (JStr k)) (sh_keys h)"
    "map str_of (map JStr (sh_keys h)) = sh_keys h"
    by (simp_all add: list.pred_map comp_def)
  show ?thesis
  proof (cases "sh_ledgers h")
    case None
    then show ?thesis by (cases h) (auto simp: valid_hold_def stored_json_def hold_ok_def k comp_def list.pred_map)
  next
    case (Some ls)
    obtain n ks where h: "h = \<lparr>sh_amount = n, sh_keys = ks, sh_ledgers = Some ls\<rparr>" using Some by (cases h) simp
    note k = k [unfolded h stored_hold.simps]
    have rl: "read_hold_ledger (?js l) = (if is_dollar_prefix (fst l) \<and> snd l \<noteq> [] then Some (fst l, map JStr (snd l)) else None)" for l
      by (cases l) (auto simp: read_hold_ledger_def)
    show ?thesis
    proof (cases "list_all (\<lambda>l. is_dollar_prefix (fst l) \<and> snd l \<noteq> []) ls")
      case True
      then have o: "opt_map read_hold_ledger (map ?js ls) = Some (map (\<lambda>(p, ks). (p, map JStr ks)) ls)"
        by (intro opt_map_map, subst rl) (simp add: list_all_iff split_def)
      have m: "map (\<lambda>(p, l). (p, map str_of l)) (map (\<lambda>(p, ks). (p, map JStr ks)) ls) = ls" by (induction ls) (auto simp: comp_def)
      have s: "list_all (\<lambda>(p, l). list_all (\<lambda>k. starts_with (p @ '':'') (str_of k)) l) (map (\<lambda>(p, ks). (p, map JStr ks)) ls)
          = list_all (\<lambda>(p, ks). list_all (starts_with (p @ '':'')) ks) ls"
        by (auto simp: list_all_iff split_def)
      have b: "list_all (\<lambda>(p, ks). is_dollar_prefix p \<and> ks \<noteq> [] \<and> list_all (starts_with (p @ '':'')) ks) ls
          = list_all (\<lambda>(p, ks). list_all (starts_with (p @ '':'')) ks) ls"
        using True by (auto simp: list_all_iff split_def)
      show ?thesis
        unfolding h valid_hold_def stored_json_def hold_ok_def by (simp add: o k m s b concat_JStr inj_JStr del: map_map)
    next
      case False
      then have "opt_map read_hold_ledger (map ?js ls) = None"
        by (induction ls) (auto simp: rl split: option.split)
      moreover have "\<not> list_all (\<lambda>(p, ks). is_dollar_prefix p \<and> ks \<noteq> [] \<and> list_all (starts_with (p @ '':'')) ks) ls"
        using False by (auto simp: list_all_iff split_def)
      ultimately show ?thesis unfolding h valid_hold_def stored_json_def hold_ok_def by simp
    qed
  qed
qed

section \<open>Lengths of texts\<close>

lemma code_points_ascii: "(of_char c :: nat) < 128 \<Longrightarrow> code_points (c # cs) = of_char c # code_points cs"
  by (subst code_points.simps) (simp add: lead_length_def code_point_def)

lemma js_length_ascii: "list_all (\<lambda>c. (of_char c :: nat) < 128) p \<Longrightarrow> js_length (p @ s) = length p + js_length s"
  by (induction p) (auto simp: js_length_def code_points_ascii units_of_def simp del: code_points.simps)

lemma js_length_pos: "s \<noteq> [] \<Longrightarrow> 0 < js_length s"
  by (cases s) (auto simp: js_length_def units_of_def)

lemma starts_with_iff: "starts_with p s \<longleftrightarrow> (\<exists>r. s = p @ r)"
  by (metis append_eq_conv_conj starts_with_def append_take_drop_id)

section \<open>The hold of a granted reservation\<close>

text \<open>A group of keys under one prefix, each of a window of the ledger with that prefix.\<close>

definition group_of :: "dwindow set \<Rightarrow> string \<times> key list \<Rightarrow> bool" where
  "group_of W g \<longleftrightarrow> snd g \<noteq> [] \<and> (\<forall>k \<in> set (snd g). \<exists>w \<in> W. w_ledger w = fst g \<and> w_key w = k)"

lemma group_ledgers_shape: "list_all (group_of W) out \<Longrightarrow> set ws \<subseteq> W \<Longrightarrow> list_all (group_of W) (group_ledgers out ws)"
proof (induction ws arbitrary: out)
  case (Cons w ws)
  have one: "group_of W (w_ledger w, [w_key w])" using Cons.prems(2) by (auto simp: group_of_def)
  show ?case
  proof (cases "out \<noteq> [] \<and> fst (last out) = w_ledger w")
    case True
    have "out = butlast out @ [last out]" using True by simp
    then have g: "list_all (group_of W) (butlast out)" "group_of W (last out)"
      using Cons.prems(1) by (metis list_all_append, metis list_all_append list.pred_inject(2))
    have "group_of W (fst (last out), snd (last out) @ [w_key w])" using g(2) one True by (simp add: group_of_def)
    then have "list_all (group_of W) (butlast out @ [(fst (last out), snd (last out) @ [w_key w])])" using g(1) by simp
    from Cons.IH [OF this] show ?thesis using True Cons.prems(2) by simp
  next
    case False
    have "list_all (group_of W) (out @ [(w_ledger w, [w_key w])])" using Cons.prems(1) one by simp
    from Cons.IH [OF this] show ?thesis using False Cons.prems(2) by auto
  qed
qed simp

lemma length_group_ledgers: "length (group_ledgers out ws) \<le> length out + length ws"
proof (induction ws arbitrary: out)
  case (Cons w ws)
  then show ?case by (cases "out = []") (auto intro: order_trans [OF Cons.IH])
qed simp

lemma in_map_filter: "y \<in> set (List.map_filter f xs) \<longleftrightarrow> (\<exists>x \<in> set xs. f x = Some y)"
  by (induction xs) (auto simp: List.map_filter_def)

lemma window_key_shape:
  assumes "w \<in> set (dollar_windows ledgers now)"
  shows "\<exists>l \<in> set ledgers. w_ledger w = d_prefix l \<and> (\<exists>x. w_key w = d_prefix l @ CHR '':'' # x \<and> x \<noteq> [])"
proof -
  have t: "take 10 (iso_text now) \<noteq> []" "take 7 (iso_text now) \<noteq> []" using iso_text_not_s(2) [of now] by auto
  have "\<exists>x. day_key now p = p @ CHR '':'' # x \<and> x \<noteq> []" "\<exists>x. week_key now p = p @ CHR '':'' # x \<and> x \<noteq> []"
    "\<exists>x. month_key now p = p @ CHR '':'' # x \<and> x \<noteq> []" for p
    using t by (auto simp: day_key_def week_key_def month_key_def Let_def split: prod.splits)
  moreover have "\<exists>l \<in> set ledgers. w_ledger w = d_prefix l \<and> w_key w \<in> {day_key now (d_prefix l), week_key now (d_prefix l), month_key now (d_prefix l)}"
    using assms by (auto simp: dollar_windows_def in_map_filter split: option.splits; blast)
  ultimately show ?thesis by (metis empty_iff insert_iff)
qed

text \<open>The prefixes and keys the ledger takes.\<close>

definition recordable :: "dledger list \<Rightarrow> int \<Rightarrow> bool" where
  "recordable ledgers now \<longleftrightarrow> list_all (\<lambda>l. is_dollar_prefix (d_prefix l)) ledgers
     \<and> list_all (\<lambda>w. js_length (w_key w) \<le> 256) (dollar_windows ledgers now)
     \<and> distinct (map w_key (dollar_windows ledgers now))"

lemma dollar_key_of_window:
  assumes "recordable ledgers now" "w \<in> set (dollar_windows ledgers now)"
  shows "is_dollar_key (JStr (w_key w))" "is_dollar_prefix (w_ledger w)" "starts_with (w_ledger w @ '':'') (w_key w)"
proof -
  obtain l x where l: "l \<in> set ledgers" "w_ledger w = d_prefix l" "w_key w = d_prefix l @ CHR '':'' # x" "x \<noteq> []"
    using window_key_shape [OF assms(2)] by blast
  show p: "is_dollar_prefix (w_ledger w)" using assms(1) l(1,2) by (auto simp: recordable_def list_all_iff)
  obtain y where y: "w_key w = dollar_key_prefix @ '':'' @ y" "y \<noteq> []"
  proof (cases "d_prefix l = dollar_key_prefix")
    case True
    then show ?thesis using that l by simp
  next
    case False
    then obtain r where "d_prefix l = dollar_key_prefix @ '':'' @ r" using p l(2) by (auto simp: is_dollar_prefix_def starts_with_iff)
    then show ?thesis using that [of "r @ CHR '':'' # x"] l(3) by simp
  qed
  have a: "list_all (\<lambda>c. (of_char c :: nat) < 128) (dollar_key_prefix @ '':'')" by code_simp
  have "js_length (w_key w) = length dollar_key_prefix + 1 + js_length y" using y(1) js_length_ascii [OF a, of y] by simp
  moreover have "js_length (w_key w) \<le> 256" using assms by (auto simp: recordable_def list_all_iff)
  ultimately show "is_dollar_key (JStr (w_key w))"
    using js_length_pos [OF y(2)] y(1) by (auto simp: is_dollar_key_def starts_with_iff)
  show "starts_with (w_ledger w @ '':'') (w_key w)" using l by (simp add: starts_with_iff)
qed

lemma granted_hold:
  assumes "is_safe a" "0 < a" "reserve_dollars C ledgers a now s = (Inr (Held h), lg, s')"
    and "counter_store C val"
  shows "h_amount h = a" "h_keys h = map w_key (dollar_windows ledgers now)" "h_ledgers h = hold_ledgers (dollar_windows ledgers now)"
proof -
  obtain ts where t: "touch_windows C a (dollar_windows ledgers now) [] s = (Inr None, ts, s')"
    and h: "h = \<lparr>h_amount = a, h_keys = map w_key ts, h_ledgers = hold_ledgers ts\<rparr>"
    by (rule reserve_dollars_held [OF assms(3,1,2)])
  have "ts = dollar_windows ledgers now" using counter_store.touch_windows_ok [OF assms(4) t] by auto
  then show "h_amount h = a" "h_keys h = map w_key (dollar_windows ledgers now)" "h_ledgers h = hold_ledgers (dollar_windows ledgers now)"
    using h by simp_all
qed

lemma granted_valid:
  assumes "counter_store C val" "is_safe a" "0 < a" "recordable ledgers now" "length (dollar_windows ledgers now) \<le> run_budget_max_keys"
    and "reserve_dollars C ledgers a now s = (Inr (Held h), lg, s')"
  shows "hold_ok \<lparr>sh_amount = h_amount h, sh_keys = h_keys h, sh_ledgers = Some (h_ledgers h)\<rparr>"
proof -
  let ?ws = "dollar_windows ledgers now"
  note g = granted_hold [OF assms(2,3,6,1)]
  have "list_all (group_of (set ?ws)) (h_ledgers h)" using group_ledgers_shape [of "set ?ws" "[]" ?ws] by (simp add: g hold_ledgers_def)
  then have "list_all (\<lambda>(p, ks). is_dollar_prefix p \<and> ks \<noteq> [] \<and> list_all (starts_with (p @ '':'')) ks) (h_ledgers h)"
    using dollar_key_of_window(2,3) [OF assms(4)] by (fastforce simp: list_all_iff group_of_def neq_Nil_conv)
  moreover have "length (h_ledgers h) \<le> run_budget_max_keys" using length_group_ledgers [of "[]" ?ws] assms(5) by (simp add: g hold_ledgers_def)
  moreover have "list_all (\<lambda>k. is_dollar_key (JStr k)) (h_keys h)" using dollar_key_of_window(1) [OF assms(4)] by (auto simp: g list_all_iff)
  moreover have "distinct (h_keys h)" using assms(4) by (simp add: g recordable_def)
  ultimately show ?thesis using assms(2,3,5) hold_ledgers_concat by (simp add: hold_ok_def g)
qed

lemma row_read:
  "hget h (state_field n) = Some v \<Longrightarrow> \<lparr>rr_seq = n, rr_state = v, rr_amount = amount_of json_parse (hget h (hold_field n))\<rparr> \<in> set (ledger_rows json_parse h)"
  using map_of_SomeD [of h "state_field n" v] by (force simp: ledger_rows_def in_map_filter)

text \<open>
  C34: The hold of a granted reservation is recorded and read back as it is: with ledgers whose
  prefixes and keys are dollar ones, at most sixteen windows and a container number not used yet, the
  record answers ok, and the ledger is then read with that container's row, held, at the reserved amount.
\<close>

theorem granted_hold_read_back:
  assumes "counter_store C val" "is_safe a" "0 < a" "recordable ledgers now" "length (dollar_windows ledgers now) \<le> run_budget_max_keys"
    and "reserve_dollars C ledgers a now s = (Inr (Held h), lg, s')"
    and "stored_ok l" "0 < ttl" "is_seq n" "ab_states (view (ledger_at l (run_budget_key_for i))) (nat n) = None"
    and "json_parse (js (hold_json h)) = Some (hold_json h)"
  shows "\<exists>l' r. record_hold js Answered ttl i n (hold_json h) l = (Record_ok, l')
    \<and> read_run_ledger json_parse Answered i l' = Inr (Some r)
    \<and> \<lparr>rr_seq = nat n, rr_state = ''held'', rr_amount = Some a\<rparr> \<in> set (rl_holds r)"
proof -
  let ?k = "run_budget_key_for i" and ?h = "\<lparr>sh_amount = h_amount h, sh_keys = h_keys h, sh_ledgers = Some (h_ledgers h)\<rparr>"
  note g = granted_hold [OF assms(2,3,6,1)]
  note ok = stored_ok_at [OF assms(7), of ?k]
  let ?sc = "record_script (nat n) (js (stored_json ?h)) (int_text (ls_now l))"
  have hj: "hold_json h = stored_json ?h" using assms(3) g(1) by (simp add: hold_json_def)
  then have v: "valid_hold (hold_json h) = Some ?h" using granted_valid [OF assms(1-6)] by (simp add: valid_stored)
  obtain r l' where e: "eval_script Answered ?k ttl ?sc l = (r, l')" by (metis surj_pair)
  have "r = Inr 1" using eval_answered(1) [OF e assms(8)] record_effect(1) [OF ok] assms(10) by (simp add: spec_record_def)
  then have rec: "record_hold js Answered ttl i n (hold_json h) l = (Record_ok, l')"
    using assms(9) e by (simp add: record_hold_def v attempted_def)
  have free: "hget (ledger_at l ?k) (state_field (nat n)) = None" using assms(10) by (simp add: view_def)
  then have h': "ledger_at l' ?k = hset ''at'' (int_text (ls_now l)) (hset (state_field (nat n)) ''held'' (hset (hold_field (nat n)) (js (stored_json ?h)) (ledger_at l ?k)))"
    using eval_answered(2) [OF e assms(8)] by (simp add: left_by_def record_script_def)
  have "hget (ledger_at l' ?k) (state_field (nat n)) = Some ''held''" "hget (ledger_at l' ?k) (hold_field (nat n)) = Some (js (stored_json ?h))"
    unfolding h' by simp_all
  moreover have "amount_of json_parse (Some (js (stored_json ?h))) = Some a"
    using assms(2,11) by (simp add: amount_of_def hj [symmetric]) (simp add: hj stored_json_def g(1))
  ultimately have "\<lparr>rr_seq = nat n, rr_state = ''held'', rr_amount = Some a\<rparr> \<in> set (ledger_rows json_parse (ledger_at l' ?k))"
    using row_read by metis
  moreover have "ledger_at l' ?k \<noteq> []" unfolding h' by simp
  ultimately show ?thesis using rec by (simp add: read_run_ledger_def attempted_def Let_def)
qed

section \<open>Seventeen windows\<close>

text \<open>
  A reservation over more than sixteen windows is granted and can never be recorded: the hold is
  refused as malformed, so a run that must record its hold never starts. Six ledgers with three windows
  each make eighteen: the deployment's, the repository's, the project's and three models'.
\<close>

theorem wide_hold_never_recorded:
  assumes "counter_store C val" "is_safe a" "0 < a" "run_budget_max_keys < length (dollar_windows ledgers now)" "is_seq n"
    and "reserve_dollars C ledgers a now s = (Inr (Held h), lg, s')"
  shows "record_hold js d ttl i n (hold_json h) l = (Record_error ''bad-hold'', l)"
proof -
  note g = granted_hold [OF assms(2,3,6,1)]
  have "valid_hold (hold_json h) = None" using assms(4) by (simp add: hold_json_def valid_stored hold_ok_def g)
  then show ?thesis using assms(5) by (simp add: record_hold_def)
qed

text \<open>An empty in-memory store grants whatever the caps allow as many times as there are windows.\<close>

lemma mem_touches:
  assumes "m_fail s = (\<lambda>_. None)" "0 < a" "\<forall>k. 0 \<le> count_at (m_store s) k \<and> count_at (m_store s) k \<le> c"
    and "\<forall>w \<in> set ws. c + a * int (length ws) \<le> w_cap w"
  shows "\<exists>s'. touch_windows mem_client a ws ts s = (Inr None, ts @ ws, s')"
  using assms
proof (induction ws arbitrary: ts s c)
  case (Cons w ws)
  let ?k = "w_key w" and ?v = "count_at (m_store s) (w_key w) + a"
  obtain s0 where i: "c_incrby mem_client ?k a s = (Inr ?v, s0)" and s0: "m_fail s0 = (\<lambda>_. None)" "m_store s0 = add_at (m_store s) ?k a"
    using Cons.prems(1) by (simp add: mem_run)
  obtain s1 where e: "c_expire mem_client ?k (w_ttl w) s0 = (Inr (), s1)" and s1: "m_fail s1 = (\<lambda>_. None)" "m_store s1 = m_store s0"
    using s0(1) by (simp add: mem_run)
  obtain s2 where x: "(if ?v = a then c_expire mem_client ?k (w_ttl w) s0 else (Inr (), s0)) = (Inr (), s2)"
    and s2: "m_fail s2 = (\<lambda>_. None)" "m_store s2 = add_at (m_store s) ?k a"
    using e s0 s1 by (cases "?v = a") auto
  have b: "\<forall>k. 0 \<le> count_at (m_store s2) k \<and> count_at (m_store s2) k \<le> c + a"
    unfolding s2(2) using Cons.prems(2,3) by (simp add: add_increasing2 add_mono)
  have n: "a * int (length (w # ws)) = a + a * int (length ws)" "0 \<le> a * int (length ws)" using Cons.prems(2) by (simp_all add: distrib_left)
  have "c + a * int (length (w # ws)) \<le> w_cap w" "count_at (m_store s) ?k \<le> c" using Cons.prems(3,4) by auto
  then have v: "\<not> w_cap w < ?v" using n by linarith
  have c: "\<forall>w \<in> set ws. (c + a) + a * int (length ws) \<le> w_cap w" using Cons.prems(4) unfolding n(1) by (simp add: add.assoc)
  from Cons.IH [OF s2(1) Cons.prems(2) b c, of "ts @ [w]"] obtain s' where "touch_windows mem_client a ws (ts @ [w]) s2 = (Inr None, (ts @ [w]) @ ws, s')" by blast
  then have "touch_windows mem_client a (w # ws) ts s = (Inr None, ts @ w # ws, s')"
    unfolding touch_windows.simps i prod.case sum.case x using v by simp
  then show ?case by blast
qed simp

lemma mem_grants:
  assumes "is_safe a" "0 < a" "\<forall>w \<in> set (dollar_windows ledgers now). a * int (length (dollar_windows ledgers now)) \<le> w_cap w"
  shows "\<exists>h s'. reserve_dollars mem_client ledgers a now mem_init = (Inr (Held h), [], s')"
proof -
  have "\<exists>s'. touch_windows mem_client a (dollar_windows ledgers now) [] mem_init = (Inr None, [] @ dollar_windows ledgers now, s')"
    using assms(2,3) by (intro mem_touches [where c = 0]) (simp_all add: mem_init_def)
  then show ?thesis using assms(1,2) by (auto simp: reserve_dollars_def)
qed

text \<open>The ledgers of a GitHub job under a limits file with a row for its repository, its project and
  three models, each with a cap per day, week and month, beside the deployment's three.\<close>

definition capped :: "string \<Rightarrow> limit" where
  "capped s = (bare_limit s)\<lparr>lm_day_usd := Some ''100'', lm_week_usd := Some ''100'', lm_month_usd := Some ''100''\<rparr>"

definition wide_rows :: "limit list" where
  "wide_rows = [capped ''o/r'', capped ''project:shop'', capped ''model:a/x'', capped ''model:a/y'', capped ''model:a/z'']"

definition wide_caps :: caps where "wide_caps = \<lparr>cap_day = Some 100000000, cap_week = Some 100000000, cap_month = Some 100000000\<rparr>"

definition wide_ledgers :: "dledger list" where
  "wide_ledgers = dollar_ledgers (Some wide_caps)
     (case dollar_caps_for id ''/'' (\<lambda>s. s) sample_job wide_rows of Inr (Some r) \<Rightarrow> Some (snd r) | _ \<Rightarrow> None)
     (case project_dollar_caps_for (\<lambda>s. s) wide_rows (Some ''shop'') of Inr (Some r) \<Rightarrow> Some (snd r) | _ \<Rightarrow> None) None
     (case model_dollar_rows (\<lambda>s. s) wide_rows None of Inr rs \<Rightarrow> map snd rs | _ \<Rightarrow> [])"

lemma wide_ledgers_caps: "map d_caps wide_ledgers = replicate 6 wide_caps"
  by code_simp

lemma wide_windows: "length (dollar_windows ledgers now) = 3 * length ledgers \<and> list_all (\<lambda>w. w_cap w = 100000000) (dollar_windows ledgers now)"
  if "list_all (\<lambda>l. d_caps l = wide_caps) ledgers" for ledgers now
  using that by (induction ledgers) (auto simp: dollar_windows_def wide_caps_def List.map_filter_def)

lemma wide_hold_never_recorded_witness:
  "\<exists>h s'. reserve_dollars mem_client wide_ledgers 5000000 0 mem_init = (Inr (Held h), [], s')
     \<and> record_hold (\<lambda>_. []) Answered 1000 (Some ''7'') 1 (hold_json h) empty_ledgers = (Record_error ''bad-hold'', empty_ledgers)"
proof -
  have "\<forall>c \<in> set (map d_caps wide_ledgers). c = wide_caps" unfolding wide_ledgers_caps by simp
  then have "list_all (\<lambda>l. d_caps l = wide_caps) wide_ledgers" by (simp add: list_all_iff)
  then have w: "length (dollar_windows wide_ledgers 0) = 3 * length wide_ledgers" "list_all (\<lambda>w. w_cap w = 100000000) (dollar_windows wide_ledgers 0)"
    using wide_windows by blast+
  moreover have "length wide_ledgers = 6" using arg_cong [OF wide_ledgers_caps, of length] by simp
  ultimately have n: "length (dollar_windows wide_ledgers 0) = 18" by simp
  have s: "is_safe 5000000" "is_seq 1" "(0 :: int) < 5000000" by (simp_all add: is_safe_def is_seq_def max_safe_def)
  obtain h s' where r: "reserve_dollars mem_client wide_ledgers 5000000 0 mem_init = (Inr (Held h), [], s')"
    using mem_grants [OF s(1,3), of wide_ledgers 0] w(2) n by (auto simp: list_all_iff)
  have "run_budget_max_keys < length (dollar_windows wide_ledgers 0)" unfolding n by (simp add: run_budget_max_keys_def)
  from wide_hold_never_recorded [OF mem.counter_store_axioms s(1,3) this s(2) r] show ?thesis using r by blast
qed

lemma epoch_key: "day_key 0 p = p @ '':1970-01-01''"
proof -
  have "civil 0 = (1970, 0, 1)" "utc_day 0 = 0" by (simp_all add: civil_def month_lengths_def day_from_year_def utc_day_def)
  then have "iso_date (utc_day 0) = ''1970-01-01''"
    by (simp add: iso_date_def iso_month_def iso_year_def two_def pad_start_def nat_text.simps digit_char_def)
  then show ?thesis by (simp add: day_key_def iso_text_def Let_def)
qed

lemma granted_hold_read_back_witness:
  "\<exists>h s' l' r. reserve_dollars mem_client [\<lparr>d_prefix = dollar_key_prefix, d_caps = \<lparr>cap_day = Some 10, cap_week = None, cap_month = None\<rparr>\<rparr>] 2 0 mem_init
       = (Inr (Held h), [], s')
     \<and> record_hold (\<lambda>_. ''x'') Answered 1000 (Some ''7'') 1 (hold_json h) empty_ledgers = (Record_ok, l')
     \<and> read_run_ledger (\<lambda>_. Some (hold_json h)) Answered (Some ''7'') l' = Inr (Some r)
     \<and> \<lparr>rr_seq = 1, rr_state = ''held'', rr_amount = Some 2\<rparr> \<in> set (rl_holds r)"
proof -
  let ?l = "[\<lparr>d_prefix = dollar_key_prefix, d_caps = \<lparr>cap_day = Some 10, cap_week = None, cap_month = None\<rparr>\<rparr>]"
  obtain h s' where r: "reserve_dollars mem_client ?l 2 0 mem_init = (Inr (Held h), [], s')"
    by (simp add: reserve_dollars_def one_day_windows mem_run is_safe_def max_safe_def)
  have "js_length (''budget:usd:1970-01-01'') \<le> 256" "is_dollar_prefix dollar_key_prefix"
    by (simp_all add: is_dollar_prefix_def dollar_key_prefix_def js_length_def lead_length_def code_point_def units_of_def)
  then have c: "recordable ?l 0" by (simp add: recordable_def one_day_windows epoch_key dollar_key_prefix_def)
  have s: "is_safe 2" "(0 :: int) < 2" "is_seq 1" "(0 :: int) < 1000" by (simp_all add: is_safe_def is_seq_def max_safe_def)
  have w: "length (dollar_windows ?l 0) \<le> run_budget_max_keys" by (simp add: one_day_windows run_budget_max_keys_def)
  have o: "stored_ok empty_ledgers" "ab_states (view (ledger_at empty_ledgers (run_budget_key_for (Some ''7'')))) (nat 1) = None"
    by (simp_all add: stored_ok_def empty_ledgers_def ledger_at_def view_def)
  have j: "(\<lambda>_. Some (hold_json h)) ((\<lambda>_. ''x'') (hold_json h)) = Some (hold_json h)" by simp
  have "\<lparr>rr_seq = nat 1, rr_state = ''held'', rr_amount = Some 2\<rparr> = \<lparr>rr_seq = 1, rr_state = ''held'', rr_amount = Some 2\<rparr>" by simp
  then show ?thesis using granted_hold_read_back [OF mem.counter_store_axioms s(1,2) c w r o(1) s(4,3) o(2) j] r by metis
qed

end
