(* ===== verification/RunAttempts.thy ===== *)
theory RunAttempts
  imports RunBudgetUse
begin

text \<open>
  The attempts of one run and its recoveries over the run's budget ledger, as the processor takes them
  (worker/src/processor.mjs): a container number, the sweep of the crashed holds, the hold, its record,
  and its end. Attempts interleave, any command may fail before or after its script ran, and a worker
  may die anywhere.
\<close>

section \<open>State\<close>

datatype phase = Fresh | Numbered nat | Reserved nat int | Recorded nat int | Over

text \<open>
  The money of an attempt's hold that stands in each window key it reserved in, beside its phase. The
  number an attempt was given and the hold it was told is recorded are kept for the statements.
\<close>

record attempts =
  at_ledgers :: ledgers
  at_phase :: "nat \<Rightarrow> phase"
  at_counted :: "nat \<Rightarrow> int"
  at_number :: "nat \<Rightarrow> nat option"
  at_acked :: "nat \<Rightarrow> (nat \<times> int) option"

section \<open>Steps\<close>

definition take_number :: "fate \<Rightarrow> int \<Rightarrow> string option \<Rightarrow> nat \<Rightarrow> attempts \<Rightarrow> attempts" where
  "take_number d ttl i j s =
     (case next_seq d ttl i (at_ledgers s) of
        (Inr n, l) \<Rightarrow> s\<lparr>at_ledgers := l, at_phase := (at_phase s)(j := Numbered (nat n)), at_number := (at_number s)(j := Some (nat n))\<rparr>
      | (Inl _, l) \<Rightarrow> s\<lparr>at_ledgers := l, at_phase := (at_phase s)(j := Over)\<rparr>)"

definition sweep_crashed :: "fate \<Rightarrow> int \<Rightarrow> string option \<Rightarrow> nat \<Rightarrow> attempts \<Rightarrow> attempts" where
  "sweep_crashed d ttl i n s = s\<lparr>at_ledgers := snd (settle_crashed d ttl i (int n) (at_ledgers s))\<rparr>"

definition count_hold :: "nat \<Rightarrow> nat \<Rightarrow> int \<Rightarrow> attempts \<Rightarrow> attempts" where
  "count_hold j n a s = s\<lparr>at_phase := (at_phase s)(j := Reserved n a), at_counted := (at_counted s)(j := a)\<rparr>"

text \<open>A record that is not answered ok: a never-started retry, and the hold goes back directly.\<close>

definition write_record :: "(json \<Rightarrow> string) \<Rightarrow> fate \<Rightarrow> int \<Rightarrow> string option \<Rightarrow> nat \<Rightarrow> nat \<Rightarrow> int \<Rightarrow> json \<Rightarrow> attempts \<Rightarrow> attempts" where
  "write_record js d ttl i j n a hold s =
     (case record_hold js d ttl i (int n) hold (at_ledgers s) of
        (Record_ok, l) \<Rightarrow> s\<lparr>at_ledgers := l, at_phase := (at_phase s)(j := Recorded n a), at_acked := (at_acked s)(j := Some (n, a))\<rparr>
      | (Record_error _, l) \<Rightarrow> s\<lparr>at_ledgers := l, at_phase := (at_phase s)(j := Over), at_counted := (at_counted s)(j := 0)\<rparr>)"

text \<open>The end of a container that ran: to what it cost, when this call moved the hold.\<close>

definition close_settled :: "fate \<Rightarrow> int \<Rightarrow> string option \<Rightarrow> nat \<Rightarrow> nat \<Rightarrow> int \<Rightarrow> attempts \<Rightarrow> attempts" where
  "close_settled d ttl i j n x s =
     (case settle_hold d ttl i (int n) (at_ledgers s) of (r, l) \<Rightarrow>
        s\<lparr>at_ledgers := l, at_phase := (at_phase s)(j := Over), at_counted := (if r = Was_moved then (at_counted s)(j := x) else at_counted s)\<rparr>)"

text \<open>The end of an attempt whose container never ran: given back, when this call moved the hold.\<close>

definition close_released :: "fate \<Rightarrow> int \<Rightarrow> string option \<Rightarrow> nat \<Rightarrow> nat \<Rightarrow> attempts \<Rightarrow> attempts" where
  "close_released d ttl i j n s =
     (case release_hold d ttl i (int n) (at_ledgers s) of (r, l) \<Rightarrow>
        s\<lparr>at_ledgers := l, at_phase := (at_phase s)(j := Over), at_counted := (if r = Was_moved then (at_counted s)(j := 0) else at_counted s)\<rparr>)"

text \<open>\<open>pass\<close>: the clock moves on while the run's own ledger has not expired. Neither its expiry nor its
  removal is a step, so what is proved is of one life of the ledger.\<close>

inductive attempt_step :: "(json \<Rightarrow> string) \<Rightarrow> int \<Rightarrow> string option \<Rightarrow> attempts \<Rightarrow> attempts \<Rightarrow> bool" for js ttl i where
  number: "at_phase s j = Fresh \<Longrightarrow> attempt_step js ttl i s (take_number d ttl i j s)"
| sweep: "at_phase s j = Numbered n \<Longrightarrow> attempt_step js ttl i s (sweep_crashed d ttl i n s)"
| reserve: "at_phase s j = Numbered n \<Longrightarrow> attempt_step js ttl i s (count_hold j n a s)"
| recording: "at_phase s j = Reserved n a \<Longrightarrow> attempt_step js ttl i s (write_record js d ttl i j n a hold s)"
| settle: "at_phase s j = Recorded n a \<Longrightarrow> attempt_step js ttl i s (close_settled d ttl i j n x s)"
| release: "at_phase s j = Recorded n a \<Longrightarrow> attempt_step js ttl i s (close_released d ttl i j n s)"
| die: "attempt_step js ttl i s (s\<lparr>at_phase := (at_phase s)(j := Over)\<rparr>)"
| pass: "ledger_at (at_ledgers s\<lparr>ls_now := t\<rparr>) (run_budget_key_for i) = ledger_at (at_ledgers s) (run_budget_key_for i) \<Longrightarrow>
    attempt_step js ttl i s (s\<lparr>at_ledgers := at_ledgers s\<lparr>ls_now := t\<rparr>\<rparr>)"

definition no_attempts :: "ledgers \<Rightarrow> attempts" where
  "no_attempts l = \<lparr>at_ledgers = l, at_phase = (\<lambda>_. Fresh), at_counted = (\<lambda>_. 0), at_number = Map.empty, at_acked = Map.empty\<rparr>"

section \<open>Invariant\<close>

abbreviation ledger_view :: "string option \<Rightarrow> attempts \<Rightarrow> abstract_ledger" where
  "ledger_view i s \<equiv> view (ledger_at (at_ledgers s) (run_budget_key_for i))"

definition phase_number :: "phase \<Rightarrow> nat option" where
  "phase_number p = (case p of Numbered n \<Rightarrow> Some n | Reserved n a \<Rightarrow> Some n | Recorded n a \<Rightarrow> Some n | _ \<Rightarrow> None)"

text \<open>One attempt, over a view of the ledger: once its record was acknowledged, the whole amount is counted
  unless the ledger says that the hold was settled or released.\<close>

definition one_ok :: "abstract_ledger \<Rightarrow> phase \<Rightarrow> int \<Rightarrow> nat option \<Rightarrow> (nat \<times> int) option \<Rightarrow> bool" where
  "one_ok v p c num ack \<longleftrightarrow>
     (case num of None \<Rightarrow> True | Some n \<Rightarrow> n \<le> ab_last v) \<and> (p = Fresh \<longrightarrow> num = None) \<and> (phase_number p = None \<or> phase_number p = num)
     \<and> (case ack of None \<Rightarrow> (\<forall>n a. p \<noteq> Recorded n a)
        | Some (n, a) \<Rightarrow> num = Some n \<and> ab_states v n \<noteq> None \<and> (c = a \<or> ab_states v n \<in> {Some ''settled'', Some ''released''})
            \<and> (p = Recorded n a \<or> p = Over))
     \<and> (\<forall>n a. p = Reserved n a \<longrightarrow> c = a)"

definition attempts_ok :: "abstract_ledger \<Rightarrow> attempts \<Rightarrow> bool" where
  "attempts_ok v s \<longleftrightarrow> (\<forall>j. one_ok v (at_phase s j) (at_counted s j) (at_number s j) (at_acked s j))
     \<and> (\<forall>j j' n. at_number s j = Some n \<longrightarrow> at_number s j' = Some n \<longrightarrow> j' = j)"

definition set_attempt :: "nat \<Rightarrow> phase \<Rightarrow> int \<Rightarrow> nat option \<Rightarrow> (nat \<times> int) option \<Rightarrow> attempts \<Rightarrow> attempts" where
  "set_attempt j p c num ack s = s\<lparr>at_phase := (at_phase s)(j := p), at_counted := (at_counted s)(j := c),
     at_number := (at_number s)(j := num), at_acked := (at_acked s)(j := ack)\<rparr>"

lemma attempts_ok_set:
  assumes "attempts_ok v s" "one_ok v p c num ack" "\<And>j' n. num = Some n \<Longrightarrow> at_number s j' = Some n \<Longrightarrow> j' = j"
  shows "attempts_ok v (set_attempt j p c num ack s)"
  using assms unfolding attempts_ok_def set_attempt_def by auto

text \<open>What another call leaves: no smaller last number, and no state it must not touch.\<close>

definition grows :: "abstract_ledger \<Rightarrow> abstract_ledger \<Rightarrow> bool" where
  "grows v v' \<longleftrightarrow> ab_last v \<le> ab_last v' \<and> (\<forall>n. ab_states v n \<noteq> None \<longrightarrow> ab_states v' n \<noteq> None)
     \<and> (\<forall>n. ab_states v n \<in> {Some ''settled'', Some ''released''} \<longrightarrow> ab_states v' n = ab_states v n)"

lemma grows_refl [simp]: "grows v v" by (simp add: grows_def)

lemma spec_call_grows: "grows v (spec_call c v)"
  by (cases c) (auto simp: grows_def spec_defs)

lemma one_ok_grows: "one_ok v p c num ack \<Longrightarrow> grows v v' \<Longrightarrow> one_ok v' p c num ack"
  by (auto simp: one_ok_def grows_def split: option.splits)

lemma attempts_ok_grows: "attempts_ok v s \<Longrightarrow> grows v v' \<Longrightarrow> attempts_ok v' s"
  using one_ok_grows [where v = v and v' = v'] by (simp add: attempts_ok_def)

lemma call_live:
  assumes "do_call js ttl i c d l = (a, l')" "stored_ok l" "0 < ttl" "c \<noteq> Call_remove"
  shows "stored_ok l'" "says_truly c (view (ledger_at l (run_budget_key_for i))) a"
    "grows (view (ledger_at l (run_budget_key_for i))) (view (ledger_at l' (run_budget_key_for i)))"
    "\<not> silent c a \<Longrightarrow> view (ledger_at l' (run_budget_key_for i)) = spec_call c (view (ledger_at l (run_budget_key_for i)))"
proof -
  note v = call_view [OF assms(1,2)]
  show "stored_ok l'" "says_truly c (view (ledger_at l (run_budget_key_for i))) a" using v by blast+
  show "\<not> silent c a \<Longrightarrow> view (ledger_at l' (run_budget_key_for i)) = spec_call c (view (ledger_at l (run_budget_key_for i)))"
    using v assms(3,4) by linarith
  show "grows (view (ledger_at l (run_budget_key_for i))) (view (ledger_at l' (run_budget_key_for i)))"
    using v assms(3,4) spec_call_grows by (metis grows_refl not_less)
qed

definition sound :: "string option \<Rightarrow> attempts \<Rightarrow> bool" where
  "sound i s \<longleftrightarrow> stored_ok (at_ledgers s) \<and> attempts_ok (ledger_view i s) s"

lemma soundE:
  assumes "sound i s"
  obtains "stored_ok (at_ledgers s)" "attempts_ok (ledger_view i s) s"
  using assms by (simp add: sound_def)

lemma attempts_ok_ledgers [simp]: "attempts_ok v (s\<lparr>at_ledgers := l\<rparr>) = attempts_ok v s"
  by (simp add: attempts_ok_def)

lemma attempts_ok_same:
  assumes "attempts_ok v s" "one_ok v p c (at_number s j) ack"
  shows "attempts_ok v (set_attempt j p c (at_number s j) ack s)"
  using attempts_ok_set [OF assms] assms(1) unfolding attempts_ok_def by metis

lemma one_okD: "attempts_ok v s \<Longrightarrow> one_ok v (at_phase s j) (at_counted s j) (at_number s j) (at_acked s j)"
  by (simp add: attempts_ok_def)

lemma one_ok_over: "one_ok v p c num ack \<Longrightarrow> one_ok v Over c num ack"
  by (auto simp: one_ok_def phase_number_def split: option.splits)

lemma sound_set:
  assumes "stored_ok l" "attempts_ok (view (ledger_at l (run_budget_key_for i))) (set_attempt j p c num ack s)"
    and "s' = (set_attempt j p c num ack s)\<lparr>at_ledgers := l\<rparr>"
  shows "sound i s'"
  using assms by (simp add: sound_def)

lemma sound_set_same:
  assumes "stored_ok l" "attempts_ok (view (ledger_at l (run_budget_key_for i))) s"
    and "one_ok (view (ledger_at l (run_budget_key_for i))) p c (at_number s j) ack"
    and "s' = (set_attempt j p c (at_number s j) ack s)\<lparr>at_ledgers := l\<rparr>"
  shows "sound i s'"
  by (rule sound_set [OF assms(1) attempts_ok_same [OF assms(2,3)] assms(4)])

lemma take_number_sound:
  assumes "sound i s" "0 < ttl" "at_phase s j = Fresh"
  shows "sound i (take_number d ttl i j s)"
  using assms(1)
proof (rule soundE)
  let ?v = "ledger_view i s"
  assume st: "stored_ok (at_ledgers s)" and ok: "attempts_ok ?v s"
  obtain r l where r: "next_seq d ttl i (at_ledgers s) = (r, l)" by (metis surj_pair)
  let ?v' = "view (ledger_at l (run_budget_key_for i))"
  have c: "do_call undefined ttl i Call_next d (at_ledgers s) = (A_next r, l)" "Call_next \<noteq> Call_remove" using r by simp_all
  note live = call_live [OF c(1) st assms(2) c(2)]
  have ok': "attempts_ok ?v' s" using attempts_ok_grows [OF ok live(3)] .
  show ?thesis
  proof (cases r)
    case (Inl e)
    show ?thesis by (rule sound_set_same [OF live(1) ok' one_ok_over [OF one_okD [OF ok', of j]]]) (simp add: take_number_def r Inl set_attempt_def)
  next
    case (Inr n)
    have ns: "\<not> silent Call_next (A_next r)" using Inr by (simp add: answer_defs)
    then have n: "n = int (Suc (ab_last ?v))" using live(2) Inr by (simp add: says_truly_def)
    have last: "ab_last ?v' = Suc (ab_last ?v)" using live(4) [OF ns] by (simp add: spec_defs)
    have old: "at_number s j' \<noteq> Some (Suc (ab_last ?v))" for j' using one_okD [OF ok, of j'] by (auto simp: one_ok_def)
    have free: "at_acked s j = None" using one_okD [OF ok, of j] assms(3) by (auto simp: one_ok_def split: option.splits)
    have "one_ok ?v' (Numbered (Suc (ab_last ?v))) (at_counted s j) (Some (Suc (ab_last ?v))) (at_acked s j)"
      using last free by (simp add: one_ok_def phase_number_def)
    then have "attempts_ok ?v' (set_attempt j (Numbered (Suc (ab_last ?v))) (at_counted s j) (Some (Suc (ab_last ?v))) (at_acked s j) s)"
      using old by (intro attempts_ok_set [OF ok']) auto
    then show ?thesis by (rule sound_set [OF live(1)]) (simp add: take_number_def r Inr n set_attempt_def nat_add_distrib)
  qed
qed

lemma sweep_crashed_sound: "sound i s \<Longrightarrow> 0 < ttl \<Longrightarrow> sound i (sweep_crashed d ttl i n s)"
proof (erule soundE)
  assume st: "stored_ok (at_ledgers s)" and ok: "attempts_ok (ledger_view i s) s" and ttl: "0 < ttl"
  obtain r l where r: "settle_crashed d ttl i (int n) (at_ledgers s) = (r, l)" by (metis surj_pair)
  have c: "do_call undefined ttl i (Call_crashed (int n)) d (at_ledgers s) = (A_crashed r, l)" "Call_crashed (int n) \<noteq> Call_remove" using r by simp_all
  note live = call_live [OF c(1) st ttl c(2)]
  show ?thesis using live(1) attempts_ok_grows [OF ok live(3)] r by (simp add: sound_def sweep_crashed_def)
qed

lemma count_hold_sound:
  assumes "sound i s" "at_phase s j = Numbered n"
  shows "sound i (count_hold j n a s)"
  using assms(1)
proof (rule soundE)
  assume st: "stored_ok (at_ledgers s)" and ok: "attempts_ok (ledger_view i s) s"
  have "one_ok (ledger_view i s) (Reserved n a) a (at_number s j) (at_acked s j)"
    using one_okD [OF ok, of j] assms(2) by (auto simp: one_ok_def phase_number_def split: option.splits)
  then show ?thesis by (rule sound_set_same [OF st ok]) (simp add: count_hold_def set_attempt_def)
qed

lemma write_record_sound:
  assumes "sound i s" "0 < ttl" "at_phase s j = Reserved n a"
  shows "sound i (write_record js d ttl i j n a hold s)"
  using assms(1)
proof (rule soundE)
  let ?v = "ledger_view i s"
  assume st: "stored_ok (at_ledgers s)" and ok: "attempts_ok ?v s"
  obtain r l where r: "record_hold js d ttl i (int n) hold (at_ledgers s) = (r, l)" by (metis surj_pair)
  let ?v' = "view (ledger_at l (run_budget_key_for i))"
  have c: "do_call js ttl i (Call_record (int n) hold) d (at_ledgers s) = (A_record r, l)" "Call_record (int n) hold \<noteq> Call_remove" using r by simp_all
  note live = call_live [OF c(1) st assms(2) c(2)]
  have ok': "attempts_ok ?v' s" using attempts_ok_grows [OF ok live(3)] .
  have one: "one_ok ?v' (Reserved n a) (at_counted s j) (at_number s j) (at_acked s j)" using one_okD [OF ok', of j] assms(3) by simp
  show ?thesis
  proof (cases r)
    case (Record_error e)
    have "one_ok ?v' Over 0 (at_number s j) (at_acked s j)" using one by (auto simp: one_ok_def phase_number_def split: option.splits)
    then show ?thesis by (rule sound_set_same [OF live(1) ok']) (simp add: write_record_def r Record_error set_attempt_def)
  next
    case Record_ok
    have "\<not> silent (Call_record (int n) hold) (A_record r)" using Record_ok by (simp add: answer_defs)
    then have "ab_states ?v' n \<noteq> None" using live(2,4) by (auto simp: says_truly_def spec_defs)
    then have "one_ok ?v' (Recorded n a) (at_counted s j) (at_number s j) (Some (n, a))"
      using one by (auto simp: one_ok_def phase_number_def split: option.splits)
    then show ?thesis by (rule sound_set_same [OF live(1) ok']) (simp add: write_record_def r Record_ok set_attempt_def)
  qed
qed

text \<open>Settling and releasing differ in the state they write and in what they leave counted.\<close>

lemma close_sound:
  assumes "sound i s" "0 < ttl" "at_phase s j = Recorded n a" "to \<in> {''settled'', ''released''}"
    and "move_hold d ttl i (int n) to (at_ledgers s) = (r, l)"
    and "s' = s\<lparr>at_ledgers := l, at_phase := (at_phase s)(j := Over), at_counted := (if r = Was_moved then (at_counted s)(j := x) else at_counted s)\<rparr>"
  shows "sound i s'"
  using assms(1)
proof (rule soundE)
  let ?v = "ledger_view i s" and ?v' = "view (ledger_at l (run_budget_key_for i))"
  assume st: "stored_ok (at_ledgers s)" and ok: "attempts_ok ?v s"
  obtain c where c: "do_call undefined ttl i c d (at_ledgers s) = (A_move r, l)" "c \<noteq> Call_remove"
    and silent: "r = Was_moved \<Longrightarrow> \<not> silent c (A_move r)"
    and moved: "r = Was_moved \<Longrightarrow> says_truly c ?v (A_move r) \<Longrightarrow> ab_states (spec_call c ?v) n = Some to"
  proof (cases "to = ''settled''")
    case True
    then show ?thesis using that [of "Call_settle (int n)"] assms(5) by (auto simp: settle_hold_def answer_defs says_truly_def spec_defs)
  next
    case False
    then show ?thesis using that [of "Call_release (int n)"] assms(4,5) by (auto simp: release_hold_def answer_defs says_truly_def spec_defs)
  qed
  note live = call_live [OF c(1) st assms(2) c(2)]
  have ok': "attempts_ok ?v' s" using attempts_ok_grows [OF ok live(3)] .
  have one: "one_ok ?v' (Recorded n a) (at_counted s j) (at_number s j) (at_acked s j)" using one_okD [OF ok', of j] assms(3) by simp
  define m where "m = (if r = Was_moved then x else at_counted s j)"
  have "one_ok ?v' Over m (at_number s j) (at_acked s j)"
  proof (cases "r = Was_moved")
    case True
    have "ab_states ?v' n = Some to" using live(4) silent [OF True] moved [OF True live(2)] by simp
    then show ?thesis using one assms(4) by (auto simp: one_ok_def phase_number_def split: option.splits)
  next
    case False
    then show ?thesis using one_ok_over [OF one] by (simp add: m_def)
  qed
  then show ?thesis
  proof (rule sound_set_same [OF live(1) ok'])
    show "s' = (set_attempt j Over m (at_number s j) (at_acked s j) s)\<lparr>at_ledgers := l\<rparr>"
      unfolding assms(6) m_def by (auto simp: set_attempt_def)
  qed
qed

theorem attempt_step_sound: "attempt_step js ttl i s s' \<Longrightarrow> 0 < ttl \<Longrightarrow> sound i s \<Longrightarrow> sound i s'"
proof (induction rule: attempt_step.induct)
  case (settle s j n a d x)
  obtain r l where r: "settle_hold d ttl i (int n) (at_ledgers s) = (r, l)" by (metis surj_pair)
  show ?case by (rule close_sound [OF settle(3,2,1), of "''settled''" d r l]) (use r in \<open>simp_all add: settle_hold_def close_settled_def\<close>)
next
  case (release s j n a d)
  obtain r l where r: "release_hold d ttl i (int n) (at_ledgers s) = (r, l)" by (metis surj_pair)
  show ?case by (rule close_sound [OF release(3,2,1), of "''released''" d r l]) (use r in \<open>simp_all add: release_hold_def close_released_def\<close>)
next
  case (die s j)
  then have ok: "stored_ok (at_ledgers s)" "attempts_ok (ledger_view i s) s" by (simp_all add: sound_def)
  show ?case by (rule sound_set_same [OF ok one_ok_over [OF one_okD [OF ok(2), of j]]]) (simp add: set_attempt_def)
next
  case (pass s t)
  then show ?case by (simp add: sound_def stored_ok_pass)
qed (auto intro: take_number_sound sweep_crashed_sound count_hold_sound write_record_sound)

section \<open>Properties\<close>

lemma attempts_sound:
  assumes "(attempt_step js ttl i)\<^sup>*\<^sup>* (no_attempts l) s" "0 < ttl" "stored_ok l"
  shows "sound i s"
  using assms(1)
proof (induction rule: rtranclp_induct)
  case base
  show ?case using assms(3) by (simp add: sound_def no_attempts_def attempts_ok_def one_ok_def phase_number_def)
next
  case (step s s')
  show ?case by (rule attempt_step_sound [OF step(2) assms(2) step(3)])
qed

text \<open>
  C13: However the attempts and recoveries of a run interleave, die and lose answers: no two ever hold
  one container number, and once an attempt was told that its hold is recorded, the whole amount stands
  in its windows unless the ledger itself says that the hold was settled or released. So a hold that a
  recovery settled at the floor after a crash stays charged whole. Time passes only while the run's
  ledger lives: it expires a long time after the run's last write to it (\<open>RUN_BUDGET_TTL_MS\<close>), and its
  removal at the end of the run is not a step here.
\<close>

theorem recorded_money_stays:
  assumes "(attempt_step js ttl i)\<^sup>*\<^sup>* (no_attempts l) s" "0 < ttl" "stored_ok l"
    and "at_acked s j = Some (n, a)"
  shows "(at_number s j' = Some n) = (j' = j)
    \<and> (at_counted s j = a \<or> ab_states (ledger_view i s) n \<in> {Some ''settled'', Some ''released''})"
proof -
  have ok: "attempts_ok (ledger_view i s) s" using attempts_sound [OF assms(1-3)] by (simp add: sound_def)
  have one: "at_number s j = Some n" "at_counted s j = a \<or> ab_states (ledger_view i s) n \<in> {Some ''settled'', Some ''released''}"
    using one_okD [OF ok, of j] assms(4) by (auto simp: one_ok_def)
  then show ?thesis using ok unfolding attempts_ok_def by metis
qed

text \<open>A run of one attempt and a recovery: the first one's record runs and its answer is lost.\<close>

abbreviation sample_hold :: json where "sample_hold \<equiv> JObj [(''amountMicros'', JInt 5), (''keys'', JArr [])]"

definition first_attempt :: "fate \<Rightarrow> attempts" where
  "first_attempt d = write_record (\<lambda>_. []) d 1000 (Some ''7'') 0 1 5 sample_hold
     (count_hold 0 1 5 (take_number Answered 1000 (Some ''7'') 0 (no_attempts empty_ledgers)))"

definition recovery :: "attempts \<Rightarrow> attempts" where
  "recovery s = sweep_crashed Answered 1000 (Some ''7'') 2 (take_number Answered 1000 (Some ''7'') 1 s)"

lemma numbered_first: "at_phase (take_number Answered 1000 (Some ''7'') 0 (no_attempts empty_ledgers)) 0 = Numbered 1"
  by code_simp

lemma first_attempt_runs: "(attempt_step (\<lambda>_. []) 1000 (Some ''7''))\<^sup>*\<^sup>* (no_attempts empty_ledgers) (first_attempt d)"
proof -
  let ?S = "attempt_step (\<lambda>_. []) 1000 (Some ''7'')" and ?s0 = "no_attempts empty_ledgers"
  let ?s1 = "take_number Answered 1000 (Some ''7'') 0 ?s0"
  have "?S ?s0 ?s1" by (rule attempt_step.number) (simp add: no_attempts_def)
  moreover have "?S ?s1 (count_hold 0 1 5 ?s1)" by (rule attempt_step.reserve [OF numbered_first])
  moreover have "?S (count_hold 0 1 5 ?s1) (first_attempt d)"
    unfolding first_attempt_def by (rule attempt_step.recording) (simp add: count_hold_def)
  ultimately show ?thesis by (meson converse_rtranclp_into_rtranclp rtranclp.rtrancl_refl)
qed

lemma recovery_runs:
  assumes "(attempt_step (\<lambda>_. []) 1000 (Some ''7''))\<^sup>*\<^sup>* s0 s" "at_phase s 1 = Fresh" "at_phase (take_number Answered 1000 (Some ''7'') 1 s) 1 = Numbered 2"
  shows "(attempt_step (\<lambda>_. []) 1000 (Some ''7''))\<^sup>*\<^sup>* s0 (recovery s)"
  unfolding recovery_def
  by (rule rtranclp.rtrancl_into_rtrancl [OF rtranclp.rtrancl_into_rtrancl [OF assms(1) attempt_step.number [OF assms(2)]] attempt_step.sweep [OF assms(3)]])

lemma recorded_money_stays_witness:
  "at_counted (recovery (first_attempt Answered)) 0 = 5 \<and> ab_states (ledger_view (Some ''7'') (recovery (first_attempt Answered))) 1 = Some ''settled-crashed''"
proof -
  have r: "(attempt_step (\<lambda>_. []) 1000 (Some ''7''))\<^sup>*\<^sup>* (no_attempts empty_ledgers) (recovery (first_attempt Answered))"
    by (rule recovery_runs [OF first_attempt_runs]; code_simp)
  have o: "stored_ok empty_ledgers" by (simp add: stored_ok_def empty_ledgers_def)
  have a: "at_acked (recovery (first_attempt Answered)) 0 = Some (1, 5)" by code_simp
  have s: "ab_states (ledger_view (Some ''7'') (recovery (first_attempt Answered))) 1 = Some ''settled-crashed''" by code_simp
  show ?thesis using recorded_money_stays [OF r _ o a, of 0] s by simp
qed

text \<open>
  An attempt whose record ran while its answer was lost gives its money back directly, and the
  ledger keeps the hold: it is listed as held, and a recovery settles it at the floor, while nothing of
  it stands in any window.
\<close>

theorem lost_record_is_charged_nowhere:
  "\<exists>s s'. (attempt_step (\<lambda>_. []) 1000 (Some ''7''))\<^sup>*\<^sup>* (no_attempts empty_ledgers) s \<and> attempt_step (\<lambda>_. []) 1000 (Some ''7'') s s'
     \<and> ab_states (ledger_view (Some ''7'') s) 1 = Some ''held'' \<and> at_counted s 0 = 0
     \<and> ab_states (ledger_view (Some ''7'') s') 1 = Some ''settled-crashed'' \<and> at_counted s' 0 = 0"
proof -
  let ?s = "first_attempt (Unanswered (Fault None))"
  let ?n = "take_number Answered 1000 (Some ''7'') 1 ?s"
  have "at_phase ?s 1 = Fresh" "at_phase ?n 1 = Numbered 2" by code_simp+
  then have "(attempt_step (\<lambda>_. []) 1000 (Some ''7''))\<^sup>*\<^sup>* (no_attempts empty_ledgers) ?n" "attempt_step (\<lambda>_. []) 1000 (Some ''7'') ?n (recovery ?s)"
    unfolding recovery_def
    by (auto intro: rtranclp.rtrancl_into_rtrancl [OF first_attempt_runs attempt_step.number] attempt_step.sweep)
  moreover have "ab_states (ledger_view (Some ''7'') ?n) 1 = Some ''held''" "at_counted ?n 0 = 0"
    "ab_states (ledger_view (Some ''7'') (recovery ?s)) 1 = Some ''settled-crashed''" "at_counted (recovery ?s) 0 = 0" by code_simp+
  ultimately show ?thesis by blast
qed

end
