(* ===== verification/WaitState.thy ===== *)
theory WaitState
  imports FleetLease RunBudgetFacts
begin

text \<open>
  What the worker remembers of a job that waits (worker/src/wait-state.mjs): the hold's hash, the lease
  of a target, and the mark that a target's wait was satisfied. Every method is a sequence of commands;
  before each one the other hosts, the clock and expiry may have changed the store, and each may fail
  before or after it ran, which ends the method in its \<open>catch\<close>.
\<close>

section \<open>Keys and times\<close>

definition lease_slack_ms :: int where "lease_slack_ms = 60 * 60 * 1000"

definition lease_min_ms :: int where "lease_min_ms = 5 * 60 * 1000"

definition satisfied_ms :: int where "satisfied_ms = 15 * 60 * 1000"

definition job_key :: "string \<Rightarrow> key" where "job_key j = ''wait:job:'' @ j"

definition lease_key :: "string \<Rightarrow> key" where "lease_key d = ''wait:key:'' @ d"

definition satisfied_key :: "string \<Rightarrow> key" where "satisfied_key d = ''wait:done:'' @ d"

definition lease_ms :: "int \<Rightarrow> int option \<Rightarrow> int" where
  "lease_ms now until = max lease_min_ms ((case until of None \<Rightarrow> 0 | Some u \<Rightarrow> u) - now + lease_slack_ms)"

section \<open>The store\<close>

text \<open>The string keys with their expiry, the hashes with theirs (\<open>None\<close> for a hash without one), and the
  set of held jobs.\<close>

record wait_store =
  ws_keys :: claims
  ws_hashes :: "key \<Rightarrow> (hash \<times> int option) option"
  ws_held :: "string set"

abbreviation ws_now :: "wait_store \<Rightarrow> int" where "ws_now s \<equiv> cl_now (ws_keys s)"

abbreviation lease_of :: "wait_store \<Rightarrow> key \<Rightarrow> string option" where "lease_of s k \<equiv> claim (ws_keys s) k"

definition live_hash :: "int \<Rightarrow> (hash \<times> int option) option \<Rightarrow> hash" where
  "live_hash now x = (case x of None \<Rightarrow> [] | Some (h, None) \<Rightarrow> h | Some (h, Some e) \<Rightarrow> if now < e then h else [])"

definition hash_at :: "wait_store \<Rightarrow> key \<Rightarrow> hash" where "hash_at s k = live_hash (ws_now s) (ws_hashes s k)"

text \<open>A write keeps the expiry of a hash that is there; a new one has none.\<close>

definition set_hash :: "key \<Rightarrow> hash \<Rightarrow> wait_store \<Rightarrow> wait_store" where
  "set_hash k h s = s\<lparr>ws_hashes := (ws_hashes s)(k \<mapsto> (h, if hash_at s k = [] then None else Option.bind (ws_hashes s k) snd))\<rparr>"

definition w_hsetnx :: "key \<Rightarrow> string \<Rightarrow> string \<Rightarrow> wait_store \<Rightarrow> unit \<times> wait_store" where
  "w_hsetnx k f v s = ((), if hget (hash_at s k) f = None then set_hash k (hset f v (hash_at s k)) s else s)"

definition w_hset :: "key \<Rightarrow> (string \<times> string) list \<Rightarrow> wait_store \<Rightarrow> unit \<times> wait_store" where
  "w_hset k fs s = ((), set_hash k (foldl (\<lambda>h (f, v). hset f v h) (hash_at s k) fs) s)"

definition w_pexpire :: "key \<Rightarrow> int \<Rightarrow> wait_store \<Rightarrow> unit \<times> wait_store" where
  "w_pexpire k ttl s = ((), if hash_at s k = [] then s else s\<lparr>ws_hashes := (ws_hashes s)(k \<mapsto> (hash_at s k, Some (ws_now s + ttl)))\<rparr>)"

definition w_hget :: "key \<Rightarrow> string \<Rightarrow> wait_store \<Rightarrow> string option \<times> wait_store" where
  "w_hget k f s = (hget (hash_at s k) f, s)"

definition w_del_hash :: "key \<Rightarrow> wait_store \<Rightarrow> unit \<times> wait_store" where
  "w_del_hash k s = ((), s\<lparr>ws_hashes := (ws_hashes s)(k := None)\<rparr>)"

definition w_sadd :: "string \<Rightarrow> wait_store \<Rightarrow> unit \<times> wait_store" where
  "w_sadd j s = ((), s\<lparr>ws_held := insert j (ws_held s)\<rparr>)"

definition w_srem :: "string \<Rightarrow> wait_store \<Rightarrow> unit \<times> wait_store" where
  "w_srem j s = ((), s\<lparr>ws_held := ws_held s - {j}\<rparr>)"

definition w_get :: "key \<Rightarrow> wait_store \<Rightarrow> string option \<times> wait_store" where
  "w_get k s = (lease_of s k, s)"

definition w_set_nx :: "key \<Rightarrow> string \<Rightarrow> int \<Rightarrow> wait_store \<Rightarrow> bool \<times> wait_store" where
  "w_set_nx k v ttl s = (let (won, c) = set_nx k v ttl (ws_keys s) in (won, s\<lparr>ws_keys := c\<rparr>))"

definition w_set :: "key \<Rightarrow> string \<Rightarrow> int \<Rightarrow> wait_store \<Rightarrow> unit \<times> wait_store" where
  "w_set k v ttl s = ((), s\<lparr>ws_keys := (ws_keys s)\<lparr>cl_keys := (cl_keys (ws_keys s))(k \<mapsto> (v, ws_now s + ttl))\<rparr>\<rparr>)"

definition w_del :: "key \<Rightarrow> wait_store \<Rightarrow> unit \<times> wait_store" where
  "w_del k s = ((), s\<lparr>ws_keys := (ws_keys s)\<lparr>cl_keys := (cl_keys (ws_keys s))(k := None)\<rparr>\<rparr>)"

definition w_pexpire_key :: "key \<Rightarrow> int \<Rightarrow> wait_store \<Rightarrow> unit \<times> wait_store" where
  "w_pexpire_key k ttl s = ((), s\<lparr>ws_keys := pexpire k ttl (ws_keys s)\<rparr>)"

text \<open>\<open>HINCRBY\<close>, as in the run's ledger; a value that is no number is refused.\<close>

definition w_hincrby :: "key \<Rightarrow> string \<Rightarrow> wait_store \<Rightarrow> nat option \<times> wait_store" where
  "w_hincrby k f s =
     (case hget (hash_at s k) f of
        None \<Rightarrow> (Some 1, set_hash k (hset f (nat_text 1) (hash_at s k)) s)
      | Some v \<Rightarrow> if list_all is_digit v \<and> nat_text (text_nat v) = v
          then (Some (text_nat v + 1), set_hash k (hset f (nat_text (text_nat v + 1)) (hash_at s k)) s) else (None, s))"

section \<open>Methods\<close>

text \<open>A turn: what the others did before a command, and the command's fate. A method is run over the
  turns it takes; no turns left, nothing interferes. It ends with a value, or thrown.\<close>

type_synonym turn = "(wait_store \<Rightarrow> wait_store) \<times> fate"

type_synonym 'a wop = "turn list \<Rightarrow> wait_store \<Rightarrow> 'a option \<times> turn list \<times> wait_store"

definition give :: "'a \<Rightarrow> 'a wop" where "give x ts s = (Some x, ts, s)"

definition w_bind :: "'a wop \<Rightarrow> ('a \<Rightarrow> 'b wop) \<Rightarrow> 'b wop" where
  "w_bind m f ts s = (case m ts s of (None, us, t) \<Rightarrow> (None, us, t) | (Some x, us, t) \<Rightarrow> f x us t)"

definition cmd :: "(wait_store \<Rightarrow> 'a \<times> wait_store) \<Rightarrow> 'a wop" where
  "cmd c ts s =
     (case ts of [] \<Rightarrow> (case c s of (x, t) \<Rightarrow> (Some x, [], t))
      | (env, d) # us \<Rightarrow>
          (case d of Answered \<Rightarrow> (case c (env s) of (x, t) \<Rightarrow> (Some x, us, t))
           | Unsent _ \<Rightarrow> (None, us, env s)
           | Unanswered _ \<Rightarrow> (None, us, snd (c (env s)))))"

text \<open>\<open>try\<close> with a \<open>catch\<close> that answers a value.\<close>

definition catching :: "'a \<Rightarrow> 'a wop \<Rightarrow> 'a wop" where
  "catching x m ts s = (case m ts s of (None, us, t) \<Rightarrow> (Some x, us, t) | r \<Rightarrow> r)"

definition w_when :: "bool \<Rightarrow> unit wop \<Rightarrow> unit wop" where "w_when b m = (if b then m else give ())"

text \<open>The clock a method reads is its own host's; the model has one.\<close>

definition clock :: "int wop" where "clock ts s = (Some (ws_now s), ts, s)"

section \<open>The hold\<close>

definition stamp_text :: "int \<Rightarrow> string" where "stamp_text n = int_text n"

definition hold_job ::
  "string \<Rightarrow> string option \<Rightarrow> string option \<Rightarrow> string option \<Rightarrow> int option \<Rightarrow> int option \<Rightarrow> unit wop" where
  "hold_job j dedup target label until after =
     catching () (w_bind clock (\<lambda>now. let ttl = lease_ms now until; or_empty = (\<lambda>x. case x of None \<Rightarrow> [] | Some v \<Rightarrow> v) in
       w_bind clock (\<lambda>since.
       w_bind (cmd (w_hsetnx (job_key j) ''since'' (stamp_text since))) (\<lambda>_.
       w_bind (cmd (w_hset (job_key j) ([(''target'', or_empty target), (''label'', or_empty label), (''dedupId'', or_empty dedup)]
            @ (case after of Some a \<Rightarrow> if is_safe a then [(''after'', int_text a)] else [] | None \<Rightarrow> [])))) (\<lambda>_.
       w_bind (cmd (w_pexpire (job_key j) ttl)) (\<lambda>_.
       w_bind (cmd (w_sadd j)) (\<lambda>_.
       if or_empty dedup = [] then give ()
       else w_bind (cmd (w_get (lease_key (or_empty dedup)))) (\<lambda>h.
            w_when (h = Some j) (cmd (w_pexpire_key (lease_key (or_empty dedup)) ttl))))))))))"

section \<open>The lease\<close>

datatype claim_answer = May_hold | Took_over string | Held_by string | Ask_again "string option"

text \<open>\<open>is_live\<close> is the probe's answer, none when it cannot tell or is not wired. It is awaited: others may
  change the store until it answers, and a probe that threw has told nothing.\<close>

definition probe_live :: "(string \<Rightarrow> bool option) \<Rightarrow> string \<Rightarrow> bool option wop" where
  "probe_live is_live h ts s =
     (case ts of [] \<Rightarrow> (Some (is_live h), [], s)
      | (env, d) # us \<Rightarrow> (Some (case d of Answered \<Rightarrow> is_live h | _ \<Rightarrow> None), us, env s))"

definition claim_lease :: "string \<Rightarrow> string option \<Rightarrow> int option \<Rightarrow> (string \<Rightarrow> bool option) \<Rightarrow> claim_answer wop" where
  "claim_lease j dedup until is_live =
     (case dedup of None \<Rightarrow> give May_hold
      | Some d \<Rightarrow> if d = [] then give May_hold
          else catching (Ask_again None)
            (w_bind clock (\<lambda>now.
             w_bind (cmd (w_set_nx (lease_key d) j (lease_ms now until))) (\<lambda>won.
               if won then give May_hold
               else w_bind (cmd (w_get (lease_key d))) (\<lambda>holder.
                 case holder of None \<Rightarrow> give May_hold
                 | Some h \<Rightarrow>
                     if h = [] \<or> h = j then give May_hold
                     else w_bind (probe_live is_live h) (\<lambda>live. case live of
                         Some False \<Rightarrow> w_bind clock (\<lambda>since. w_bind (cmd (w_set (lease_key d) j (lease_ms since until))) (\<lambda>_. give (Took_over h)))
                       | None \<Rightarrow> give (Ask_again (Some h))
                       | Some True \<Rightarrow> give (Held_by h)))))))"

definition mark_satisfied :: "string \<Rightarrow> string option \<Rightarrow> unit wop" where
  "mark_satisfied j dedup =
     (case dedup of None \<Rightarrow> give () | Some d \<Rightarrow> if d = [] then give () else catching () (cmd (w_set (satisfied_key d) j satisfied_ms)))"

definition satisfied_by :: "string option \<Rightarrow> string option wop" where
  "satisfied_by dedup =
     (case dedup of None \<Rightarrow> give None | Some d \<Rightarrow> if d = [] then give None else catching None (cmd (w_get (satisfied_key d))))"

definition release_wait :: "string \<Rightarrow> string option \<Rightarrow> unit wop" where
  "release_wait j dedup =
     catching () (w_bind (cmd (w_srem j)) (\<lambda>_. w_bind (cmd (w_del_hash (job_key j))) (\<lambda>_.
       case dedup of None \<Rightarrow> give ()
       | Some d \<Rightarrow> if d = [] then give ()
           else w_bind (cmd (w_get (lease_key d))) (\<lambda>h. w_when (h = Some j) (cmd (w_del (lease_key d)))))))"

section \<open>The counters and the clock\<close>

text \<open>\<open>Number(x) || 0\<close> of a field: the methods write digits only.\<close>

definition number_or_zero :: "string option \<Rightarrow> nat" where
  "number_or_zero x = (case x of None \<Rightarrow> 0 | Some v \<Rightarrow> if list_all is_digit v then text_nat v else 0)"

definition counters :: "string \<Rightarrow> (nat \<times> nat \<times> nat) wop" where
  "counters j =
     catching (0, 0, 0) (w_bind (cmd (w_hget (job_key j) ''checks'')) (\<lambda>c. w_bind (cmd (w_hget (job_key j) ''faults'')) (\<lambda>f.
       w_bind (cmd (w_hget (job_key j) ''throttles'')) (\<lambda>t. give (number_or_zero c, number_or_zero f, number_or_zero t)))))"

text \<open>An \<open>HINCRBY\<close> that Valkey refuses throws like any other command.\<close>

definition incr_field :: "key \<Rightarrow> string \<Rightarrow> nat wop" where
  "incr_field k f = w_bind (cmd (w_hincrby k f)) (\<lambda>n ts s. (n, ts, s))"

definition note_throttle :: "int \<Rightarrow> string \<Rightarrow> bool \<Rightarrow> nat option wop" where
  "note_throttle ttl j denied =
     catching (Some 0) (if \<not> denied then w_bind (cmd (w_hset (job_key j) [(''throttles'', ''0'')])) (\<lambda>_. give None)
       else w_bind (incr_field (job_key j) ''throttles'') (\<lambda>n. w_bind (cmd (w_pexpire (job_key j) ttl)) (\<lambda>_. give (Some n))))"

definition note_check :: "int \<Rightarrow> string \<Rightarrow> bool \<Rightarrow> unit wop" where
  "note_check ttl j flt =
     catching () (w_bind (incr_field (job_key j) ''checks'') (\<lambda>_.
       w_bind (if flt then w_bind (incr_field (job_key j) ''faults'') (\<lambda>_. give ()) else cmd (w_hset (job_key j) [(''faults'', ''0'')])) (\<lambda>_.
       cmd (w_pexpire (job_key j) ttl))))"

definition wait_answers :: "string list" where "wait_answers = [''go'', ''hold'', ''fault'', ''refuse'', ''unclear'']"

definition wait_profile_field :: "string \<Rightarrow> bool" where
  "wait_profile_field p \<longleftrightarrow> 1 \<le> length p \<and> length p \<le> 64 \<and> list_all (\<lambda>c. safe_id_char (of_char c)) p"

definition note_answer :: "int \<Rightarrow> string \<Rightarrow> string option \<Rightarrow> string option \<Rightarrow> unit wop" where
  "note_answer ttl j profile answer =
     (case (profile, answer) of
        (Some p, Some a) \<Rightarrow>
          if \<not> wait_profile_field p \<or> a \<notin> set wait_answers then give ()
          else catching () (w_bind clock (\<lambda>now. w_bind (cmd (w_hset (job_key j) [(''a:'' @ p, a @ '':'' @ int_text now)])) (\<lambda>_.
                 cmd (w_pexpire (job_key j) ttl))))
      | _ \<Rightarrow> give ())"

text \<open>\<open>Number(since)\<close> is read for digit texts, which is what \<open>hold_job\<close> and the marks write; another text
  counts as no recorded hold here, where the code would still read a signed or fractional numeral.\<close>

definition held_for_ms :: "string \<Rightarrow> int option wop" where
  "held_for_ms j =
     catching None (w_bind (cmd (w_hget (job_key j) ''since'')) (\<lambda>since. w_bind clock (\<lambda>now.
       give (case since of None \<Rightarrow> None
         | Some v \<Rightarrow> if v = [] \<or> \<not> list_all is_digit v \<or> text_nat v = 0 then None else Some (max 0 (now - int (text_nat v)))))))"

section \<open>What a verdict says\<close>

text \<open>The signals of a check's verdict the gate reads.\<close>

record verdict =
  vd_unusable :: bool
  vd_unknown :: bool
  vd_aborted :: bool
  vd_text :: "string option"
  vd_fault :: bool

definition answer_of :: "verdict \<Rightarrow> string option" where
  "answer_of v =
     (if vd_unusable v \<or> vd_unknown v then None
      else if vd_text v = Some ''refuse'' then Some ''refuse''
      else if vd_aborted v then None
      else if vd_text v = Some ''hold'' then Some (if vd_fault v then ''fault'' else ''hold'')
      else if vd_text v = Some ''go'' then Some ''go'' else Some ''unclear'')"

end
