(* ===== verification/WaitFacts.thy ===== *)
theory WaitFacts
  imports WaitState
begin

text \<open>
  What the methods over the waits guarantee under any interference and faults: what an answer of the
  claim means, that the clock of a hold is never restarted, and where two jobs get past the lease.
\<close>

section \<open>The claim\<close>

lemma lease_ms_pos: "0 < lease_ms now until"
  by (simp add: lease_ms_def lease_min_ms_def)

lemma lease_after_set: "0 < ttl \<Longrightarrow> lease_of (snd (w_set k v ttl s)) k = Some v"
  by (simp add: w_set_def claim_def)

lemma lease_after_nx: "0 < ttl \<Longrightarrow> fst (w_set_nx k v ttl s) \<Longrightarrow> lease_of (snd (w_set_nx k v ttl s)) k = Some v"
  by (auto simp: w_set_nx_def set_nx_def claim_def split: option.splits if_splits prod.splits)

text \<open>A command's outcomes: its answer over the state it ran on, or thrown.\<close>

lemma cmd_cases:
  assumes "cmd c ts s = (r, us, t)"
  obtains (answered) x s0 where "c s0 = (x, t)" "r = Some x"
  | (thrown) "r = None" "\<exists>(e, d) \<in> set ts. d \<noteq> Answered"
  using assms by (cases ts) (auto simp: cmd_def split: prod.splits fate.splits)

lemma cmd_left: "cmd c ts s = (r, us, t) \<Longrightarrow> set us \<subseteq> set ts"
  by (cases ts) (auto simp: cmd_def split: prod.splits fate.splits)

lemma w_bind_cases:
  assumes "w_bind m f ts s = (r, us, t)"
  obtains (ok) x vs u where "m ts s = (Some x, vs, u)" "f x vs u = (r, us, t)" | (thrown) "m ts s = (None, us, t)" "r = None"
  using assms by (auto simp: w_bind_def split: prod.splits option.splits)

lemma holder_probed:
  assumes "probe_live is_live h ts s = (r, us, t)"
  shows "r = Some (is_live h) \<or> r = Some None \<and> (\<exists>(e, d) \<in> set ts. d \<noteq> Answered)" "t = s \<or> (\<exists>(e, d) \<in> set ts. t = e s)" "set us \<subseteq> set ts"
  using assms by (cases ts; force simp: probe_live_def split: fate.splits)+

text \<open>The holder a claim read and asked about: the lease was its when it was read, and since then the claim
  sent no command, only others may have moved the store while the probe was awaited.\<close>

definition read_holder :: "key \<Rightarrow> string \<Rightarrow> turn list \<Rightarrow> wait_store \<Rightarrow> bool" where
  "read_holder k h ts t \<longleftrightarrow> (\<exists>u. lease_of u k = Some h \<and> (t = u \<or> (\<exists>(e, d) \<in> set ts. t = e u)))"

text \<open>What an answer means, of the state the claim ended in.\<close>

definition claim_means :: "string \<Rightarrow> key \<Rightarrow> (string \<Rightarrow> bool option) \<Rightarrow> turn list \<Rightarrow> claim_answer option \<Rightarrow> wait_store \<Rightarrow> bool" where
  "claim_means j k is_live ts r t =
     (case r of
        None \<Rightarrow> False
      | Some May_hold \<Rightarrow> lease_of t k \<in> {Some j, None, Some []}
      | Some (Took_over h) \<Rightarrow> is_live h = Some False \<and> lease_of t k = Some j
      | Some (Held_by h) \<Rightarrow> is_live h = Some True \<and> h \<noteq> j \<and> h \<noteq> [] \<and> read_holder k h ts t
      | Some (Ask_again (Some h)) \<Rightarrow> (is_live h = None \<or> (\<exists>(e, d) \<in> set ts. d \<noteq> Answered)) \<and> h \<noteq> j \<and> h \<noteq> [] \<and> read_holder k h ts t
      | Some (Ask_again None) \<Rightarrow> (\<exists>(e, d) \<in> set ts. d \<noteq> Answered))"

text \<open>
  C16: Whatever other hosts do between its commands and during its probe, and wherever a command or the
  probe fails, a claim ends with an answer, and the answer is true: a job that may hold, or that took the
  lease over, ends with the lease its own (or with none in its way), and a lease is taken over only from a
  job seen dead; a delivery is turned away only over another job that held the target's lease when it was
  read, the last command the claim sent, and was then seen alive; a holder that cannot be checked, or whose
  probe threw, decides nothing; and without an answer from Valkey nothing is decided.
\<close>

theorem claim_answers_truly:
  assumes "claim_lease j (Some d) until is_live ts s = (r, us, t)" "d \<noteq> []"
  shows "claim_means j (lease_key d) is_live ts r t"
proof -
  let ?k = "lease_key d"
  let ?act = "\<lambda>h live. case live of
                         Some False \<Rightarrow> w_bind clock (\<lambda>since. w_bind (cmd (w_set ?k j (lease_ms since until))) (\<lambda>_. give (Took_over h)))
                       | None \<Rightarrow> give (Ask_again (Some h))
                       | Some True \<Rightarrow> give (Held_by h)"
  let ?rest = "\<lambda>h. if h = [] \<or> h = j then give May_hold else w_bind (probe_live is_live h) (?act h)"
  let ?read = "w_bind (cmd (w_get ?k)) (\<lambda>holder. case holder of None \<Rightarrow> give May_hold | Some h \<Rightarrow> ?rest h)"
  let ?body = "w_bind clock (\<lambda>now. w_bind (cmd (w_set_nx ?k j (lease_ms now until))) (\<lambda>won. if won then give May_hold else ?read))"
  obtain q where q: "?body ts s = (q, us, t)" "r = (case q of None \<Rightarrow> Some (Ask_again None) | Some x \<Rightarrow> Some x)"
    using assms by (auto simp: claim_lease_def catching_def split: prod.splits option.splits)
  have taken: "case q of None \<Rightarrow> (\<exists>(e, d) \<in> set ts. d \<noteq> Answered) | Some x \<Rightarrow> claim_means j ?k is_live ts (Some x) t"
    if h: "?rest h us' u = (q, us, t)" "lease_of u ?k = Some h" "set us' \<subseteq> set ts" for h us' u
  proof (cases "h = [] \<or> h = j")
    case True
    then show ?thesis using h by (auto simp: give_def claim_means_def)
  next
    case False
    have "w_bind (probe_live is_live h) (?act h) us' u = (q, us, t)" using h(1) False by simp
    then show ?thesis
    proof (cases rule: w_bind_cases)
      case thrown
      then show ?thesis using holder_probed(1) [OF thrown(1)] by auto
    next
      case (ok live vs v)
      note pr = holder_probed [OF ok(1)]
      have seen: "read_holder ?k h ts v" using pr(2) h(2,3) unfolding read_holder_def by blast
      have vs: "set vs \<subseteq> set ts" using pr(3) h(3) by blast
      show ?thesis
      proof (cases live)
        case None
        then have "is_live h = None \<or> (\<exists>(e, d) \<in> set ts. d \<noteq> Answered)" using pr(1) h(3) by auto
        moreover have "q = Some (Ask_again (Some h))" "t = v" using ok(2) None by (simp_all add: give_def)
        ultimately show ?thesis using False seen by (simp only: claim_means_def option.case claim_answer.case simp_thms de_Morgan_disj)
      next
        case (Some b)
        have live: "is_live h = Some b" using pr(1) Some by auto
        show ?thesis
        proof (cases b)
          case True
          then show ?thesis using ok(2) False Some live seen by (auto simp: give_def claim_means_def)
        next
          case b: False
          have "w_bind (cmd (w_set ?k j (lease_ms (ws_now v) until))) (\<lambda>_. give (Took_over h)) vs v = (q, us, t)"
            using ok(2) Some b by (simp add: w_bind_def clock_def)
          then show ?thesis
          proof (cases rule: w_bind_cases)
            case (ok x vs' u')
            then show ?thesis using lease_after_set [OF lease_ms_pos] live b
              by (auto elim!: cmd_cases simp: give_def claim_means_def) (metis snd_conv)
          next
            case thrown
            then show ?thesis using vs by (auto elim!: cmd_cases)
          qed
        qed
      qed
    qed
  qed
  have "w_bind (cmd (w_set_nx ?k j (lease_ms (ws_now s) until))) (\<lambda>won. if won then give May_hold else ?read) ts s = (q, us, t)"
    using q(1) by (simp add: w_bind_def clock_def)
  then have "case q of None \<Rightarrow> (\<exists>(e, d) \<in> set ts. d \<noteq> Answered) | Some x \<Rightarrow> claim_means j ?k is_live ts (Some x) t"
  proof (cases rule: w_bind_cases)
    case thrown
    then show ?thesis by (auto elim: cmd_cases)
  next
    case (ok won us1 s1)
    note left = cmd_left [OF ok(1)]
    show ?thesis
    proof (cases won)
      case True
      have "lease_of s1 ?k = Some j" using ok(1) True by (auto elim!: cmd_cases) (metis fst_conv snd_conv lease_after_nx [OF lease_ms_pos])
      then show ?thesis using ok(2) True by (auto simp: give_def claim_means_def)
    next
      case False
      then have "?read us1 s1 = (q, us, t)" using ok(2) by simp
      then show ?thesis
      proof (cases rule: w_bind_cases)
        case thrown
        then show ?thesis using left by (auto elim!: cmd_cases)
      next
        case (ok holder us2 s2)
        have g: "holder = lease_of s2 ?k" using ok(1) by (auto elim!: cmd_cases simp: w_get_def)
        show ?thesis
        proof (cases holder)
          case None
          then show ?thesis using ok(2) g by (auto simp: give_def claim_means_def)
        next
          case (Some h)
          have c: "?rest h us2 s2 = (q, us, t)" using ok(2) unfolding Some by simp
          show ?thesis
            by (rule taken [OF c]) (use g Some cmd_left [OF ok(1)] left in auto)
        qed
      qed
    qed
  qed
  then show ?thesis using q(2) by (auto simp: claim_means_def split: option.splits)
qed

text \<open>A job holds the target; it is gone, and its lease still stands.\<close>

definition stale_lease :: wait_store where
  "stale_lease = \<lparr>ws_keys = \<lparr>cl_now = 0, cl_keys = [lease_key ''t'' \<mapsto> (''gone'', 1000)]\<rparr>, ws_hashes = (\<lambda>_. None), ws_held = {}\<rparr>"


lemma claim_answers_truly_witness:
  "claim_means ''a'' (lease_key ''t'') (\<lambda>_. Some True) [] (Some (Held_by ''gone'')) stale_lease"
proof -
  have "claim_lease ''a'' (Some ''t'') None (\<lambda>_. Some True) [] stale_lease = (Some (Held_by ''gone''), [], stale_lease)"
    by (simp add: claim_lease_def catching_def w_bind_def clock_def cmd_def probe_live_def w_set_nx_def set_nx_def w_get_def give_def stale_lease_def claim_def lease_key_def)
  from claim_answers_truly [OF this] show ?thesis by simp
qed

section \<open>Two jobs past one lease\<close>









section \<open>The clock of a hold\<close>

text \<open>A method that keeps a property of the store whenever what happens before its commands does.\<close>

definition harmless :: "(wait_store \<Rightarrow> bool) \<Rightarrow> turn list \<Rightarrow> bool" where
  "harmless P ts \<longleftrightarrow> list_all (\<lambda>(e, d). \<forall>s. P s \<longrightarrow> P (e s)) ts"

definition preserves :: "(wait_store \<Rightarrow> bool) \<Rightarrow> 'a wop \<Rightarrow> bool" where
  "preserves P m \<longleftrightarrow> (\<forall>ts s r us t. harmless P ts \<longrightarrow> P s \<longrightarrow> m ts s = (r, us, t) \<longrightarrow> P t \<and> harmless P us)"

lemma preservesI: "(\<And>ts s r us t. harmless P ts \<Longrightarrow> P s \<Longrightarrow> m ts s = (r, us, t) \<Longrightarrow> P t \<and> harmless P us) \<Longrightarrow> preserves P m"
  unfolding preserves_def by (intro allI impI)

lemma preservesD: "preserves P m \<Longrightarrow> harmless P ts \<Longrightarrow> P s \<Longrightarrow> m ts s = (r, us, t) \<Longrightarrow> P t \<and> harmless P us"
  unfolding preserves_def by (elim allE impE)

named_theorems preserved \<open>methods that keep a property\<close>

lemma preserves_give [preserved]: "preserves P (give x)"
  by (simp add: preserves_def give_def)

lemma preserves_clock [preserved]: "preserves P clock"
  by (simp add: preserves_def clock_def)

lemma preserves_probe [preserved]: "preserves P (probe_live is_live h)"
proof -
  have "P t \<and> harmless P us" if "harmless P ts" "P s" "probe_live is_live h ts s = (r, us, t)" for ts s r us t
    using that by (cases ts) (auto simp: probe_live_def harmless_def)
  then show ?thesis by (rule preservesI)
qed

lemma preserves_bind [preserved]: "preserves P m \<Longrightarrow> (\<And>x. preserves P (f x)) \<Longrightarrow> preserves P (w_bind m f)"
proof (rule preservesI)
  fix ts s r us t
  assume m: "preserves P m" and f: "\<And>x. preserves P (f x)" and p: "harmless P ts" "P s" and b: "w_bind m f ts s = (r, us, t)"
  from b show "P t \<and> harmless P us"
  proof (cases rule: w_bind_cases)
    case (ok x vs u)
    show ?thesis using preservesD [OF f _ _ ok(2)] preservesD [OF m p ok(1)] by simp
  next
    case thrown
    show ?thesis by (rule preservesD [OF m p thrown(1)])
  qed
qed

lemma preserves_cmd [preserved]: "(\<And>s. P s \<Longrightarrow> P (snd (c s))) \<Longrightarrow> preserves P (cmd c)"
proof -
  assume a: "\<And>s. P s \<Longrightarrow> P (snd (c s))"
  have "P t \<and> harmless P us" if "harmless P ts" "P s" "cmd c ts s = (r, us, t)" for ts s r us t
  proof (cases ts)
    case Nil
    then show ?thesis using that a [of s] by (auto simp: cmd_def harmless_def split: prod.splits)
  next
    case (Cons x xs)
    obtain e d where x: "x = (e, d)" by (cases x)
    have e: "P (e s)" using that Cons x by (simp add: harmless_def)
    show ?thesis using that Cons x e a [OF e] by (cases d) (auto simp: cmd_def harmless_def split: prod.splits)
  qed
  then show ?thesis by (rule preservesI)
qed

lemma preserves_catching [preserved]: "preserves P m \<Longrightarrow> preserves P (catching x m)"
proof (rule preservesI)
  fix ts s r us t
  assume m: "preserves P m" and p: "harmless P ts" "P s" and c: "catching x m ts s = (r, us, t)"
  obtain r' where "m ts s = (r', us, t)" using c by (cases "m ts s") (auto simp: catching_def split: option.splits)
  from preservesD [OF m p this] show "P t \<and> harmless P us" .
qed

lemma preserves_when [preserved]: "preserves P m \<Longrightarrow> preserves P (w_when b m)"
  by (simp add: w_when_def preserves_give)

lemma preserves_if [preserved]: "preserves P m \<Longrightarrow> preserves P n \<Longrightarrow> preserves P (if b then m else n)"
  by simp

lemma preserves_option [preserved]: "preserves P m \<Longrightarrow> (\<And>x. preserves P (f x)) \<Longrightarrow> preserves P (case y of None \<Rightarrow> m | Some x \<Rightarrow> f x)"
  by (simp split: option.split)

lemma preserves_bool [preserved]: "preserves P m \<Longrightarrow> preserves P n \<Longrightarrow> preserves P (case b of True \<Rightarrow> m | False \<Rightarrow> n)"
  by (simp split: bool.split)

text \<open>The instant a job's hold began, while its hash lives.\<close>

definition held_since :: "string \<Rightarrow> string \<Rightarrow> wait_store \<Rightarrow> bool" where
  "held_since j v s \<longleftrightarrow> hget (hash_at s (job_key j)) ''since'' = Some v"

lemma set_hash_field: "hget (hash_at s k) f = Some v \<Longrightarrow> hget h f = Some v \<Longrightarrow> hget (hash_at (set_hash k h s) k) f = Some v"
  by (auto simp: hash_at_def set_hash_def live_hash_def split: option.splits prod.splits if_splits)

lemma set_hash_other: "k' \<noteq> k \<Longrightarrow> hash_at (set_hash k h s) k' = hash_at s k'"
  by (simp add: hash_at_def set_hash_def)

lemma held_since_set_hash:
  "held_since j v s \<Longrightarrow> (k = job_key j \<Longrightarrow> hget h ''since'' = Some v) \<Longrightarrow> held_since j v (set_hash k h s)"
  by (cases "k = job_key j") (auto simp: held_since_def set_hash_field set_hash_other)

lemma foldl_hset_field: "f \<notin> fst ` set fs \<Longrightarrow> hget (foldl (\<lambda>h (f, v). hset f v h) h fs) f = hget h f"
  by (induction fs arbitrary: h) auto

lemma since_commands [preserved]:
  "held_since j v s \<Longrightarrow> held_since j v (snd (w_hsetnx k ''since'' x s))"
  "held_since j v s \<Longrightarrow> ''since'' \<notin> fst ` set fs \<Longrightarrow> held_since j v (snd (w_hset k fs s))"
  "held_since j v s \<Longrightarrow> 0 < ttl \<Longrightarrow> held_since j v (snd (w_pexpire k ttl s))"
  "held_since j v s \<Longrightarrow> held_since j v (snd (w_hget k f s))"
  "held_since j v s \<Longrightarrow> held_since j v (snd (w_sadd i s))"
  "held_since j v s \<Longrightarrow> held_since j v (snd (w_srem i s))"
  "held_since j v s \<Longrightarrow> held_since j v (snd (w_get k s))"
  "held_since j v s \<Longrightarrow> f \<noteq> ''since'' \<Longrightarrow> held_since j v (snd (w_hincrby k f s))"
proof -
  assume h: "held_since j v s"
  show "held_since j v (snd (w_hsetnx k ''since'' x s))"
    using h by (auto simp: w_hsetnx_def held_since_def intro: held_since_set_hash [unfolded held_since_def])
  show "''since'' \<notin> fst ` set fs \<Longrightarrow> held_since j v (snd (w_hset k fs s))"
    using h by (auto simp: w_hset_def foldl_hset_field held_since_def intro!: held_since_set_hash [unfolded held_since_def])
  show "0 < ttl \<Longrightarrow> held_since j v (snd (w_pexpire k ttl s))"
    using h by (auto simp: w_pexpire_def held_since_def hash_at_def live_hash_def [of _ "Some (_, Some _)"])
  show "f \<noteq> ''since'' \<Longrightarrow> held_since j v (snd (w_hincrby k f s))"
    using h by (auto simp: w_hincrby_def held_since_def intro!: held_since_set_hash [unfolded held_since_def] split: option.split)
qed (simp_all add: w_hget_def w_sadd_def w_srem_def w_get_def held_since_def hash_at_def)

lemma since_key_commands [preserved]:
  "held_since j v s \<Longrightarrow> held_since j v (snd (w_set_nx k x ttl s))"
  "held_since j v s \<Longrightarrow> held_since j v (snd (w_set k x ttl s))"
  "held_since j v s \<Longrightarrow> held_since j v (snd (w_del k s))"
  "held_since j v s \<Longrightarrow> held_since j v (snd (w_pexpire_key k ttl s))"
  by (simp_all add: held_since_def hash_at_def w_set_nx_def set_nx_def w_set_def w_del_def w_pexpire_key_def pexpire_def split: option.split)

text \<open>The methods a waiting job and its siblings call.\<close>

datatype wait_call =
    Hold string "string option" "string option" "string option" "int option" "int option"
  | Claim string "string option" "int option" "string \<Rightarrow> bool option"
  | Mark_satisfied string "string option" | Satisfied_by "string option"
  | Release string "string option"
  | Counters string | Note_throttle string bool | Note_check string bool
  | Note_answer string "string option" "string option" | Held_for string

fun run_call :: "int \<Rightarrow> wait_call \<Rightarrow> unit wop" where
  "run_call ttl (Hold j d t l u a) = hold_job j d t l u a"
| "run_call ttl (Claim j d u p) = w_bind (claim_lease j d u p) (\<lambda>_. give ())"
| "run_call ttl (Mark_satisfied j d) = mark_satisfied j d"
| "run_call ttl (Satisfied_by d) = w_bind (satisfied_by d) (\<lambda>_. give ())"
| "run_call ttl (Release j d) = release_wait j d"
| "run_call ttl (Counters j) = w_bind (counters j) (\<lambda>_. give ())"
| "run_call ttl (Note_throttle j b) = w_bind (note_throttle ttl j b) (\<lambda>_. give ())"
| "run_call ttl (Note_check j b) = note_check ttl j b"
| "run_call ttl (Note_answer j p a) = note_answer ttl j p a"
| "run_call ttl (Held_for j) = w_bind (held_for_ms j) (\<lambda>_. give ())"

definition releases :: "string \<Rightarrow> wait_call \<Rightarrow> bool" where
  "releases j c \<longleftrightarrow> (case c of Release i d \<Rightarrow> i = j | _ \<Rightarrow> False)"

fun run_calls :: "int \<Rightarrow> (wait_call \<times> turn list) list \<Rightarrow> wait_store \<Rightarrow> wait_store" where
  "run_calls ttl [] s = s"
| "run_calls ttl ((c, ts) # cs) s = run_calls ttl cs (snd (snd (run_call ttl c ts s)))"

lemma preserves_incr: "f \<noteq> ''since'' \<Longrightarrow> preserves (held_since j v) (incr_field k f)"
proof -
  assume f: "f \<noteq> ''since''"
  have "preserves (held_since j v) (\<lambda>ts s. (n, ts, s))" for n :: "nat option" by (rule preservesI) simp
  then show ?thesis unfolding incr_field_def by (intro preserves_bind preserves_cmd since_commands(8) f)
qed

lemma since_del_hash: "held_since j v s \<Longrightarrow> i \<noteq> j \<Longrightarrow> held_since j v (snd (w_del_hash (job_key i) s))"
  by (simp add: w_del_hash_def held_since_def hash_at_def job_key_def)

lemma profile_field: "''a:'' @ p \<noteq> ''since''" by simp

lemma run_call_since:
  assumes "0 < ttl" "\<not> releases j c"
  shows "preserves (held_since j v) (run_call ttl c)"
proof (cases c)
  case (Hold i d t l u a)
  show ?thesis unfolding Hold run_call.simps hold_job_def Let_def
    by (intro preserved since_commands since_key_commands lease_ms_pos) (auto split: option.splits if_splits)
next
  case (Claim i d u p)
  show ?thesis unfolding Claim run_call.simps claim_lease_def by (intro preserved since_commands since_key_commands)
next
  case (Mark_satisfied i d)
  show ?thesis unfolding Mark_satisfied run_call.simps mark_satisfied_def by (intro preserved since_commands since_key_commands)
next
  case (Satisfied_by d)
  show ?thesis unfolding Satisfied_by run_call.simps satisfied_by_def by (intro preserved since_commands since_key_commands)
next
  case (Release i d)
  then have "i \<noteq> j" using assms(2) by (simp add: releases_def)
  then show ?thesis unfolding Release run_call.simps release_wait_def by (intro preserved since_commands since_key_commands since_del_hash)
next
  case (Counters i)
  show ?thesis unfolding Counters run_call.simps counters_def by (intro preserved since_commands since_key_commands)
next
  case (Note_throttle i b)
  show ?thesis unfolding Note_throttle run_call.simps note_throttle_def
    by (intro preserved preserves_incr since_commands since_key_commands assms(1)) auto
next
  case (Note_check i b)
  show ?thesis unfolding Note_check run_call.simps note_check_def
    by (intro preserved preserves_incr since_commands since_key_commands assms(1)) auto
next
  case (Note_answer i p a)
  show ?thesis unfolding Note_answer run_call.simps note_answer_def prod.case
    by (intro preserved since_commands since_key_commands assms(1)) auto
next
  case (Held_for i)
  show ?thesis unfolding Held_for run_call.simps held_for_ms_def by (intro preserved since_commands since_key_commands)
qed

text \<open>
  C35: The maximum wait is measured from the first hold: whatever methods run for this job and for others,
  its own release apart, on every wake and however their commands fail, the recorded instant stays while
  the hash lives, and the time the job has been held is the time since that instant.
\<close>

theorem hold_clock_never_restarts:
  assumes "0 < ttl" "held_since j (nat_text n) s" "0 < n"
    and "list_all (\<lambda>(c, ts). \<not> releases j c \<and> harmless (held_since j (nat_text n)) ts) cs"
  shows "held_since j (nat_text n) (run_calls ttl cs s)
    \<and> fst (held_for_ms j [] (run_calls ttl cs s)) = Some (Some (max 0 (ws_now (run_calls ttl cs s) - int n)))"
proof -
  have k: "held_since j (nat_text n) (run_calls ttl cs s)"
    using assms(2,4)
  proof (induction cs arbitrary: s)
    case (Cons x cs)
    obtain c ts where x: "x = (c, ts)" by (cases x)
    obtain r us t where r: "run_call ttl c ts s = (r, us, t)" by (metis prod_cases3)
    have "held_since j (nat_text n) t"
      using preservesD [OF run_call_since [OF assms(1)] _ Cons.prems(1) r] Cons.prems(2) x by simp
    from Cons.IH [OF this] show ?case using Cons.prems(2) x r by simp
  qed simp
  then have "fst (held_for_ms j [] (run_calls ttl cs s)) = Some (Some (max 0 (ws_now (run_calls ttl cs s) - int n)))"
    using assms(3) nat_text_all_digits [of n]
    by (simp add: held_for_ms_def catching_def w_bind_def cmd_def w_hget_def clock_def give_def held_since_def)
  with k show ?thesis by blast
qed

definition began :: wait_store where
  "began = snd (snd (hold_job ''a'' None None None (Some 9000) None [] \<lparr>ws_keys = \<lparr>cl_now = 1000, cl_keys = Map.empty\<rparr>, ws_hashes = (\<lambda>_. None), ws_held = {}\<rparr>))"

lemma began_since: "held_since ''a'' (nat_text 1000) began"
  by code_simp

lemma hold_clock_never_restarts_witness:
  "fst (held_for_ms ''a'' [] (run_calls 90000 [(Hold ''a'' None None None (Some 9000) None, [(\<lambda>s. s\<lparr>ws_keys := (ws_keys s)\<lparr>cl_now := cl_now (ws_keys s)\<rparr>\<rparr>, Answered)])] began))
     = Some (Some (max 0 (ws_now (run_calls 90000 [(Hold ''a'' None None None (Some 9000) None, [(\<lambda>s. s\<lparr>ws_keys := (ws_keys s)\<lparr>cl_now := cl_now (ws_keys s)\<rparr>\<rparr>, Answered)])] began) - 1000)))"
  using hold_clock_never_restarts [OF _ began_since, of 90000 "[(Hold ''a'' None None None (Some 9000) None, [(\<lambda>s. s\<lparr>ws_keys := (ws_keys s)\<lparr>cl_now := cl_now (ws_keys s)\<rparr>\<rparr>, Answered)])]"]
  by (simp add: releases_def harmless_def)

end
