(* ===== verification/CancelState.thy ===== *)
theory CancelState
  imports FleetLease RunBudget
begin

text \<open>
  How a cancel reaches the worker that runs the job (worker/src/cancel-state.mjs: requestCancel and
  withdrawCancel; worker/src/index.mjs: the cancel poll and operatorCancelled). A requester leaves a key
  and polls for its answer; the worker reads the key, ends the job, answers and takes the key away. Every
  side is a step function of one command each, so that requesters and workers interleave between any two.
\<close>

section \<open>Keys\<close>

definition cancel_req_ttl_ms :: int where "cancel_req_ttl_ms = 60000"

definition cancel_ack_ttl_ms :: int where "cancel_ack_ttl_ms = 5 * 60000"

definition cancel_req_key :: "string \<Rightarrow> key" where "cancel_req_key j = ''cancel:req:'' @ j"

definition cancel_ack_key :: "string \<Rightarrow> key" where "cancel_ack_key j = ''cancel:ack:'' @ j"

definition agent_cancel_req_key :: "string \<Rightarrow> key" where "agent_cancel_req_key j = ''cancel:agent:req:'' @ j"

definition agent_cancel_ack_key :: "string \<Rightarrow> key" where "agent_cancel_ack_key j = ''cancel:agent:ack:'' @ j"

datatype origin = Human | Agent

definition cancel_request_key_of :: "string \<Rightarrow> origin \<Rightarrow> key" where
  "cancel_request_key_of j ori = (case ori of Agent \<Rightarrow> agent_cancel_req_key j | Human \<Rightarrow> cancel_req_key j)"

definition cancel_answer_key_of :: "string \<Rightarrow> origin \<Rightarrow> key" where
  "cancel_answer_key_of j ori = (case ori of Agent \<Rightarrow> agent_cancel_ack_key j | Human \<Rightarrow> cancel_ack_key j)"

definition cancel_reason :: "origin \<Rightarrow> string" where
  "cancel_reason ori = (case ori of Agent \<Rightarrow> ''agent-cancel'' | Human \<Rightarrow> ''operator-cancel'')"

section \<open>Commands\<close>

definition put_key :: "key \<Rightarrow> string \<Rightarrow> int \<Rightarrow> claims \<Rightarrow> claims" where
  "put_key k v ttl s = s\<lparr>cl_keys := (cl_keys s)(k \<mapsto> (v, cl_now s + ttl))\<rparr>"

definition drop_key :: "key \<Rightarrow> claims \<Rightarrow> claims" where "drop_key k s = s\<lparr>cl_keys := (cl_keys s)(k := None)\<rparr>"

definition has_run :: "fate \<Rightarrow> bool" where "has_run d \<longleftrightarrow> (case d of Unsent _ \<Rightarrow> False | _ \<Rightarrow> True)"

definition did :: "fate \<Rightarrow> (claims \<Rightarrow> claims) \<Rightarrow> claims \<Rightarrow> claims" where "did d f s = (if has_run d then f s else s)"

section \<open>The requester\<close>

text \<open>Where a call of \<open>requestCancel\<close> is: about to \<open>SET\<close>, to \<open>GET\<close> after \<open>waited\<close> milliseconds, to
  \<open>DEL\<close>; answered, timed out, or thrown, marked \<open>valkeyMayStillRun\<close> or not. The sleep between two
  reads is a point where the others move.\<close>

datatype ask = Placing | Polling int | Dropping | Acked string | Timed_out | Thrown_marked | Thrown

definition ask_step :: "string \<Rightarrow> origin \<Rightarrow> int \<Rightarrow> int \<Rightarrow> fate \<Rightarrow> ask \<Rightarrow> claims \<Rightarrow> ask \<times> claims" where
  "ask_step j ori poll timeout d a s =
     (case a of
        Placing \<Rightarrow> (if d = Answered then Polling 0 else Thrown,
                    did d (put_key (cancel_request_key_of j ori) (cancel_reason ori) cancel_req_ttl_ms) s)
      | Polling waited \<Rightarrow>
          (if d \<noteq> Answered then Thrown_marked
           else (case claim s (cancel_answer_key_of j ori) of
               Some host \<Rightarrow> Acked host
             | None \<Rightarrow> if waited + poll > timeout then Dropping else Polling (waited + poll)), s)
      | Dropping \<Rightarrow> (if d = Answered then Timed_out else Thrown_marked, did d (drop_key (cancel_request_key_of j ori)) s)
      | _ \<Rightarrow> (a, s))"

definition ask_ended :: "ask \<Rightarrow> bool" where
  "ask_ended a \<longleftrightarrow> (case a of Placing \<Rightarrow> False | Polling _ \<Rightarrow> False | Dropping \<Rightarrow> False | _ \<Rightarrow> True)"

definition ask_thrown :: "ask \<Rightarrow> bool" where "ask_thrown a \<longleftrightarrow> a = Thrown \<or> a = Thrown_marked"

text \<open>A whole call, with what the others do before each of its commands and each command's fate.\<close>

fun request_cancel :: "string \<Rightarrow> origin \<Rightarrow> int \<Rightarrow> int \<Rightarrow> ((claims \<Rightarrow> claims) \<times> fate) list \<Rightarrow> ask \<Rightarrow> claims \<Rightarrow> ask \<times> claims" where
  "request_cancel j ori poll timeout [] a s = (a, s)"
| "request_cancel j ori poll timeout ((env, d) # ts) a s =
     (if ask_ended a then (a, s) else (case ask_step j ori poll timeout d a (env s) of (b, t) \<Rightarrow> request_cancel j ori poll timeout ts b t))"

text \<open>The caller's withdrawal behind a call that threw: one \<open>DEL\<close>, whatever becomes of it.\<close>

definition withdraw_cancel :: "string \<Rightarrow> origin \<Rightarrow> fate \<Rightarrow> claims \<Rightarrow> claims" where
  "withdraw_cancel j ori d s = did d (drop_key (cancel_request_key_of j ori)) s"

section \<open>The worker\<close>

text \<open>Where a tick of the poll is; \<open>Read\<close> is a request in hand that is not decided yet, and after
  \<open>Consumed\<close> the interval is cleared.\<close>

datatype tick = Resting | Asking_agent | Read_request origin | Raised origin | Acknowledged origin | Consumed origin

text \<open>\<open>stopped\<close>: the poll was stopped while the read was in flight; \<open>took\<close>: \<open>cancelJob\<close> found the job.
  The last component says that the job was cancelled at this step.\<close>

definition tick_step :: "string \<Rightarrow> string \<Rightarrow> bool \<Rightarrow> bool \<Rightarrow> fate \<Rightarrow> tick \<Rightarrow> claims \<Rightarrow> tick \<times> claims \<times> origin option" where
  "tick_step j host stopped took d t s =
     (case t of
        Resting \<Rightarrow> (if d \<noteq> Answered then Resting
                    else if claim s (cancel_req_key j) \<noteq> None then Read_request Human else Asking_agent, s, None)
      | Asking_agent \<Rightarrow> (if d \<noteq> Answered then Resting
                         else if claim s (agent_cancel_req_key j) \<noteq> None then Read_request Agent else Resting, s, None)
      | Read_request ori \<Rightarrow> if stopped \<or> \<not> took then (Resting, s, None) else (Raised ori, s, Some ori)
      | Raised ori \<Rightarrow> (Acknowledged ori, did d (put_key (cancel_answer_key_of j ori) host cancel_ack_ttl_ms) s, None)
      | Acknowledged ori \<Rightarrow> (Consumed ori, did d (drop_key (cancel_request_key_of j ori)) s, None)
      | Consumed ori \<Rightarrow> (Consumed ori, s, None))"

text \<open>\<open>operatorCancelled\<close>, asked before a job is handed back to the queue. An abort of the signal or a
  caller that reads nothing answers at once; else the keys are read, and a request found is decided
  here, acknowledged and consumed, as the poll would.\<close>

definition cancelled_at_once :: "bool \<Rightarrow> string \<Rightarrow> bool \<Rightarrow> bool option" where
  "cancelled_at_once aborted reason read_pending =
     (if aborted then Some (reason = ''operator-cancel'' \<or> reason = ''agent-cancel'')
      else if \<not> read_pending then Some False else None)"

definition operator_cancelled_step :: "string \<Rightarrow> string \<Rightarrow> fate \<Rightarrow> tick \<Rightarrow> claims \<Rightarrow> tick \<times> claims \<times> origin option" where
  "operator_cancelled_step j host d t s = tick_step j host False True d t s"

section \<open>Requesters and workers together\<close>

text \<open>Beside the keys: who was cancelled as whose cancel, and which requests were ever placed.\<close>

record cancels =
  cn_keys :: claims
  cn_cancelled :: "(string \<times> origin) set"
  cn_placed :: "(string \<times> origin) set"
  cn_asks :: "nat \<Rightarrow> (string \<times> origin \<times> ask) option"
  cn_ticks :: "nat \<Rightarrow> (string \<times> string \<times> tick) option"

definition with_cancel :: "string \<Rightarrow> origin option \<Rightarrow> (string \<times> origin) set \<Rightarrow> (string \<times> origin) set" where
  "with_cancel j c x = (case c of None \<Rightarrow> x | Some ori \<Rightarrow> insert (j, ori) x)"

text \<open>A call may begin, take its next command, be withdrawn behind its throw, or, lost on its way, still
  place or drop the request late; a worker's tick and its handler take their next command; time passes.\<close>

datatype move =
    Begin string origin | Ask nat | Withdraw nat | Late_place nat | Late_drop nat | Pick_up string | Tick nat | Pass

inductive cancel_move :: "int \<Rightarrow> int \<Rightarrow> move \<Rightarrow> cancels \<Rightarrow> cancels \<Rightarrow> bool" for poll timeout where
  ask_begins: "cn_asks s r = None \<Longrightarrow> cancel_move poll timeout (Begin j ori) s (s\<lparr>cn_asks := (cn_asks s)(r \<mapsto> (j, ori, Placing))\<rparr>)"
| asks: "cn_asks s r = Some (j, ori, a) \<Longrightarrow> ask_step j ori poll timeout d a (cn_keys s) = (b, t) \<Longrightarrow>
     cancel_move poll timeout (Ask r) s
       (s\<lparr>cn_keys := t, cn_asks := (cn_asks s)(r \<mapsto> (j, ori, b)), cn_placed := (if a = Placing \<and> has_run d then insert (j, ori) (cn_placed s) else cn_placed s)\<rparr>)"
| withdraw: "cn_asks s r = Some (j, ori, a) \<Longrightarrow> ask_thrown a \<Longrightarrow>
     cancel_move poll timeout (Withdraw r) s (s\<lparr>cn_keys := withdraw_cancel j ori d (cn_keys s)\<rparr>)"
| late_place: "cn_asks s r = Some (j, ori, Thrown) \<Longrightarrow>
     cancel_move poll timeout (Late_place r) s
       (s\<lparr>cn_keys := put_key (cancel_request_key_of j ori) (cancel_reason ori) cancel_req_ttl_ms (cn_keys s), cn_placed := insert (j, ori) (cn_placed s)\<rparr>)"
| late_drop: "cn_asks s r = Some (j, ori, a) \<Longrightarrow> ask_thrown a \<Longrightarrow>
     cancel_move poll timeout (Late_drop r) s (s\<lparr>cn_keys := drop_key (cancel_request_key_of j ori) (cn_keys s)\<rparr>)"
| pick_up: "cn_ticks s w = None \<Longrightarrow> cancel_move poll timeout (Pick_up j) s (s\<lparr>cn_ticks := (cn_ticks s)(w \<mapsto> (j, host, Resting))\<rparr>)"
| tick: "cn_ticks s w = Some (j, host, t) \<Longrightarrow> tick_step j host stopped took d t (cn_keys s) = (t', k, c) \<Longrightarrow>
     cancel_move poll timeout (Tick w) s (s\<lparr>cn_keys := k, cn_ticks := (cn_ticks s)(w \<mapsto> (j, host, t')), cn_cancelled := with_cancel j c (cn_cancelled s)\<rparr>)"
| handler: "cn_ticks s w = Some (j, host, t) \<Longrightarrow> operator_cancelled_step j host d t (cn_keys s) = (t', k, c) \<Longrightarrow>
     cancel_move poll timeout (Tick w) s (s\<lparr>cn_keys := k, cn_ticks := (cn_ticks s)(w \<mapsto> (j, host, t')), cn_cancelled := with_cancel j c (cn_cancelled s)\<rparr>)"
| pass: "cl_now (cn_keys s) \<le> now' \<Longrightarrow> cancel_move poll timeout Pass s (s\<lparr>cn_keys := (cn_keys s)\<lparr>cl_now := now'\<rparr>\<rparr>)"

inductive cancel_run :: "int \<Rightarrow> int \<Rightarrow> cancels \<Rightarrow> move list \<Rightarrow> cancels \<Rightarrow> bool" for poll timeout where
  stay: "cancel_run poll timeout s [] s"
| go: "cancel_move poll timeout m s t \<Longrightarrow> cancel_run poll timeout t ms u \<Longrightarrow> cancel_run poll timeout s (m # ms) u"

definition no_cancels :: "claims \<Rightarrow> cancels" where
  "no_cancels k = \<lparr>cn_keys = k, cn_cancelled = {}, cn_placed = {}, cn_asks = Map.empty, cn_ticks = Map.empty\<rparr>"

inductive_cases ask_moveE: "cancel_move poll timeout (Ask r) s t"

inductive_simps cancel_run_Nil [simp]: "cancel_run poll timeout s [] t"

end
