(* ===== verification/CancelFacts.thy ===== *)
theory CancelFacts
  imports CancelState
begin

text \<open>
  What a cancel's two sides promise each other: a call ends, an acknowledgement is of a cancel that
  happened and was asked for by the same kind of caller, and a call that gave up alone stays without effect.
\<close>

section \<open>A call ends\<close>

lemma request_finished [simp]: "ask_ended a \<Longrightarrow> request_cancel j ori poll timeout ts a s = (a, s)"
  by (cases ts) auto

text \<open>How many commands a call still takes at most.\<close>

definition commands_left :: "int \<Rightarrow> int \<Rightarrow> ask \<Rightarrow> nat" where
  "commands_left poll timeout a =
     (case a of Placing \<Rightarrow> nat (timeout div poll) + 3
      | Polling w \<Rightarrow> nat ((timeout - w) div poll) + 2
      | Dropping \<Rightarrow> 1 | _ \<Rightarrow> 0)"

lemma next_wait: "0 < poll \<Longrightarrow> w + poll \<le> timeout \<Longrightarrow> nat ((timeout - (w + poll)) div poll) < nat ((timeout - w) div poll)"
proof -
  assume p: "0 < poll" and w: "w + poll \<le> timeout"
  have "timeout - (w + poll) = (timeout - w) + (- 1) * poll" by simp
  then have "(timeout - (w + poll)) div poll = (timeout - w) div poll - 1" using p by (simp only: div_mult_self1)
  moreover have "0 < (timeout - w) div poll" using p w by (simp add: pos_imp_zdiv_pos_iff)
  ultimately show ?thesis by linarith
qed

lemma ask_step_less:
  "0 < poll \<Longrightarrow> \<not> ask_ended a \<Longrightarrow> commands_left poll timeout (fst (ask_step j ori poll timeout d a s)) < commands_left poll timeout a"
  using next_wait [of poll _ timeout]
  by (auto simp: ask_step_def commands_left_def ask_ended_def split: ask.splits option.splits)

lemma commands_left_0: "commands_left poll timeout a = 0 \<Longrightarrow> ask_ended a"
  by (auto simp: commands_left_def ask_ended_def split: ask.splits)

lemma request_ends_from:
  "0 < poll \<Longrightarrow> commands_left poll timeout a \<le> length ts \<Longrightarrow> ask_ended (fst (request_cancel j ori poll timeout ts a s))"
proof (induction ts arbitrary: a s)
  case Nil
  then show ?case by (simp add: commands_left_0)
next
  case (Cons x ts)
  obtain env d where x: "x = (env, d)" by (cases x)
  show ?case
  proof (cases "ask_ended a")
    case False
    obtain b t where b: "ask_step j ori poll timeout d a (env s) = (b, t)" by (cases "ask_step j ori poll timeout d a (env s)")
    from ask_step_less [OF Cons.prems(1) False, of timeout j ori d "env s"] b Cons.prems(2)
    have "commands_left poll timeout b \<le> length ts" by simp
    from Cons.IH [OF Cons.prems(1) this] show ?thesis using False x b by simp
  qed simp
qed

text \<open>With no answer and every command answered, the reads are exactly those.\<close>

definition silent :: "key \<Rightarrow> (claims \<Rightarrow> claims) \<times> fate \<Rightarrow> bool" where
  "silent k x \<longleftrightarrow> snd x = Answered \<and> (\<forall>s. claim s k = None \<longrightarrow> claim (fst x s) k = None)"

lemma ask_step_answer_key:
  "cancel_answer_key_of j ori \<noteq> cancel_request_key_of j ori"
  by (cases ori) (simp_all add: cancel_answer_key_of_def cancel_request_key_of_def cancel_ack_key_def cancel_req_key_def
    agent_cancel_ack_key_def agent_cancel_req_key_def)

lemma ask_step_silent:
  "claim s (cancel_answer_key_of j ori) = None \<Longrightarrow> claim (snd (ask_step j ori poll timeout d a s)) (cancel_answer_key_of j ori) = None"
  using ask_step_answer_key [of j ori]
  by (auto simp: ask_step_def did_def put_key_def drop_key_def claim_def split: ask.splits option.splits)

lemma polls_for_ever:
  assumes "poll \<le> 0" "w + poll \<le> timeout" "list_all (silent (cancel_answer_key_of j ori)) ts" "claim s (cancel_answer_key_of j ori) = None"
  shows "\<exists>w'. fst (request_cancel j ori poll timeout ts (Polling w) s) = Polling w'"
  using assms
proof (induction ts arbitrary: w s)
  case (Cons x ts)
  obtain env d where x: "x = (env, d)" by (cases x)
  have e: "d = Answered" "claim (env s) (cancel_answer_key_of j ori) = None" using Cons.prems(3,4) x by (auto simp: silent_def)
  have "ask_step j ori poll timeout d (Polling w) (env s) = (Polling (w + poll), env s)"
    using e Cons.prems(2) by (simp add: ask_step_def)
  then show ?case using Cons.IH [of "w + poll" "env s"] Cons.prems e x by (simp add: ask_ended_def)
qed simp

text \<open>
  C18: A call for a cancel ends: with a positive poll interval, whatever the workers and the other
  requesters do between its commands and wherever one fails, it has an answer, a timeout or an error
  after at most \<open>ackTimeoutMs div pollMs + 3\<close> commands. The interval must be positive: with none, and
  nobody answering, no number of commands ends it.
\<close>

theorem request_cancel_ends:
  "(0 < poll \<longrightarrow> nat (timeout div poll) + 3 \<le> length ts \<longrightarrow> ask_ended (fst (request_cancel j ori poll timeout ts Placing s)))
   \<and> (poll \<le> 0 \<longrightarrow> 0 \<le> timeout \<longrightarrow> claim s (cancel_answer_key_of j ori) = None \<longrightarrow> list_all (silent (cancel_answer_key_of j ori)) ts \<longrightarrow>
        \<not> ask_ended (fst (request_cancel j ori poll timeout ts Placing s)))"
proof (intro conjI impI)
  assume "0 < poll" "nat (timeout div poll) + 3 \<le> length ts"
  then show "ask_ended (fst (request_cancel j ori poll timeout ts Placing s))"
    by (intro request_ends_from) (simp_all add: commands_left_def)
next
  assume a: "poll \<le> 0" "0 \<le> timeout" "claim s (cancel_answer_key_of j ori) = None" "list_all (silent (cancel_answer_key_of j ori)) ts"
  show "\<not> ask_ended (fst (request_cancel j ori poll timeout ts Placing s))"
  proof (cases ts)
    case Nil
    then show ?thesis by (simp add: ask_ended_def)
  next
    case (Cons x us)
    obtain env d where x: "x = (env, d)" by (cases x)
    let ?t = "snd (ask_step j ori poll timeout d Placing (env s))"
    have d: "d = Answered" "claim (env s) (cancel_answer_key_of j ori) = None" using a(3,4) Cons x by (auto simp: silent_def)
    have f: "fst (ask_step j ori poll timeout d Placing (env s)) = Polling 0" using d by (simp add: ask_step_def)
    obtain w' where "fst (request_cancel j ori poll timeout us (Polling 0) ?t) = Polling w'"
      using polls_for_ever [OF a(1) _ _ ask_step_silent [OF d(2)], of 0 timeout us poll timeout d Placing] a Cons by auto
    then show ?thesis using f Cons x
      by (cases "ask_step j ori poll timeout d Placing (env s)") (simp add: ask_ended_def)
  qed
qed

lemma request_cancel_ends_witness:
  "ask_ended (fst (request_cancel ''a'' Human 250 10000 (replicate 43 (\<lambda>s. s, Answered)) Placing \<lparr>cl_now = 0, cl_keys = Map.empty\<rparr>))
   \<and> \<not> ask_ended (fst (request_cancel ''a'' Agent 0 10000 (replicate 43 (\<lambda>s. s, Answered)) Placing \<lparr>cl_now = 0, cl_keys = Map.empty\<rparr>))"
proof
  show "ask_ended (fst (request_cancel ''a'' Human 250 10000 (replicate 43 (\<lambda>s. s, Answered)) Placing \<lparr>cl_now = 0, cl_keys = Map.empty\<rparr>))"
    using request_cancel_ends [of 250 10000 "replicate 43 (\<lambda>s. s, Answered)" "''a''" Human] by simp
  show "\<not> ask_ended (fst (request_cancel ''a'' Agent 0 10000 (replicate 43 (\<lambda>s. s, Answered)) Placing \<lparr>cl_now = 0, cl_keys = Map.empty\<rparr>))"
    using request_cancel_ends [of 0 10000 "replicate 43 (\<lambda>s. s, Answered)" "''a''" Agent "\<lparr>cl_now = 0, cl_keys = Map.empty\<rparr>"]
    by (simp add: silent_def claim_def list_all_iff)
qed

section \<open>An acknowledgement is of a cancel\<close>

lemmas cancel_keys = cancel_answer_key_of_def cancel_request_key_of_def cancel_ack_key_def cancel_req_key_def
  agent_cancel_ack_key_def agent_cancel_req_key_def

lemma cancel_keys_differ [simp]:
  "cancel_answer_key_of j ori \<noteq> cancel_request_key_of i ori'" "cancel_request_key_of i ori' \<noteq> cancel_answer_key_of j ori"
  by (cases ori; cases ori'; simp add: cancel_keys)+

lemma cancel_keys_eq [simp]:
  "cancel_answer_key_of j ori = cancel_answer_key_of i ori' \<longleftrightarrow> j = i \<and> ori = ori'"
  "cancel_request_key_of j ori = cancel_request_key_of i ori' \<longleftrightarrow> j = i \<and> ori = ori'"
  by (cases ori; cases ori'; simp add: cancel_keys)+

lemma worker_request_keys [simp]:
  "cancel_req_key j = cancel_request_key_of j Human" "agent_cancel_req_key j = cancel_request_key_of j Agent"
  by (simp_all add: cancel_request_key_of_def)

lemma claim_raw: "claim s k \<noteq> None \<Longrightarrow> cl_keys s k \<noteq> None"
  by (auto simp: claim_def split: option.splits)

text \<open>What a tick has in hand is a request that was placed; what it has decided, a cancel.\<close>

definition tick_ok :: "cancels \<Rightarrow> string \<Rightarrow> tick \<Rightarrow> bool" where
  "tick_ok s j t =
     (case t of Resting \<Rightarrow> True | Asking_agent \<Rightarrow> True | Read_request ori \<Rightarrow> (j, ori) \<in> cn_placed s
      | Raised ori \<Rightarrow> (j, ori) \<in> cn_cancelled s | Acknowledged ori \<Rightarrow> (j, ori) \<in> cn_cancelled s | Consumed ori \<Rightarrow> (j, ori) \<in> cn_cancelled s)"

definition cancels_ok :: "cancels \<Rightarrow> bool" where
  "cancels_ok s \<longleftrightarrow>
     (\<forall>j ori. cl_keys (cn_keys s) (cancel_answer_key_of j ori) \<noteq> None \<longrightarrow> (j, ori) \<in> cn_cancelled s)
   \<and> (\<forall>j ori. cl_keys (cn_keys s) (cancel_request_key_of j ori) \<noteq> None \<longrightarrow> (j, ori) \<in> cn_placed s)
   \<and> cn_cancelled s \<subseteq> cn_placed s
   \<and> (\<forall>w j host t. cn_ticks s w = Some (j, host, t) \<longrightarrow> tick_ok s j t)
   \<and> (\<forall>r j ori h. cn_asks s r = Some (j, ori, Acked h) \<longrightarrow> (j, ori) \<in> cn_cancelled s)"

lemma cancels_okI:
  assumes "\<And>j ori. cl_keys (cn_keys s) (cancel_answer_key_of j ori) \<noteq> None \<Longrightarrow> (j, ori) \<in> cn_cancelled s"
    and "\<And>j ori. cl_keys (cn_keys s) (cancel_request_key_of j ori) \<noteq> None \<Longrightarrow> (j, ori) \<in> cn_placed s"
    and "cn_cancelled s \<subseteq> cn_placed s"
    and "\<And>w j host t. cn_ticks s w = Some (j, host, t) \<Longrightarrow> tick_ok s j t"
    and "\<And>r j ori h. cn_asks s r = Some (j, ori, Acked h) \<Longrightarrow> (j, ori) \<in> cn_cancelled s"
  shows "cancels_ok s"
  using assms unfolding cancels_ok_def by blast

lemma cancels_okD:
  assumes "cancels_ok s"
  shows "cl_keys (cn_keys s) (cancel_answer_key_of j ori) \<noteq> None \<Longrightarrow> (j, ori) \<in> cn_cancelled s"
    and "cl_keys (cn_keys s) (cancel_request_key_of j ori) \<noteq> None \<Longrightarrow> (j, ori) \<in> cn_placed s"
    and "(j, ori) \<in> cn_cancelled s \<Longrightarrow> (j, ori) \<in> cn_placed s"
    and "cn_ticks s w = Some (j, host, t) \<Longrightarrow> tick_ok s j t"
    and "cn_asks s r = Some (j, ori, Acked h) \<Longrightarrow> (j, ori) \<in> cn_cancelled s"
  using assms unfolding cancels_ok_def by blast+

lemma tick_ok_grows: "tick_ok s j t \<Longrightarrow> cn_placed s \<subseteq> cn_placed u \<Longrightarrow> cn_cancelled s \<subseteq> cn_cancelled u \<Longrightarrow> tick_ok u j t"
  by (auto simp: tick_ok_def split: tick.splits)

lemma tick_ok_updates [simp]:
  "tick_ok (s\<lparr>cn_keys := k\<rparr>) j t = tick_ok s j t" "tick_ok (s\<lparr>cn_asks := f\<rparr>) j t = tick_ok s j t" "tick_ok (s\<lparr>cn_ticks := g\<rparr>) j t = tick_ok s j t"
  by (auto simp: tick_ok_def split: tick.splits)

text \<open>One step of a call, and one of a tick, as the invariant sees them.\<close>

lemma ask_step_keys:
  assumes "ask_step j ori poll timeout d a s = (b, t)"
  shows "cl_keys t (cancel_answer_key_of i o') = cl_keys s (cancel_answer_key_of i o')"
    and "cl_keys t (cancel_request_key_of i o') \<noteq> None \<Longrightarrow> (i, o') = (j, ori) \<and> a = Placing \<and> has_run d \<or> cl_keys s (cancel_request_key_of i o') \<noteq> None"
    and "b = Acked h \<Longrightarrow> a = Acked h \<or> cl_keys s (cancel_answer_key_of j ori) \<noteq> None"
  using assms by (auto simp: ask_step_def claim_def did_def put_key_def drop_key_def split: ask.splits option.splits if_splits)

lemma tick_step_keys:
  assumes "tick_step j host stopped took d t s = (t', k, c)"
  shows "cl_keys k (cancel_request_key_of i o') \<noteq> None \<Longrightarrow> cl_keys s (cancel_request_key_of i o') \<noteq> None"
    and "cl_keys k (cancel_answer_key_of i o') \<noteq> None \<Longrightarrow>
      i = j \<and> t = Raised o' \<or> cl_keys s (cancel_answer_key_of i o') \<noteq> None"
    and "c = Some o' \<Longrightarrow> t = Read_request o'"
  using assms by (auto simp: tick_step_def did_def put_key_def drop_key_def split: tick.splits if_splits)

lemma tick_step_ok:
  assumes "tick_step j host stopped took d t (cn_keys s) = (t', k, c)" "cancels_ok s" "tick_ok s j t"
    and "cn_placed u = cn_placed s" "cn_cancelled u = with_cancel j c (cn_cancelled s)"
  shows "tick_ok u j t'"
  using assms(1,3-5) cancels_okD(2) [OF assms(2)] claim_raw
  by (fastforce simp: tick_step_def tick_ok_def with_cancel_def split: tick.splits if_splits)

lemma tick_move_ok:
  assumes "cancels_ok s" "cn_ticks s w = Some (j, host, t)" "tick_step j host stopped took d t (cn_keys s) = (t', k, c)"
  shows "cancels_ok (s\<lparr>cn_keys := k, cn_ticks := (cn_ticks s)(w \<mapsto> (j, host, t')), cn_cancelled := with_cancel j c (cn_cancelled s)\<rparr>)" (is "cancels_ok ?u")
proof (rule cancels_okI)
  note ok = cancels_okD [OF assms(1)]
  have tk: "tick_ok s j t" by (rule ok(4) [OF assms(2)])
  have more: "cn_cancelled s \<subseteq> cn_cancelled ?u" by (auto simp: with_cancel_def split: option.split)
  show "(i, o') \<in> cn_cancelled ?u" if "cl_keys (cn_keys ?u) (cancel_answer_key_of i o') \<noteq> None" for i o'
    using tick_step_keys(2) [OF assms(3), of i o'] that ok(1) [of i o'] tk more by (auto simp: tick_ok_def)
  show "(i, o') \<in> cn_placed ?u" if "cl_keys (cn_keys ?u) (cancel_request_key_of i o') \<noteq> None" for i o'
    using tick_step_keys(1) [OF assms(3), of i o'] that ok(2) by simp
  show "cn_cancelled ?u \<subseteq> cn_placed ?u"
    using ok(3) tick_step_keys(3) [OF assms(3)] tk by (auto simp: with_cancel_def tick_ok_def split: option.splits)
  show "tick_ok ?u i t2" if "cn_ticks ?u v = Some (i, h2, t2)" for v i h2 t2
  proof (cases "v = w")
    case True
    then show ?thesis using that tick_step_ok [OF assms(3,1) tk, of ?u] by simp
  next
    case False
    then show ?thesis using that ok(4) [of v i h2 t2] tick_ok_grows [of s i t2 ?u] more by simp
  qed
  show "(i, o') \<in> cn_cancelled ?u" if "cn_asks ?u r = Some (i, o', Acked h)" for r i o' h
    using that ok(5) more by auto
qed

lemma ask_move_ok:
  assumes "cancels_ok s" "cn_asks s r = Some (j, ori, a)" "ask_step j ori poll timeout d a (cn_keys s) = (b, t)"
  shows "cancels_ok (s\<lparr>cn_keys := t, cn_asks := (cn_asks s)(r \<mapsto> (j, ori, b)), cn_placed := (if a = Placing \<and> has_run d then insert (j, ori) (cn_placed s) else cn_placed s)\<rparr>)" (is "cancels_ok ?u")
proof (rule cancels_okI)
  note ok = cancels_okD [OF assms(1)] and st = ask_step_keys [OF assms(3)]
  have more: "cn_placed s \<subseteq> cn_placed ?u" by auto
  show "(i, o') \<in> cn_cancelled ?u" if "cl_keys (cn_keys ?u) (cancel_answer_key_of i o') \<noteq> None" for i o'
    using st(1) that ok(1) by simp
  show "(i, o') \<in> cn_placed ?u" if "cl_keys (cn_keys ?u) (cancel_request_key_of i o') \<noteq> None" for i o'
    using st(2) [of i o'] that ok(2) [of i o'] more by auto
  show "cn_cancelled ?u \<subseteq> cn_placed ?u" using ok(3) by auto
  show "tick_ok ?u i t2" if "cn_ticks ?u v = Some (i, h2, t2)" for v i h2 t2
    using that ok(4) [of v i h2 t2] tick_ok_grows [of s i t2 ?u] more by simp
  show "(i, o') \<in> cn_cancelled ?u" if "cn_asks ?u q = Some (i, o', Acked h)" for q i o' h
    using that st(3) [of h] ok(5) [of q i o' h] ok(5) [of r j ori h] assms(2) ok(1) [of j ori] by (auto split: if_splits)
qed

lemma keys_move_ok:
  assumes "cancels_ok s" "\<And>k'. cl_keys k k' \<noteq> None \<Longrightarrow> cl_keys (cn_keys s) k' \<noteq> None"
  shows "cancels_ok (s\<lparr>cn_keys := k\<rparr>)"
  using assms(2) cancels_okD [OF assms(1)] by (intro cancels_okI) auto

lemma cancel_move_ok: "cancel_move poll timeout m s t \<Longrightarrow> cancels_ok s \<Longrightarrow> cancels_ok t"
proof (induction rule: cancel_move.induct)
  case (withdraw s r j ori a d)
  then show ?case unfolding withdraw_cancel_def by (intro keys_move_ok) (auto simp: did_def drop_key_def split: if_splits)
next
  case (late_drop s r j ori a)
  then show ?case by (intro keys_move_ok) (auto simp: drop_key_def split: if_splits)
next
  case (late_place s r j ori)
  note ok = cancels_okD [OF late_place(2)]
  let ?s = "s\<lparr>cn_keys := put_key (cancel_request_key_of j ori) (cancel_reason ori) cancel_req_ttl_ms (cn_keys s), cn_placed := insert (j, ori) (cn_placed s)\<rparr>"
  have "tick_ok ?s i t" if "cn_ticks s w = Some (i, h, t)" for w i h t
    using tick_ok_grows [OF ok(4) [OF that], of ?s] by auto
  then show ?case using ok by (intro cancels_okI) (auto simp: put_key_def split: if_splits)
next
  case (handler s w j host t d t' k c)
  then show ?case by (intro tick_move_ok) (auto simp: operator_cancelled_step_def)
next
  case (pick_up s w j host)
  note ok = cancels_okD [OF pick_up(2)]
  show ?case by (rule cancels_okI) (use ok in \<open>auto simp: tick_ok_def [of _ _ Resting] split: if_splits\<close>)
next
  case (pass s now')
  then show ?case by (intro keys_move_ok) auto
next
  case (ask_begins s r j ori)
  note ok = cancels_okD [OF ask_begins(2)]
  show ?case by (rule cancels_okI) (use ok in \<open>auto split: if_splits\<close>)
next
  case (asks s r j ori a d b t)
  show ?case by (rule ask_move_ok [OF asks(3,1,2)])
next
  case (tick s w j host t stopped took d t' k c)
  show ?case by (rule tick_move_ok [OF tick(3,1,2)])
qed

lemma cancel_run_ok: "cancel_run poll timeout s ms t \<Longrightarrow> cancels_ok s \<Longrightarrow> cancels_ok t"
  by (induction rule: cancel_run.induct) (auto dest: cancel_move_ok)

lemma no_cancels_ok: "(\<And>j ori. cl_keys k (cancel_answer_key_of j ori) = None \<and> cl_keys k (cancel_request_key_of j ori) = None) \<Longrightarrow> cancels_ok (no_cancels k)"
  by (simp add: cancels_ok_def no_cancels_def)

definition fresh_keys :: "claims \<Rightarrow> bool" where
  "fresh_keys k \<longleftrightarrow> (\<forall>j ori. cl_keys k (cancel_answer_key_of j ori) = None \<and> cl_keys k (cancel_request_key_of j ori) = None)"

text \<open>
  C15: A cancel is acknowledged only when it happened: however requesters, workers' polls and handlers
  interleave, lose commands and answers and have them land late, a call that returns \<open>ack\<close> returns it for
  a job that a worker cancelled for that very kind of caller, and no job is ever cancelled as an operator's
  or as an agent's without a request of that kind placed for that job.
\<close>

theorem ack_means_cancelled:
  assumes "fresh_keys k" "cancel_run poll timeout (no_cancels k) ms s"
  shows "(cn_asks s r = Some (j, ori, Acked host) \<longrightarrow> (j, ori) \<in> cn_cancelled s) \<and> cn_cancelled s \<subseteq> cn_placed s"
proof -
  have "cancels_ok s" by (rule cancel_run_ok [OF assms(2) no_cancels_ok]) (use assms(1) in \<open>simp add: fresh_keys_def\<close>)
  from cancels_okD [OF this] show ?thesis by auto
qed

text \<open>One cancel of a job from a fresh store, and its answer.\<close>

definition one_cancel :: "move list" where
  "one_cancel = [Begin ''a'' Human, Pick_up ''a'', Ask 0, Tick 0, Tick 0, Tick 0, Ask 0]"

definition after_cancel :: cancels where
  "after_cancel =
     \<lparr>cn_keys = \<lparr>cl_now = 0, cl_keys = [cancel_req_key ''a'' \<mapsto> (''operator-cancel'', 60000), cancel_ack_key ''a'' \<mapsto> (''h'', 300000)]\<rparr>,
      cn_cancelled = {(''a'', Human)}, cn_placed = {(''a'', Human)},
      cn_asks = [0 \<mapsto> (''a'', Human, Acked ''h'')], cn_ticks = [0 \<mapsto> (''a'', ''h'', Acknowledged Human)]\<rparr>"

lemma one_cancel_runs: "cancel_run 250 10000 (no_cancels \<lparr>cl_now = 0, cl_keys = Map.empty\<rparr>) one_cancel after_cancel"
proof -
  let ?p = "{(''a'', Human)}"
  let ?st = "\<lambda>m c p a t. \<lparr>cn_keys = \<lparr>cl_now = 0, cl_keys = m\<rparr>, cn_cancelled = c, cn_placed = p, cn_asks = a, cn_ticks = t\<rparr>"
  let ?ask = "\<lambda>a. [0 \<mapsto> (''a'', Human, a)] :: nat \<Rightarrow> (string \<times> origin \<times> ask) option"
  let ?tick = "\<lambda>t. [0 \<mapsto> (''a'', ''h'', t)] :: nat \<Rightarrow> (string \<times> string \<times> tick) option"
  let ?m1 = "[cancel_req_key ''a'' \<mapsto> (''operator-cancel'', 60000)] :: key \<Rightarrow> (string \<times> int) option"
  note d = ask_step_def tick_step_def did_def has_run_def put_key_def claim_def cancel_reason_def cancel_req_ttl_ms_def cancel_ack_ttl_ms_def with_cancel_def
  have 1: "cancel_move 250 10000 (Begin ''a'' Human) (?st Map.empty {} {} Map.empty Map.empty) (?st Map.empty {} {} (?ask Placing) Map.empty)"
    using cancel_move.ask_begins [of "?st Map.empty {} {} Map.empty Map.empty" 0 250 10000 "''a''" Human] by simp
  have 2: "cancel_move 250 10000 (Pick_up ''a'') (?st Map.empty {} {} (?ask Placing) Map.empty) (?st Map.empty {} {} (?ask Placing) (?tick Resting))"
    using cancel_move.pick_up [of "?st Map.empty {} {} (?ask Placing) Map.empty" 0 250 10000 "''a''" "''h''"] by simp
  have 3: "cancel_move 250 10000 (Ask 0) (?st Map.empty {} {} (?ask Placing) (?tick Resting)) (?st ?m1 {} ?p (?ask (Polling 0)) (?tick Resting))"
    using cancel_move.asks [of "?st Map.empty {} {} (?ask Placing) (?tick Resting)" 0 "''a''" Human Placing 250 10000 Answered] by (simp add: d)
  have 4: "cancel_move 250 10000 (Tick 0) (?st ?m1 {} ?p (?ask (Polling 0)) (?tick Resting)) (?st ?m1 {} ?p (?ask (Polling 0)) (?tick (Read_request Human)))"
    using cancel_move.tick [of "?st ?m1 {} ?p (?ask (Polling 0)) (?tick Resting)" 0 "''a''" "''h''" Resting False True Answered] by (simp add: d)
  have 5: "cancel_move 250 10000 (Tick 0) (?st ?m1 {} ?p (?ask (Polling 0)) (?tick (Read_request Human))) (?st ?m1 ?p ?p (?ask (Polling 0)) (?tick (Raised Human)))"
    using cancel_move.tick [of "?st ?m1 {} ?p (?ask (Polling 0)) (?tick (Read_request Human))" 0 "''a''" "''h''" "Read_request Human" False True Answered] by (simp add: d)
  have 6: "cancel_move 250 10000 (Tick 0) (?st ?m1 ?p ?p (?ask (Polling 0)) (?tick (Raised Human)))
      (?st (?m1(cancel_ack_key ''a'' \<mapsto> (''h'', 300000))) ?p ?p (?ask (Polling 0)) (?tick (Acknowledged Human)))"
    using cancel_move.tick [of "?st ?m1 ?p ?p (?ask (Polling 0)) (?tick (Raised Human))" 0 "''a''" "''h''" "Raised Human" False True Answered]
    by (simp add: d cancel_answer_key_of_def)
  have 7: "cancel_move 250 10000 (Ask 0) (?st (?m1(cancel_ack_key ''a'' \<mapsto> (''h'', 300000))) ?p ?p (?ask (Polling 0)) (?tick (Acknowledged Human))) after_cancel"
    using cancel_move.asks [of "?st (?m1(cancel_ack_key ''a'' \<mapsto> (''h'', 300000))) ?p ?p (?ask (Polling 0)) (?tick (Acknowledged Human))" 0 "''a''" Human "Polling 0" 250 10000 Answered]
    by (simp add: d cancel_answer_key_of_def after_cancel_def)
  show ?thesis unfolding one_cancel_def no_cancels_def
    by (intro cancel_run.go [OF 1] cancel_run.go [OF 2] cancel_run.go [OF 3] cancel_run.go [OF 4] cancel_run.go [OF 5] cancel_run.go [OF 6] cancel_run.go [OF 7] cancel_run.stay)
qed

lemma ack_means_cancelled_witness: "(''a'', Human) \<in> cn_cancelled after_cancel \<and> cn_cancelled after_cancel \<subseteq> cn_placed after_cancel"
proof -
  have "fresh_keys \<lparr>cl_now = 0, cl_keys = Map.empty\<rparr>" "cn_asks after_cancel 0 = Some (''a'', Human, Acked ''h'')"
    by (simp_all add: fresh_keys_def after_cancel_def)
  with ack_means_cancelled [OF _ one_cancel_runs, of 0 "''a''" Human "''h''"] show ?thesis by simp
qed

section \<open>A call that gave up\<close>

text \<open>No request is on its way or in hand.\<close>

definition quiet :: "string \<Rightarrow> origin \<Rightarrow> cancels \<Rightarrow> bool" where
  "quiet j ori s \<longleftrightarrow>
     cl_keys (cn_keys s) (cancel_request_key_of j ori) = None
   \<and> (\<forall>w host. cn_ticks s w \<noteq> Some (j, host, Read_request ori))
   \<and> (\<forall>r. cn_asks s r \<noteq> Some (j, ori, Placing) \<and> cn_asks s r \<noteq> Some (j, ori, Thrown))
   \<and> (j, ori) \<notin> cn_cancelled s"

lemma quiet_move: "cancel_move poll timeout m s t \<Longrightarrow> m \<noteq> Begin j ori \<Longrightarrow> quiet j ori s \<Longrightarrow> quiet j ori t"
proof (induction rule: cancel_move.induct)
  case (asks s r i o' a d b k)
  then show ?case
    by (auto simp: quiet_def ask_step_def did_def put_key_def drop_key_def split: ask.splits option.splits if_splits)
next
  case (tick s w i host t stopped took d t' k c)
  then show ?case using tick_step_keys [OF tick(2)] claim_raw [of "cn_keys s" "cancel_request_key_of j ori"]
    by (fastforce simp: quiet_def with_cancel_def tick_step_def split: tick.splits option.splits if_splits)
next
  case (handler s w i host t d t' k c)
  then show ?case using tick_step_keys [OF handler(2) [unfolded operator_cancelled_step_def]] claim_raw [of "cn_keys s" "cancel_request_key_of j ori"]
    by (fastforce simp: quiet_def with_cancel_def operator_cancelled_step_def tick_step_def split: tick.splits option.splits if_splits)
qed (auto simp: quiet_def withdraw_cancel_def did_def drop_key_def put_key_def)

lemma quiet_run: "cancel_run poll timeout s ms t \<Longrightarrow> Begin j ori \<notin> set ms \<Longrightarrow> quiet j ori s \<Longrightarrow> quiet j ori t"
  by (induction rule: cancel_run.induct) (auto dest!: quiet_move [where j = j and ori = ori])

text \<open>A call is the only one that may place its request, and no worker has it in hand.\<close>

definition asks_alone :: "string \<Rightarrow> origin \<Rightarrow> cancels \<Rightarrow> bool" where
  "asks_alone j ori s \<longleftrightarrow>
     (\<forall>w host. cn_ticks s w \<noteq> Some (j, host, Read_request ori))
   \<and> (\<forall>r. cn_asks s r \<noteq> Some (j, ori, Placing) \<and> cn_asks s r \<noteq> Some (j, ori, Thrown))
   \<and> (j, ori) \<notin> cn_cancelled s"

text \<open>
  C37: A call that times out left nothing behind: when its last command takes the request back, with no
  worker holding the request in hand and no other call of that kind able to place one, no worker ever
  cancels the job for it afterwards, however polls, handlers, late commands and other calls go on, until
  somebody asks again.
\<close>

theorem timed_out_leaves_nothing:
  assumes "cn_asks s r = Some (j, ori, Dropping)" "cancel_move poll timeout (Ask r) s t" "cn_asks t r = Some (j, ori, Timed_out)"
    and "asks_alone j ori s" "cancel_run poll timeout t ms u" "Begin j ori \<notin> set ms"
  shows "(j, ori) \<notin> cn_cancelled u \<and> claim (cn_keys u) (cancel_request_key_of j ori) = None"
proof -
  have "quiet j ori t"
    by (rule ask_moveE [OF assms(2)])
      (use assms(1,3,4) in \<open>auto simp: quiet_def asks_alone_def ask_step_def did_def has_run_def drop_key_def split: if_splits\<close>)
  from quiet_run [OF assms(5,6) this] show ?thesis by (auto simp: quiet_def claim_def)
qed

text \<open>A call about to take its request back, and the store behind it.\<close>

definition giving_up :: "ask \<Rightarrow> (key \<Rightarrow> (string \<times> int) option) \<Rightarrow> cancels" where
  "giving_up a m = \<lparr>cn_keys = \<lparr>cl_now = 0, cl_keys = m\<rparr>, cn_cancelled = {}, cn_placed = {(''a'', Agent)},
     cn_asks = [0 \<mapsto> (''a'', Agent, a)], cn_ticks = [0 \<mapsto> (''a'', ''h'', Resting)]\<rparr>"

lemma timed_out_leaves_nothing_witness:
  "(''a'', Agent) \<notin> cn_cancelled (giving_up Timed_out Map.empty) \<and> claim (cn_keys (giving_up Timed_out Map.empty)) (cancel_request_key_of ''a'' Agent) = None"
proof (rule timed_out_leaves_nothing)
  let ?s = "giving_up Dropping [cancel_request_key_of ''a'' Agent \<mapsto> (''agent-cancel'', 60000)]"
  show "cn_asks ?s 0 = Some (''a'', Agent, Dropping)" "cn_asks (giving_up Timed_out Map.empty) 0 = Some (''a'', Agent, Timed_out)"
    by (simp_all add: giving_up_def)
  show "asks_alone ''a'' Agent ?s" by (simp add: asks_alone_def giving_up_def)
  show "cancel_move 250 10000 (Ask 0) ?s (giving_up Timed_out Map.empty)"
    using cancel_move.asks [of ?s 0 "''a''" Agent Dropping 250 10000 Answered]
    by (simp add: giving_up_def ask_step_def did_def has_run_def drop_key_def)
  show "cancel_run 250 10000 (giving_up Timed_out Map.empty) [] (giving_up Timed_out Map.empty)" by (rule cancel_run.stay)
qed simp

end
