(* ===== verification/RemoveJob.thy ===== *)
theory RemoveJob
  imports WaitFacts CancelState
begin

text \<open>
  Removing a job that waits to start (worker/src/cancel-state.mjs: removeQueuedJob, removeHeldJob and
  their helpers). The queue is BullMQ's: what it answers (whether the job is there, its state, whether
  its removal threw) and the touch tracker's verdict are arguments. The keys are those of the waits.
\<close>

section \<open>What the queue and the tracker answer\<close>

text \<open>\<open>jb_found\<close>: \<open>getJob\<close>'s answer, none when it threw; \<open>jb_state\<close>: \<open>getState\<close>'s, none when it threw;
  \<open>jb_again\<close>: read again after a removal that threw; \<open>jb_refused\<close>: \<open>remove\<close>'s error, none when the job was
  removed; \<open>jb_tracked\<close>: whether the applied touch was recorded, none without a tracker.\<close>

record queue_answers =
  jb_found :: "bool option"
  jb_state :: "string option"
  jb_again :: "string option"
  jb_refused :: "string option"
  jb_attempts :: int
  jb_kind :: "string option"
  jb_purpose :: "string option"
  jb_tracked :: "bool option"

definition attempts_made :: "queue_answers \<Rightarrow> int" where
  "attempts_made q = (if 0 < jb_attempts q then jb_attempts q else 0)"

definition is_workload :: "queue_answers \<Rightarrow> bool" where
  "is_workload q \<longleftrightarrow> jb_kind q \<noteq> Some ''question-grouping'' \<and> jb_purpose q \<notin> {Some ''zero-touch-grouping'', Some ''answer-draft''}"

text \<open>\<open>trackTouchAction\<close> around the removal: no event is published for an agent's removal, for a job that
  had made an attempt, and for one that is no workload.\<close>

definition touch_warning :: "origin \<Rightarrow> queue_answers \<Rightarrow> bool" where
  "touch_warning ori q \<longleftrightarrow> ori = Human \<and> \<not> 0 < jb_attempts q \<and> is_workload q \<and> jb_tracked q = Some False"

definition ran_before :: "int \<Rightarrow> string" where
  "ran_before n =
     (if n \<le> 0 then ''it never ran; no record written''
      else if n = 1 then ''it made 1 attempt before and was waiting to retry; whatever that attempt recorded stays, and cancel writes none''
      else ''it made '' @ int_text n @ '' attempts before and was waiting to retry; whatever those attempts recorded stays, and cancel writes none'')"

section \<open>A held job\<close>

definition w_hgetall :: "key \<Rightarrow> wait_store \<Rightarrow> hash \<times> wait_store" where "w_hgetall k s = (hash_at s k, s)"

definition w_hexists :: "key \<Rightarrow> string \<Rightarrow> wait_store \<Rightarrow> bool \<times> wait_store" where
  "w_hexists k f s = (hget (hash_at s k) f \<noteq> None, s)"

text \<open>A field that is there and not empty.\<close>

definition truthy :: "string option \<Rightarrow> bool" where "truthy x \<longleftrightarrow> x \<noteq> None \<and> x \<noteq> Some []"

definition succeeded :: "'a wop \<Rightarrow> bool wop" where "succeeded m = catching False (w_bind m (\<lambda>_. give True))"

definition hold_in_place :: "string \<Rightarrow> bool wop" where
  "hold_in_place j = catching False (cmd (w_hexists (job_key j) ''since''))"

definition defer_key :: "string \<Rightarrow> key" where "defer_key j = ''defer:job:'' @ j"

text \<open>\<open>dropKey\<close>: one \<open>DEL\<close>, bounded, whatever becomes of it. The name of the attempt's key is a hash,
  an argument; a queue without a name names none.\<close>

definition drop_best_effort :: "(wait_store \<Rightarrow> unit \<times> wait_store) \<Rightarrow> unit wop" where "drop_best_effort c = catching () (cmd c)"

definition drop_records :: "bool \<Rightarrow> string \<Rightarrow> key option \<Rightarrow> unit wop" where
  "drop_records deferred j attempt_key =
     w_bind (w_when deferred (drop_best_effort (w_del_hash (defer_key j)))) (\<lambda>_.
       case attempt_key of None \<Rightarrow> give () | Some k \<Rightarrow> drop_best_effort (w_del k))"

datatype held_refusal = Not_waiting | Gone | Left_hold "string option" | Threw "string option"

text \<open>\<open>Refused_hold\<close> is \<open>{ invalid }\<close>, \<open>Cleared_hold\<close> is \<open>{ invalid, cleared: true }\<close>.\<close>

datatype held_removal = Removed_held int bool | Refused_hold held_refusal | Cleared_hold held_refusal

definition held_states :: "string list" where "held_states = [''delayed'', ''waiting'', ''prioritized'']"

text \<open>Once the first key's delete was answered: the rest of the hold, then the job. What throws here
  answers with the mark.\<close>

definition remove_rest :: "bool \<Rightarrow> origin \<Rightarrow> key option \<Rightarrow> queue_answers \<Rightarrow> string \<Rightarrow> hash \<Rightarrow> held_removal wop" where
  "remove_rest deferred ori attempt_key q j h =
     catching (Cleared_hold (Threw None))
       (w_bind (catching () (cmd (w_srem j))) (\<lambda>_.
        w_bind (if truthy (hget h ''dedupId'')
            then w_bind (cmd (w_get (lease_key (the (hget h ''dedupId''))))) (\<lambda>holder.
                 w_when (holder = Some j) (cmd (w_del (lease_key (the (hget h ''dedupId''))))))
            else give ()) (\<lambda>_.
        case jb_refused q of
          Some e \<Rightarrow> give (Cleared_hold (Threw (Some e)))
        | None \<Rightarrow> w_bind (drop_records deferred j attempt_key) (\<lambda>_. give (Removed_held (attempts_made q) (touch_warning ori q))))))"

definition remove_held_job :: "bool \<Rightarrow> origin \<Rightarrow> key option \<Rightarrow> queue_answers \<Rightarrow> string \<Rightarrow> held_removal wop" where
  "remove_held_job deferred ori attempt_key q j =
     catching (Refused_hold (Threw None))
       (w_bind (cmd (w_hgetall (job_key j))) (\<lambda>h.
          if \<not> truthy (hget h ''since'') then give (Refused_hold Not_waiting)
          else case jb_found q of
              None \<Rightarrow> give (Refused_hold (Threw None))
            | Some False \<Rightarrow> give (Refused_hold Gone)
            | Some True \<Rightarrow>
                if (case jb_state q of None \<Rightarrow> True | Some st \<Rightarrow> st \<notin> set held_states) then give (Refused_hold (Left_hold (jb_state q)))
                else w_bind (succeeded (cmd (w_del_hash (job_key j)))) (\<lambda>deleted.
                  if deleted then remove_rest deferred ori attempt_key q j h
                  else w_bind (hold_in_place j) (\<lambda>there. give (if there then Refused_hold (Threw None) else Cleared_hold (Threw None))))))"

section \<open>A job that waits to start\<close>

definition queued_states :: "string list" where "queued_states = [''delayed'', ''waiting'', ''prioritized'', ''paused'']"

text \<open>A guard's answer: none to go on, a refusal, or its throw.\<close>

datatype guard_stop = Guard_refuses string | Guard_throws

datatype queued_removal =
    Removed_queued bool "string option" int bool   \<comment> \<open>held, the state a waiting job had\<close>
  | Invalid held_refusal bool                          \<comment> \<open>cleared\<close>
  | Stopped guard_stop
  | Not_queued string
  | Raced string string

definition state_of :: "string option \<Rightarrow> string" where
  "state_of x = (case x of None \<Rightarrow> ''unknown'' | Some st \<Rightarrow> st)"

definition queued_answer :: "held_removal \<Rightarrow> queued_removal" where
  "queued_answer r =
     (case r of Removed_held n w \<Rightarrow> Removed_queued True None n w | Refused_hold e \<Rightarrow> Invalid e False | Cleared_hold e \<Rightarrow> Invalid e True)"

text \<open>\<open>known\<close> is the state the caller already read; \<open>has_job\<close> whether it found the job.\<close>

definition remove_queued_job ::
  "origin \<Rightarrow> key option \<Rightarrow> queue_answers \<Rightarrow> guard_stop option \<Rightarrow> bool \<Rightarrow> string option \<Rightarrow> string \<Rightarrow> queued_removal wop" where
  "remove_queued_job ori attempt_key q guard has_job known j =
     w_bind (catching [] (cmd (w_hgetall (job_key j)))) (\<lambda>h.
       if truthy (hget h ''since'')
       then (case guard of
           Some g \<Rightarrow> give (Stopped g)
         | None \<Rightarrow> w_bind (remove_held_job True ori attempt_key q j) (\<lambda>r. give (queued_answer r)))
       else if \<not> has_job then give (Not_queued ''unknown'')
       else (let current = (case known of Some st \<Rightarrow> st | None \<Rightarrow> state_of (jb_state q)) in
         if current \<notin> set queued_states then give (Not_queued current)
         else (case guard of
             Some g \<Rightarrow> give (Stopped g)
           | None \<Rightarrow>
               (case jb_refused q of
                  Some e \<Rightarrow> give (Raced (state_of (jb_again q)) e)
                | None \<Rightarrow> w_bind (drop_records True j attempt_key) (\<lambda>_.
                    give (Removed_queued False (Some current) (attempts_made q) (touch_warning ori q)))))))"

end
