(* ===== verification/RemoveFacts.thy ===== *)
theory RemoveFacts
  imports RemoveJob
begin

text \<open>
  What a removal's answer says of the store: an answer without the mark changed nothing, and a removal
  leaves nothing of the hold.
\<close>

section \<open>What a method did itself\<close>

text \<open>The commands of a method that leave the store as the others made it.\<close>

definition others :: "turn list \<Rightarrow> wait_store \<Rightarrow> wait_store" where
  "others ts s = foldl (\<lambda>s (env, d). env s) s ts"

definition reads_only :: "'a wop \<Rightarrow> bool" where
  "reads_only m \<longleftrightarrow> (\<forall>ts s r us t. m ts s = (r, us, t) \<longrightarrow> (\<exists>used. ts = used @ us \<and> t = others used s))"

lemma others_simps [simp]: "others [] s = s" "others (x # ts) s = others ts (fst x s)" "others (ts @ us) s = others us (others ts s)"
  by (simp_all add: others_def split: prod.split)

named_theorems reading \<open>methods that read only\<close>

lemma reads_onlyD: "reads_only m \<Longrightarrow> m ts s = (r, us, t) \<Longrightarrow> \<exists>used. ts = used @ us \<and> t = others used s"
  unfolding reads_only_def by blast

lemma reads_give [reading]: "reads_only (give x)"
  by (auto simp: reads_only_def give_def)

lemma reads_cmd [reading]: "(\<And>s. snd (c s) = s) \<Longrightarrow> reads_only (cmd c)"
proof -
  assume c: "\<And>s. snd (c s) = s"
  have "\<exists>used. ts = used @ us \<and> t = others used s" if "cmd c ts s = (r, us, t)" for ts s r us t
  proof (cases ts)
    case Nil
    then show ?thesis using that c [of s] by (auto simp: cmd_def split: prod.splits)
  next
    case (Cons x xs)
    obtain e d where x: "x = (e, d)" by (cases x)
    have "us = xs" "t = e s" using that Cons x c [of "e s"] by (auto simp: cmd_def split: prod.splits fate.splits)
    then show ?thesis using Cons x by (intro exI [of _ "[x]"]) simp
  qed
  then show ?thesis unfolding reads_only_def by blast
qed

lemma reads_bind [reading]: "reads_only m \<Longrightarrow> (\<And>x. reads_only (f x)) \<Longrightarrow> reads_only (w_bind m f)"
proof -
  assume m: "reads_only m" and f: "\<And>x. reads_only (f x)"
  have "\<exists>used. ts = used @ us \<and> t = others used s" if "w_bind m f ts s = (r, us, t)" for ts s r us t
    using that
  proof (cases rule: w_bind_cases)
    case (ok x vs u)
    obtain a where a: "ts = a @ vs" "u = others a s" using reads_onlyD [OF m ok(1)] by blast
    obtain b where b: "vs = b @ us" "t = others b u" using reads_onlyD [OF f ok(2)] by blast
    show ?thesis using a b by (intro exI [of _ "a @ b"]) simp
  next
    case thrown
    then show ?thesis using reads_onlyD [OF m] by blast
  qed
  then show ?thesis unfolding reads_only_def by blast
qed

lemma reads_catching [reading]: "reads_only m \<Longrightarrow> reads_only (catching x m)"
  unfolding reads_only_def catching_def by (fastforce split: prod.splits option.splits)

lemma reads_hgetall [reading]: "reads_only (cmd (w_hgetall k))"
  by (rule reads_cmd) (simp add: w_hgetall_def)

lemma catching_cases:
  assumes "catching x m ts s = (r, us, t)"
  obtains (valued) v where "m ts s = (Some v, us, t)" "r = Some v" | (caught) "m ts s = (None, us, t)" "r = Some x"
  using assms by (auto simp: catching_def split: prod.splits option.splits)

lemma catching_ends: "fst (catching x m ts s) \<noteq> None"
  by (auto simp: catching_def split: prod.split option.split)

section \<open>A held job\<close>

lemma succeeded_ends: "fst (succeeded m ts s) \<noteq> None" "fst (hold_in_place j ts s) \<noteq> None" "fst (remove_rest b ori k q j h ts s) \<noteq> None"
  unfolding succeeded_def hold_in_place_def remove_rest_def by (rule catching_ends)+

lemma bind_ended:
  assumes "w_bind m f ts s = (r, us, t)" "fst (m ts s) \<noteq> None"
  obtains x vs u where "m ts s = (Some x, vs, u)" "f x vs u = (r, us, t)"
  using assms by (cases rule: w_bind_cases) auto

lemma remove_rest_answers:
  assumes "remove_rest b ori k q j h ts s = (Some r, us, t)"
  shows "(\<exists>e. r = Cleared_hold e) \<or> r = Removed_held (attempts_made q) (touch_warning ori q) \<and> jb_refused q = None"
  using assms unfolding remove_rest_def
proof (cases rule: catching_cases)
  case (valued v)
  from valued(1) obtain x vs u where "(case jb_refused q of
          Some e \<Rightarrow> give (Cleared_hold (Threw (Some e)))
        | None \<Rightarrow> w_bind (drop_records b j k) (\<lambda>_. give (Removed_held (attempts_made q) (touch_warning ori q)))) vs u = (Some v, us, t)"
    by (elim w_bind_cases) auto
  then show ?thesis using valued(2) by (auto simp: give_def elim!: w_bind_cases split: option.splits)
qed simp

text \<open>The answers that say that nothing was changed, and what makes one true.\<close>

definition says_unchanged :: "held_removal option \<Rightarrow> bool" where
  "says_unchanged r \<longleftrightarrow> (case r of Some (Refused_hold _) \<Rightarrow> True | _ \<Rightarrow> False)"

definition unchanged :: "string \<Rightarrow> turn list \<Rightarrow> turn list \<Rightarrow> wait_store \<Rightarrow> wait_store \<Rightarrow> bool" where
  "unchanged j ts us s t \<longleftrightarrow> (\<exists>used. ts = used @ us \<and> t = others used s) \<or> hget (hash_at t (job_key j)) ''since'' \<noteq> None"

lemma hold_in_place_true:
  "hold_in_place j ts s = (Some True, us, t) \<Longrightarrow> hget (hash_at t (job_key j)) ''since'' \<noteq> None"
  unfolding hold_in_place_def by (erule catching_cases) (auto elim!: cmd_cases simp: w_hexists_def)

text \<open>The part of a removal that begins with the first delete.\<close>

definition deleting :: "bool \<Rightarrow> origin \<Rightarrow> key option \<Rightarrow> queue_answers \<Rightarrow> string \<Rightarrow> hash \<Rightarrow> held_removal wop" where
  "deleting b ori k q j h =
     w_bind (succeeded (cmd (w_del_hash (job_key j)))) (\<lambda>deleted.
       if deleted then remove_rest b ori k q j h
       else w_bind (hold_in_place j) (\<lambda>there. give (if there then Refused_hold (Threw None) else Cleared_hold (Threw None))))"

definition after_read :: "bool \<Rightarrow> origin \<Rightarrow> key option \<Rightarrow> queue_answers \<Rightarrow> string \<Rightarrow> hash \<Rightarrow> held_removal wop" where
  "after_read b ori k q j h =
    (if \<not> truthy (hget h ''since'') then give (Refused_hold Not_waiting)
     else case jb_found q of
         None \<Rightarrow> give (Refused_hold (Threw None))
       | Some False \<Rightarrow> give (Refused_hold Gone)
       | Some True \<Rightarrow>
           if (case jb_state q of None \<Rightarrow> True | Some st \<Rightarrow> st \<notin> set held_states) then give (Refused_hold (Left_hold (jb_state q)))
           else deleting b ori k q j h)"

lemma remove_held_parts:
  "remove_held_job b ori k q j = catching (Refused_hold (Threw None)) (w_bind (cmd (w_hgetall (job_key j))) (after_read b ori k q j))"
  unfolding remove_held_job_def after_read_def [abs_def] deleting_def ..

lemma after_read_cases:
  assumes "after_read b ori k q j h vs u = (r, us, t)"
  shows "(\<exists>x. r = Some (Refused_hold x)) \<and> us = vs \<and> t = u \<or> deleting b ori k q j h vs u = (r, us, t)"
proof (cases "truthy (hget h ''since'') \<and> jb_found q = Some True \<and> \<not> (case jb_state q of None \<Rightarrow> True | Some st \<Rightarrow> st \<notin> set held_states)")
  case True
  then show ?thesis using assms by (simp add: after_read_def)
next
  case False
  then show ?thesis using assms by (auto simp: after_read_def give_def split: if_split_asm option.split_asm bool.split_asm)
qed

lemma deleting_answers:
  shows "fst (deleting b ori k q j h ts s) \<noteq> None"
    and "deleting b ori k q j h ts s = (Some v, us, t) \<Longrightarrow>
      (\<exists>e. v = Cleared_hold e) \<or> (\<exists>e. v = Refused_hold e) \<and> hget (hash_at t (job_key j)) ''since'' \<noteq> None
      \<or> v = Removed_held (attempts_made q) (touch_warning ori q) \<and> jb_refused q = None"
proof -
  have *: "r \<noteq> None \<and> (\<forall>v. r = Some v \<longrightarrow> (\<exists>e. v = Cleared_hold e) \<or> (\<exists>e. v = Refused_hold e) \<and> hget (hash_at t (job_key j)) ''since'' \<noteq> None
      \<or> v = Removed_held (attempts_made q) (touch_warning ori q) \<and> jb_refused q = None)"
    if d: "deleting b ori k q j h ts s = (r, us, t)" for r us t
  proof -
    obtain x vs u where x: "(if x then remove_rest b ori k q j h
       else w_bind (hold_in_place j) (\<lambda>there. give (if there then Refused_hold (Threw None) else Cleared_hold (Threw None)))) vs u = (r, us, t)"
      using d succeeded_ends(1) unfolding deleting_def by (elim bind_ended)
    show ?thesis
    proof (cases x)
      case True
      then show ?thesis using x remove_rest_answers [of b ori k q j h vs u _ us t] succeeded_ends(3) [of b ori k q j h vs u] by auto
    next
      case False
      then have "w_bind (hold_in_place j) (\<lambda>there. give (if there then Refused_hold (Threw None) else Cleared_hold (Threw None))) vs u = (r, us, t)"
        using x by simp
      then obtain there ws w where there: "hold_in_place j vs u = (Some there, ws, w)"
          "give (if there then Refused_hold (Threw None) else Cleared_hold (Threw None)) ws w = (r, us, t)"
        using succeeded_ends(2) by (elim bind_ended)
      then show ?thesis using hold_in_place_true [of j vs u ws w] by (cases there) (auto simp: give_def)
    qed
  qed
  show "fst (deleting b ori k q j h ts s) \<noteq> None" using * by (cases "deleting b ori k q j h ts s") auto
  show "deleting b ori k q j h ts s = (Some v, us, t) \<Longrightarrow>
      (\<exists>e. v = Cleared_hold e) \<or> (\<exists>e. v = Refused_hold e) \<and> hget (hash_at t (job_key j)) ''since'' \<noteq> None
      \<or> v = Removed_held (attempts_made q) (touch_warning ori q) \<and> jb_refused q = None" using * by blast
qed

lemma remove_held_answers:
  assumes "remove_held_job b ori k q j ts s = (r, us, t)"
  shows "r \<noteq> None \<and> (says_unchanged r \<longrightarrow> unchanged j ts us s t)
    \<and> (\<forall>n w. r = Some (Removed_held n w) \<longrightarrow> jb_refused q = None \<and> n = attempts_made q)"
proof -
  have r: "r \<noteq> None" using catching_ends [of _ _ ts s] assms unfolding remove_held_parts by (metis fst_conv)
  have read: "?thesis" if "\<exists>used. ts = used @ us \<and> t = others used s" "says_unchanged r"
    using that r by (auto simp: unchanged_def says_unchanged_def split: option.splits)
  from assms [unfolded remove_held_parts] show ?thesis
  proof (cases rule: catching_cases)
    case (valued v)
    from valued(1) show ?thesis
    proof (cases rule: w_bind_cases)
      case (ok h vs u)
      have e: "\<exists>used. ts = used @ vs \<and> u = others used s" by (rule reads_onlyD [OF reads_hgetall ok(1)])
      consider (early) "\<exists>x. v = Refused_hold x" "us = vs" "t = u" | (deletes) "deleting b ori k q j h vs u = (Some v, us, t)"
        using after_read_cases [OF ok(2)] by blast
      then show ?thesis
      proof cases
        case early
        then show ?thesis using e valued(2) by (intro read) (auto simp: says_unchanged_def)
      next
        case deletes
        from deleting_answers(2) [OF this] show ?thesis using valued(2) by (auto simp: says_unchanged_def unchanged_def split: held_removal.splits)
      qed
    qed simp
  next
    case caught
    from caught(1) show ?thesis
    proof (cases rule: w_bind_cases)
      case (ok h vs u)
      then have "deleting b ori k q j h vs u = (None, us, t)"
        using after_read_cases [OF ok(2)] by blast
      then show ?thesis using deleting_answers(1) by (metis fst_conv)
    next
      case thrown
      from reads_onlyD [OF reads_hgetall thrown(1)] show ?thesis using caught(2) by (intro read) (auto simp: says_unchanged_def)
    qed
  qed
qed

lemma claim_deleted: "claim (s\<lparr>cl_keys := (cl_keys s)(k := None)\<rparr>) k = None"
  by (simp add: claim_def)

text \<open>Undisturbed, a removal leaves nothing of the hold: not its hash, not the job in the set of held jobs,
  not its defer record, and not a lease that was its own; another job's lease stays.\<close>

lemma removal_clears_hold:
  assumes "hget (hash_at s (job_key j)) ''since'' = Some since" "since \<noteq> []" "hget (hash_at s (job_key j)) ''dedupId'' = Some d" "d \<noteq> []"
    and "jb_found q = Some True" "jb_state q = Some st" "st \<in> set held_states" "jb_refused q = None"
    and "remove_held_job True ori None q j [] s = (r, us, t)"
  shows "r = Some (Removed_held (attempts_made q) (touch_warning ori q)) \<and> hash_at t (job_key j) = [] \<and> hash_at t (defer_key j) = [] \<and> j \<notin> ws_held t
    \<and> lease_of t (lease_key d) = (if lease_of s (lease_key d) = Some j then None else lease_of s (lease_key d))"
  using assms
  by (auto simp: remove_held_job_def remove_rest_def w_bind_def catching_def cmd_def w_hgetall_def truthy_def succeeded_def give_def
      w_srem_def w_get_def w_when_def w_del_def w_del_hash_def drop_records_def drop_best_effort_def hash_at_def live_hash_def claim_deleted split: if_splits)

section \<open>A job that waits to start\<close>

lemma reads_catching_hgetall: "reads_only (catching [] (cmd (w_hgetall k)))"
  by (intro reading)

text \<open>The answers after which no caller may find anything changed: a refusal without the mark, a guard's
  stop, a job that is not queued, and a removal that the queue refused.\<close>

definition answers_unchanged :: "queued_removal \<Rightarrow> bool" where
  "answers_unchanged r \<longleftrightarrow> (case r of Removed_queued _ _ _ _ \<Rightarrow> False | Invalid _ cleared \<Rightarrow> \<not> cleared | _ \<Rightarrow> True)"

lemma w_bind_give: "w_bind m (\<lambda>x. give (f x)) ts s = (case m ts s of (r, us, t) \<Rightarrow> (map_option f r, us, t))"
  by (auto simp: w_bind_def give_def split: prod.split option.split)

lemma queued_answer_simps:
  "answers_unchanged (queued_answer r) = says_unchanged (Some r)"
  "queued_answer r = Removed_queued held st n w \<longleftrightarrow> held \<and> st = None \<and> r = Removed_held n w"
  by (auto simp: answers_unchanged_def says_unchanged_def queued_answer_def split: held_removal.split)

lemma drop_records_ends: "fst (drop_records d j k ts s) \<noteq> None"
  unfolding drop_records_def drop_best_effort_def w_when_def
  by (auto simp: w_bind_def give_def catching_def split: prod.split option.split)

text \<open>What follows the read of the hold.\<close>

definition removal_truthful :: "queue_answers \<Rightarrow> string \<Rightarrow> turn list \<Rightarrow> turn list \<Rightarrow> wait_store \<Rightarrow> wait_store \<Rightarrow> queued_removal option \<Rightarrow> bool" where
  "removal_truthful q j ts us s t r \<longleftrightarrow>
     (case r of None \<Rightarrow> False
      | Some a \<Rightarrow> (answers_unchanged a \<longrightarrow> unchanged j ts us s t)
          \<and> (\<forall>held st n w. a = Removed_queued held st n w \<longrightarrow> jb_refused q = None \<and> n = attempts_made q))"

lemma truthful_same: "answers_unchanged a \<Longrightarrow> removal_truthful q j ts ts s s (Some a)"
  by (auto simp: removal_truthful_def unchanged_def answers_unchanged_def split: queued_removal.splits)

lemma truthful_after:
  assumes "ts = used @ vs" "u = others used s" "removal_truthful q j vs us u t r"
  shows "removal_truthful q j ts us s t r"
proof -
  have "unchanged j vs us u t \<Longrightarrow> unchanged j ts us s t"
    using assms(1,2) unfolding unchanged_def by (elim disjE exE conjE) (auto intro: exI [of _ "used @ _"])
  then show ?thesis using assms(3) by (auto simp: removal_truthful_def split: option.splits)
qed

text \<open>
  C17: The answer of a removal is true: whatever the others do between its commands, whatever the queue and
  the guard answer and wherever a command fails or loses its answer, it never throws; an answer that tells
  a caller nothing was changed (a refusal without the mark, a guard's stop, a job not queued, a lost race)
  comes only when no command of its own changed the store or the hold was read back in place; and it
  answers that the job was removed only when the queue removed it.
\<close>

theorem removal_answers_truly:
  assumes "remove_queued_job ori k q guard has_job known j ts s = (r, us, t)"
  shows "removal_truthful q j ts us s t r"
proof -
  let ?rest = "\<lambda>h. if truthy (hget h ''since'')
       then (case guard of Some g \<Rightarrow> give (Stopped g)
         | None \<Rightarrow> w_bind (remove_held_job True ori k q j) (\<lambda>r. give (queued_answer r)))
       else if \<not> has_job then give (Not_queued ''unknown'')
       else (let current = (case known of Some st \<Rightarrow> st | None \<Rightarrow> state_of (jb_state q)) in
         if current \<notin> set queued_states then give (Not_queued current)
         else (case guard of Some g \<Rightarrow> give (Stopped g)
           | None \<Rightarrow> (case jb_refused q of Some e \<Rightarrow> give (Raced (state_of (jb_again q)) e)
                | None \<Rightarrow> w_bind (drop_records True j k) (\<lambda>_. give (Removed_queued False (Some current) (attempts_made q) (touch_warning ori q))))))"
  from assms obtain h vs u where h: "catching [] (cmd (w_hgetall (job_key j))) ts s = (Some h, vs, u)" "?rest h vs u = (r, us, t)"
    unfolding remove_queued_job_def by (rule bind_ended) (rule catching_ends)
  obtain used where used: "ts = used @ vs" "u = others used s" using reads_onlyD [OF reads_catching_hgetall h(1)] by blast
  have "removal_truthful q j vs us u t r"
  proof (cases "truthy (hget h ''since'') \<and> guard = None")
    case True
    then obtain r' where r': "remove_held_job True ori k q j vs u = (r', us, t)" "r = map_option queued_answer r'"
      using h(2) by (auto simp: w_bind_give split: prod.splits)
    from remove_held_answers [OF r'(1)] show ?thesis
      using r'(2) by (auto simp: removal_truthful_def queued_answer_simps)
  next
    case False
    let ?done = "w_bind (drop_records True j k) (\<lambda>_. give (Removed_queued False (Some (case known of Some st \<Rightarrow> st | None \<Rightarrow> state_of (jb_state q))) (attempts_made q) (touch_warning ori q))) vs u"
    consider (same) a where "r = Some a" "us = vs" "t = u" "answers_unchanged a" | (gone) "?done = (r, us, t)" "jb_refused q = None"
      using h(2) False by (auto simp: give_def answers_unchanged_def Let_def split: if_splits option.splits)
    then show ?thesis
    proof cases
      case same
      then show ?thesis by (simp add: truthful_same)
    next
      case gone
      then show ?thesis using drop_records_ends [of True j k vs u]
        by (auto simp: w_bind_give removal_truthful_def answers_unchanged_def split: prod.splits)
    qed
  qed
  from truthful_after [OF used this] show ?thesis .
qed

text \<open>A held job whose first delete was refused by Valkey, and the hold read back.\<close>

definition refused_delete :: "turn list" where
  "refused_delete = [(\<lambda>s. s, Answered), (\<lambda>s. s, Answered), (\<lambda>s. s, Unsent (Fault (Some ''NOPERM''))), (\<lambda>s. s, Answered)]"

definition delayed_job :: queue_answers where
  "delayed_job = \<lparr>jb_found = Some True, jb_state = Some ''delayed'', jb_again = None, jb_refused = None, jb_attempts = 0,
     jb_kind = None, jb_purpose = None, jb_tracked = None\<rparr>"

lemma removal_answers_truly_witness:
  "removal_truthful delayed_job ''a'' refused_delete [] began began (Some (Invalid (Threw None) False))"
proof -
  have h: "hash_at began (job_key ''a'') = [(''since'', ''1000''), (''target'', []), (''label'', []), (''dedupId'', [])]" by code_simp
  have "remove_queued_job Human None delayed_job None True None ''a'' refused_delete began = (Some (Invalid (Threw None) False), [], began)"
    by (simp add: remove_queued_job_def remove_held_job_def w_bind_def catching_def cmd_def w_hgetall_def h refused_delete_def truthy_def
      delayed_job_def held_states_def succeeded_def hold_in_place_def w_hexists_def give_def queued_answer_def)
  from removal_answers_truly [OF this] show ?thesis .
qed

end
