(* ===== verification/Failover.thy ===== *)
theory Failover
  imports ScopedLimitsFacts RunBudget
begin

text \<open>
  Which model an attempt of a job runs on (worker/src/model-failover.mjs, the protocol and the cooldowns
  beside it, and the list rules of model-ref.mjs): the published cooldowns, what the last attempt left,
  the room in a model's dollar windows, and the choice over the candidates in their order.
\<close>

section \<open>Lists of models\<close>

definition max_allowed_models :: nat where "max_allowed_models = 16"

text \<open>\<open>modelListProblem\<close> is null.\<close>

definition model_list_ok :: "string list \<Rightarrow> bool" where
  "model_list_ok es \<longleftrightarrow> es \<noteq> [] \<and> length es \<le> max_allowed_models \<and> list_all (\<lambda>e. split_model_entry e \<noteq> None) es \<and> distinct (map lower_text es)"

definition model_on_list :: "string list option \<Rightarrow> string \<Rightarrow> string \<Rightarrow> bool" where
  "model_on_list list p m \<longleftrightarrow> (case list of None \<Rightarrow> True | Some es \<Rightarrow> list_ex (\<lambda>e. split_model_entry e = Some (p, m)) es)"

text \<open>A job with its allowed list and its fallbacks, none where the field is no list.\<close>

record model_job =
  mj_provider :: string
  mj_model :: string
  mj_models :: "string list option"
  mj_fallbacks :: "string list option"

definition failover_list_usable :: "model_job \<Rightarrow> bool" where
  "failover_list_usable j =
     (case (mj_fallbacks j, mj_models j) of
        (Some fs, Some ms) \<Rightarrow> model_list_ok fs \<and> model_list_ok ms
          \<and> list_all (\<lambda>r. case split_model_entry r of None \<Rightarrow> False | Some (p, m) \<Rightarrow> model_on_list (mj_models j) p m) fs
      | _ \<Rightarrow> False)"

section \<open>Failures of a provider\<close>

record provider_failure =
  pf_kind :: string
  pf_reset :: "int option"
  pf_code :: "string option"
  pf_provider :: "string option"

definition provider_failure_kinds :: "string list" where
  "provider_failure_kinds = [''rate-limited'', ''quota-exhausted'', ''overloaded'', ''context-overflow'']"

definition max_instant :: int where "max_instant = 253402300799999"

definition instant_ok :: "int \<Rightarrow> bool" where "instant_ok n \<longleftrightarrow> is_safe n \<and> 0 \<le> n \<and> n \<le> max_instant"

definition provider_failure_of :: "provider_failure option \<Rightarrow> provider_failure option" where
  "provider_failure_of x =
     (case x of None \<Rightarrow> None
      | Some f \<Rightarrow>
          if pf_kind f \<notin> set provider_failure_kinds then None
          else if (case pf_reset f of None \<Rightarrow> False | Some r \<Rightarrow> \<not> instant_ok r) then None
          else if (case pf_code f of None \<Rightarrow> False
            | Some c \<Rightarrow> c \<notin> {''usage_limit_reached'', ''usage_not_included'', ''rate_limit_exceeded'', ''quota_exhausted''}) then None
          else if pf_code f \<noteq> None \<and> pf_provider f \<notin> {Some ''openai'', Some ''anthropic''} then None
          else if pf_provider f \<noteq> None \<and> pf_provider f \<notin> {Some ''openai'', Some ''anthropic''} then None
          else Some f)"

section \<open>Cooldowns\<close>

definition model_cooldown_max_ms :: int where "model_cooldown_max_ms = 6 * 60 * 60 * 1000"

definition model_recheck_ms :: int where "model_recheck_ms = 60000"

text \<open>\<open>digest\<close> is the SHA-256 of the model's name.\<close>

definition model_cooldown_key :: "(string \<Rightarrow> string) \<Rightarrow> string \<Rightarrow> key" where
  "model_cooldown_key digest ref = ''dispatch:model-cooldown:'' @ digest ref"

record cooldown =
  cd_kind :: string
  cd_until :: int

text \<open>The stored rows with the instant Valkey drops each, and Valkey's clock. A row is \<open>None\<close> when its text is
  not an object with an integer \<open>until\<close>: the script overwrites it, and the reader throws.\<close>

record cooldowns =
  co_now :: int
  co_rows :: "key \<Rightarrow> (cooldown option \<times> int) option"

definition stored_at :: "cooldowns \<Rightarrow> key \<Rightarrow> cooldown option option" where
  "stored_at s k = (case co_rows s k of None \<Rightarrow> None | Some (v, e) \<Rightarrow> if co_now s < e then Some v else None)"

definition cooldown_at :: "cooldowns \<Rightarrow> key \<Rightarrow> cooldown option" where
  "cooldown_at s k = (case stored_at s k of None \<Rightarrow> None | Some v \<Rightarrow> v)"

definition cooldown_script :: "key \<Rightarrow> cooldown \<Rightarrow> int \<Rightarrow> cooldowns \<Rightarrow> cooldowns" where
  "cooldown_script k c ttl s =
     (if (case cooldown_at s k of None \<Rightarrow> False | Some old \<Rightarrow> cd_until old > cd_until c) then s
      else s\<lparr>co_rows := (co_rows s)(k \<mapsto> (Some c, co_now s + ttl))\<rparr>)"

definition cooldown_ttl :: "int \<Rightarrow> provider_failure \<Rightarrow> int" where
  "cooldown_ttl now f =
     min model_cooldown_max_ms
       (case pf_reset f of None \<Rightarrow> if pf_kind f = ''quota-exhausted'' then model_cooldown_max_ms else model_recheck_ms
        | Some r \<Rightarrow> max 1000 (r - now))"

text \<open>\<open>now\<close> is the host's clock, \<open>d\<close> what becomes of the script.\<close>

definition mark_model_cooldown ::
  "(string \<Rightarrow> string) \<Rightarrow> int \<Rightarrow> fate \<Rightarrow> string \<Rightarrow> provider_failure option \<Rightarrow> cooldowns \<Rightarrow> (fault + cooldown option) \<times> cooldowns" where
  "mark_model_cooldown digest now d ref failure s =
     (case provider_failure_of failure of
        None \<Rightarrow> (Inr None, s)
      | Some f \<Rightarrow>
          if pf_kind f = ''context-overflow'' then (Inr None, s)
          else (let ttl = cooldown_ttl now f; row = \<lparr>cd_kind = pf_kind f, cd_until = now + ttl\<rparr>;
                    t = cooldown_script (model_cooldown_key digest ref) row ttl s
                in case d of Answered \<Rightarrow> (Inr (Some row), t) | Unsent e \<Rightarrow> (Inl e, s) | Unanswered e \<Rightarrow> (Inl e, t)))"

datatype select_fault =
    Command_threw fault | Bad_cooldown | Bad_attempt | Bad_window | Bad_row config_error
  | Subscription_unavailable | Check_threw string | Endpoints_threw string

definition read_model_cooldown :: "(string \<Rightarrow> string) \<Rightarrow> int \<Rightarrow> string \<Rightarrow> cooldowns \<Rightarrow> select_fault + cooldown option" where
  "read_model_cooldown digest now ref s =
     (case stored_at s (model_cooldown_key digest ref) of
        None \<Rightarrow> Inr None
      | Some None \<Rightarrow> Inl Bad_cooldown
      | Some (Some c) \<Rightarrow>
          if cd_kind c \<notin> set provider_failure_kinds \<or> \<not> instant_ok (cd_until c) \<or> cd_kind c = ''context-overflow'' then Inl Bad_cooldown
          else Inr (if cd_until c > now then Some c else None))"

section \<open>What the last attempt left\<close>

record model_attempt =
  ma_ref :: string
  ma_safe :: bool
  ma_failure :: "provider_failure option"
  ma_why :: "string option"

definition model_why :: "string list" where
  "model_why = [''primary'', ''fallback-cooldown'', ''fallback-window'', ''fallback-unavailable'', ''fallback-context'']"

text \<open>The stored row as \<open>JSON.parse\<close> gives it, none when it is no such object.\<close>

definition read_model_attempt :: "model_attempt option \<Rightarrow> select_fault + model_attempt" where
  "read_model_attempt row =
     (case row of None \<Rightarrow> Inl Bad_attempt
      | Some a \<Rightarrow>
          if split_model_entry (ma_ref a) = None \<or> ma_safe a \<and> provider_failure_of (ma_failure a) = None then Inl Bad_attempt
          else Inr \<lparr>ma_ref = ma_ref a, ma_safe = (ma_safe a \<and> provider_failure_of (ma_failure a) \<noteq> None),
                    ma_failure = provider_failure_of (ma_failure a),
                    ma_why = (case ma_why a of Some w \<Rightarrow> if w \<in> set model_why then Some w else None | None \<Rightarrow> None)\<rparr>)"

definition write_model_attempt :: "string \<Rightarrow> bool \<Rightarrow> provider_failure option \<Rightarrow> string option \<Rightarrow> model_attempt option" where
  "write_model_attempt ref safe failure why =
     (if split_model_entry ref = None then None
      else Some \<lparr>ma_ref = ref, ma_safe = safe, ma_failure = provider_failure_of failure,
                 ma_why = (case why of Some w \<Rightarrow> if w \<in> set model_why then Some w else None | None \<Rightarrow> None)\<rparr>)"

section \<open>Room in a model's windows\<close>

fun windows_have_room :: "'s client \<Rightarrow> int \<Rightarrow> dwindow list \<Rightarrow> 's \<Rightarrow> (select_fault + bool) \<times> 's" where
  "windows_have_room C amount [] s = (Inr True, s)"
| "windows_have_room C amount (w # ws) s =
     (case c_get C (w_key w) s of
        (Inl e, s1) \<Rightarrow> (Inl (Command_threw e), s1)
      | (Inr raw, s1) \<Rightarrow>
          (let spent = (case raw of None \<Rightarrow> 0 | Some n \<Rightarrow> n)
           in if \<not> is_safe spent \<or> spent < 0 then (Inl Bad_window, s1)
              else if spent + amount > w_cap w then (Inr False, s1)
              else windows_have_room C amount ws s1))"

text \<open>\<open>cost\<close> is the reservation, none when it is no whole number.\<close>

definition model_window_has_room :: "'s client \<Rightarrow> dledger list \<Rightarrow> int option \<Rightarrow> int \<Rightarrow> 's \<Rightarrow> (select_fault + bool) \<times> 's" where
  "model_window_has_room C rows cost now s =
     (if cost = Some 0 then (Inr True, s)
      else if rows = [] then (Inr True, s)
      else case cost of None \<Rightarrow> (Inr False, s) | Some a \<Rightarrow> windows_have_room C a (dollar_windows rows now) s)"

section \<open>The choice\<close>

text \<open>A subscription's answer for one candidate; \<open>sb_managed\<close>: true or a list that is not empty.\<close>

record subscription =
  sb_unavailable :: bool
  sb_managed :: bool
  sb_ok :: bool
  sb_wait :: "string option"
  sb_reason :: "string option"

text \<open>What the selection asks of a candidate, by its name.\<close>

record asked =
  as_subscription :: "(string \<Rightarrow> subscription) option"   \<comment> \<open>for the job with this model alone\<close>
  as_primary :: subscription                            \<comment> \<open>for the job as it is, before the candidates\<close>
  as_check :: "string \<Rightarrow> select_fault + string option"
  as_context :: "string \<Rightarrow> int option"
  as_cooldown :: "string \<Rightarrow> select_fault + cooldown option"
  as_reservation :: "string \<Rightarrow> int option"
  as_endpoints :: "string \<Rightarrow> select_fault + bool"

text \<open>The fixed facts of one selection; one reading of the clock stands for its several.\<close>

record choice =
  ch_primary :: string
  ch_models :: "string list option"
  ch_locked :: bool
  ch_previous :: "model_attempt option"
  ch_larger :: "int option option"     \<comment> \<open>a larger context is needed, than this one where it is known\<close>
  ch_now :: int

text \<open>What becomes of a candidate: the call throws, it is passed over (with what it says about the primary's
  billing, a new \<open>why\<close> and a wait), or it is taken.\<close>

datatype judged = Throws select_fault | Passes bool "string option" "string option" | Takes bool

definition subscription_gate :: "asked \<Rightarrow> choice \<Rightarrow> string \<Rightarrow> bool \<Rightarrow> judged" where
  "subscription_gate A ch ref billed =
     (case as_subscription A of None \<Rightarrow> Takes billed
      | Some sub \<Rightarrow>
          (let x = sub ref; billed' = (billed \<or> ref = ch_primary ch \<and> sb_managed x)
           in if sb_unavailable x then Throws Subscription_unavailable
              else if billed' \<and> \<not> sb_managed x then Passes billed' None None
              else if \<not> sb_ok x then Passes billed' None (sb_wait x)
              else Takes billed'))"

definition failed_here :: "choice \<Rightarrow> string \<Rightarrow> bool" where
  "failed_here ch ref =
     (case ch_previous ch of None \<Rightarrow> False
      | Some a \<Rightarrow> ma_safe a \<and> ma_ref a = ref \<and> map_option pf_kind (ma_failure a) \<noteq> Some ''context-overflow'')"

definition context_too_small :: "asked \<Rightarrow> choice \<Rightarrow> string \<Rightarrow> bool" where
  "context_too_small A ch ref =
     (case ch_larger ch of None \<Rightarrow> False
      | Some None \<Rightarrow> True
      | Some (Some n) \<Rightarrow> (case as_context A ref of None \<Rightarrow> True | Some c \<Rightarrow> \<not> c > n))"

definition judge_candidate ::
  "'s client \<Rightarrow> (string \<Rightarrow> config_error + scoped_dollars list) \<Rightarrow> asked \<Rightarrow> choice \<Rightarrow> string \<Rightarrow> bool \<Rightarrow> 's \<Rightarrow> judged \<times> 's" where
  "judge_candidate C rows_of A ch ref billed s =
     (case split_model_entry ref of None \<Rightarrow> (Passes billed None None, s)
      | Some (p, m) \<Rightarrow>
          if \<not> model_on_list (ch_models ch) p m then (Passes billed None None, s)
          else case subscription_gate A ch ref billed of
            Throws e \<Rightarrow> (Throws e, s) | Passes b y w \<Rightarrow> (Passes b y w, s)
          | Takes b \<Rightarrow>
              (case as_check A ref of
                 Inl e \<Rightarrow> (Throws e, s) | Inr (Some _) \<Rightarrow> (Passes b None None, s)
               | Inr None \<Rightarrow>
                   if context_too_small A ch ref then (Passes b None None, s)
                   else case (if ch_locked ch then Inr None else as_cooldown A ref) of
                     Inl e \<Rightarrow> (Throws e, s)
                   | Inr cool \<Rightarrow>
                       if \<not> ch_locked ch \<and> (cool \<noteq> None \<or> failed_here ch ref)
                       then (Passes b (if ref = ch_primary ch then Some ''fallback-cooldown'' else None)
                               (if failed_here ch ref then None else Some ''model-cooldown''), s)
                       else case rows_of ref of
                         Inl e \<Rightarrow> (Throws (Bad_row e), s)
                       | Inr rows \<Rightarrow>
                           if rows \<noteq> [] \<and> as_reservation A ref = None then (Passes b None None, s)
                           else case model_window_has_room C (map snd rows) (as_reservation A ref) (ch_now ch) s of
                             (Inl e, s1) \<Rightarrow> (Throws e, s1)
                           | (Inr False, s1) \<Rightarrow> (Passes b (if ref = ch_primary ch then Some ''fallback-window'' else None) (Some ''model-window''), s1)
                           | (Inr True, s1) \<Rightarrow>
                               (case as_endpoints A ref of
                                  Inl e \<Rightarrow> (Throws e, s1)
                                | Inr False \<Rightarrow> (Passes b None (Some ''endpoint''), s1)
                                | Inr True \<Rightarrow> (Takes b, s1))))"

datatype selection = Selected string string | Wait_for string int | Refused_choice string

definition first_wait :: "string option \<Rightarrow> string option \<Rightarrow> string option" where
  "first_wait old new = (case old of None \<Rightarrow> new | Some _ \<Rightarrow> old)"

definition chosen_why :: "choice \<Rightarrow> string \<Rightarrow> string \<Rightarrow> string" where
  "chosen_why ch ref why =
     (if ref = ch_primary ch then ''primary''
      else if ch_locked ch then (case Option.bind (ch_previous ch) ma_why of None \<Rightarrow> ''fallback-unavailable'' | Some w \<Rightarrow> w)
      else why)"

fun pick_model ::
  "'s client \<Rightarrow> (string \<Rightarrow> config_error + scoped_dollars list) \<Rightarrow> asked \<Rightarrow> choice \<Rightarrow> string list \<Rightarrow> bool \<Rightarrow> string \<Rightarrow> string option \<Rightarrow> 's
     \<Rightarrow> (select_fault + selection) \<times> 's" where
  "pick_model C rows_of A ch [] billed why wait s =
     (Inr (case wait of None \<Rightarrow> Refused_choice ''model-failover-no-candidate'' | Some w \<Rightarrow> Wait_for w (ch_now ch + model_recheck_ms)), s)"
| "pick_model C rows_of A ch (ref # refs) billed why wait s =
     (case judge_candidate C rows_of A ch ref billed s of
        (Throws e, s1) \<Rightarrow> (Inl e, s1)
      | (Takes b, s1) \<Rightarrow> (Inr (Selected ref (chosen_why ch ref why)), s1)
      | (Passes b y w, s1) \<Rightarrow>
          pick_model C rows_of A ch refs b (case y of None \<Rightarrow> why | Some y' \<Rightarrow> y') (first_wait wait w) s1)"

text \<open>\<open>new Set\<close>: each name once, where it comes first.\<close>

fun once_each :: "string list \<Rightarrow> string list" where
  "once_each [] = []"
| "once_each (x # xs) = x # filter (\<lambda>y. y \<noteq> x) (once_each xs)"

definition local_folder_holds_auth :: string where "local_folder_holds_auth = ''local-folder-holds-subscription-auth''"

text \<open>\<open>stored\<close> is what the key of the job's last attempt holds: nothing, or a row that may not be one.\<close>

definition locked_model :: "string option \<Rightarrow> bool \<Rightarrow> model_attempt option \<Rightarrow> string \<Rightarrow> string option" where
  "locked_model recovery retry previous primary =
     (case recovery of Some r \<Rightarrow> Some r
      | None \<Rightarrow> if retry \<and> \<not> (case previous of None \<Rightarrow> False | Some a \<Rightarrow> ma_safe a)
          then Some (case previous of None \<Rightarrow> primary | Some a \<Rightarrow> ma_ref a) else None)"

definition choice_of :: "asked \<Rightarrow> model_job \<Rightarrow> string option \<Rightarrow> model_attempt option \<Rightarrow> int \<Rightarrow> choice" where
  "choice_of A j locked previous now =
     (let overflow = (Option.bind previous (\<lambda>a. map_option pf_kind (ma_failure a)) = Some ''context-overflow'') in
      \<lparr>ch_primary = mj_provider j @ ''/'' @ mj_model j, ch_models = mj_models j, ch_locked = (locked \<noteq> None), ch_previous = previous,
       ch_larger = (if locked = None \<and> overflow then Some (Option.bind previous (\<lambda>a. as_context A (ma_ref a))) else None), ch_now = now\<rparr>)"

definition select_failover_job ::
  "'s client \<Rightarrow> (string \<Rightarrow> config_error + scoped_dollars list) \<Rightarrow> asked \<Rightarrow> model_job \<Rightarrow> bool \<Rightarrow> model_attempt option option \<Rightarrow> bool \<Rightarrow> string option
     \<Rightarrow> int \<Rightarrow> 's \<Rightarrow> (select_fault + selection) \<times> 's" where
  "select_failover_job C rows_of A j retry stored never_started recovery now s =
     (let refused = (Inr (Refused_choice ''model-failover-no-candidate''), s); primary = mj_provider j @ ''/'' @ mj_model j in
      if \<not> failover_list_usable j then refused
      else case (if retry then (case stored of None \<Rightarrow> Inr None | Some row \<Rightarrow> map_sum id Some (read_model_attempt row)) else Inr None) of
        Inl e \<Rightarrow> (Inl e, s)
      | Inr previous \<Rightarrow>
          if retry \<and> previous = None \<and> \<not> never_started \<and> recovery = None then refused
          else (let locked = locked_model recovery retry previous primary; ch = choice_of A j locked previous now;
                    overflow = (Option.bind previous (\<lambda>a. map_option pf_kind (ma_failure a)) = Some ''context-overflow'')
                in if as_subscription A \<noteq> None \<and> sb_reason (as_primary A) = Some local_folder_holds_auth
                   then (Inr (Refused_choice local_folder_holds_auth), s)
                   else pick_model C rows_of A ch
                     (once_each (case locked of Some r \<Rightarrow> [r] | None \<Rightarrow> primary # the (mj_fallbacks j)))
                     (as_subscription A \<noteq> None \<and> sb_managed (as_primary A))
                     (if overflow then ''fallback-context'' else ''fallback-unavailable'') None s))"

end
