(* ===== verification/FailoverFacts.thy ===== *)
theory FailoverFacts
  imports Failover
begin

text \<open>
  What the choice of a model guarantees: a published cooldown is never shortened, the room read of a
  model's windows is the verdict the reservation will give, and what an attempt runs on is allowed,
  untried, admitted and the first such candidate.
\<close>

section \<open>Cooldowns\<close>

text \<open>Marks of any hosts, whose clocks are Valkey's, and time between them.\<close>

datatype cool_event = Marks fate string "provider_failure option" | Ticks nat

fun cool_step :: "(string \<Rightarrow> string) \<Rightarrow> cool_event \<Rightarrow> cooldowns \<Rightarrow> cooldowns" where
  "cool_step digest (Marks d ref f) s = snd (mark_model_cooldown digest (co_now s) d ref f s)"
| "cool_step digest (Ticks n) s = s\<lparr>co_now := co_now s + int n\<rparr>"

definition cool_run :: "(string \<Rightarrow> string) \<Rightarrow> cool_event list \<Rightarrow> cooldowns \<Rightarrow> cooldowns" where
  "cool_run digest es s = fold (cool_step digest) es s"

text \<open>A well formed row lives until the instant it names, at most six hours ahead, and is of a kind that cools.
  Texts that are no row may stand beside them.\<close>

definition published :: "cooldowns \<Rightarrow> bool" where
  "published s \<longleftrightarrow> (\<forall>k c e. co_rows s k = Some (Some c, e) \<longrightarrow>
     e = cd_until c \<and> cd_until c \<le> co_now s + model_cooldown_max_ms \<and> cd_kind c \<in> set provider_failure_kinds - {''context-overflow''})"

lemma publishedI:
  "(\<And>k c e. co_rows s k = Some (Some c, e) \<Longrightarrow> e = cd_until c \<and> cd_until c \<le> co_now s + model_cooldown_max_ms \<and> cd_kind c \<in> set provider_failure_kinds - {''context-overflow''})
   \<Longrightarrow> published s"
  unfolding published_def by blast

lemma publishedD:
  "published s \<Longrightarrow> co_rows s k = Some (Some c, e) \<Longrightarrow>
     e = cd_until c \<and> cd_until c \<le> co_now s + model_cooldown_max_ms \<and> cd_kind c \<in> set provider_failure_kinds - {''context-overflow''}"
  unfolding published_def by blast

lemma failure_kind: "provider_failure_of x = Some f \<Longrightarrow> pf_kind f \<in> set provider_failure_kinds"
  by (auto simp: provider_failure_of_def split: option.splits if_splits)

lemma cooldown_ttl_bounds: "0 < cooldown_ttl now f" "cooldown_ttl now f \<le> model_cooldown_max_ms"
  by (auto simp: cooldown_ttl_def model_cooldown_max_ms_def model_recheck_ms_def split: option.split)

lemma marked_cases:
  assumes "mark_model_cooldown digest now d ref f s = (r, t)"
  obtains (same) "t = s"
  | (marked) g where "provider_failure_of f = Some g" "pf_kind g \<noteq> ''context-overflow''"
      "t = cooldown_script (model_cooldown_key digest ref) \<lparr>cd_kind = pf_kind g, cd_until = now + cooldown_ttl now g\<rparr> (cooldown_ttl now g) s"
  using assms by (auto simp: mark_model_cooldown_def Let_def split: option.splits if_splits fate.splits)

lemma published_step: "published s \<Longrightarrow> published (cool_step digest x s)"
proof (cases x)
  case (Marks d ref f)
  assume p: "published s"
  obtain r t where m: "mark_model_cooldown digest (co_now s) d ref f s = (r, t)" by fastforce
  from m show ?thesis
  proof (cases rule: marked_cases)
    case same
    then show ?thesis using p m Marks by simp
  next
    case (marked g)
    have "published t"
      using publishedD [OF p] failure_kind [OF marked(1)] cooldown_ttl_bounds(2) [of "co_now s" g] marked(2)
      unfolding marked(3) by (intro publishedI) (auto simp: cooldown_script_def split: if_splits)
    then show ?thesis using m Marks by simp
  qed
next
  case (Ticks n)
  assume "published s"
  then show ?thesis using publishedD [of s] Ticks by (intro publishedI) fastforce
qed

text \<open>What a key says at least while that instant has not come.\<close>

definition cooled_until :: "key \<Rightarrow> int \<Rightarrow> cooldowns \<Rightarrow> bool" where
  "cooled_until k u s \<longleftrightarrow> (co_now s < u \<longrightarrow> (\<exists>c. cooldown_at s k = Some c \<and> u \<le> cd_until c))"

lemma cooled_step: "published s \<Longrightarrow> cooled_until k u s \<Longrightarrow> cooled_until k u (cool_step digest x s)"
proof (cases x)
  case (Marks d ref f)
  assume p: "published s" and c: "cooled_until k u s"
  obtain r t where m: "mark_model_cooldown digest (co_now s) d ref f s = (r, t)" by fastforce
  from m show ?thesis
  proof (cases rule: marked_cases)
    case same
    then show ?thesis using c m Marks by simp
  next
    case (marked g)
    have "cooled_until k u t"
      using c cooldown_ttl_bounds(1) [of "co_now s" g] unfolding marked(3)
      by (auto simp: cooled_until_def cooldown_script_def cooldown_at_def stored_at_def split: if_splits option.splits)
    then show ?thesis using m Marks by simp
  qed
next
  case (Ticks n)
  assume p: "published s" and c: "cooled_until k u s"
  show ?thesis
    using c publishedD [OF p, of k] Ticks by (fastforce simp: cooled_until_def cooldown_at_def stored_at_def split: option.splits prod.splits if_splits)
qed

lemma cool_run_keeps: "published s \<Longrightarrow> cooled_until k u s \<Longrightarrow> published (cool_run digest es s) \<and> cooled_until k u (cool_run digest es s)"
  unfolding cool_run_def by (induction es arbitrary: s) (auto dest: published_step cooled_step)

lemma cool_run_later: "co_now s \<le> co_now (cool_run digest es s)"
  unfolding cool_run_def
proof (induction es arbitrary: s)
  case (Cons x es)
  have "co_now s \<le> co_now (cool_step digest x s)"
    by (cases x) (auto simp: mark_model_cooldown_def cooldown_script_def Let_def split: option.split fate.split)
  then show ?case using Cons.IH [of "cool_step digest x s"] by simp
qed simp

text \<open>
  C38: A published cooldown is never shortened: while the hosts' clocks are Valkey's, whatever failures are
  marked afterwards, by whichever hosts, and whichever marks are lost, the model reads as cooling at least
  until the instant first published, never for more than six hours ahead, and never for an overflow.
\<close>

theorem cooldown_never_shortens:
  assumes "published s" "cooldown_at s (model_cooldown_key digest ref) = Some c" "cd_until c \<le> max_instant"
    and "co_now (cool_run digest es s) < cd_until c" "co_now (cool_run digest es s) + model_cooldown_max_ms \<le> max_instant" "0 \<le> co_now s"
  shows "\<exists>c'. read_model_cooldown digest (co_now (cool_run digest es s)) ref (cool_run digest es s) = Inr (Some c') \<and> cd_until c \<le> cd_until c'
    \<and> cd_until c' \<le> co_now (cool_run digest es s) + model_cooldown_max_ms"
proof -
  let ?t = "cool_run digest es s" and ?k = "model_cooldown_key digest ref"
  have "published ?t \<and> cooled_until ?k (cd_until c) ?t"
    by (rule cool_run_keeps [OF assms(1)]) (use assms(2) in \<open>simp add: cooled_until_def\<close>)
  then obtain c' where p: "published ?t" and c': "cooldown_at ?t ?k = Some c'" "cd_until c \<le> cd_until c'"
    using assms(4) by (auto simp: cooled_until_def)
  obtain e where "co_rows ?t ?k = Some (Some c', e)" using c'(1) by (auto simp: cooldown_at_def stored_at_def split: option.splits if_splits)
  from publishedD [OF p this] have k: "cd_until c' \<le> co_now ?t + model_cooldown_max_ms" "cd_kind c' \<in> set provider_failure_kinds" "cd_kind c' \<noteq> ''context-overflow''"
    by auto
  have "co_now s \<le> co_now ?t" by (rule cool_run_later)
  then have "instant_ok (cd_until c')" using k(1) assms(4,5,6) c'(2) by (simp add: instant_ok_def is_safe_def max_safe_def max_instant_def)
  then show ?thesis using c' k assms(4) by (auto simp: read_model_cooldown_def cooldown_at_def split: option.splits)
qed

definition cooling :: cooldowns where
  "cooling = cool_run id [Marks Answered ''p/m'' (Some \<lparr>pf_kind = ''overloaded'', pf_reset = Some 1800000, pf_code = None, pf_provider = None\<rparr>)]
     \<lparr>co_now = 0, co_rows = Map.empty\<rparr>"

lemma cooling_row: "cooling = \<lparr>co_now = 0, co_rows = [model_cooldown_key id ''p/m'' \<mapsto> (Some \<lparr>cd_kind = ''overloaded'', cd_until = 1800000\<rparr>, 1800000)]\<rparr>"
  by (simp add: cooling_def cool_run_def mark_model_cooldown_def provider_failure_of_def provider_failure_kinds_def instant_ok_def is_safe_def
      max_safe_def max_instant_def cooldown_ttl_def model_cooldown_max_ms_def cooldown_script_def cooldown_at_def stored_at_def Let_def)

lemma cooldown_never_shortens_witness:
  "\<exists>c'. read_model_cooldown id (co_now (cool_run id [Ticks 60000] cooling)) ''p/m'' (cool_run id [Ticks 60000] cooling) = Inr (Some c') \<and> 1800000 \<le> cd_until c'"
proof -
  have "published cooling" by (simp add: published_def cooling_row model_cooldown_max_ms_def provider_failure_kinds_def)
  moreover have "cooldown_at cooling (model_cooldown_key id ''p/m'') = Some \<lparr>cd_kind = ''overloaded'', cd_until = 1800000\<rparr>"
    by (simp add: cooling_row cooldown_at_def stored_at_def)
  ultimately show ?thesis
    using cooldown_never_shortens [of cooling id "''p/m''" "\<lparr>cd_kind = ''overloaded'', cd_until = 1800000\<rparr>" "[Ticks 60000]"]
    by (auto simp: cool_run_def cooling_row max_instant_def model_cooldown_max_ms_def)
qed

text \<open>A host whose clock is ahead does shorten one: it publishes a later instant with a shorter life.\<close>

lemma skewed_mark_shortens:
  "cooldown_at (cool_run id [Ticks 60000] (snd (mark_model_cooldown id 3600000 Answered ''p/m''
      (Some \<lparr>pf_kind = ''rate-limited'', pf_reset = None, pf_code = None, pf_provider = None\<rparr>) cooling))) (model_cooldown_key id ''p/m'') = None"
  by (simp add: cooling_row cool_run_def mark_model_cooldown_def provider_failure_of_def provider_failure_kinds_def cooldown_ttl_def
      model_recheck_ms_def model_cooldown_max_ms_def cooldown_script_def cooldown_at_def stored_at_def Let_def)

section \<open>Room\<close>

context counter_store
begin

lemma touch_exact:
  "touch_windows C a ws ts s = (Inr r, ts', s') \<Longrightarrow> distinct (map w_key ws) \<Longrightarrow>
   r = None \<longleftrightarrow> (\<forall>w \<in> set ws. count_at (val s) (w_key w) + a \<le> w_cap w)"
proof (induction ws arbitrary: ts s)
  case (Cons w ws)
  obtain v s1 where i: "c_incrby C (w_key w) a s = (Inr v, s1)"
    using Cons.prems(1) by (auto split: prod.splits sum.splits)
  obtain s2 where e: "(if v = a then c_expire C (w_key w) (w_ttl w) s1 else (Inr (), s1)) = (Inr (), s2)"
    using Cons.prems(1) i by (auto split: prod.splits sum.splits)
  have v: "v = count_at (val s) (w_key w) + a" "val s2 = add_at (val s) (w_key w) a"
    using incrby_ok [OF i] maybe_expire_val [OF e] by auto
  show ?case
  proof (cases "v > w_cap w")
    case True
    then show ?thesis using Cons.prems(1) i e v(1) by auto
  next
    case False
    then have "touch_windows C a ws (ts @ [w]) s2 = (Inr r, ts', s')" using Cons.prems(1) i e by simp
    from Cons.IH [OF this] Cons.prems(2) show ?thesis using False v by (auto simp: image_iff)
  qed
qed simp

lemma room_exact:
  "windows_have_room C a ws s = (Inr b, s') \<Longrightarrow> val s' = val s \<and> (b \<longleftrightarrow> (\<forall>w \<in> set ws. count_at (val s) (w_key w) + a \<le> w_cap w))"
proof (induction ws arbitrary: s)
  case (Cons w ws)
  obtain raw s1 where g: "c_get C (w_key w) s = (Inr raw, s1)" using Cons.prems by (auto split: prod.splits sum.splits)
  have r: "raw = val s (w_key w)" "val s1 = val s" using get_ok [OF g] by auto
  have n: "(case raw of None \<Rightarrow> 0 | Some n \<Rightarrow> n) = count_at (val s) (w_key w)" by (simp add: r count_at_def)
  show ?case
  proof (cases "count_at (val s) (w_key w) + a > w_cap w")
    case True
    then show ?thesis using Cons.prems g n r by (auto simp: Let_def split: if_splits)
  next
    case False
    then have "windows_have_room C a ws s1 = (Inr b, s')" using Cons.prems g n by (auto simp: Let_def split: if_splits)
    from Cons.IH [OF this] show ?thesis using False r by auto
  qed
qed simp

end

text \<open>
  C21: The choice reads the verdict of the reservation: over rows whose windows have keys of their own, when
  the read says that a model's windows have room, the reservation that follows with nothing in between is
  granted, when it says that they have none it is refused, and the read itself reserves nothing.
\<close>

theorem room_is_the_reservation:
  assumes "counter_store C val" "distinct (map w_key (dollar_windows rows now))"
    and "model_window_has_room C rows (Some a) now s = (Inr room, s1)" "reserve_dollars C rows a now s1 = (Inr r, lg, s2)"
  shows "val s1 = val s \<and> (room \<longleftrightarrow> (\<exists>h. r = Held h))"
proof (cases "a = 0 \<or> dollar_windows rows now = []")
  case True
  then have "room" "s1 = s" using assms(3) by (auto simp: model_window_has_room_def split: if_splits)
  moreover have "\<exists>h. r = Held h" using assms(4) True by (auto simp: reserve_dollars_def split: if_splits)
  ultimately show ?thesis by simp
next
  case False
  then have "rows \<noteq> []" by (auto simp: dollar_windows_def)
  then have w: "windows_have_room C a (dollar_windows rows now) s = (Inr room, s1)" using assms(3) False by (simp add: model_window_has_room_def)
  from counter_store.room_exact [OF assms(1) w]
  have v: "val s1 = val s" "room \<longleftrightarrow> (\<forall>w \<in> set (dollar_windows rows now). count_at (val s) (w_key w) + a \<le> w_cap w)" by auto
  obtain x ts s3 where t: "touch_windows C a (dollar_windows rows now) [] s1 = (Inr x, ts, s3)" "x = None \<longleftrightarrow> (\<exists>h. r = Held h)"
    using assms(4) False by (auto simp: reserve_dollars_def split: if_splits prod.splits sum.splits option.splits)
  from counter_store.touch_exact [OF assms(1) t(1) assms(2)] v t(2) show ?thesis by simp
qed

definition small_window :: dledger where
  "small_window = \<lparr>d_prefix = ''d'', d_caps = \<lparr>cap_day = Some 5, cap_week = None, cap_month = None\<rparr>\<rparr>"

lemma room_is_the_reservation_witness:
  "\<exists>s1 r. model_window_has_room mem_client [small_window] (Some 3) 0 mem_init = (Inr True, s1) \<and> (\<exists>h. r = Held h)
    \<and> (\<exists>lg s2. reserve_dollars mem_client [small_window] 3 0 s1 = (Inr r, lg, s2))"
proof -
  have w: "dollar_windows [small_window] 0 = [\<lparr>w_name = Day, w_key = day_key 0 ''d'', w_cap = 5, w_ttl = day_ttl_seconds, w_ledger = ''d''\<rparr>]"
    by (simp add: dollar_windows_def small_window_def List.map_filter_def)
  obtain s1 where r: "model_window_has_room mem_client [small_window] (Some 3) 0 mem_init = (Inr True, s1)" "m_fail s1 = (\<lambda>_. None)" "m_store s1 = Map.empty"
    by (simp add: model_window_has_room_def w mem_step_def mem_init_def is_safe_def max_safe_def Let_def)
  obtain x lg s2 where x: "reserve_dollars mem_client [small_window] 3 0 s1 = (Inr x, lg, s2)"
    using r(2,3) by (simp add: reserve_dollars_def w mem_step_def mem_add_def is_safe_def max_safe_def Let_def)
  have "\<exists>h. x = Held h"
    using room_is_the_reservation [OF mem.counter_store_axioms _ r(1) x] by (simp add: w)
  then show ?thesis using r(1) x by blast
qed

section \<open>The choice\<close>

lemma subscription_gate_facts:
  shows "subscription_gate A ch ref b = Takes b' \<Longrightarrow> (b \<longrightarrow> b') \<and> (\<forall>sub. as_subscription A = Some sub \<longrightarrow> sb_ok (sub ref) \<and> (b \<longrightarrow> sb_managed (sub ref)))"
    and "subscription_gate A ch ref b = Passes b' y w \<Longrightarrow> b \<Longrightarrow> b'"
  by (auto simp: subscription_gate_def Let_def split: option.splits if_splits)

lemma judge_passes_billed: "judge_candidate C rows_of A ch ref b s = (Passes b' y w, s1) \<Longrightarrow> b \<Longrightarrow> b'"
  using subscription_gate_facts
  by (fastforce simp: judge_candidate_def split: option.splits prod.splits if_splits judged.splits sum.splits bool.splits)

text \<open>What a candidate that is taken has passed.\<close>

definition takes :: "asked \<Rightarrow> choice \<Rightarrow> bool \<Rightarrow> string \<Rightarrow> bool" where
  "takes A ch b ref \<longleftrightarrow>
     (\<exists>p m. split_model_entry ref = Some (p, m) \<and> model_on_list (ch_models ch) p m)
   \<and> as_check A ref = Inr None \<and> as_endpoints A ref = Inr True \<and> \<not> context_too_small A ch ref
   \<and> (ch_locked ch \<or> as_cooldown A ref = Inr None \<and> \<not> failed_here ch ref)
   \<and> (\<forall>sub. as_subscription A = Some sub \<longrightarrow> sb_ok (sub ref) \<and> (b \<longrightarrow> sb_managed (sub ref)))"

lemma judge_takes: "judge_candidate C rows_of A ch ref b s = (Takes b', s1) \<Longrightarrow> takes A ch b ref"
  unfolding takes_def judge_candidate_def
  by (auto split: option.splits prod.splits if_splits judged.splits sum.splits bool.splits dest: subscription_gate_facts(1))

lemma takes_unbilled: "takes A ch b ref \<Longrightarrow> (b' \<longrightarrow> b) \<Longrightarrow> takes A ch b' ref"
  by (auto simp: takes_def)

lemma pick_selected:
  "pick_model C rows_of A ch refs b why wait s = (Inr (Selected ref w), s') \<Longrightarrow>
   ref \<in> set refs \<and> takes A ch b ref"
proof (induction refs arbitrary: b why wait s)
  case Nil
  then show ?case by (auto split: option.splits)
next
  case (Cons x refs)
  obtain v s1 where j: "judge_candidate C rows_of A ch x b s = (v, s1)" by fastforce
  show ?case
  proof (cases v)
    case (Takes b')
    then show ?thesis using Cons.prems j judge_takes [of C rows_of A ch x b s b' s1] by simp
  next
    case (Passes b' y w')
    with Cons.prems j have "ref \<in> set refs \<and> takes A ch b' ref" by (intro Cons.IH) simp
    then show ?thesis using judge_passes_billed [of C rows_of A ch x b s] j Passes takes_unbilled by fastforce
  qed (use Cons.prems j in simp)
qed

lemma once_each_set [simp]: "set (once_each xs) = set xs"
  by (induction xs) auto

text \<open>Which names an attempt may run on, from what the last one left.\<close>

definition may_run :: "model_job \<Rightarrow> bool \<Rightarrow> model_attempt option option \<Rightarrow> string option \<Rightarrow> asked \<Rightarrow> string \<Rightarrow> bool" where
  "may_run j retry stored recovery A ref =
     (case recovery of Some r \<Rightarrow> ref = r
      | None \<Rightarrow>
          (case (if retry then Option.bind stored id else None) of
             None \<Rightarrow> (if retry then ref = mj_provider j @ ''/'' @ mj_model j
                       else ref \<in> set ((mj_provider j @ ''/'' @ mj_model j) # the (mj_fallbacks j)) \<and> as_cooldown A ref = Inr None)
           | Some a \<Rightarrow> (if ma_safe a then ref \<in> set ((mj_provider j @ ''/'' @ mj_model j) # the (mj_fallbacks j)) \<and> as_cooldown A ref = Inr None \<and> ref \<noteq> ma_ref a
                          else ref = ma_ref a)))"

lemma choice_of_simps [simp]:
  "ch_models (choice_of A j locked previous now) = mj_models j"
  "ch_locked (choice_of A j locked previous now) \<longleftrightarrow> locked \<noteq> None"
  "ch_previous (choice_of A j locked previous now) = previous"
  by (simp_all add: choice_of_def Let_def)

text \<open>After an overflow only a larger context will do, and no model's is larger than its own.\<close>

lemma same_model_never_larger:
  "previous = Some x \<Longrightarrow> map_option pf_kind (ma_failure x) = Some ''context-overflow'' \<Longrightarrow> context_too_small A (choice_of A j None previous now) (ma_ref x)"
  by (simp add: context_too_small_def choice_of_def Let_def split: option.split)

text \<open>
  C19: What an attempt runs on is allowed: the model chosen is on the job's list, passed its checks and holds
  its endpoints; a recovery runs on the model it names and a retry that may have had effects on the model it
  had; any other runs on the primary or a reviewed fallback that is not cooling, a safe retry never on the
  model that has just failed; and where the primary is billed to a subscription, so is the model chosen.
\<close>

theorem failover_choice_sound:
  assumes "select_failover_job C rows_of A j retry stored never_started recovery now s = (Inr (Selected ref why), s')"
  shows "(\<exists>p m. split_model_entry ref = Some (p, m) \<and> model_on_list (mj_models j) p m)
    \<and> as_check A ref = Inr None \<and> as_endpoints A ref = Inr True \<and> may_run j retry stored recovery A ref
    \<and> (\<forall>sub. as_subscription A = Some sub \<longrightarrow> sb_ok (sub ref) \<and> (sb_managed (as_primary A) \<longrightarrow> sb_managed (sub ref)))"
proof -
  let ?read = "if retry then (case stored of None \<Rightarrow> Inr None | Some row \<Rightarrow> map_sum id Some (read_model_attempt row)) else Inr None"
  obtain previous where pv: "?read = Inr previous" "failover_list_usable j"
    using assms by (auto simp: select_failover_job_def Let_def split: if_splits sum.splits)
  let ?locked = "locked_model recovery retry previous (mj_provider j @ ''/'' @ mj_model j)"
  let ?ch = "choice_of A j ?locked previous now"
  obtain y where p: "pick_model C rows_of A ?ch (once_each (case ?locked of Some r \<Rightarrow> [r] | None \<Rightarrow> (mj_provider j @ ''/'' @ mj_model j) # the (mj_fallbacks j)))
      (as_subscription A \<noteq> None \<and> sb_managed (as_primary A)) y None s = (Inr (Selected ref why), s')"
    using assms pv(2) unfolding select_failover_job_def Let_def pv(1) sum.case
    by (simp only: not_True_eq_False if_False prod.inject sum.inject selection.distinct simp_thms split: if_split_asm)
  from pick_selected [OF p] have r: "ref \<in> set (case ?locked of Some r \<Rightarrow> [r] | None \<Rightarrow> (mj_provider j @ ''/'' @ mj_model j) # the (mj_fallbacks j))"
    and t: "takes A ?ch (as_subscription A \<noteq> None \<and> sb_managed (as_primary A)) ref" by simp_all
  have "may_run j retry stored recovery A ref"
  proof (cases recovery)
    case (Some x)
    then show ?thesis using r by (simp add: locked_model_def may_run_def)
  next
    case None
    show ?thesis
    proof (cases "if retry then Option.bind stored id else None")
      case n: None
      then have "previous = None" using pv(1) by (auto simp: read_model_attempt_def split: if_splits option.splits)
      then show ?thesis using r t n None by (cases retry) (auto simp: locked_model_def may_run_def takes_def)
    next
      case (Some a)
      then have a: "retry" "stored = Some (Some a)" by (auto split: if_splits simp: Option.bind_eq_Some_conv)
      then obtain x where x: "previous = Some x" "ma_ref x = ma_ref a" "ma_safe x = ma_safe a"
        using pv(1) by (auto simp: read_model_attempt_def split: if_splits)
      show ?thesis
      proof (cases "ma_safe a")
        case False
        then show ?thesis using r x a None by (simp add: locked_model_def may_run_def)
      next
        case True
        then have l: "?locked = None" using x None by (simp add: locked_model_def)
        have "ref \<noteq> ma_ref a" using t x True l same_model_never_larger [of previous x A j now]
          by (auto simp: takes_def failed_here_def)
        then show ?thesis using r t l x a None True by (auto simp: may_run_def takes_def)
      qed
    qed
  qed
  then show ?thesis using t by (auto simp: takes_def)
qed

text \<open>A job whose primary cools and that has one fallback.\<close>

definition two_models :: model_job where
  "two_models = \<lparr>mj_provider = ''p'', mj_model = ''m'', mj_models = Some [''p/m'', ''q/n''], mj_fallbacks = Some [''q/n'']\<rparr>"

definition primary_cools :: asked where
  "primary_cools = \<lparr>as_subscription = None, as_primary = \<lparr>sb_unavailable = False, sb_managed = False, sb_ok = True, sb_wait = None, sb_reason = None\<rparr>,
     as_check = (\<lambda>_. Inr None), as_context = (\<lambda>_. None),
     as_cooldown = (\<lambda>r. Inr (if r = ''p/m'' then Some \<lparr>cd_kind = ''overloaded'', cd_until = 9\<rparr> else None)),
     as_reservation = (\<lambda>_. None), as_endpoints = (\<lambda>_. Inr True)\<rparr>"

lemma failover_choice_sound_witness:
  "fst (select_failover_job mem_client (\<lambda>_. Inr []) primary_cools two_models False None False None 0 mem_init) = Inr (Selected ''q/n'' ''fallback-cooldown'')
    \<and> may_run two_models False None None primary_cools ''q/n''"
proof -
  have f: "fst (select_failover_job mem_client (\<lambda>_. Inr []) primary_cools two_models False None False None 0 mem_init) = Inr (Selected ''q/n'' ''fallback-cooldown'')"
    by code_simp
  then obtain s' where "select_failover_job mem_client (\<lambda>_. Inr []) primary_cools two_models False None False None 0 mem_init
      = (Inr (Selected ''q/n'' ''fallback-cooldown''), s')"
    by (cases "select_failover_job mem_client (\<lambda>_. Inr []) primary_cools two_models False None False None 0 mem_init") simp
  from failover_choice_sound [OF this] f show ?thesis by blast
qed

end
