(* ===== verification/CpuReserve.thy ===== *)
theory CpuReserve
  imports HostFacts Scope Json
begin

text \<open>
  The aggregate CPU reserve of the job containers (worker/src/cpu-reserve.mjs): the commands that set and
  read the quota of their one parent cgroup, what a venue allows, and the state kept in step with the
  budget. Running a command is a parameter: it answers a result and changes the machine \<open>'k\<close>, whose
  clock is read as the code reads it. Texts are ASCII; the log lines are outside.
\<close>

section \<open>Commands\<close>

definition cgroup_parent :: string where "cgroup_parent = ''pidispatch.slice''"

definition reserve_recheck_ms :: int where "reserve_recheck_ms = 10 * 60000"

definition reserve_retry_ms :: int where "reserve_retry_ms = 60000"

definition quota_period_us :: nat where "quota_period_us = 100000"

text \<open>A quota in hundredths of a CPU.\<close>

definition cpu_quota_property :: "nat \<Rightarrow> string" where "cpu_quota_property c = ''CPUQuota='' @ nat_text c @ ''%''"

definition cpu_max_line :: "nat \<Rightarrow> string" where
  "cpu_max_line c = nat_text (c * (quota_period_us div 100)) @ '' '' @ nat_text quota_period_us"

text \<open>\<open>None\<close> clears the quota.\<close>

definition quota_setting :: "nat option \<Rightarrow> string" where
  "quota_setting c = (case c of None \<Rightarrow> ''CPUQuota='' | Some n \<Rightarrow> cpu_quota_property n)"

definition operator_quota_command :: "nat option \<Rightarrow> string" where
  "operator_quota_command c = ''sudo systemctl set-property '' @ cgroup_parent @ '' '' @ quota_setting c"

definition user_quota_command :: "nat option \<Rightarrow> string" where
  "user_quota_command c = ''systemctl --user set-property '' @ cgroup_parent @ '' '' @ quota_setting c"

definition user_set_property_args :: "nat option \<Rightarrow> string list" where
  "user_set_property_args c = [''--user'', ''set-property'', cgroup_parent, quota_setting c]"

definition show_quota_args :: "bool \<Rightarrow> string list" where
  "show_quota_args user = (if user then [''--user''] else []) @ [''show'', ''-P'', ''CPUQuotaPerSecUSec'', cgroup_parent]"

definition helper_parent_path :: string where "helper_parent_path = ''/sys/fs/cgroup/'' @ cgroup_parent"

text \<open>What a helper is asked: to read, to clear, or to write a quota, none where the caller's is no
  positive safe integer. It refuses an image that is empty or could be an option.\<close>

datatype helper_ask = Read_quota | Write_quota "nat option"

definition helper_args :: "string \<Rightarrow> helper_ask \<Rightarrow> string list option" where
  "helper_args img a =
     (if img = [] \<or> hd img = CHR ''-'' then None
      else if (case a of Write_quota (Some c) \<Rightarrow> \<not> (is_safe (int c) \<and> 0 < c) | _ \<Rightarrow> False) then None
      else Some
        ([''run'', ''--rm'', ''--pull=never'', ''--user=0:0'', ''--cap-drop=ALL'', ''--security-opt'', ''no-new-privileges'',
          ''--network=none'', ''--read-only'', ''--cgroup-parent='' @ cgroup_parent, ''-v'',
          helper_parent_path @ '':/p'' @ (case a of Read_quota \<Rightarrow> '':ro'' | _ \<Rightarrow> []), ''--entrypoint'',
          (case a of Read_quota \<Rightarrow> ''cat'' | _ \<Rightarrow> ''sh''), img]
         @ (case a of Read_quota \<Rightarrow> [''/p/cpu.max'']
            | Write_quota c \<Rightarrow> [''-c'', ''echo '' @ [CHR 0x22] @ (case c of None \<Rightarrow> ''max '' @ nat_text quota_period_us | Some n \<Rightarrow> cpu_max_line n)
                 @ [CHR 0x22] @ '' > /p/cpu.max''])))"

section \<open>What a quota reads as\<close>

definition span_units :: "string list" where "span_units = [''us'', ''ms'', ''s'', ''min'', ''h'']"

definition starts_with :: "string \<Rightarrow> string \<Rightarrow> bool" where "starts_with p s \<longleftrightarrow> take (length p) s = p"

text \<open>One number of up to twelve digits and up to nine behind a point, with its unit, and the rest.\<close>

definition span_item :: "string \<Rightarrow> ((string \<times> string) \<times> string) option" where
  "span_item s =
     (let ds = takeWhile is_digit s; r = drop (length ds) s;
          fs = (case r of c # cs \<Rightarrow> if c = CHR ''.'' then takeWhile is_digit cs else [] | [] \<Rightarrow> []);
          r' = (if fs = [] then r else drop (length fs + 1) r);
          n = (if fs = [] then ds else ds @ ''.'' @ fs)
      in if \<not> digits_upto 12 ds \<or> 9 < length fs then None
         else (case find (\<lambda>u. starts_with u r') span_units of None \<Rightarrow> None
           | Some u \<Rightarrow> Some ((n, u), dropWhile is_blank (drop (length u) r'))))"

fun span_items :: "nat \<Rightarrow> string \<Rightarrow> (string \<times> string) list option" where
  "span_items 0 s = None"
| "span_items (Suc n) s =
     (case span_item s of None \<Rightarrow> None
      | Some (x, r) \<Rightarrow> if r = [] then Some [x] else map_option ((#) x) (span_items n r))"

text \<open>\<open>usec\<close> is \<open>Math.round\<close> of the sum of the items in microseconds, in floating point. Some \<open>None\<close> is
  no quota. Every item takes a character, so the text's length bounds their number.\<close>

definition parse_quota_per_sec :: "((string \<times> string) list \<Rightarrow> int) \<Rightarrow> string \<Rightarrow> nat option option" where
  "parse_quota_per_sec usec text =
     (let v = HostFacts.trim text in
      if v = ''infinity'' then Some None
      else case span_items (length v) v of None \<Rightarrow> None
        | Some xs \<Rightarrow> (let c = usec xs div 10000 in if is_safe c \<and> 0 < c then Some (Some (nat c)) else None))"

definition parse_cpu_max_read :: "(int \<Rightarrow> int \<Rightarrow> int) \<Rightarrow> string \<Rightarrow> nat option option" where
  "parse_cpu_max_read fquot text =
     (let v = HostFacts.trim text in
      if starts_with ''max '' v \<and> digits_upto 15 (drop 4 v) then Some None
      else map_option (\<lambda>c. Some (nat c)) (parse_cpu_max fquot (Some v)))"

section \<open>Venues\<close>

record runtime_facts =
  rf_manager :: "string option"
  rf_version :: "string option"
  rf_rootless :: bool
  rf_driver :: "string option"

definition cgroup_parent_for :: "bool \<Rightarrow> string option \<Rightarrow> string option" where
  "cgroup_parent_for podman manager =
     (if podman \<and> manager \<noteq> None \<and> manager \<noteq> Some ''systemd'' then None else Some cgroup_parent)"

record reserve_plan =
  rp_venue :: string
  rp_parent :: bool
  rp_method :: "string option"
  rp_why :: "string option"

text \<open>A version that is there, not empty and not \<open>v2\<close>.\<close>

definition other_version :: "runtime_facts \<Rightarrow> bool" where
  "other_version f \<longleftrightarrow> rf_version f \<notin> {None, Some [], Some ''v2''}"

definition plan_reserve :: "string \<Rightarrow> runtime_facts \<Rightarrow> bool \<Rightarrow> string \<Rightarrow> reserve_plan" where
  "plan_reserve venue f endpoint_local platform =
     (let plan = (\<lambda>p m w. \<lparr>rp_venue = venue, rp_parent = p, rp_method = m, rp_why = w\<rparr>) in
      if venue \<noteq> ''local'' \<and> venue \<noteq> ''podman'' then plan False None (Some ''venue-unmanaged'')
      else if venue = ''podman''
      then (if cgroup_parent_for True (rf_manager f) = None then plan False None (Some ''podman-cgroupfs'')
            else if other_version f then plan True None (Some ''cgroup-v1'')
            else if rf_rootless f then plan True (Some ''user-systemd'') None
            else plan True None (Some ''podman-rootful-remote''))
      else if other_version f then plan True None (Some ''cgroup-v1'')
      else if rf_rootless f then plan True None (Some ''rootless-docker'')
      else if rf_driver f = Some ''cgroupfs'' then plan True (Some ''helper'') None
      else if rf_driver f = Some ''systemd''
      then (if endpoint_local \<and> platform = ''linux'' then plan True (Some ''system-systemd'') None else plan True None (Some ''remote-daemon''))
      else plan True None (Some ''driver-unknown''))"

section \<open>Running them\<close>

record cmd_error =
  ce_timed_out :: bool
  ce_killed :: bool
  ce_code :: "string option"

record cmd_result =
  cr_error :: "cmd_error option"
  cr_ended :: "string option"
  cr_code :: "int option"
  cr_out :: string

definition step_failure :: "cmd_result \<Rightarrow> string \<Rightarrow> string option" where
  "step_failure r bin =
     (if (case cr_error r of None \<Rightarrow> False | Some e \<Rightarrow> ce_timed_out e \<or> ce_killed e) \<or> cr_ended r = Some ''timeout'' then Some ''timeout''
      else if cr_ended r = Some ''error'' then Some ''spawn-failed''
      else if Option.bind (cr_error r) ce_code = Some ''ENOENT'' then Some (bin @ ''-not-found'')
      else case Option.bind (cr_error r) ce_code of
        Some c \<Rightarrow> Some (''spawn-'' @ lower_text c)
      | None \<Rightarrow>
          (case cr_code r of
             Some n \<Rightarrow> if is_safe n \<and> n \<noteq> 0 then Some (''exit-'' @ Json.int_text n)
                       else if cr_error r \<noteq> None then Some ''spawn-failed'' else None
           | None \<Rightarrow> if cr_error r \<noteq> None then Some ''spawn-failed'' else None))"

type_synonym 'k exec = "string \<Rightarrow> string list \<Rightarrow> 'k \<Rightarrow> cmd_result \<times> 'k"

text \<open>A rejection of \<open>run\<close> is a result with an error, as the code makes it; a throw of \<open>helper_args\<close> is the
  outer \<open>None\<close>.\<close>

record parsers =
  ps_quot :: "int \<Rightarrow> int \<Rightarrow> int"
  ps_usec :: "(string \<times> string) list \<Rightarrow> int"

definition runtime_bin :: "reserve_plan \<Rightarrow> string" where
  "runtime_bin p = (if rp_venue p = ''podman'' then ''podman'' else ''docker'')"

definition read_quota :: "parsers \<Rightarrow> 'k exec \<Rightarrow> string \<Rightarrow> reserve_plan \<Rightarrow> 'k \<Rightarrow> (string + nat option) option \<times> 'k" where
  "read_quota P run img p k =
     (let answer = (\<lambda>used parse r. case step_failure r used of Some e \<Rightarrow> Inl e
          | None \<Rightarrow> (case parse (cr_out r) of None \<Rightarrow> Inl ''unparseable'' | Some q \<Rightarrow> Inr q))
      in if rp_method p = Some ''user-systemd'' \<or> rp_method p = Some ''system-systemd''
         then (case run ''systemctl'' (show_quota_args (rp_method p = Some ''user-systemd'')) k of
                 (r, k1) \<Rightarrow> (Some (answer ''systemctl'' (parse_quota_per_sec (ps_usec P)) r), k1))
         else if rp_method p = Some ''helper''
         then (case helper_args img Read_quota of None \<Rightarrow> (None, k)
               | Some as \<Rightarrow> (case run (runtime_bin p) as k of
                   (r, k1) \<Rightarrow> (Some (answer (runtime_bin p) (parse_cpu_max_read (ps_quot P)) r), k1)))
         else (Some (Inl (case rp_why p of None \<Rightarrow> ''unmanaged'' | Some w \<Rightarrow> w)), k))"

definition write_quota :: "'k exec \<Rightarrow> string \<Rightarrow> reserve_plan \<Rightarrow> nat option \<Rightarrow> 'k \<Rightarrow> string option option \<times> 'k" where
  "write_quota run img p c k =
     (if rp_method p = Some ''user-systemd''
      then (case run ''systemctl'' (user_set_property_args c) k of (r, k1) \<Rightarrow> (Some (step_failure r ''systemctl''), k1))
      else if rp_method p = Some ''helper''
      then (case helper_args img (Write_quota c) of None \<Rightarrow> (None, k)
            | Some as \<Rightarrow> (case run (runtime_bin p) as k of (r, k1) \<Rightarrow> (Some (step_failure r (runtime_bin p)), k1)))
      else (Some (Some (if rp_method p = Some ''system-systemd'' then ''needs-root''
              else (case rp_why p of None \<Rightarrow> ''unmanaged'' | Some w \<Rightarrow> w))), k))"

section \<open>The state per venue\<close>

text \<open>A field that was not read or not wanted is the outer \<open>None\<close>.\<close>

datatype reserve_status = Held_quota | Unset | Differs | Unreadable | Unmanaged | No_parent | Budget_unknown

record reserve_state =
  rs_method :: "string option"
  rs_status :: reserve_status
  rs_want :: "nat option option"
  rs_quota :: "nat option option"
  rs_reason :: "string option"
  rs_checked :: int

datatype cpu_budget = Unknown_budget | Budget_off | Budget nat

definition read_status :: "string + nat option \<Rightarrow> reserve_status" where
  "read_status r = (case r of Inl _ \<Rightarrow> Unreadable | Inr None \<Rightarrow> Unset | Inr (Some _) \<Rightarrow> Differs)"

definition read_value :: "string + nat option \<Rightarrow> nat option option" where
  "read_value r = (case r of Inl _ \<Rightarrow> None | Inr q \<Rightarrow> Some q)"

definition is_fresh :: "reserve_state option \<Rightarrow> nat option \<Rightarrow> reserve_plan \<Rightarrow> int \<Rightarrow> bool" where
  "is_fresh prev want p t \<longleftrightarrow>
     (case prev of None \<Rightarrow> False
      | Some s \<Rightarrow> rs_want s = Some want \<and> rs_method s = rp_method p
          \<and> t - rs_checked s < (if rs_status s = Held_quota then reserve_recheck_ms else reserve_retry_ms))"

text \<open>One venue: the state to record, none when the last one still stands; the outer \<open>None\<close> is a throw.\<close>

definition sync_venue ::
  "parsers \<Rightarrow> 'k exec \<Rightarrow> ('k \<Rightarrow> int) \<Rightarrow> string \<Rightarrow> reserve_state option \<Rightarrow> reserve_plan \<Rightarrow> cpu_budget \<Rightarrow> 'k \<Rightarrow> reserve_state option option \<times> 'k" where
  "sync_venue P run clock img prev p budget k =
     (let base = \<lparr>rs_method = rp_method p, rs_status = Unmanaged, rs_want = None, rs_quota = None, rs_reason = rp_why p, rs_checked = clock k\<rparr>;
          want = (case budget of Budget c \<Rightarrow> Some c | _ \<Rightarrow> None)
      in if \<not> rp_parent p then (Some (Some (base\<lparr>rs_status := No_parent\<rparr>)), k)
         else if budget = Unknown_budget then (Some (Some (base\<lparr>rs_status := Budget_unknown, rs_reason := Some ''budget-unknown''\<rparr>)), k)
         else if rp_method p = None then (Some (Some (base\<lparr>rs_want := Some want\<rparr>)), k)
         else if is_fresh prev want p (clock k) then (Some None, k)
         else case read_quota P run img p k of
           (None, k1) \<Rightarrow> (None, k1)
         | (Some seen, k1) \<Rightarrow>
             if seen = Inr want
             then (Some (Some (base\<lparr>rs_want := Some want, rs_quota := Some want, rs_status := Held_quota, rs_reason := None, rs_checked := clock k1\<rparr>)), k1)
             else if rp_method p = Some ''system-systemd''
             then (Some (Some (base\<lparr>rs_want := Some want, rs_quota := read_value seen, rs_status := read_status seen,
                     rs_reason := Some (case seen of Inl e \<Rightarrow> e | Inr _ \<Rightarrow> ''needs-root''), rs_checked := clock k1\<rparr>)), k1)
             else case write_quota run img p want k1 of
               (None, k2) \<Rightarrow> (None, k2)
             | (Some wrote, k2) \<Rightarrow>
                 (case read_quota P run img p k2 of
                    (None, k3) \<Rightarrow> (None, k3)
                  | (Some back, k3) \<Rightarrow>
                      if wrote = None \<and> back = Inr want
                      then (Some (Some (base\<lparr>rs_want := Some want, rs_quota := Some want, rs_status := Held_quota, rs_reason := None, rs_checked := clock k3\<rparr>)), k3)
                      else (Some (Some (base\<lparr>rs_want := Some want, rs_quota := read_value back, rs_status := read_status back,
                              rs_reason := Some (case wrote of Some e \<Rightarrow> ''write-'' @ e
                                | None \<Rightarrow> (case back of Inl e \<Rightarrow> ''read-'' @ e | Inr _ \<Rightarrow> ''not-applied'')),
                              rs_checked := clock k3\<rparr>)), k3)))"

text \<open>A throw is recorded as unreadable; its code is \<open>helper_args\<close>' plain error.\<close>

fun sync_reserve ::
  "parsers \<Rightarrow> 'k exec \<Rightarrow> ('k \<Rightarrow> int) \<Rightarrow> string \<Rightarrow> cpu_budget \<Rightarrow> reserve_plan list \<Rightarrow> (string \<Rightarrow> reserve_state option) \<Rightarrow> 'k
     \<Rightarrow> (string \<Rightarrow> reserve_state option) \<times> 'k" where
  "sync_reserve P run clock img budget [] states k = (states, k)"
| "sync_reserve P run clock img budget (p # ps) states k =
     (case sync_venue P run clock img (states (rp_venue p)) p budget k of
        (Some None, k1) \<Rightarrow> sync_reserve P run clock img budget ps states k1
      | (Some (Some s), k1) \<Rightarrow> sync_reserve P run clock img budget ps (states(rp_venue p \<mapsto> s)) k1
      | (None, k1) \<Rightarrow> sync_reserve P run clock img budget ps
          (states(rp_venue p \<mapsto> \<lparr>rs_method = rp_method p, rs_status = Unreadable, rs_want = None, rs_quota = None,
             rs_reason = Some ''threw-error'', rs_checked = clock k1\<rparr>)) k1)"

end
