(* ===== verification/CpuReserveFacts.thy ===== *)
theory CpuReserveFacts
  imports CpuReserve
begin

text \<open>
  What the reserve guarantees: a quota written reads back, a state that says held was read back and no
  command was run that the venue does not allow, and on a machine that works one sync ends held.
\<close>

section \<open>Reading a quota back\<close>

text \<open>The quotient is exact while its product is.\<close>

definition exact_quot :: "(int \<Rightarrow> int \<Rightarrow> int) \<Rightarrow> bool" where
  "exact_quot fquot \<longleftrightarrow> (\<forall>q p. 0 < p \<longrightarrow> 0 \<le> q \<longrightarrow> q * 100 \<le> max_safe \<longrightarrow> fquot q p = q * 100 div p)"

lemma trim_ends:
  assumes "s \<noteq> []" "\<not> is_blank (hd s)" "\<not> is_blank (last s)" "list_all is_blank b"
  shows "HostFacts.trim (s @ b) = s"
proof -
  have f: "dropWhile is_blank (s @ b) = s @ b" using assms(1,2) by (cases s) auto
  have "dropWhile is_blank (rev b @ rev s) = rev s"
    using assms(1,3,4) by (cases s rule: rev_cases) (auto simp: dropWhile_append list_all_iff)
  then show ?thesis by (simp add: HostFacts.trim_def f)
qed

lemma digit_not_blank: "is_digit c \<Longrightarrow> \<not> is_blank c"
  by (auto simp: is_digit_def is_blank_def)

lemma nat_text_ends: "\<not> is_blank (hd (nat_text n))" "\<not> is_blank (last (nat_text n))"
  using nat_text_digits [of "hd (nat_text n)" n] nat_text_digits [of "last (nat_text n)" n] digit_not_blank by auto

lemma nat_text_length: "n < 10 ^ k \<Longrightarrow> 0 < k \<Longrightarrow> length (nat_text n) \<le> k"
proof (induction n arbitrary: k rule: nat_text.induct)
  case (1 n)
  show ?case
  proof (cases "n < 10")
    case False
    then obtain k' where k: "k = Suc k'" "0 < k'" using 1(2,3) by (cases k; cases "k - 1") auto
    then have "n div 10 < 10 ^ k'" using 1(2) by (simp add: less_mult_imp_div_less)
    from 1(1) [OF False this k(2)] show ?thesis using False k by (simp add: nat_text.simps [of n])
  qed (use 1(3) in \<open>simp add: nat_text.simps [of n]\<close>)
qed

lemma period_text: "nat_text quota_period_us = ''100000''" "text_nat ''100000'' = 100000"
proof -
  show n: "nat_text quota_period_us = ''100000''"
    by (simp add: quota_period_us_def nat_text.simps digit_char_def)
  show "text_nat ''100000'' = 100000"
    using text_nat_text [of quota_period_us] unfolding n by (simp add: quota_period_us_def)
qed

lemma cpu_max_line_parts: "cpu_max_line c = nat_text (c * 1000) @ '' 100000''"
  unfolding cpu_max_line_def period_text by (simp add: quota_period_us_def)

lemma max_line_parts: "''max '' @ nat_text quota_period_us = ''max 100000''"
  by (simp add: period_text)

lemma not_max: "\<not> starts_with ''max '' (nat_text n @ s)"
proof
  assume "starts_with ''max '' (nat_text n @ s)"
  then have "hd (nat_text n) = CHR ''m''" by (cases "nat_text n") (auto simp: starts_with_def)
  then show False using nat_text_digits [of "hd (nat_text n)" n] hd_in_set [of "nat_text n"] by (simp add: is_digit_def)
qed

text \<open>What the file of a quota holds, and how the helper prints it.\<close>

definition cpu_max_text :: "nat option \<Rightarrow> string" where
  "cpu_max_text q = (case q of None \<Rightarrow> ''max '' @ nat_text quota_period_us | Some c \<Rightarrow> cpu_max_line c)"

definition quota_fits :: "nat option \<Rightarrow> bool" where
  "quota_fits q \<longleftrightarrow> (case q of None \<Rightarrow> True | Some c \<Rightarrow> 0 < c \<and> c \<le> 90000000000)"

lemma cpu_quota_reads:
  assumes "exact_quot fquot" "quota_fits q" "list_all is_blank b"
  shows "parse_cpu_max_read fquot (cpu_max_text q @ b) = Some q"
proof (cases q)
  case None
  have "HostFacts.trim (''max 100000'' @ b) = ''max 100000''" by (rule trim_ends) (use assms(3) in \<open>auto simp: is_blank_def\<close>)
  then show ?thesis using None max_line_parts
    by (simp add: parse_cpu_max_read_def cpu_max_text_def starts_with_def digits_upto_def is_digit_def)
next
  case (Some c)
  have c: "0 < c" "c \<le> 90000000000" using assms(2) Some by (auto simp: quota_fits_def)
  let ?t = "nat_text (c * 1000) @ '' 100000''"
  have t: "HostFacts.trim (?t @ b) = ?t" using nat_text_ends(1) [of "c * 1000"] assms(3) by (intro trim_ends) (auto simp: is_blank_def)
  have t': "HostFacts.trim ?t = ?t" using nat_text_ends(1) [of "c * 1000"] trim_ends [of ?t "[]"] by (auto simp: is_blank_def)
  have w: "takeWhile is_digit ?t = nat_text (c * 1000)"
    using nat_text_digits by (auto simp: takeWhile_append list_all_iff is_digit_def)
  have l: "length (nat_text (c * 1000)) \<le> 15" using c by (intro nat_text_length) auto
  have d: "list_all is_digit (nat_text (c * 1000))" by (auto simp: list_all_iff dest: nat_text_digits)
  have q: "fquot (int (c * 1000)) 100000 = int c"
    using assms(1) c by (auto simp: exact_quot_def max_safe_def)
  have "parse_cpu_max fquot (Some ?t) = Some (int c)"
    using c w l d q t' period_text(2) by (simp add: parse_cpu_max_def Let_def digits_upto_def is_digit_def)
  then show ?thesis using Some not_max [of "c * 1000" "'' 100000''"] t
    by (simp add: parse_cpu_max_read_def cpu_max_text_def cpu_max_line_parts)
qed

text \<open>
  C40: A quota reads back: what the worker writes into \<open>cpu.max\<close>, printed with any white space behind it, is
  read as the quota that was written, for every budget up to nine hundred million CPUs and for none.
\<close>

theorem cpu_quota_roundtrip:
  assumes "exact_quot fquot" "quota_fits q" "list_all is_blank b"
  shows "parse_cpu_max_read fquot (cpu_max_text q @ b) = Some q"
  using assms by (rule cpu_quota_reads)

lemma cpu_quota_roundtrip_witness: "parse_cpu_max_read (\<lambda>q p. q * 100 div p) (cpu_max_text (Some 300) @ [CHR 0x0A]) = Some (Some 300)"
  by (rule cpu_quota_roundtrip) (simp_all add: exact_quot_def quota_fits_def is_blank_def)

section \<open>What a sync runs and records\<close>

text \<open>A machine that keeps the commands it ran with their results.\<close>

type_synonym ran = "string \<times> string list \<times> cmd_result"

definition logs :: "('k \<Rightarrow> ran list) \<Rightarrow> 'k exec \<Rightarrow> bool" where
  "logs log run \<longleftrightarrow> (\<forall>bin as k. log (snd (run bin as k)) = log k @ [(bin, as, fst (run bin as k))])"

definition is_read :: "string \<Rightarrow> reserve_plan \<Rightarrow> ran \<Rightarrow> bool" where
  "is_read img p c \<longleftrightarrow>
     (case c of (bin, as, r) \<Rightarrow>
        rp_method p = Some ''user-systemd'' \<and> bin = ''systemctl'' \<and> as = show_quota_args True
      \<or> rp_method p = Some ''system-systemd'' \<and> bin = ''systemctl'' \<and> as = show_quota_args False
      \<or> rp_method p = Some ''helper'' \<and> bin = runtime_bin p \<and> helper_args img Read_quota = Some as)"

definition is_write :: "string \<Rightarrow> reserve_plan \<Rightarrow> nat option \<Rightarrow> ran \<Rightarrow> bool" where
  "is_write img p want c \<longleftrightarrow>
     (case c of (bin, as, r) \<Rightarrow>
        rp_method p = Some ''user-systemd'' \<and> bin = ''systemctl'' \<and> as = user_set_property_args want
      \<or> rp_method p = Some ''helper'' \<and> bin = runtime_bin p \<and> helper_args img (Write_quota want) = Some as)"

text \<open>The quota a read's result says there is.\<close>

definition says_quota :: "parsers \<Rightarrow> ran \<Rightarrow> nat option \<Rightarrow> bool" where
  "says_quota P c q \<longleftrightarrow>
     (case c of (bin, as, r) \<Rightarrow> step_failure r bin = None
        \<and> (if bin = ''systemctl'' then parse_quota_per_sec (ps_usec P) (cr_out r) else parse_cpu_max_read (ps_quot P) (cr_out r)) = Some q)"

lemma logsD: "logs log run \<Longrightarrow> run bin as k = (r, k') \<Longrightarrow> log k' = log k @ [(bin, as, r)]"
  unfolding logs_def by (metis fst_conv snd_conv)

lemma runtime_bin_not_systemctl [simp]: "runtime_bin p \<noteq> ''systemctl''"
  by (simp add: runtime_bin_def)

lemma read_quota_ran:
  assumes "logs log run" "read_quota P run img p k = (x, k')"
  obtains (nothing) "log k' = log k" "\<And>q. x \<noteq> Some (Inr q)"
  | (ran) c where "log k' = log k @ [c]" "is_read img p c" "\<And>q. x = Some (Inr q) \<Longrightarrow> says_quota P c q"
proof -
  consider (sys) "rp_method p = Some ''user-systemd'' \<or> rp_method p = Some ''system-systemd''" | (by_helper) "rp_method p = Some ''helper''"
    | (none) "rp_method p \<notin> {Some ''user-systemd'', Some ''system-systemd'', Some ''helper''}" by blast
  then show thesis
  proof cases
    case sys
    obtain r k1 where r: "run ''systemctl'' (show_quota_args (rp_method p = Some ''user-systemd'')) k = (r, k1)" by fastforce
    have k: "k1 = k'" using assms(2) sys r by (auto simp: read_quota_def Let_def)
    show ?thesis
      by (rule ran [of "(''systemctl'', show_quota_args (rp_method p = Some ''user-systemd''), r)"])
        (use assms(2) sys r k logsD [OF assms(1) r] in \<open>auto simp: read_quota_def Let_def is_read_def says_quota_def split: option.splits\<close>)
  next
    case by_helper
    show ?thesis
    proof (cases "helper_args img Read_quota")
      case None
      show ?thesis by (rule nothing) (use None assms(2) by_helper in \<open>auto simp: read_quota_def Let_def\<close>)
    next
      case (Some as)
      obtain r k1 where r: "run (runtime_bin p) as k = (r, k1)" by fastforce
      have k: "k1 = k'" using assms(2) by_helper Some r by (auto simp: read_quota_def Let_def)
      show ?thesis
        by (rule ran [of "(runtime_bin p, as, r)"])
          (use assms(2) by_helper Some r k logsD [OF assms(1) r] in \<open>auto simp: read_quota_def Let_def is_read_def says_quota_def split: option.splits\<close>)
    qed
  next
    case none
    show ?thesis by (rule nothing) (use none assms(2) in \<open>auto simp: read_quota_def Let_def\<close>)
  qed
qed

lemma read_quota_new:
  assumes "logs log run" "read_quota P run img p k = (x, k')"
  shows "\<exists>new. log k' = log k @ new \<and> (\<forall>c \<in> set new. is_read img p c) \<and> (\<forall>q. x = Some (Inr q) \<longrightarrow> (\<exists>c \<in> set new. is_read img p c \<and> says_quota P c q))"
  using assms
proof (cases rule: read_quota_ran)
  case nothing
  then show ?thesis by (intro exI [of _ "[]"]) auto
next
  case (ran c)
  then show ?thesis by (intro exI [of _ "[c]"]) auto
qed

lemma write_quota_ran:
  assumes "logs log run" "write_quota run img p want k = (x, k')"
  shows "\<exists>new. log k' = log k @ new \<and> (\<forall>c \<in> set new. is_write img p want c)"
proof -
  consider (sys) "rp_method p = Some ''user-systemd''" | (by_helper) "rp_method p = Some ''helper''"
    | (none) "rp_method p \<notin> {Some ''user-systemd'', Some ''helper''}" by blast
  then show ?thesis
  proof cases
    case sys
    obtain r k1 where r: "run ''systemctl'' (user_set_property_args want) k = (r, k1)" by fastforce
    then show ?thesis using assms(2) sys logsD [OF assms(1) r]
      by (intro exI [of _ "[(''systemctl'', user_set_property_args want, r)]"]) (auto simp: write_quota_def is_write_def)
  next
    case by_helper
    show ?thesis
    proof (cases "helper_args img (Write_quota want)")
      case None
      then show ?thesis using assms(2) by_helper by (intro exI [of _ "[]"]) (auto simp: write_quota_def)
    next
      case (Some as)
      obtain r k1 where r: "run (runtime_bin p) as k = (r, k1)" by fastforce
      then show ?thesis using assms(2) by_helper Some logsD [OF assms(1) r]
        by (intro exI [of _ "[(runtime_bin p, as, r)]"]) (auto simp: write_quota_def is_write_def)
    qed
  next
    case none
    then show ?thesis using assms(2) by (intro exI [of _ "[]"]) (auto simp: write_quota_def)
  qed
qed

definition wanted :: "cpu_budget \<Rightarrow> nat option" where
  "wanted b = (case b of Budget c \<Rightarrow> Some c | _ \<Rightarrow> None)"

text \<open>A command a venue may be sent: its read, or, with a budget known, its write of exactly that budget.\<close>

definition allowed :: "string \<Rightarrow> cpu_budget \<Rightarrow> reserve_plan \<Rightarrow> ran \<Rightarrow> bool" where
  "allowed img b p c \<longleftrightarrow> rp_parent p \<and> b \<noteq> Unknown_budget \<and> (is_read img p c \<or> is_write img p (wanted b) c)"

text \<open>A state that says held rests on a read of its venue's kind that said so.\<close>

definition honest_state :: "parsers \<Rightarrow> string \<Rightarrow> ran list \<Rightarrow> reserve_state \<Rightarrow> bool" where
  "honest_state P img l s \<longleftrightarrow>
     (rs_status s = Held_quota \<longrightarrow> (\<exists>q p. rs_want s = Some q \<and> rs_quota s = Some q \<and> rs_method s = rp_method p \<and> (\<exists>c \<in> set l. is_read img p c \<and> says_quota P c q)))"

lemma honest_state_grows: "honest_state P img l s \<Longrightarrow> honest_state P img (l @ new) s"
  unfolding honest_state_def by (metis UnCI set_append)

lemma honest_not_held: "rs_status s \<noteq> Held_quota \<Longrightarrow> honest_state P img l s"
  by (simp add: honest_state_def)

lemma read_status_not_held [simp]: "read_status r \<noteq> Held_quota"
  by (simp add: read_status_def split: sum.split option.split)

lemma sync_venue_ran:
  assumes "logs log run" "sync_venue P run clock img prev p b k = (x, k')"
  shows "\<exists>new. log k' = log k @ new \<and> (\<forall>c \<in> set new. allowed img b p c) \<and> (\<forall>s. x = Some (Some s) \<longrightarrow> honest_state P img (log k') s)"
proof -
  let ?want = "wanted b"
  show ?thesis
  proof (cases "rp_parent p \<and> b \<noteq> Unknown_budget \<and> rp_method p \<noteq> None \<and> \<not> is_fresh prev ?want p (clock k)")
    case False
    then have "log k' = log k \<and> (\<forall>s. x = Some (Some s) \<longrightarrow> rs_status s \<noteq> Held_quota)"
      using assms(2) by (auto simp: sync_venue_def Let_def wanted_def split: if_splits)
    then show ?thesis by (intro exI [of _ "[]"]) (auto intro: honest_not_held)
  next
    case True
    note go = True
    have want: "(case b of Budget c \<Rightarrow> Some c | _ \<Rightarrow> None) = ?want" by (simp add: wanted_def)
    obtain x1 k1 where r1: "read_quota P run img p k = (x1, k1)" by fastforce
    obtain new1 where n1: "log k1 = log k @ new1" "\<forall>c \<in> set new1. is_read img p c"
      "\<forall>q. x1 = Some (Inr q) \<longrightarrow> (\<exists>c \<in> set new1. is_read img p c \<and> says_quota P c q)"
      using read_quota_new [OF assms(1) r1] by blast
    show ?thesis
    proof (cases "x1 = None \<or> x1 = Some (Inr ?want) \<or> rp_method p = Some ''system-systemd''")
      case True
      then have "k' = k1" "\<forall>s. x = Some (Some s) \<longrightarrow> rs_status s = Held_quota \<longrightarrow> x1 = Some (Inr ?want) \<and> rs_want s = Some ?want \<and> rs_quota s = Some ?want \<and> rs_method s = rp_method p"
        using assms(2) go r1 by (auto simp: sync_venue_def Let_def want split: option.splits if_splits)
      then have "\<forall>s. x = Some (Some s) \<longrightarrow> honest_state P img (log k') s"
        using n1 unfolding honest_state_def by (metis UnCI set_append)
      then show ?thesis using n1 go \<open>k' = k1\<close> by (intro exI [of _ new1]) (auto simp: allowed_def)
    next
      case False
      then obtain seen where seen: "x1 = Some seen" "seen \<noteq> Inr ?want" by auto
      obtain x2 k2 where r2: "write_quota run img p ?want k1 = (x2, k2)" by fastforce
      obtain new2 where n2: "log k2 = log k1 @ new2" "\<forall>c \<in> set new2. is_write img p ?want c"
        using write_quota_ran [OF assms(1) r2] by blast
      obtain x3 k3 where r3: "read_quota P run img p k2 = (x3, k3)" by fastforce
      obtain new3 where n3: "log k3 = log k2 @ new3" "\<forall>c \<in> set new3. is_read img p c"
        "\<forall>q. x3 = Some (Inr q) \<longrightarrow> (\<exists>c \<in> set new3. is_read img p c \<and> says_quota P c q)"
        using read_quota_new [OF assms(1) r3] by blast
      have "k' = k2 \<and> x = None \<or> k' = k3 \<and> (\<forall>s. x = Some (Some s) \<longrightarrow> rs_status s = Held_quota \<longrightarrow> x3 = Some (Inr ?want) \<and> rs_want s = Some ?want \<and> rs_quota s = Some ?want \<and> rs_method s = rp_method p)"
        using assms(2) go r1 r2 r3 seen False by (auto simp: sync_venue_def Let_def want split: option.splits if_splits)
      then show ?thesis
      proof
        assume "k' = k2 \<and> x = None"
        then show ?thesis using n1 n2 go by (intro exI [of _ "new1 @ new2"]) (auto simp: allowed_def)
      next
        assume h: "k' = k3 \<and> (\<forall>s. x = Some (Some s) \<longrightarrow> rs_status s = Held_quota \<longrightarrow> x3 = Some (Inr ?want) \<and> rs_want s = Some ?want \<and> rs_quota s = Some ?want \<and> rs_method s = rp_method p)"
        then have "\<forall>s. x = Some (Some s) \<longrightarrow> honest_state P img (log k') s"
          using n3 unfolding honest_state_def by (metis UnCI set_append)
        then show ?thesis using n1 n2 n3 go h by (intro exI [of _ "new1 @ new2 @ new3"]) (auto simp: allowed_def)
      qed
    qed
  qed
qed

definition honest :: "parsers \<Rightarrow> string \<Rightarrow> ran list \<Rightarrow> (string \<Rightarrow> reserve_state option) \<Rightarrow> bool" where
  "honest P img l states \<longleftrightarrow> (\<forall>v s. states v = Some s \<longrightarrow> honest_state P img l s)"

text \<open>
  C20: The reserve says held only where it read so: over any syncs' states and whatever the commands
  answer, a venue is recorded as held only on a read of its own kind that gave exactly the quota wanted,
  and the only commands a sync runs are its venues' reads and, where the worker may write, writes of
  exactly the budget, none at all without a parent or without a budget.
\<close>

theorem reserve_held_was_read:
  assumes "logs log run" "honest P img (log k) states" "sync_reserve P run clock img b ps states k = (states', k')"
  shows "honest P img (log k') states' \<and> (\<exists>new. log k' = log k @ new \<and> (\<forall>c \<in> set new. \<exists>p \<in> set ps. allowed img b p c))"
  using assms(2,3)
proof (induction ps arbitrary: states k)
  case Nil
  then show ?case by (auto intro: exI [of _ "[]"])
next
  case (Cons p ps)
  obtain x k1 where v: "sync_venue P run clock img (states (rp_venue p)) p b k = (x, k1)" by fastforce
  obtain new where n: "log k1 = log k @ new" "\<forall>c \<in> set new. allowed img b p c" "\<forall>s. x = Some (Some s) \<longrightarrow> honest_state P img (log k1) s"
    using sync_venue_ran [OF assms(1) v] by blast
  have old: "honest P img (log k1) states" using Cons.prems(1) n(1) by (auto simp: honest_def intro: honest_state_grows)
  obtain states1 where s1: "sync_reserve P run clock img b ps states1 k1 = (states', k')" "honest P img (log k1) states1"
  proof (cases x)
    case None
    show ?thesis
      by (rule that [of "states(rp_venue p \<mapsto> \<lparr>rs_method = rp_method p, rs_status = Unreadable, rs_want = None, rs_quota = None,
             rs_reason = Some ''threw-error'', rs_checked = clock k1\<rparr>)"]) (use Cons.prems(2) v old None in \<open>auto simp: honest_def intro!: honest_not_held\<close>)
  next
    case (Some y)
    then show ?thesis using Cons.prems(2) v old n(3) that by (cases y) (auto simp: honest_def)
  qed
  obtain new' where n': "honest P img (log k') states'" "log k' = log k1 @ new'" "\<forall>c \<in> set new'. \<exists>p \<in> set ps. allowed img b p c"
    using Cons.IH [OF s1(2,1)] by blast
  then show ?case using n by (intro conjI exI [of _ "new @ new'"]) auto
qed

text \<open>A machine of one \<open>cpu.max\<close> file: its clock, what it ran, the file.\<close>

type_synonym box = "int \<times> ran list \<times> nat option"

definition box_ok :: cmd_result where "box_ok = \<lparr>cr_error = None, cr_ended = None, cr_code = Some 0, cr_out = []\<rparr>"

definition box_run :: "string \<Rightarrow> box exec" where
  "box_run img bin as k =
     (case k of (t, l, q) \<Rightarrow>
        if helper_args img Read_quota = Some as
        then (let r = box_ok\<lparr>cr_out := cpu_max_text q @ [CHR 0x0A]\<rparr> in (r, (t + 1, l @ [(bin, as, r)], q)))
        else (box_ok, (t + 1, l @ [(bin, as, box_ok)],
          case parse_cpu_max_read (\<lambda>q p. q * 100 div p) (takeWhile (\<lambda>c. c \<noteq> CHR 0x22) (drop 6 (last as))) of None \<Rightarrow> q | Some q' \<Rightarrow> q')))"

definition box_parsers :: parsers where "box_parsers = \<lparr>ps_quot = (\<lambda>q p. q * 100 div p), ps_usec = (\<lambda>_. 0)\<rparr>"

definition helper_plan :: reserve_plan where
  "helper_plan = plan_reserve ''local'' \<lparr>rf_manager = None, rf_version = Some ''v2'', rf_rootless = False, rf_driver = Some ''cgroupfs''\<rparr> True ''darwin''"

lemma box_logs: "logs (\<lambda>k. fst (snd k)) (box_run img)"
  by (auto simp: logs_def box_run_def Let_def split: prod.split)

lemma reserve_held_was_read_witness:
  "honest box_parsers ''i'' (fst (snd (snd (sync_reserve box_parsers (box_run ''i'') fst ''i'' (Budget 300) [helper_plan] Map.empty (0, [], None)))))
     (fst (sync_reserve box_parsers (box_run ''i'') fst ''i'' (Budget 300) [helper_plan] Map.empty (0, [], None)))"
proof -
  let ?s = "sync_reserve box_parsers (box_run ''i'') fst ''i'' (Budget 300) [helper_plan] Map.empty (0, [], None)"
  have h: "honest box_parsers ''i'' (fst (snd (0, [], None :: nat option))) Map.empty" by (simp add: honest_def)
  show ?thesis using reserve_held_was_read [OF box_logs h, where clock = fst and b = "Budget 300" and ps = "[helper_plan]" and states' = "fst ?s" and k' = "snd ?s"] by simp
qed

section \<open>A machine that works\<close>

text \<open>The helper reads the file as it is and writes what it is asked to, and nothing else does in between.\<close>

definition works :: "string \<Rightarrow> ('k \<Rightarrow> nat option) \<Rightarrow> 'k exec \<Rightarrow> bool" where
  "works img quota run \<longleftrightarrow>
     (\<forall>k as. helper_args img Read_quota = Some as \<longrightarrow>
        step_failure (fst (run ''docker'' as k)) ''docker'' = None
        \<and> (\<exists>b. list_all is_blank b \<and> cr_out (fst (run ''docker'' as k)) = cpu_max_text (quota k) @ b) \<and> quota (snd (run ''docker'' as k)) = quota k)
   \<and> (\<forall>k as q. quota_fits q \<longrightarrow> helper_args img (Write_quota q) = Some as \<longrightarrow>
        step_failure (fst (run ''docker'' as k)) ''docker'' = None \<and> quota (snd (run ''docker'' as k)) = q)"

definition plain_image :: "string \<Rightarrow> bool" where "plain_image img \<longleftrightarrow> img \<noteq> [] \<and> hd img \<noteq> CHR ''-''"

lemma helper_reads: "plain_image img \<Longrightarrow> \<exists>as. helper_args img Read_quota = Some as"
  by (simp add: helper_args_def plain_image_def)

lemma helper_writes: "plain_image img \<Longrightarrow> quota_fits q \<Longrightarrow> \<exists>as. helper_args img (Write_quota q) = Some as"
  by (auto simp: helper_args_def plain_image_def quota_fits_def is_safe_def max_safe_def split: option.split)

lemma working_read:
  assumes "works img quota run" "plain_image img" "exact_quot (ps_quot P)" "quota_fits (quota k)"
    and "rp_method p = Some ''helper''" "rp_venue p = ''local''"
  obtains k' where "read_quota P run img p k = (Some (Inr (quota k)), k')" "quota k' = quota k"
proof -
  obtain as where as: "helper_args img Read_quota = Some as" using helper_reads [OF assms(2)] by blast
  obtain r k' where r: "run ''docker'' as k = (r, k')" by fastforce
  obtain b where b: "list_all is_blank b" "cr_out r = cpu_max_text (quota k) @ b" and f: "step_failure r ''docker'' = None" "quota k' = quota k"
    using assms(1) as r unfolding works_def by (metis fst_conv snd_conv)
  have "read_quota P run img p k = (Some (Inr (quota k)), k')"
    using as r b f cpu_quota_reads [OF assms(3,4) b(1)] assms(5,6) by (simp add: read_quota_def Let_def runtime_bin_def)
  then show ?thesis using f(2) by (rule that)
qed

lemma working_write:
  assumes "works img quota run" "plain_image img" "quota_fits q" "rp_method p = Some ''helper''" "rp_venue p = ''local''"
  obtains k' where "write_quota run img p q k = (Some None, k')" "quota k' = q"
proof -
  obtain as where as: "helper_args img (Write_quota q) = Some as" using helper_writes [OF assms(2,3)] by blast
  obtain r k' where r: "run ''docker'' as k = (r, k')" by fastforce
  have f: "step_failure r ''docker'' = None" "quota k' = q"
    using assms(1,3) as r unfolding works_def by (metis fst_conv snd_conv)+
  have "write_quota run img p q k = (Some None, k')" using as r f assms(4,5) by (simp add: write_quota_def runtime_bin_def)
  then show ?thesis using f(2) by (rule that)
qed

text \<open>
  C39: On a machine that works the reserve settles in one sync: whatever quota the parent held before, one
  sync of a venue kept by the helper ends with the file holding exactly the budget, or none when the budget
  is off, recorded as held, and for ten minutes no further sync runs a command.
\<close>

theorem reserve_settles:
  assumes "works img quota run" "plain_image img" "exact_quot (ps_quot P)" "quota_fits (quota k)" "quota_fits (wanted b)" "b \<noteq> Unknown_budget"
    and "rp_method p = Some ''helper''" "rp_venue p = ''local''" "rp_parent p"
  shows "\<exists>s k'. sync_venue P run clock img None p b k = (Some (Some s), k') \<and> rs_status s = Held_quota \<and> quota k' = wanted b
    \<and> (\<forall>k2. clock k2 - clock k' < reserve_recheck_ms \<longrightarrow> sync_venue P run clock img (Some s) p b k2 = (Some None, k2))"
proof -
  have want: "(case b of Budget c \<Rightarrow> Some c | _ \<Rightarrow> None) = wanted b" by (simp add: wanted_def)
  have later: "sync_venue P run clock img (Some s) p b k2 = (Some None, k2)"
    if "rs_status s = Held_quota" "rs_want s = Some (wanted b)" "rs_method s = rp_method p" "rs_checked s = clock k'" "clock k2 - clock k' < reserve_recheck_ms" for s k2 k'
    using that assms(6,7,9) by (simp add: sync_venue_def Let_def want is_fresh_def)
  obtain k1 where r1: "read_quota P run img p k = (Some (Inr (quota k)), k1)" "quota k1 = quota k"
    using working_read [OF assms(1,2,3,4,7,8)] .
  show ?thesis
  proof (cases "quota k = wanted b")
    case True
    obtain s where "sync_venue P run clock img None p b k = (Some (Some s), k1)"
      "rs_status s = Held_quota" "rs_want s = Some (wanted b)" "rs_method s = rp_method p" "rs_checked s = clock k1"
      using r1 True assms(6,7,9) by (simp add: sync_venue_def Let_def want is_fresh_def)
    then show ?thesis using later [of s k1] r1(2) True by (intro exI [of _ s] exI [of _ k1]) simp
  next
    case False
    obtain k2 where w: "write_quota run img p (wanted b) k1 = (Some None, k2)" "quota k2 = wanted b"
      using working_write [OF assms(1,2,5,7,8)] .
    obtain k3 where r3: "read_quota P run img p k2 = (Some (Inr (wanted b)), k3)" "quota k3 = wanted b"
      using working_read [OF assms(1,2,3) _ assms(7,8), of k2] w(2) assms(5) by metis
    obtain s where "sync_venue P run clock img None p b k = (Some (Some s), k3)"
      "rs_status s = Held_quota" "rs_want s = Some (wanted b)" "rs_method s = rp_method p" "rs_checked s = clock k3"
      using r1 r3 w False assms(6,7,9) by (simp add: sync_venue_def Let_def want is_fresh_def)
    then show ?thesis using later [of s k3] r3(2) by (intro exI [of _ s] exI [of _ k3]) simp
  qed
qed

lemma cpu_max_text_plain: "CHR 0x22 \<notin> set (cpu_max_text q)"
proof -
  have n: "CHR 0x22 \<notin> set (nat_text n)" for n using nat_text_digits [of "CHR 0x22" n] by (auto simp: is_digit_def)
  show ?thesis by (cases q) (use n in \<open>auto simp: cpu_max_text_def cpu_max_line_def\<close>)
qed

lemma written_line: "helper_args img (Write_quota q) = Some as \<Longrightarrow> takeWhile (\<lambda>c. c \<noteq> CHR 0x22) (drop 6 (last as)) = cpu_max_text q"
  using cpu_max_text_plain [of q]
  by (auto simp: helper_args_def cpu_max_text_def takeWhile_append split: if_splits option.splits)

lemma box_works: "works img (\<lambda>k. snd (snd k)) (box_run img)"
proof -
  have "helper_args img Read_quota \<noteq> helper_args img (Write_quota q)" if "helper_args img (Write_quota q) = Some as" for q as
    using that by (auto simp: helper_args_def split: if_splits)
  then have w: "snd (snd (snd (box_run img ''docker'' as k))) = q \<and> step_failure (fst (box_run img ''docker'' as k)) ''docker'' = None"
    if "quota_fits q" "helper_args img (Write_quota q) = Some as" for k as q
    using that cpu_quota_reads [of "\<lambda>q p. q * 100 div p" q "[]"] written_line [OF that(2)]
    by (cases k) (fastforce simp: box_run_def box_ok_def step_failure_def exact_quot_def)
  have "step_failure (fst (box_run img ''docker'' as k)) ''docker'' = None \<and> cr_out (fst (box_run img ''docker'' as k)) = cpu_max_text (snd (snd k)) @ [CHR 0x0A]
      \<and> snd (snd (snd (box_run img ''docker'' as k))) = snd (snd k)" if "helper_args img Read_quota = Some as" for as k
    using that by (cases k) (simp add: box_run_def box_ok_def step_failure_def Let_def)
  with w show ?thesis unfolding works_def by (force simp: is_blank_def)
qed

lemma reserve_settles_witness:
  "\<exists>s k'. sync_venue box_parsers (box_run ''i'') fst ''i'' None helper_plan (Budget 300) (0, [], None) = (Some (Some s), k') \<and> rs_status s = Held_quota \<and> snd (snd k') = Some 300"
proof -
  have "rp_method helper_plan = Some ''helper''" "rp_venue helper_plan = ''local''" "rp_parent helper_plan"
    by (simp_all add: helper_plan_def plan_reserve_def other_version_def)
  with reserve_settles [OF box_works, of "''i''" box_parsers "(0, [], None)" "Budget 300" helper_plan fst] show ?thesis
    by (auto simp: plain_image_def box_parsers_def exact_quot_def quota_fits_def wanted_def)
qed

end
